(* ===== verification/Ydb_Prelude.thy ===== *)
theory Ydb_Prelude
  imports Main "HOL-Library.Word" "HOL-Library.Signed_Division"
begin

text \<open>
  Shared vocabulary of the development: the machine types of the C sources, run-time errors
  as values of a sum type, checked memory reads, the C conventions for integer division, the
  \<open>MEMVCMP\<close> comparison of byte strings, and an interface (locale) for indexed stores that the
  bit-level components implement.
\<close>

section \<open>Types and errors\<close>

unbundle bit_operations_syntax

type_synonym byte = "8 word"
type_synonym mstr = "byte list"

text \<open>
  The errors the modelled functions raise through \<open>rts_error\<close>, \<open>OutOfBounds\<close> for a read
  or write outside of the object a C pointer was derived from (undefined behaviour in C),
  \<open>AssertFailed\<close> for an \<open>assertpro\<close> that fails and \<open>NoReturn\<close> for a loop that has not ended
  within the rounds its model allows.
\<close>

datatype ydb_err =
    ERR_INVBITSTR
  | ERR_INVBITPOS
  | ERR_INVBITLEN
  | ERR_NUMOFLOW
  | ERR_DIVZERO
  | ERR_GVSUBOFLOW
  | ERR_ZYSQLNULLNOTVALID
  | ERR_MEMORY
  | ERR_HTOFLOW
  | ERR_LVUNDEF
  | ERR_MAXSTRLEN
  | OutOfBounds
  | AssertFailed
  | NoReturn
  | SigIntDiv

type_synonym 'a res = "ydb_err + 'a"

definition res_bind :: "'a res \<Rightarrow> ('a \<Rightarrow> 'b res) \<Rightarrow> 'b res" where
  "res_bind m f = (case m of Inl e \<Rightarrow> Inl e | Inr x \<Rightarrow> f x)"

lemma res_bind_simps [simp]:
  "res_bind (Inl e) f = Inl e"
  "res_bind (Inr x) f = f x"
  by (simp_all add: res_bind_def)

lemma res_bind_eq_Inr:
  "res_bind m f = Inr y \<longleftrightarrow> (\<exists>x. m = Inr x \<and> f x = Inr y)"
  by (cases m) simp_all

section \<open>Memory reads\<close>

definition rd :: "'a list \<Rightarrow> int \<Rightarrow> 'a res" where
  "rd s i = (if 0 \<le> i \<and> i < int (length s) then Inr (s ! nat i) else Inl OutOfBounds)"

lemma rd_in [simp]: "0 \<le> i \<Longrightarrow> i < int (length s) \<Longrightarrow> rd s i = Inr (s ! nat i)"
  by (simp add: rd_def)

lemma rd_nat [simp]: "i < length s \<Longrightarrow> rd s (int i) = Inr (s ! i)"
  by (simp add: rd_def)

section \<open>C integer division\<close>

text \<open>On non-negative operands C's truncating division is HOL's \<open>div\<close>.\<close>

lemma sdiv_nonneg: "0 \<le> a \<Longrightarrow> 0 \<le> b \<Longrightarrow> a sdiv b = a div (b :: int)"
  by (cases "a = 0"; cases "b = 0") (simp_all add: signed_divide_int_def)

lemma smod_nonneg: "0 \<le> a \<Longrightarrow> 0 \<le> b \<Longrightarrow> a smod b = a mod (b :: int)"
  by (cases "a = 0") (simp_all add: signed_modulo_int_def sgn_if)

section \<open>Named collections\<close>

named_theorems bits_simps \<open>bit-level reading of the byte operations\<close>
named_theorems store_simps \<open>reading back what a store operation wrote\<close>

section \<open>Indices of positions in byte strings\<close>

lemma div8_mod8_eq: "a div 8 = b div 8 \<Longrightarrow> a mod 8 = b mod 8 \<Longrightarrow> a = (b :: nat)"
  by (metis div_mult_mod_eq)

lemma less8_cases: "(i::nat) < 8 \<Longrightarrow> i = 0 \<or> i = 1 \<or> i = 2 \<or> i = 3 \<or> i = 4 \<or> i = 5 \<or> i = 6 \<or> i = 7"
  by arith

lemma div8_less: "p < L \<Longrightarrow> p div 8 < (L + 7) div (8 :: nat)"
  by linarith

lemma div8_le: "L \<le> 8 * k \<Longrightarrow> (L + 7) div 8 \<le> (k :: nat)"
  by linarith

lemma last_byte_bits:
  assumes "p < L" and "p div 8 + 1 = (N::nat)"
  shows "8 * N - L \<le> 7 - p mod 8"
proof -
  have "p = 8 * (N - 1) + p mod 8" using assms(2) by (metis add_diff_cancel_right' mult_div_mod_eq)
  then show ?thesis using assms by linarith
qed

lemma nth_concat_fixed:
  assumes "\<forall>x \<in> set xs. length (f x) = w" and "i < w * length xs"
  shows "concat (map f xs) ! i = f (xs ! (i div w)) ! (i mod w)"
  using assms
proof (induction xs arbitrary: i)
  case Nil
  then show ?case by simp
next
  case (Cons x xs)
  have w: "length (f x) = w" using Cons.prems by simp
  show ?case
  proof (cases "i < w")
    case True
    then show ?thesis using w by (simp add: nth_append)
  next
    case False
    then have "w \<noteq> 0" using Cons.prems(2) by (cases w) auto
    then have "i div w = Suc ((i - w) div w)" and "i mod w = (i - w) mod w"
      using False by (simp_all add: le_div_geq le_mod_geq)
    moreover have "concat (map f xs) ! (i - w) = f (xs ! ((i - w) div w)) ! ((i - w) mod w)"
      by (rule Cons.IH) (use Cons.prems False in auto)
    ultimately show ?thesis using False w by (simp add: nth_append)
  qed
qed

lemma length_concat_fixed:
  "\<forall>x \<in> set xs. length (f x) = w \<Longrightarrow> length (concat (map f xs)) = w * length xs"
  by (induction xs) auto

section \<open>First hits in ranges\<close>

lemma upt_shift: "map (\<lambda>i. i + a) [m..<n] = [m + a..<n + (a::nat)]"
  by (induction n) auto

lemma find_map_shift: "find P (map f xs) = map_option f (find (\<lambda>x. P (f x)) xs)"
  by (induction xs) auto

lemma find_append_case:
  "find P (xs @ ys) = (case find P xs of None \<Rightarrow> find P ys | Some x \<Rightarrow> Some x)"
  by (induction xs) auto

lemma find_upt_shift:
  "find P [a + i..<a + j] = map_option (\<lambda>k. a + k) (find (\<lambda>k. P (a + k)) [i..<j :: nat])"
proof -
  have "[a + i..<a + j] = map (\<lambda>k. a + k) [i..<j]"
    using upt_shift [of a i j] by (simp add: add.commute)
  then show ?thesis by (simp add: find_map_shift)
qed

lemma find_upt_split:
  "i \<le> j \<Longrightarrow> j \<le> k \<Longrightarrow>
    find P [i..<k] = (case find P [i..<j :: nat] of None \<Rightarrow> find P [j..<k] | Some x \<Rightarrow> Some x)"
  using upt_add_eq_append [of i j "k - j"] by (simp add: find_append_case)

lemma find_upt_restrict:
  "hi \<le> n \<Longrightarrow> find (\<lambda>k. P k \<and> lo \<le> k \<and> k < hi) [0..<n] = find P [lo..<hi :: nat]"
proof (induction n)
  case 0
  then show ?case by simp
next
  case (Suc n)
  show ?case
  proof (cases "hi \<le> n")
    case True
    then show ?thesis using Suc.IH by (simp add: find_append_case split: option.splits)
  next
    case False
    then have hi: "hi = Suc n" using Suc.prems by simp
    have "find (\<lambda>k. P k \<and> lo \<le> k \<and> k < Suc n) [0..<n] = find P [lo..<n]"
    proof -
      have "find (\<lambda>k. P k \<and> lo \<le> k \<and> k < Suc n) [0..<n] = find (\<lambda>k. P k \<and> lo \<le> k) ([0..<min lo n] @ [min lo n..<n])"
        using upt_add_eq_append [of 0 "min lo n" "n - min lo n"]
        by (auto intro: find_cong)
      also have "\<dots> = find (\<lambda>k. P k \<and> lo \<le> k) [min lo n..<n]"
      proof -
        have "find (\<lambda>k. P k \<and> lo \<le> k) [0..<min lo n] = None" by (auto simp: find_None_iff)
        then show ?thesis by (simp add: find_append_case)
      qed
      also have "\<dots> = find P [lo..<n]"
        by (cases "lo \<le> n") (auto intro: find_cong)
      finally show ?thesis .
    qed
    then show ?thesis
      by (cases "lo \<le> n") (auto simp: hi find_append_case split: option.splits)
  qed
qed

section \<open>An interface for indexed stores\<close>

text \<open>
  What a client may assume of a component that keeps one value per index: an index that is
  valid can be read back after it was written, writing changes no other index and does not
  change which indices are valid. The bit strings of \<open>$ZBIT\<close>, the raw bits of the master map
  and the two-bit block states of a local bitmap are all instances.
\<close>

locale indexed_store =
  fixes inv :: "'s \<Rightarrow> bool"
    and valid :: "'s \<Rightarrow> nat \<Rightarrow> bool"
    and get :: "'s \<Rightarrow> nat \<Rightarrow> 'v"
    and put :: "'s \<Rightarrow> nat \<Rightarrow> 'v \<Rightarrow> 's"
  assumes put_inv: "inv s \<Longrightarrow> valid s i \<Longrightarrow> inv (put s i v)"
    and put_valid: "inv s \<Longrightarrow> valid s i \<Longrightarrow> valid (put s i v) j = valid s j"
    and get_put: "inv s \<Longrightarrow> valid s i \<Longrightarrow> valid s j \<Longrightarrow>
      get (put s i v) j = (if i = j then v else get s j)"
begin

fun put_all :: "'s \<Rightarrow> nat list \<Rightarrow> 'v \<Rightarrow> 's" where
  "put_all s [] v = s"
| "put_all s (i # ids) v = put_all (put s i v) ids v"

lemma put_all_inv:
  "inv s \<Longrightarrow> \<forall>i \<in> set ids. valid s i \<Longrightarrow> inv (put_all s ids v)"
  by (induction ids arbitrary: s) (auto simp: put_inv put_valid)

lemma put_all_valid:
  "inv s \<Longrightarrow> \<forall>i \<in> set ids. valid s i \<Longrightarrow> valid (put_all s ids v) j = valid s j"
  by (induction ids arbitrary: s) (auto simp: put_inv put_valid)

lemma get_put_all:
  "inv s \<Longrightarrow> \<forall>i \<in> set ids. valid s i \<Longrightarrow> valid s j \<Longrightarrow>
    get (put_all s ids v) j = (if j \<in> set ids then v else get s j)"
  by (induction ids arbitrary: s) (auto simp: put_inv put_valid get_put)

lemma put_put_same:
  "inv s \<Longrightarrow> valid s i \<Longrightarrow> valid s j \<Longrightarrow> get (put (put s i v) i w) j = get (put s i w) j"
  by (simp add: put_inv put_valid get_put)

lemma put_commute:
  "inv s \<Longrightarrow> valid s i \<Longrightarrow> valid s j \<Longrightarrow> valid s k \<Longrightarrow> i \<noteq> j \<Longrightarrow>
    get (put (put s i v) j w) k = get (put (put s j w) i v) k"
  by (auto simp: put_inv put_valid get_put)

end

text \<open>Bounds of quotients.\<close>

lemma int_div_less: "0 < b \<Longrightarrow> x < a * b \<Longrightarrow> x div b < (a :: int)"
proof (rule ccontr)
  assume b: "0 < b" "x < a * b" "\<not> x div b < a"
  then have "a * b \<le> x div b * b" by (intro mult_right_mono) auto
  also have "\<dots> = x - x mod b" by (rule minus_mod_eq_div_mult [symmetric])
  also have "\<dots> \<le> x" using b(1) by simp
  finally show False using b(2) by simp
qed

lemma int_div_less_mult: "0 < f \<Longrightarrow> n < f * g \<Longrightarrow> n div f < (g :: int)"
  by (rule int_div_less) (simp_all add: mult.commute)

lemma int_div_le_self: "0 \<le> n \<Longrightarrow> 0 < f \<Longrightarrow> n div f \<le> (n :: int)"
  using zdiv_mono2 [of n 1 f] by simp

lemma divmod_eq:
  assumes "x = q * b + r" and "0 \<le> r" and "r < (b :: int)"
  shows "x div b = q" and "x mod b = r"
  using assms by simp_all

lemma int_div_eqI: "q * b \<le> x \<Longrightarrow> x < (q + 1) * b \<Longrightarrow> x div b = (q :: int)"
  by (rule divmod_eq(1) [of _ _ _ "x - q * b"]) (simp_all add: distrib_right)

lemma int_div_mult_le: "0 < b \<Longrightarrow> x div b * b \<le> (x :: int)"
  using div_mult_mod_eq [of x b] pos_mod_sign [of b x] by linarith

lemma int_div_upper: "0 < b \<Longrightarrow> (x :: int) < (x div b + 1) * b"
  using div_mult_mod_eq [of x b] pos_mod_bound [of b x] unfolding distrib_right by linarith

end
