(* ===== verification/Zbit.thy ===== *)
theory Zbit
  imports Ydb_Prelude
begin

text \<open>
  The \<open>$ZBIT\<close> intrinsic functions (\<open>src/sr_port/op_fnzbit*.c\<close>). A bit string is an M string
  whose first byte holds the number of unused bits at the end of the last byte. Each operation
  is translated on the byte string its argument holds after \<open>MV_FORCE_STR\<close>; the integer results
  are the \<open>int\<close> that \<open>MV_FORCE_MVAL\<close> stores. Reads go through \<open>rd\<close>, so a read past the end of the
  string shows up as \<open>OutOfBounds\<close>. The abstract view of a bit string is a list of booleans
  (\<open>zbits\<close>), and each operation is shown to implement the corresponding list operation.
\<close>

section \<open>The operations\<close>

definition zbit_unused :: "mstr \<Rightarrow> int" where
  "zbit_unused s = uint (hd s)"

definition zbit_strlen :: "mstr \<Rightarrow> int" where
  "zbit_strlen s = (int (length s) - 1) * 8"

definition op_fnzbitlen :: "mstr \<Rightarrow> int res" where
  "op_fnzbitlen bitstr =
     (if bitstr = [] then Inl ERR_INVBITSTR
      else if 7 < zbit_unused bitstr then Inl ERR_INVBITSTR
      else Inr (zbit_strlen bitstr - zbit_unused bitstr))"

definition zbitget_byte :: "byte \<Rightarrow> nat \<Rightarrow> int" where
  "zbitget_byte b mp = uint (drop_bit 7 (push_bit (mp - 1) b))"

definition op_fnzbitget :: "mstr \<Rightarrow> int \<Rightarrow> int res" where
  "op_fnzbitget bitstr pos =
     (if bitstr = [] then Inl ERR_INVBITSTR
      else if 7 < zbit_unused bitstr then Inl ERR_INVBITSTR
      else if 1 > pos \<or> pos > zbit_strlen bitstr - zbit_unused bitstr then Inl ERR_INVBITPOS
      else
        let np = (pos + 7) sdiv 8 - 1;
            mp = (if pos smod 8 = 0 then 8 else pos smod 8)
        in res_bind (rd bitstr (np + 1)) (\<lambda>byte_n. Inr (zbitget_byte byte_n (nat mp))))"

definition zbitset_mask :: "byte list" where
  "zbitset_mask = [1, 128, 64, 32, 16, 8, 4, 2]"

definition op_fnzbitset :: "mstr \<Rightarrow> int \<Rightarrow> int \<Rightarrow> mstr res" where
  "op_fnzbitset bitstr pos truthval =
     (if bitstr = [] then Inl ERR_INVBITSTR
      else if 7 < zbit_unused bitstr then Inl ERR_INVBITSTR
      else if 1 > pos \<or> pos > zbit_strlen bitstr - zbit_unused bitstr then Inl ERR_INVBITPOS
      else
        let np = (pos + 7) sdiv 8 - 1;
            mp = pos smod 8
        in res_bind (rd bitstr (np + 1)) (\<lambda>byte_1.
           res_bind (rd zbitset_mask mp) (\<lambda>m.
           Inr (bitstr[nat (np + 1) :=
             (if truthval \<noteq> 0 then byte_1 OR m else byte_1 AND NOT m)]))))"

definition zbitstr_mask :: "byte list" where
  "zbitstr_mask = [0xFF, 0xFE, 0xFC, 0xF8, 0xF0, 0xE0, 0xC0, 0x80]"

definition op_fnzbitstr :: "int \<Rightarrow> int \<Rightarrow> mstr res" where
  "op_fnzbitstr sz truthval =
     (if sz \<le> 0 \<or> sz > 253952 then Inl ERR_INVBITLEN
      else
        let n = (sz + 7) sdiv 8;
            byte_1 = word_of_int (n * 8 - sz)
        in if truthval \<noteq> 0
           then res_bind (rd zbitstr_mask (uint byte_1)) (\<lambda>m.
             Inr ((byte_1 # replicate (nat n) 0xFF)[nat n := 0xFF AND m]))
           else Inr (byte_1 # replicate (nat n) 0))"

text \<open>The loop over two byte strings: \<open>*byte_n = f(*byte1_n, *byte2_n)\<close> for \<open>k\<close> bytes from index \<open>i\<close>.\<close>

fun zbit_loop2 :: "(byte \<Rightarrow> byte \<Rightarrow> byte) \<Rightarrow> mstr \<Rightarrow> mstr \<Rightarrow> nat \<Rightarrow> int \<Rightarrow> mstr res" where
  "zbit_loop2 f a b 0 i = Inr []"
| "zbit_loop2 f a b (Suc k) i =
     res_bind (rd a i) (\<lambda>x. res_bind (rd b i) (\<lambda>y.
     res_bind (zbit_loop2 f a b k (i + 1)) (\<lambda>zs. Inr (f x y # zs))))"

definition op_fnzbitand :: "mstr \<Rightarrow> mstr \<Rightarrow> mstr res" where
  "op_fnzbitand bitstr1 bitstr2 =
     (if bitstr1 = [] \<or> bitstr2 = [] then Inl ERR_INVBITSTR
      else if 7 < zbit_unused bitstr1 then Inl ERR_INVBITSTR
      else if 7 < zbit_unused bitstr2 then Inl ERR_INVBITSTR
      else
        let len1 = zbit_strlen bitstr1 - zbit_unused bitstr1;
            len2 = zbit_strlen bitstr2 - zbit_unused bitstr2;
            new_str_len = (if len1 > len2 then len2 else len1);
            n = (new_str_len + 7) sdiv 8;
            byte_1 = word_of_int (n * 8 - new_str_len)
        in res_bind (zbit_loop2 (\<lambda>x y. x AND y) bitstr1 bitstr2 (nat n) 1) (\<lambda>bs.
           Inr (byte_1 # bs)))"

definition op_fnzbitxor :: "mstr \<Rightarrow> mstr \<Rightarrow> mstr res" where
  "op_fnzbitxor bitstr1 bitstr2 =
     (if bitstr1 = [] \<or> bitstr2 = [] then Inl ERR_INVBITSTR
      else if 7 < zbit_unused bitstr1 then Inl ERR_INVBITSTR
      else if 7 < zbit_unused bitstr2 then Inl ERR_INVBITSTR
      else
        let len1 = zbit_strlen bitstr1 - zbit_unused bitstr1;
            len2 = zbit_strlen bitstr2 - zbit_unused bitstr2;
            new_str_len = (if len1 > len2 then len2 else len1);
            n = (new_str_len + 7) sdiv 8;
            byte_1 = word_of_int (n * 8 - new_str_len)
        in res_bind (zbit_loop2 (\<lambda>x y. x XOR y) bitstr1 bitstr2 (nat n) 1) (\<lambda>bs.
           res_bind (rd zbitstr_mask (uint byte_1)) (\<lambda>m.
           let dst = byte_1 # bs in Inr (dst[nat n := dst ! nat n AND m]))))"

text \<open>
  In the OR the bytes both strings have are combined without looking at the unused bits of the
  shorter string, and the rest of the longer string is copied.
\<close>

definition op_fnzbitor :: "mstr \<Rightarrow> mstr \<Rightarrow> mstr res" where
  "op_fnzbitor bitstr1 bitstr2 =
     (if bitstr1 = [] \<or> bitstr2 = [] then Inl ERR_INVBITSTR
      else if 7 < zbit_unused bitstr1 then Inl ERR_INVBITSTR
      else if 7 < zbit_unused bitstr2 then Inl ERR_INVBITSTR
      else
        let str_len1 = int (length bitstr1) - 1;
            str_len2 = int (length bitstr2) - 1;
            short1 = (str_len1 * 8 - zbit_unused bitstr1 < str_len2 * 8 - zbit_unused bitstr2);
            n = (if short1 then str_len2 else str_len1);
            n0 = (if short1 then str_len1 else str_len2);
            byte_1 = (if short1 then hd bitstr2 else hd bitstr1)
        in res_bind (zbit_loop2 (\<lambda>x y. x OR y) bitstr1 bitstr2 (nat n0) 1) (\<lambda>bs.
           Inr (byte_1 # bs @
             (if n \<noteq> n0
              then take (nat (n - n0)) (drop (nat (n0 + 1)) (if short1 then bitstr2 else bitstr1))
              else []))))"

text \<open>
  The loop of \<open>op_fnzbitnot\<close> runs while \<open>byte_n <= byte_1 + n\<close> with \<open>n = bitstr->str.len\<close>: it reads
  the byte after the string (the parameter \<open>beyond\<close>) and stores its complement after the result.
  The model returns every byte the function stores and the string it returns.
\<close>

record zbitnot_out =
  zn_stored :: mstr
  zn_result :: mstr

definition op_fnzbitnot :: "mstr \<Rightarrow> byte \<Rightarrow> zbitnot_out res" where
  "op_fnzbitnot bitstr beyond =
     (if bitstr = [] then Inl ERR_INVBITSTR
      else if 7 < zbit_unused bitstr then Inl ERR_INVBITSTR
      else
        let stored = hd bitstr # map (\<lambda>b. NOT b) (tl bitstr @ [beyond])
        in Inr \<lparr>zn_stored = stored, zn_result = take (length bitstr) stored\<rparr>)"

definition zbit_mask :: "byte list" where
  "zbit_mask = [0x80, 0x40, 0x20, 0x10, 0x8, 0x4, 0x2, 0x1]"

text \<open>\<open>for (i = i0; i < m; i++) if (*byte_n & mask[i]) bit_count++\<close>, with \<open>k\<close> iterations left.\<close>

fun zbit_count_byte :: "byte \<Rightarrow> nat \<Rightarrow> nat \<Rightarrow> int" where
  "zbit_count_byte b 0 i = 0"
| "zbit_count_byte b (Suc k) i =
     (if b AND zbit_mask ! i \<noteq> 0 then 1 else 0) + zbit_count_byte b k (Suc i)"

fun zbit_count_bytes :: "mstr \<Rightarrow> nat \<Rightarrow> int \<Rightarrow> int res" where
  "zbit_count_bytes s 0 j = Inr 0"
| "zbit_count_bytes s (Suc k) j =
     res_bind (rd s j) (\<lambda>b. res_bind (zbit_count_bytes s k (j + 1)) (\<lambda>c.
     Inr (zbit_count_byte b 8 0 + c)))"

definition op_fnzbitcoun :: "mstr \<Rightarrow> int res" where
  "op_fnzbitcoun bitstr =
     (if bitstr = [] then Inl ERR_INVBITSTR
      else if 7 < zbit_unused bitstr then Inl ERR_INVBITSTR
      else
        let len = zbit_strlen bitstr - zbit_unused bitstr;
            n = (len + 7) sdiv 8 - 1;
            m = (if len smod 8 = 0 then 8 else len smod 8)
        in res_bind (zbit_count_bytes bitstr (nat n) 1) (\<lambda>c.
           if 0 < m
           then res_bind (rd bitstr (int (nat n) + 1)) (\<lambda>b. Inr (c + zbit_count_byte b (nat m) 0))
           else Inr c))"

text \<open>
  \<open>for (i = i0; i < i1; i++)\<close> with the test for \<open>truthval\<close> (the two arms of the C function differ
  only in the negation): the index of the first hit, with \<open>k\<close> iterations left.
\<close>

fun zbit_scan_byte :: "bool \<Rightarrow> byte \<Rightarrow> nat \<Rightarrow> nat \<Rightarrow> nat option" where
  "zbit_scan_byte t b 0 i = None"
| "zbit_scan_byte t b (Suc k) i =
     (if (b AND zbit_mask ! i \<noteq> 0) = t then Some i else zbit_scan_byte t b k (Suc i))"

text \<open>The whole bytes in the middle; \<open>j\<close> is the index of the byte.\<close>

fun zbit_scan_bytes :: "bool \<Rightarrow> mstr \<Rightarrow> nat \<Rightarrow> int \<Rightarrow> int option res" where
  "zbit_scan_bytes t s 0 j = Inr None"
| "zbit_scan_bytes t s (Suc k) j =
     res_bind (rd s j) (\<lambda>b.
       case zbit_scan_byte t b 8 0 of
         Some i \<Rightarrow> Inr (Some (int i + 2 + (j - 1) * 8))
       | None \<Rightarrow> zbit_scan_bytes t s k (j + 1))"

definition op_fnzbitfind :: "mstr \<Rightarrow> int \<Rightarrow> int \<Rightarrow> int res" where
  "op_fnzbitfind bitstr truthval pos0 =
     (if bitstr = [] then Inl ERR_INVBITSTR
      else if 7 < zbit_unused bitstr then Inl ERR_INVBITSTR
      else
        let len = zbit_strlen bitstr - zbit_unused bitstr;
            pos = (if pos0 < 1 then 1 else pos0)
        in if \<not> pos0 < 1 \<and> pos0 > len then Inr 0
           else
             let np = (pos + 7) sdiv 8;
                 mp = (if pos smod 8 = 0 then 8 else pos smod 8);
                 n = (len + 7) sdiv 8 - 1;
                 m = (if len smod 8 = 0 then 8 else len smod 8);
                 i1 = (if np = n + 1 then m else 8);
                 t = (truthval \<noteq> 0)
             in res_bind (if mp - 1 < i1 then rd bitstr np else Inr 0) (\<lambda>b.
                case zbit_scan_byte t b (nat (i1 - (mp - 1))) (nat (mp - 1)) of
                  Some i \<Rightarrow> Inr (int i + 2 + (np - 1) * 8)
                | None \<Rightarrow>
                    if np = n + 1 then Inr 0
                    else res_bind (zbit_scan_bytes t bitstr (nat (n - np)) (np + 1)) (\<lambda>r.
                      case r of
                        Some p \<Rightarrow> Inr p
                      | None \<Rightarrow>
                          (if 0 < m
                           then res_bind (rd bitstr (np + int (nat (n - np)) + 1)) (\<lambda>b.
                             case zbit_scan_byte t b (nat m) 0 of
                               Some i \<Rightarrow> Inr (int i + 2 + n * 8)
                             | None \<Rightarrow> Inr 0)
                           else Inr 0))))"

section \<open>The abstract view\<close>

definition byte_bits :: "byte \<Rightarrow> bool list" where
  "byte_bits b = map (\<lambda>i. bit b (7 - i)) [0..<8]"

definition zlen :: "mstr \<Rightarrow> nat" where
  "zlen s = 8 * (length s - 1) - unat (hd s)"

definition zbits :: "mstr \<Rightarrow> bool list" where
  "zbits s = take (zlen s) (concat (map byte_bits (tl s)))"

definition zbit_wf :: "mstr \<Rightarrow> bool" where
  "zbit_wf s \<longleftrightarrow> s \<noteq> [] \<and> unat (hd s) \<le> 7 \<and> unat (hd s) \<le> 8 * (length s - 1)"

text \<open>A clean bit string has zeros in the unused bits of its last byte.\<close>

definition zbit_clean :: "mstr \<Rightarrow> bool" where
  "zbit_clean s \<longleftrightarrow> (\<forall>p < 8 * (length s - 1). zlen s \<le> p \<longrightarrow> \<not> bit (s ! (p div 8 + 1)) (7 - p mod 8))"

lemma length_byte_bits [simp]: "length (byte_bits b) = 8"
  by (simp add: byte_bits_def)

lemma nth_byte_bits: "i < 8 \<Longrightarrow> byte_bits b ! i = bit b (7 - i)"
  by (simp add: byte_bits_def)

lemma zbit_wf_consts:
  assumes "zbit_wf s"
  shows "s \<noteq> []" and "zbit_unused s \<le> 7" and "0 \<le> zbit_unused s"
    and "zbit_strlen s - zbit_unused s = int (zlen s)"
proof -
  show "s \<noteq> []" using assms by (simp add: zbit_wf_def)
  have u: "zbit_unused s = int (unat (hd s))" by (simp add: zbit_unused_def)
  show "zbit_unused s \<le> 7" and "0 \<le> zbit_unused s"
    using assms by (simp_all add: u zbit_wf_def del: of_nat_unat)
  show "zbit_strlen s - zbit_unused s = int (zlen s)"
    using assms unfolding u
    by (cases s) (simp_all add: zbit_strlen_def zbit_wf_def zlen_def del: of_nat_unat)
qed

lemma length_zbits [simp]: "length (zbits s) = zlen s"
  by (cases s) (auto simp: zbits_def zlen_def length_concat_fixed [where w = 8])

lemma nth_zbits:
  assumes "p < zlen s"
  shows "zbits s ! p = bit (s ! (p div 8 + 1)) (7 - p mod 8)"
proof (cases s)
  case Nil
  then show ?thesis using assms by (simp add: zlen_def)
next
  case (Cons u bs)
  with assms have p: "p < 8 * length bs" by (simp add: zlen_def)
  have "zbits s ! p = concat (map byte_bits bs) ! p"
    using assms Cons by (simp add: zbits_def)
  also have "\<dots> = byte_bits (bs ! (p div 8)) ! (p mod 8)"
    using p by (intro nth_concat_fixed) auto
  finally show ?thesis using Cons by (simp add: nth_byte_bits)
qed

lemma zbits_eqI:
  assumes "zlen s = length xs"
    and "\<And>p. p < zlen s \<Longrightarrow> bit (s ! (p div 8 + 1)) (7 - p mod 8) = xs ! p"
  shows "zbits s = xs"
  by (rule nth_equalityI) (use assms in \<open>auto simp: nth_zbits\<close>)

text \<open>Where the byte of a position lies.\<close>

lemma zbit_pos_byte:
  assumes "zbit_wf s" and "p < zlen s"
  shows "p div 8 + 1 < length s"
  using assms by (cases s) (auto simp: zbit_wf_def zlen_def)

lemma zbit_pos_index:
  assumes "1 \<le> (pos::int)"
  shows "(pos + 7) sdiv 8 = int (nat (pos - 1) div 8) + 1"
    and "pos smod 8 = int (Suc (nat (pos - 1)) mod 8)"
proof -
  obtain q where q: "pos = int q + 1"
    using assms by (metis add.commute nonneg_int_cases le_add_diff_inverse diff_ge_0_iff_ge)
  have "(pos + 7) sdiv 8 = (int q + 8) div 8" using q by (simp add: sdiv_nonneg)
  also have "\<dots> = int (q div 8) + 1" by (simp add: zdiv_int)
  finally show "(pos + 7) sdiv 8 = int (nat (pos - 1) div 8) + 1" using q by simp
  show "pos smod 8 = int (Suc (nat (pos - 1)) mod 8)"
    using q by (simp add: smod_nonneg zmod_int add.commute)
qed

section \<open>Reading and writing one bit\<close>

lemma zbitget_byte_bit:
  assumes "i < 8"
  shows "zbitget_byte b (Suc i) = of_bool (bit b (7 - i))"
proof -
  have "drop_bit 7 (push_bit i b) = of_bool (bit b (7 - i))"
    by (rule bit_word_eqI) (use assms in \<open>auto simp: bit_drop_bit_eq bit_push_bit_iff bit_of_bool_iff\<close>)
  then show ?thesis by (simp add: zbitget_byte_def)
qed

lemma zbitset_mask_bit:
  assumes "q < 8" and "j < 8"
  shows "bit (zbitset_mask ! (Suc q mod 8)) j \<longleftrightarrow> j = 7 - q"
proof -
  have "list_all (\<lambda>q. list_all (\<lambda>j. bit (zbitset_mask ! (Suc q mod 8)) j = (j = 7 - q)) [0..<8]) [0..<8]"
    by code_simp
  then show ?thesis using assms by (simp add: list_all_iff)
qed

lemma zbit_mp:
  assumes "1 \<le> (pos::int)"
  shows "(if pos smod 8 = 0 then 8 else pos smod 8) = int (nat (pos - 1) mod 8) + 1"
  using zbit_pos_index(2) [OF assms] by (auto simp: mod_Suc)

lemma zbitget_spec:
  assumes "zbit_wf s"
  shows "op_fnzbitget s pos =
    (if 1 \<le> pos \<and> pos \<le> int (zlen s) then Inr (of_bool (zbits s ! nat (pos - 1)))
     else Inl ERR_INVBITPOS)"
proof (cases "1 \<le> pos \<and> pos \<le> int (zlen s)")
  case True
  then have p: "nat (pos - 1) < zlen s" by auto
  have idx: "(pos + 7) sdiv 8 - 1 + 1 = int (nat (pos - 1) div 8 + 1)"
    using zbit_pos_index(1) [of pos] True by simp
  have "rd s ((pos + 7) sdiv 8 - 1 + 1) = Inr (s ! (nat (pos - 1) div 8 + 1))"
    unfolding idx by (rule rd_nat) (rule zbit_pos_byte [OF assms p])
  moreover have "zbitget_byte (s ! (nat (pos - 1) div 8 + 1)) (nat (int (nat (pos - 1) mod 8) + 1))
      = of_bool (zbits s ! nat (pos - 1))"
    using nth_zbits [OF p] zbitget_byte_bit [of "nat (pos - 1) mod 8"]
    by (simp add: nat_add_distrib)
  ultimately show ?thesis
    using True zbit_wf_consts [OF assms] zbit_mp [of pos]
    by (simp only: op_fnzbitget_def Let_def) auto
next
  case False
  then show ?thesis using zbit_wf_consts [OF assms] by (auto simp: op_fnzbitget_def)
qed

lemma zbitset_byte_bit:
  assumes "q < 8" and "j < 8"
  shows "bit (if t then b OR zbitset_mask ! (Suc q mod 8) else b AND NOT (zbitset_mask ! (Suc q mod 8))) j
    = (if j = 7 - q then t else bit b j)"
  using zbitset_mask_bit [OF assms] assms
  by (auto simp: bit_or_iff bit_and_iff bit_not_iff)

lemma zbitset_wf_eq:
  assumes "zbit_wf s" and "1 \<le> pos" and "pos \<le> int (zlen s)"
  defines "q \<equiv> nat (pos - 1)"
  shows "op_fnzbitset s pos t = Inr (s[q div 8 + 1 :=
    (if t \<noteq> 0 then s ! (q div 8 + 1) OR zbitset_mask ! (Suc (q mod 8) mod 8)
     else s ! (q div 8 + 1) AND NOT (zbitset_mask ! (Suc (q mod 8) mod 8)))])"
proof -
  have q: "q < zlen s" using assms by auto
  have idx: "(pos + 7) sdiv 8 - 1 + 1 = int (q div 8 + 1)"
    using zbit_pos_index(1) [of pos] assms(2) by (simp add: q_def)
  have r: "rd s ((pos + 7) sdiv 8 - 1 + 1) = Inr (s ! (q div 8 + 1))"
    unfolding idx by (rule rd_nat) (rule zbit_pos_byte [OF assms(1) q])
  have "pos smod 8 = int (Suc (q mod 8) mod 8)"
    using zbit_pos_index(2) [OF assms(2)] by (simp add: q_def mod_Suc_eq)
  moreover have "Suc (q mod 8) mod 8 < length zbitset_mask" by (simp add: zbitset_mask_def)
  ultimately have m: "rd zbitset_mask (pos smod 8) = Inr (zbitset_mask ! (Suc (q mod 8) mod 8))"
    by (metis rd_nat)
  have n: "nat ((pos + 7) sdiv 8 - 1 + 1) = q div 8 + 1"
    unfolding idx by (rule nat_int)
  show ?thesis
    using zbit_wf_consts [OF assms(1)] assms(2,3)
    unfolding op_fnzbitset_def Let_def by (simp only: r m n) auto
qed

lemma zlen_update [simp]: "zlen (s[Suc i := b]) = zlen s"
  by (cases s) (simp_all add: zlen_def)

lemma zbit_wf_update [simp]: "zbit_wf (s[Suc i := b]) = zbit_wf s"
  by (cases s) (simp_all add: zbit_wf_def)

lemma zbitset_spec:
  assumes "zbit_wf s" and "1 \<le> pos" and "pos \<le> int (zlen s)"
  shows "\<exists>s'. op_fnzbitset s pos t = Inr s' \<and> zbit_wf s' \<and> length s' = length s \<and> hd s' = hd s
    \<and> zbits s' = (zbits s)[nat (pos - 1) := (t \<noteq> 0)]"
proof -
  define q where "q = nat (pos - 1)"
  define b where "b = (if t \<noteq> 0 then s ! (q div 8 + 1) OR zbitset_mask ! (Suc (q mod 8) mod 8)
     else s ! (q div 8 + 1) AND NOT (zbitset_mask ! (Suc (q mod 8) mod 8)))"
  have q: "q < zlen s" using assms by (auto simp: q_def)
  note len = zbit_pos_byte [OF assms(1)]
  have "zbits (s[q div 8 + 1 := b]) = (zbits s)[q := (t \<noteq> 0)]"
  proof (rule zbits_eqI)
    fix p assume "p < zlen (s[q div 8 + 1 := b])"
    then have p: "p < zlen s" by simp
    show "bit (s[q div 8 + 1 := b] ! (p div 8 + 1)) (7 - p mod 8) = (zbits s)[q := (t \<noteq> 0)] ! p"
    proof (cases "p div 8 = q div 8")
      case True
      have "bit b (7 - p mod 8) = (if p mod 8 = q mod 8 then t \<noteq> 0 else bit (s ! (q div 8 + 1)) (7 - p mod 8))"
        unfolding b_def using zbitset_byte_bit [of "q mod 8" "7 - p mod 8"] by (auto split: if_splits)
      moreover have "p mod 8 = q mod 8 \<longleftrightarrow> p = q" using True div8_mod8_eq by metis
      ultimately show ?thesis
        using True p len [OF p] by (simp add: nth_list_update nth_zbits)
    next
      case False
      then show ?thesis using p by (auto simp: nth_zbits)
    qed
  qed simp
  moreover have "hd (s[q div 8 + 1 := b]) = hd s" by (cases s) simp_all
  moreover have "op_fnzbitset s pos t = Inr (s[q div 8 + 1 := b])"
    using zbitset_wf_eq [OF assms, of t] unfolding q_def b_def .
  ultimately show ?thesis using assms(1) by (simp add: q_def)
qed

text \<open>Bit strings are an indexed store of booleans.\<close>

definition zput :: "mstr \<Rightarrow> nat \<Rightarrow> bool \<Rightarrow> mstr" where
  "zput s i v = (case op_fnzbitset s (int i + 1) (of_bool v) of Inl e \<Rightarrow> s | Inr s' \<Rightarrow> s')"

interpretation zstore: indexed_store zbit_wf "\<lambda>s i. i < zlen s" "\<lambda>s i. zbits s ! i" zput
proof
  fix s i v j
  assume wf: "zbit_wf s" and i: "i < zlen s"
  obtain s' where s': "op_fnzbitset s (int i + 1) (of_bool v) = Inr s'" "zbit_wf s'"
      "length s' = length s" "hd s' = hd s" "zbits s' = (zbits s)[i := v]"
    using zbitset_spec [OF wf, of "int i + 1" "of_bool v"] i by auto
  then have z: "zput s i v = s'" by (simp add: zput_def)
  show "zbit_wf (zput s i v)" using s' z by simp
  show "(j < zlen (zput s i v)) = (j < zlen s)" using s' z by (simp add: zlen_def)
  assume "j < zlen s"
  then show "zbits (zput s i v) ! j = (if i = j then v else zbits s ! j)"
    using s' z by (simp add: nth_list_update)
qed

section \<open>The boolean operations\<close>

lemma zbit_loop2_eq:
  "i + k \<le> length a \<Longrightarrow> i + k \<le> length b \<Longrightarrow>
    zbit_loop2 f a b k (int i) = Inr (map (\<lambda>j. f (a ! j) (b ! j)) [i..<i + k])"
proof (induction k arbitrary: i)
  case 0
  then show ?case by simp
next
  case (Suc k)
  then have "zbit_loop2 f a b k (int (Suc i)) = Inr (map (\<lambda>j. f (a ! j) (b ! j)) [Suc i..<Suc i + k])"
    by (intro Suc.IH) simp_all
  moreover have "[i..<i + Suc k] = i # [Suc i..<Suc i + k]" by (simp add: upt_conv_Cons)
  ultimately show ?case using Suc.prems by (simp add: add.commute)
qed

text \<open>The header byte of a result of \<open>L\<close> bits: the number of bytes and the unused bits.\<close>

definition zhdr :: "nat \<Rightarrow> byte" where
  "zhdr L = of_nat (8 * ((L + 7) div 8) - L)"

lemma zbit_header:
  fixes L :: nat
  defines "N \<equiv> (L + 7) div 8"
  shows "(int L + 7) sdiv 8 = int N" and "8 * N - L \<le> 7" and "L \<le> 8 * N"
    and "word_of_int (int N * 8 - int L) = zhdr L"
    and "unat (zhdr L) = 8 * N - L" and "uint (zhdr L) = int (8 * N - L)"
proof -
  show N: "8 * N - L \<le> 7" "L \<le> 8 * N" unfolding N_def by linarith+
  show "(int L + 7) sdiv 8 = int N" by (simp add: sdiv_nonneg N_def zdiv_int)
  have "int N * 8 - int L = int (8 * N - L)" using N by simp
  then show "word_of_int (int N * 8 - int L) = zhdr L"
    unfolding zhdr_def N_def by (metis of_int_of_nat_eq)
  define u where "u = 8 * N - L"
  have "u \<le> 7" using N by (simp add: u_def)
  then have "unat (of_nat u :: byte) = u" by (simp add: unat_of_nat)
  then show "unat (zhdr L) = 8 * N - L" by (simp only: zhdr_def u_def N_def)
  then show "uint (zhdr L) = int (8 * N - L)" by (metis of_nat_unat)
qed

lemma zbit_header_wf:
  assumes "length bs = (L + 7) div 8"
  shows "zbit_wf (zhdr L # bs)" and "zlen (zhdr L # bs) = L"
  using zbit_header [of L] assms by (simp_all add: zbit_wf_def zlen_def)

lemma zlen_bytes:
  assumes "zbit_wf s" and "L \<le> zlen s"
  shows "1 + (L + 7) div 8 \<le> length s"
proof -
  have "L \<le> 8 * (length s - 1)" using assms by (simp add: zlen_def)
  then have "(L + 7) div 8 \<le> length s - 1" by (rule div8_le)
  then show ?thesis using zbit_wf_consts(1) [OF assms(1)] by (cases s) auto
qed

lemma zbitand_spec:
  assumes "zbit_wf a" and "zbit_wf b"
  shows "\<exists>c. op_fnzbitand a b = Inr c \<and> zbit_wf c
    \<and> zbits c = map2 (\<and>) (zbits a) (zbits b)"
proof -
  define L where "L = min (zlen a) (zlen b)"
  define N where "N = (L + 7) div 8"
  define bs where "bs = map (\<lambda>j. a ! j AND b ! j) [1..<1 + N]"
  define c where "c = zhdr L # bs"
  note ca = zbit_wf_consts [OF assms(1)] and cb = zbit_wf_consts [OF assms(2)]
  note hdr = zbit_header [of L, folded N_def]
  have len: "1 + N \<le> length a" "1 + N \<le> length b"
    unfolding N_def using zlen_bytes assms by (simp_all add: L_def)
  have loop: "zbit_loop2 (\<lambda>x y. x AND y) a b N 1 = Inr bs"
    using zbit_loop2_eq [of 1 N a b] len by (simp add: bs_def)
  have newlen: "(if zbit_strlen a - zbit_unused a > zbit_strlen b - zbit_unused b
      then zbit_strlen b - zbit_unused b else zbit_strlen a - zbit_unused a) = int L"
    by (simp add: ca(4) cb(4) L_def min_def)
  have "op_fnzbitand a b = Inr c"
    using ca(1,2) cb(1,2)
    unfolding op_fnzbitand_def Let_def newlen hdr(1) hdr(4) by (simp add: loop c_def)
  moreover have wf: "zbit_wf c" "zlen c = L"
    unfolding c_def using zbit_header_wf [of bs L] by (simp_all add: bs_def N_def)
  moreover have "zbits c = map2 (\<and>) (zbits a) (zbits b)"
  proof (rule zbits_eqI)
    fix p assume "p < zlen c"
    then have p: "p < L" using wf by simp
    then have "p div 8 < N" unfolding N_def by (rule div8_less)
    then have "c ! (p div 8 + 1) = a ! (p div 8 + 1) AND b ! (p div 8 + 1)"
      by (simp add: c_def bs_def del: upt_Suc)
    then show "bit (c ! (p div 8 + 1)) (7 - p mod 8) = map2 (\<and>) (zbits a) (zbits b) ! p"
      using p by (simp add: L_def nth_zbits bit_and_iff)
  qed (simp add: wf L_def)
  ultimately show ?thesis by blast
qed

lemma zbitstr_mask_bit: "u < 8 \<Longrightarrow> j < 8 \<Longrightarrow> bit (zbitstr_mask ! u) j \<longleftrightarrow> u \<le> j"
proof -
  assume a: "u < 8" "j < 8"
  have "list_all (\<lambda>u. list_all (\<lambda>j. bit (zbitstr_mask ! u) j = (u \<le> j)) [0..<8]) [0..<8]"
    by code_simp
  then show ?thesis using a by (simp add: list_all_iff)
qed

lemma zbitstr_mask_0: "x AND zbitstr_mask ! 0 = x"
  by (rule bit_word_eqI) (auto simp: bit_and_iff zbitstr_mask_bit)

text \<open>Masking the last byte leaves the used bits alone and clears the unused ones.\<close>

lemma zbit_mask_last:
  assumes "8 * N - L \<le> 7" and "p < L" and "p div 8 + 1 = N"
  shows "bit (x AND zbitstr_mask ! (8 * N - L)) (7 - p mod 8) = bit x (7 - p mod 8)"
proof -
  have "8 * N - L \<le> 7 - p mod 8" by (rule last_byte_bits [OF assms(2,3)])
  then have "bit (zbitstr_mask ! (8 * N - L)) (7 - p mod 8)"
    using zbitstr_mask_bit [of "8 * N - L" "7 - p mod 8"] assms(1) by simp
  then show ?thesis by (simp add: bit_and_iff)
qed

lemma zbitxor_spec:
  assumes "zbit_wf a" and "zbit_wf b"
  shows "\<exists>c. op_fnzbitxor a b = Inr c \<and> zbit_wf c
    \<and> zbits c = map2 (\<noteq>) (zbits a) (zbits b)"
proof -
  define L where "L = min (zlen a) (zlen b)"
  define N where "N = (L + 7) div 8"
  define bs where "bs = map (\<lambda>j. a ! j XOR b ! j) [1..<1 + N]"
  define d where "d = zhdr L # bs"
  define c where "c = d[N := d ! N AND zbitstr_mask ! (8 * N - L)]"
  note ca = zbit_wf_consts [OF assms(1)] and cb = zbit_wf_consts [OF assms(2)]
  note hdr = zbit_header [of L, folded N_def]
  have len: "1 + N \<le> length a" "1 + N \<le> length b"
    unfolding N_def using zlen_bytes assms by (simp_all add: L_def)
  have loop: "zbit_loop2 (\<lambda>x y. x XOR y) a b N 1 = Inr bs"
    using zbit_loop2_eq [of 1 N a b] len by (simp add: bs_def)
  have newlen: "(if zbit_strlen a - zbit_unused a > zbit_strlen b - zbit_unused b
      then zbit_strlen b - zbit_unused b else zbit_strlen a - zbit_unused a) = int L"
    by (simp add: ca(4) cb(4) L_def min_def)
  have m: "rd zbitstr_mask (uint (zhdr L)) = Inr (zbitstr_mask ! (8 * N - L))"
    using hdr(2,6) by (simp add: zbitstr_mask_def)
  have "op_fnzbitxor a b = Inr c"
    using ca(1,2) cb(1,2)
    unfolding op_fnzbitxor_def Let_def newlen hdr(1) hdr(4) by (simp add: loop m c_def d_def)
  moreover have lend: "length d = Suc N" by (simp add: d_def bs_def)
  moreover have wf: "zbit_wf c" "zlen c = L"
  proof -
    have d: "zbit_wf d" "zlen d = L" "length d = Suc N"
      unfolding d_def using zbit_header_wf [of bs L] by (simp_all add: bs_def N_def)
    have "N = 0 \<Longrightarrow> c = d"
    proof -
      assume N0: "N = 0"
      then have "8 * N - L = 0" by simp
      then show ?thesis using N0 by (simp add: c_def d_def zbitstr_mask_0)
    qed
    then show "zbit_wf c" "zlen c = L" using d by (cases N; simp add: c_def)+
  qed
  moreover have "zbits c = map2 (\<noteq>) (zbits a) (zbits b)"
  proof (rule zbits_eqI)
    fix p assume "p < zlen c"
    then have p: "p < L" using wf by simp
    then have pN: "p div 8 < N" unfolding N_def by (rule div8_less)
    have "d ! (p div 8 + 1) = a ! (p div 8 + 1) XOR b ! (p div 8 + 1)"
      using pN by (simp add: d_def bs_def del: upt_Suc)
    moreover have "bit (c ! (p div 8 + 1)) (7 - p mod 8) = bit (d ! (p div 8 + 1)) (7 - p mod 8)"
      using zbit_mask_last [OF hdr(2) p, of "d ! N"] pN lend
      by (cases "p div 8 + 1 = N") (auto simp: c_def)
    ultimately show "bit (c ! (p div 8 + 1)) (7 - p mod 8) = map2 (\<noteq>) (zbits a) (zbits b) ! p"
      using p by (simp add: L_def nth_zbits bit_xor_iff)
  qed (simp add: wf L_def)
  ultimately show ?thesis by blast
qed

lemma zbit_short_length:
  assumes "zbit_wf a" and "zbit_wf b" and "zlen a \<le> zlen b"
  shows "length a \<le> length b"
proof -
  note ca = zbit_wf_consts [OF assms(1)] and cb = zbit_wf_consts [OF assms(2)]
  have "zbit_strlen a - zbit_unused a \<le> zbit_strlen b - zbit_unused b"
    using assms(3) by (simp add: ca(4) cb(4))
  then have "zbit_strlen a \<le> zbit_strlen b + 7" using ca(2) cb(3) by linarith
  then show ?thesis by (simp add: zbit_strlen_def)
qed

text \<open>The OR of a shorter bit string (first) with a longer one, bytewise.\<close>

definition zbitor_bytes :: "mstr \<Rightarrow> mstr \<Rightarrow> mstr" where
  "zbitor_bytes s l = hd l # map (\<lambda>j. s ! j OR l ! j) [1..<length s] @ drop (length s) l"

lemma zbitor_bytes_eq:
  assumes "zbit_wf a" and "zbit_wf b"
  shows "op_fnzbitor a b =
    Inr (if zlen a < zlen b then zbitor_bytes a b else zbitor_bytes b a)"
proof -
  note ca = zbit_wf_consts [OF assms(1)] and cb = zbit_wf_consts [OF assms(2)]
  obtain la lb where l: "length a = Suc la" "length b = Suc lb"
    using ca(1) cb(1) by (metis length_Suc_conv neq_Nil_conv)
  have short: "((int (length a) - 1) * 8 - zbit_unused a < (int (length b) - 1) * 8 - zbit_unused b)
      = (zlen a < zlen b)"
    using ca(4) cb(4) by (simp add: zbit_strlen_def)
  have le: "zlen a < zlen b \<Longrightarrow> la \<le> lb" "\<not> zlen a < zlen b \<Longrightarrow> lb \<le> la"
    using zbit_short_length [OF assms] zbit_short_length [OF assms(2,1)] l by auto
  have l1: "zbit_loop2 (\<lambda>x y. x OR y) a b k 1 = Inr (map (\<lambda>j. a ! j OR b ! j) [1..<Suc k])"
    if "k \<le> la" "k \<le> lb" for k
    using zbit_loop2_eq [of 1 k a b] that l by simp
  have n1: "nat (int k + 1) = Suc k" for k by simp
  show ?thesis
  proof (cases "zlen a < zlen b")
    case True
    with le l1 [of la] ca(1,2) cb(1,2) l show ?thesis
      unfolding op_fnzbitor_def Let_def short
      by (auto simp: zbitor_bytes_def nat_diff_distrib n1 simp del: upt_Suc)
  next
    case False
    with le l1 [of lb] ca(1,2) cb(1,2) l show ?thesis
      unfolding op_fnzbitor_def Let_def short
      by (auto simp: zbitor_bytes_def nat_diff_distrib n1 or.commute simp del: upt_Suc)
  qed
qed

lemma zbitor_bytes_spec:
  assumes "zbit_wf s" and "zbit_wf l" and "zlen s \<le> zlen l" and "zbit_clean s"
  shows "zbit_wf (zbitor_bytes s l)"
    and "zbits (zbitor_bytes s l) =
      map (\<lambda>p. (p < zlen s \<and> zbits s ! p) \<or> zbits l ! p) [0..<zlen l]"
proof -
  have len: "length s \<le> length l" by (rule zbit_short_length [OF assms(1-3)])
  have ne: "s \<noteq> []" "l \<noteq> []" using assms zbit_wf_consts(1) by auto
  have L: "length (zbitor_bytes s l) = length l" "hd (zbitor_bytes s l) = hd l"
    using len ne by (auto simp: zbitor_bytes_def simp flip: length_greater_0_conv)
  then show "zbit_wf (zbitor_bytes s l)"
    using assms(2) ne by (auto simp: zbit_wf_def zbitor_bytes_def)
  have z: "zlen (zbitor_bytes s l) = zlen l" using L by (simp add: zlen_def)
  show "zbits (zbitor_bytes s l) =
      map (\<lambda>p. (p < zlen s \<and> zbits s ! p) \<or> zbits l ! p) [0..<zlen l]"
  proof (rule zbits_eqI)
    fix p assume "p < zlen (zbitor_bytes s l)"
    then have p: "p < zlen l" using z by simp
    have sbit: "bit (s ! (p div 8 + 1)) (7 - p mod 8) = (p < zlen s \<and> zbits s ! p)"
      if "p div 8 + 1 < length s"
    proof (cases "p < zlen s")
      case True
      then show ?thesis by (simp add: nth_zbits)
    next
      case False
      have "p < 8 * (length s - 1)" using that by linarith
      then show ?thesis using False assms(4) by (auto simp: zbit_clean_def)
    qed
    show "bit (zbitor_bytes s l ! (p div 8 + 1)) (7 - p mod 8)
      = map (\<lambda>p. (p < zlen s \<and> zbits s ! p) \<or> zbits l ! p) [0..<zlen l] ! p"
    proof (cases "p div 8 + 1 < length s")
      case True
      then have "zbitor_bytes s l ! (p div 8 + 1) = s ! (p div 8 + 1) OR l ! (p div 8 + 1)"
        by (auto simp: zbitor_bytes_def nth_append)
      then show ?thesis using sbit [OF True] p by (simp add: nth_zbits bit_or_iff)
    next
      case False
      then have "\<not> p < zlen s" using zbit_pos_byte [OF assms(1)] by blast
      moreover have "zbitor_bytes s l ! (p div 8 + 1) = l ! (p div 8 + 1)"
      proof -
        obtain q where q: "p div 8 + 1 = length s + q" using False by (metis le_add_diff_inverse not_less)
        obtain k where k: "length s = Suc k" using ne by (cases s) auto
        have "p div 8 + 1 < length l" by (rule zbit_pos_byte [OF assms(2) p])
        then show ?thesis using q k by (cases k) (simp_all add: zbitor_bytes_def nth_append del: upt_Suc)
      qed
      ultimately show ?thesis using p by (simp add: nth_zbits)
    qed
  qed (simp add: z)
qed

lemma zbitor_spec:
  assumes "zbit_wf a" and "zbit_wf b" and "zbit_clean a" and "zbit_clean b"
  shows "\<exists>c. op_fnzbitor a b = Inr c \<and> zbit_wf c
    \<and> zbits c = map (\<lambda>p. (p < zlen a \<and> zbits a ! p) \<or> (p < zlen b \<and> zbits b ! p))
        [0..<max (zlen a) (zlen b)]"
  using zbitor_bytes_eq [OF assms(1,2)] zbitor_bytes_spec [OF assms(1,2)]
    zbitor_bytes_spec [OF assms(2,1)] assms(3,4)
  by (cases "zlen a < zlen b") (auto simp: max_def)

lemma zbitnot_spec:
  assumes "zbit_wf s"
  shows "\<exists>r. op_fnzbitnot s beyond = Inr r \<and> zbit_wf (zn_result r)
    \<and> zbits (zn_result r) = map Not (zbits s)
    \<and> length (zn_stored r) = length (zn_result r) + 1
    \<and> last (zn_stored r) = NOT beyond"
proof -
  define c where "c = hd s # map (\<lambda>b. NOT b) (tl s)"
  have ne: "s \<noteq> []" using zbit_wf_consts(1) [OF assms] .
  have len: "length c = length s" "hd c = hd s" using ne by (simp_all add: c_def)
  have e: "op_fnzbitnot s beyond = Inr \<lparr>zn_stored = c @ [NOT beyond], zn_result = c\<rparr>"
    using zbit_wf_consts [OF assms] ne by (cases s) (simp_all add: op_fnzbitnot_def c_def Let_def)
  have z: "zlen c = zlen s" using len by (simp add: zlen_def)
  have "zbits c = map Not (zbits s)"
  proof (rule zbits_eqI)
    fix p assume "p < zlen c"
    then have p: "p < zlen s" using z by simp
    have "p div 8 + 1 < length s" by (rule zbit_pos_byte [OF assms p])
    then have "c ! (p div 8 + 1) = NOT (s ! (p div 8 + 1))"
      by (simp add: c_def nth_tl)
    then show "bit (c ! (p div 8 + 1)) (7 - p mod 8) = map Not (zbits s) ! p"
      using p by (simp add: nth_zbits bit_not_iff less_Suc_eq_le [of _ 7, simplified])
  qed (simp add: z)
  moreover have "zbit_wf c" using assms len ne by (simp add: zbit_wf_def c_def)
  ultimately show ?thesis using e len by simp
qed

section \<open>Creating, counting and searching\<close>

lemma zbitstr_spec:
  assumes "0 < sz" and "sz \<le> 253952"
  shows "\<exists>s. op_fnzbitstr sz t = Inr s \<and> zbit_wf s \<and> zbit_clean s
    \<and> zbits s = replicate (nat sz) (t \<noteq> 0)"
proof -
  define L where "L = nat sz"
  define N where "N = (L + 7) div 8"
  have sz: "sz = int L" using assms by (simp add: L_def)
  note hdr = zbit_header [of L, folded N_def]
  have N: "0 < N" using assms by (simp add: N_def L_def)
  define last_b where "last_b = (0xFF :: byte) AND zbitstr_mask ! (8 * N - L)"
  define s where "s = (if t \<noteq> 0 then (zhdr L # replicate N 0xFF)[N := last_b] else zhdr L # replicate N 0)"
  have m: "rd zbitstr_mask (uint (zhdr L)) = Inr (zbitstr_mask ! (8 * N - L))"
    using hdr(2,6) by (simp add: zbitstr_mask_def)
  have "op_fnzbitstr sz t = Inr s"
    using assms unfolding op_fnzbitstr_def Let_def sz hdr(1) hdr(4)
    by (simp add: m s_def last_b_def)
  moreover have wf: "zbit_wf s" "zlen s = L" "length s = Suc N"
  proof -
    obtain M where M: "N = Suc M" using N by (cases N) auto
    have "s = (if t \<noteq> 0 then zhdr L # (replicate N 0xFF)[M := last_b] else zhdr L # replicate N 0)"
      unfolding s_def M by simp
    then obtain bs where "s = zhdr L # bs" "length bs = N" by (cases "t \<noteq> 0") auto
    then show "zbit_wf s" "zlen s = L" "length s = Suc N"
      using zbit_header_wf [of bs L] by (simp_all add: N_def)
  qed
  moreover have sbit: "bit (s ! (p div 8 + 1)) (7 - p mod 8) = (t \<noteq> 0 \<and> p < L)" if p: "p < 8 * N" for p
  proof -
    have q: "p div 8 < N" using p by linarith
    have ff: "bit (0xFF :: byte) (7 - p mod 8)"
      using zbitstr_mask_bit [of 0 "7 - p mod 8"] by (simp add: zbitstr_mask_def)
    have lb: "bit last_b (7 - p mod 8) = (8 * N - L \<le> 7 - p mod 8)"
      unfolding last_b_def using zbitstr_mask_bit [of "8 * N - L" "7 - p mod 8"] hdr(2) ff
      by (simp add: bit_and_iff)
    have pm: "p = 8 * (p div 8) + p mod 8" by simp
    have pL: "p < L" if "p div 8 + 1 \<noteq> N"
      using that q hdr(2,3) by linarith
    have le: "(8 * N - L \<le> 7 - p mod 8) = (p < L)" if "p div 8 + 1 = N"
    proof -
      have "p = 8 * (N - 1) + p mod 8" using that pm by (metis add_diff_cancel_right')
      moreover have "p mod 8 < 8" by simp
      ultimately show ?thesis using hdr(3) N by linarith
    qed
    have "s ! (p div 8 + 1) = (if t \<noteq> 0 then (if p div 8 + 1 = N then last_b else 0xFF) else 0)"
      using q by (auto simp: s_def nth_list_update simp del: list_update.simps)
    then show ?thesis using lb ff le pL by (cases "p div 8 + 1 = N") auto
  qed
  moreover have "zbits s = replicate (nat sz) (t \<noteq> 0)"
  proof (rule zbits_eqI)
    fix p assume "p < zlen s"
    then have "p < L" "p < 8 * N" using wf hdr(3) by auto
    then show "bit (s ! (p div 8 + 1)) (7 - p mod 8) = replicate (nat sz) (t \<noteq> 0) ! p"
      using sbit by (simp add: sz)
  qed (simp add: wf sz)
  moreover have "zbit_clean s"
    unfolding zbit_clean_def using wf sbit by auto
  ultimately show ?thesis by blast
qed

lemma zbit_mask_eq: "i < 8 \<Longrightarrow> (b AND zbit_mask ! i \<noteq> 0) = bit (b::byte) (7 - i)"
proof -
  assume i: "i < 8"
  have "list_all (\<lambda>i. zbit_mask ! i = push_bit (7 - i) 1) [0..<8]" by code_simp
  then have "zbit_mask ! i = 2 ^ (7 - i)" using i by (simp add: list_all_iff push_bit_eq_mult)
  then show ?thesis by (simp add: and_exp_eq_0_iff_not_bit)
qed

lemma zbit_count_byte_eq:
  "i + k \<le> 8 \<Longrightarrow> zbit_count_byte b k i = int (length (filter (\<lambda>i. bit b (7 - i)) [i..<i + k]))"
proof (induction k arbitrary: i)
  case 0
  then show ?case by simp
next
  case (Suc k)
  then have "zbit_count_byte b k (Suc i) = int (length (filter (\<lambda>i. bit b (7 - i)) [Suc i..<Suc i + k]))"
    by (intro Suc.IH) simp
  moreover have "[i..<i + Suc k] = i # [Suc i..<Suc i + k]" by (simp add: upt_conv_Cons)
  ultimately show ?case using Suc.prems zbit_mask_eq [of i b] by (simp del: upt_Suc)
qed

text \<open>The positions of a byte of the bit string, and of a run of bytes.\<close>

definition zbit_at :: "mstr \<Rightarrow> nat \<Rightarrow> bool" where
  "zbit_at s p = bit (s ! (p div 8 + 1)) (7 - p mod 8)"

lemma filter_byte_positions:
  assumes "i + k \<le> 8"
  shows "length (filter (\<lambda>i. bit (s ! (j + 1)) (7 - i)) [i..<i + k])
    = length (filter (zbit_at s) [8 * j + i..<8 * j + i + k])"
proof -
  have "[8 * j + i..<8 * j + i + k] = map (\<lambda>i. i + 8 * j) [i..<i + k]"
    by (simp add: upt_shift algebra_simps)
  moreover have "filter (\<lambda>i'. zbit_at s (i' + 8 * j)) [i..<i + k]
      = filter (\<lambda>i'. bit (s ! (j + 1)) (7 - i')) [i..<i + k]"
    by (rule filter_cong) (use assms in \<open>auto simp: zbit_at_def\<close>)
  ultimately show ?thesis by (simp add: filter_map comp_def)
qed

lemma zbit_count_bytes_eq:
  "Suc j + k \<le> length s \<Longrightarrow>
    zbit_count_bytes s k (int (Suc j)) = Inr (int (length (filter (zbit_at s) [8 * j..<8 * (j + k)])))"
proof (induction k arbitrary: j)
  case 0
  then show ?case by simp
next
  case (Suc k)
  have "zbit_count_bytes s k (int (Suc j) + 1)
      = Inr (int (length (filter (zbit_at s) [8 * Suc j..<8 * (Suc j + k)])))"
    using Suc.IH [of "Suc j"] Suc.prems by (simp add: add.commute)
  moreover have "zbit_count_byte (s ! Suc j) 8 0 = int (length (filter (zbit_at s) [8 * j..<8 * j + 8]))"
    using zbit_count_byte_eq [of 0 8 "s ! Suc j"] filter_byte_positions [of 0 8 s j] by simp
  moreover have "[8 * j..<8 * (j + Suc k)] = [8 * j..<8 * j + 8] @ [8 * Suc j..<8 * (Suc j + k)]"
    using upt_add_eq_append [of "8 * j" "8 * j + 8" "8 * k"] by (simp add: algebra_simps)
  ultimately show ?case using Suc.prems by (simp del: upt_Suc add: rd_def nat_add_distrib)
qed

text \<open>How the positions of a non-empty bit string fall into whole bytes and a last byte.\<close>

lemma zbit_split_len:
  fixes L :: nat
  assumes "0 < L"
  defines "N \<equiv> (L + 7) div 8 - 1"
  defines "M \<equiv> (if L mod 8 = 0 then 8 else L mod 8)"
  shows "(int L + 7) sdiv 8 - 1 = int N"
    and "(if int L smod 8 = 0 then 8 else int L smod 8) = int M"
    and "L = 8 * N + M" and "0 < M" and "M \<le> 8"
proof -
  have L: "L = 8 * (L div 8) + L mod 8" "L mod 8 < 8" by simp_all
  show M: "0 < M" "M \<le> 8" using L by (auto simp: M_def)
  have d: "(L + 7) div 8 = (if L mod 8 = 0 then L div 8 else L div 8 + 1)"
  proof (cases "L mod 8 = 0")
    case True
    then show ?thesis using L by simp
  next
    case False
    then have "(L + 7) div 8 = L div 8 + 1" using L by linarith
    then show ?thesis using False by simp
  qed
  then show "L = 8 * N + M" using L assms(1) by (auto simp: N_def M_def)
  have "0 < (L + 7) div 8" using assms(1) by linarith
  then show "(int L + 7) sdiv 8 - 1 = int N"
    by (simp add: sdiv_nonneg N_def zdiv_int of_nat_diff)
  show "(if int L smod 8 = 0 then 8 else int L smod 8) = int M"
  proof -
    have "int L smod 8 = int (L mod 8)" by (simp add: smod_nonneg zmod_int)
    then show ?thesis by (simp add: M_def)
  qed
qed

lemma zbitcoun_spec:
  assumes "zbit_wf s" and "0 < zlen s"
  shows "op_fnzbitcoun s = Inr (int (length (filter id (zbits s))))"
proof -
  note c = zbit_wf_consts [OF assms(1)]
  define N where "N = (zlen s + 7) div 8 - 1"
  define M where "M = (if zlen s mod 8 = 0 then 8 else zlen s mod 8)"
  note sp = zbit_split_len [OF assms(2), folded N_def M_def]
  have len: "N + 1 < length s"
  proof -
    have "8 * N + (M - 1) < zlen s" using sp(3,4) by linarith
    from zbit_pos_byte [OF assms(1) this] show ?thesis using sp(4,5) by auto
  qed
  have cnt: "zbit_count_bytes s N 1 = Inr (int (length (filter (zbit_at s) [0..<8 * N])))"
    using zbit_count_bytes_eq [of 0 N s] len by simp
  have lst: "zbit_count_byte (s ! (N + 1)) M 0
      = int (length (filter (zbit_at s) [8 * N..<8 * N + M]))"
    using zbit_count_byte_eq [of 0 M] filter_byte_positions [of 0 M s N] sp(5) by simp
  have "filter id (zbits s) = filter id (map (zbit_at s) [0..<zlen s])"
    by (rule arg_cong [where f = "filter id"], rule nth_equalityI) (auto simp: nth_zbits zbit_at_def)
  then have "length (filter id (zbits s)) = length (filter (zbit_at s) [0..<zlen s])"
    by (simp add: filter_map comp_def)
  also have "[0..<zlen s] = [0..<8 * N] @ [8 * N..<8 * N + M]"
    using upt_add_eq_append [of 0 "8 * N" M] sp(3) by simp
  finally have tot: "length (filter id (zbits s)) =
      length (filter (zbit_at s) [0..<8 * N]) + length (filter (zbit_at s) [8 * N..<8 * N + M])"
    by (simp only: filter_append length_append)
  have r: "rd s (int N + 1) = Inr (s ! (N + 1))"
    using rd_nat [OF len] by (simp add: add.commute)
  show ?thesis
    using c(1,2) sp(4) unfolding op_fnzbitcoun_def Let_def c(4) sp(1,2)
    by (simp add: cnt r lst [simplified] tot del: upt_Suc)
qed

lemma zbit_scan_byte_eq:
  "i + k \<le> 8 \<Longrightarrow> zbit_scan_byte t b k i = find (\<lambda>i. bit b (7 - i) = t) [i..<i + k]"
proof (induction k arbitrary: i)
  case 0
  then show ?case by simp
next
  case (Suc k)
  then have "zbit_scan_byte t b k (Suc i) = find (\<lambda>i. bit b (7 - i) = t) [Suc i..<Suc i + k]"
    by (intro Suc.IH) simp
  moreover have "[i..<i + Suc k] = i # [Suc i..<Suc i + k]" by (simp add: upt_conv_Cons)
  ultimately show ?case using Suc.prems zbit_mask_eq [of i b] by (simp del: upt_Suc)
qed

lemma scan_byte_positions:
  assumes "i + k \<le> 8"
  shows "map_option (\<lambda>i. int i + 2 + int j * 8) (zbit_scan_byte t (s ! (j + 1)) k i)
    = map_option (\<lambda>p. int p + 2) (find (\<lambda>p. zbit_at s p = t) [8 * j + i..<8 * j + i + k])"
proof -
  have "[8 * j + i..<8 * j + i + k] = map (\<lambda>i. i + 8 * j) [i..<i + k]"
    by (simp add: upt_shift algebra_simps)
  moreover have "find (\<lambda>i'. zbit_at s (i' + 8 * j) = t) [i..<i + k]
      = find (\<lambda>i'. bit (s ! (j + 1)) (7 - i') = t) [i..<i + k]"
    by (rule find_cong) (use assms in \<open>auto simp: zbit_at_def\<close>)
  ultimately show ?thesis
    by (simp add: zbit_scan_byte_eq [OF assms] find_map_shift option.map_comp comp_def
        algebra_simps)
qed

lemma zbit_scan_bytes_eq:
  "Suc j + k \<le> length s \<Longrightarrow>
    zbit_scan_bytes t s k (int (Suc j)) =
      Inr (map_option (\<lambda>p. int p + 2) (find (\<lambda>p. zbit_at s p = t) [8 * j..<8 * (j + k)]))"
proof (induction k arbitrary: j)
  case 0
  then show ?case by simp
next
  case (Suc k)
  have IH: "zbit_scan_bytes t s k (int (Suc j) + 1)
      = Inr (map_option (\<lambda>p. int p + 2) (find (\<lambda>p. zbit_at s p = t) [8 * Suc j..<8 * (Suc j + k)]))"
    using Suc.IH [of "Suc j"] Suc.prems by (simp add: add.commute)
  have up: "[8 * j..<8 * (j + Suc k)] = [8 * j..<8 * j + 8] @ [8 * Suc j..<8 * (Suc j + k)]"
    using upt_add_eq_append [of "8 * j" "8 * j + 8" "8 * k"] by (simp add: algebra_simps)
  have sb: "map_option (\<lambda>i. int i + 2 + int j * 8) (zbit_scan_byte t (s ! (j + 1)) 8 0)
    = map_option (\<lambda>p. int p + 2) (find (\<lambda>p. zbit_at s p = t) [8 * j..<8 * j + 8])"
    using scan_byte_positions [of 0 8 j t s] by simp
  have r: "rd s (int (Suc j)) = Inr (s ! (j + 1))" using Suc.prems by (simp add: rd_def nat_add_distrib)
  show ?case
    using IH sb r unfolding up find_append_case zbit_scan_bytes.simps
    by (auto simp del: upt_Suc split: option.splits)
qed

lemma zbitfind_spec:
  assumes "zbit_wf s" and "0 < zlen s"
  shows "op_fnzbitfind s t pos =
    Inr (case find (\<lambda>p. zbits s ! p = (t \<noteq> 0)) [nat (max pos 1) - 1..<zlen s] of
      None \<Rightarrow> 0 | Some p \<Rightarrow> int p + 2)"
proof -
  note c = zbit_wf_consts [OF assms(1)]
  define N where "N = (zlen s + 7) div 8 - 1"
  define M where "M = (if zlen s mod 8 = 0 then 8 else zlen s mod 8)"
  define P where "P = (\<lambda>p. zbit_at s p = (t \<noteq> 0))"
  define q where "q = nat (max pos 1) - 1"
  define j where "j = q div 8"
  define i where "i = q mod 8"
  note sp = zbit_split_len [OF assms(2), folded N_def M_def]
  have q: "q = 8 * j + i" "i < 8" by (simp_all add: j_def i_def)
  have F: "find (\<lambda>p. zbits s ! p = (t \<noteq> 0)) [q..<zlen s] = find P [q..<zlen s]"
    by (rule find_cong) (auto simp: P_def nth_zbits zbit_at_def)
  show ?thesis
  proof (cases "pos > int (zlen s)")
    case True
    then have "[q..<zlen s] = []" using assms(2) by (simp add: q_def)
    then show ?thesis using True assms(2) c(1,2) unfolding op_fnzbitfind_def Let_def c(4)
      by (simp flip: q_def)
  next
    case False
    define pos' where "pos' = (if pos < 1 then 1 else pos)"
    have pos': "1 \<le> pos'" "nat (pos' - 1) = q" "q < zlen s"
      using False assms(2) by (auto simp: pos'_def q_def)
    have jN: "j \<le> N" using pos'(3) sp(3,5) q by linarith
    have np: "(pos' + 7) sdiv 8 = int j + 1"
      using zbit_pos_index(1) [OF pos'(1)] pos'(2) by (simp add: j_def)
    have mp: "(if pos' smod 8 = 0 then 8 else pos' smod 8) = int i + 1"
      using zbit_mp [OF pos'(1)] pos'(2) by (simp add: i_def)
    have len: "N + 1 < length s"
    proof -
      have "8 * N + (M - 1) < zlen s" using sp(3,4) by linarith
      from zbit_pos_byte [OF assms(1) this] show ?thesis using sp(4,5) by auto
    qed
    define K where "K = (if j = N then M else 8)"
    have iK: "i < K" using pos'(3) sp(3) q by (auto simp: K_def split: if_splits)
    have rj: "rd s (int j + 1) = Inr (s ! (j + 1))"
      using rd_nat [of "j + 1" s] jN len by (simp add: add.commute)
    have rN: "rd s (int N + 2) = Inr (s ! (N + 2))" if "N + 2 < length s" for N
      using rd_nat [OF that] by (simp add: add.commute)
    have first: "map_option (\<lambda>i. int i + 2 + int j * 8) (zbit_scan_byte (t \<noteq> 0) (s ! (j + 1)) (K - i) i)
        = map_option (\<lambda>p. int p + 2) (find P [q..<8 * j + K])"
      using scan_byte_positions [of i "K - i" j "t \<noteq> 0" s] iK sp(5) q
      by (auto simp: P_def K_def split: if_splits)
    show ?thesis
    proof (cases "j = N")
      case True
      then have up: "[q..<zlen s] = [q..<8 * j + K]" using sp(3) by (simp add: K_def)
      have k: "nat (int M - (int i + 1 - 1)) = M - i" "nat (int i + 1 - 1) = i"
        "int i + 1 - 1 < int M" using True iK by (simp_all add: K_def)
      have eq: "(int j + 1 = int N + 1) = True" using True by simp
      show ?thesis
        using c(1,2) first rj False True F k(3)
        unfolding op_fnzbitfind_def Let_def c(4) pos'_def [symmetric] np mp sp(1,2) eq if_True
          q_def [symmetric] up k(1,2)
        by (auto simp: K_def split: option.splits)
    next
      case jN': False
      then have j: "j < N" using jN by simp
      have up: "[q..<zlen s] = [q..<8 * j + 8] @ [8 * (j + 1)..<8 * N] @ [8 * N..<8 * N + M]"
      proof -
        have "[8 * (j + 1)..<8 * N] @ [8 * N..<8 * N + M] = [8 * (j + 1)..<8 * N + M]"
          using upt_add_eq_append [of "8 * (j + 1)" "8 * N" M] j by simp
        moreover have "[q..<8 * j + 8] @ [8 * (j + 1)..<8 * N + M] = [q..<8 * N + M]"
          using upt_add_eq_append [of q "8 * j + 8" "8 * N + M - (8 * j + 8)"] j q by (simp add: algebra_simps)
        ultimately show ?thesis using sp(3) by simp
      qed
      have mid: "zbit_scan_bytes (t \<noteq> 0) s (N - (j + 1)) (int j + 1 + 1)
          = Inr (map_option (\<lambda>p. int p + 2) (find P [8 * (j + 1)..<8 * N]))"
        using zbit_scan_bytes_eq [of "j + 1" "N - (j + 1)" s "t \<noteq> 0"] j len
        by (simp add: P_def add.commute add.left_commute)
      have lastb: "map_option (\<lambda>i. int i + 2 + int N * 8) (zbit_scan_byte (t \<noteq> 0) (s ! (N + 1)) M 0)
          = map_option (\<lambda>p. int p + 2) (find P [8 * N..<8 * N + M])"
        using scan_byte_positions [of 0 M N "t \<noteq> 0" s] sp(5) by (simp add: P_def)
      have r: "rd s (int j + 1 + int (nat (int N - (int j + 1))) + 1) = Inr (s ! (N + 1))"
        using rd_nat [OF len] j by (simp add: add.commute)
      have n: "nat (int N - (int j + 1)) = N - (j + 1)" using j by simp
      have k: "nat (8 - (int i + 1 - 1)) = 8 - i" "nat (int i + 1 - 1) = i" using q by simp_all
      have ne: "(int j + 1 = int N + 1) = False" using j by simp
      have lt: "int i + 1 - 1 < 8" using q by simp
      show ?thesis
        using c(1,2) first rj False jN' sp(4) mid [folded n] lastb r q(2)
        unfolding q_def [symmetric] F
        unfolding op_fnzbitfind_def Let_def c(4) pos'_def [symmetric] np mp sp(1,2) ne if_False k
          up find_append_case
        by (auto simp: K_def lt n split: option.splits)
    qed
  qed
qed

section \<open>Properties\<close>

text \<open>C37: a bit written by \<open>$ZBITSET\<close> is read back by \<open>$ZBITGET\<close>, and writing a bit changes no other bit.\<close>

theorem zbitset_then_get:
  assumes "zbit_wf s" and "1 \<le> pos" and "pos \<le> int (zlen s)" and "1 \<le> q" and "q \<le> int (zlen s)"
  shows "res_bind (op_fnzbitset s pos t) (\<lambda>s'. op_fnzbitget s' q) =
    (if q = pos then Inr (of_bool (t \<noteq> 0)) else op_fnzbitget s q)"
proof -
  obtain s' where s': "op_fnzbitset s pos t = Inr s'" "zbit_wf s'" "length s' = length s" "hd s' = hd s"
      "zbits s' = (zbits s)[nat (pos - 1) := (t \<noteq> 0)]"
    using zbitset_spec [OF assms(1-3)] by blast
  then have "zlen s' = zlen s" by (simp add: zlen_def)
  moreover have "nat (pos - 1) < zlen s" "nat (q - 1) = nat (pos - 1) \<longleftrightarrow> q = pos" using assms by auto
  ultimately show ?thesis
    using s' assms by (auto simp: zbitget_spec nth_list_update)
qed

theorem zbitset_then_get_witness:
  "res_bind (op_fnzbitset [6, 0x80, 0x40] 3 1) (\<lambda>s'. op_fnzbitget s' 3) = Inr 1"
  using zbitset_then_get [of "[6, 0x80, 0x40]" 3 3 1] by (simp add: zbit_wf_def zlen_def)

text \<open>
  C38: \<open>$ZBITAND\<close> and \<open>$ZBITXOR\<close> of two valid bit strings are the pointwise conjunction and exclusive or
  of their bits, as long as the shorter of the two.
\<close>

theorem zbitand_zbitxor_pointwise:
  assumes "zbit_wf a" and "zbit_wf b"
  shows "\<exists>c d. op_fnzbitand a b = Inr c \<and> op_fnzbitxor a b = Inr d \<and> zbit_wf c \<and> zbit_wf d
    \<and> zbits c = map2 (\<and>) (zbits a) (zbits b) \<and> zbits d = map2 (\<noteq>) (zbits a) (zbits b)"
  using zbitand_spec [OF assms] zbitxor_spec [OF assms] by blast

theorem zbitand_zbitxor_pointwise_witness:
  "\<exists>c d. op_fnzbitand [6, 0x80] [4, 0xA0] = Inr c \<and> op_fnzbitxor [6, 0x80] [4, 0xA0] = Inr d
    \<and> zbit_wf c \<and> zbit_wf d
    \<and> zbits c = map2 (\<and>) (zbits [6, 0x80]) (zbits [4, 0xA0])
    \<and> zbits d = map2 (\<noteq>) (zbits [6, 0x80]) (zbits [4, 0xA0])"
  by (rule zbitand_zbitxor_pointwise) (simp_all add: zbit_wf_def)

text \<open>
  \<open>$ZBITOR\<close> of two valid bit strings whose unused bits are zero is their pointwise disjunction,
  the shorter one extended with zeros.
\<close>

theorem zbitor_pointwise:
  assumes "zbit_wf a" and "zbit_wf b" and "zbit_clean a" and "zbit_clean b"
  shows "\<exists>c. op_fnzbitor a b = Inr c \<and> zbit_wf c
    \<and> zbits c = map (\<lambda>p. (p < zlen a \<and> zbits a ! p) \<or> (p < zlen b \<and> zbits b ! p))
        [0..<max (zlen a) (zlen b)]"
  by (rule zbitor_spec [OF assms])

theorem zbitor_pointwise_witness:
  "\<exists>c. op_fnzbitor [0, 0xA0, 1] [0, 0x0F] = Inr c \<and> zbit_wf c
    \<and> zbits c = map (\<lambda>p. (p < zlen [0, 0xA0, 1] \<and> zbits [0, 0xA0, 1] ! p)
          \<or> (p < zlen [0, 0x0F] \<and> zbits [0, 0x0F] ! p))
        [0..<max (zlen [0, 0xA0, 1]) (zlen [0, 0x0F])]"
  by (rule zbitor_pointwise) (simp_all add: zbit_wf_def zbit_clean_def zlen_def)

text \<open>
  The unused bits of the shorter operand of \<open>$ZBITOR\<close> reach the result: \<open>$ZBITNOT\<close> of the one-bit
  string 0 sets all unused bits, and its \<open>$ZBITOR\<close> with eight zero bits is eight ones, although only the
  first bit of either operand is set.
\<close>

theorem zbitor_unused_bits_leak:
  "map_sum id zn_result (op_fnzbitnot [7, 0] beyond) = Inr [7, 255]
   \<and> zbits [7, 255] = [True]
   \<and> op_fnzbitor [7, 255] [0, 0] = Inr [0, 255]
   \<and> zbits [0, 255] = replicate 8 True"
proof -
  have "op_fnzbitor [7, 255] [0, 0] = Inr [0, 255] \<and> zbits [0, 255] = replicate 8 True \<and> zbits [7, 255] = [True]"
    by code_simp
  then show ?thesis by (simp add: op_fnzbitnot_def zbit_unused_def)
qed

text \<open>
  \<open>$ZBITNOT\<close> returns the complement of every bit; the loop stores one byte more than the result
  has, the complement of the byte after the argument.
\<close>

theorem zbitnot_complement_overrun:
  assumes "zbit_wf s"
  shows "\<exists>r. op_fnzbitnot s beyond = Inr r \<and> zbit_wf (zn_result r)
    \<and> zbits (zn_result r) = map Not (zbits s)
    \<and> length (zn_stored r) = length (zn_result r) + 1
    \<and> last (zn_stored r) = NOT beyond"
  by (rule zbitnot_spec [OF assms])

theorem zbitnot_complement_overrun_witness:
  "\<exists>r. op_fnzbitnot [6, 0x80] 0x41 = Inr r \<and> zbit_wf (zn_result r)
    \<and> zbits (zn_result r) = map Not (zbits [6, 0x80])
    \<and> length (zn_stored r) = length (zn_result r) + 1
    \<and> last (zn_stored r) = NOT 0x41"
  by (rule zbitnot_complement_overrun) (simp add: zbit_wf_def)

text \<open>
  A bit string made by \<open>$ZBITSTR\<close> is valid, has zero unused bits and the given bit everywhere;
  \<open>$ZBITLEN\<close>, \<open>$ZBITCOUNT\<close> and \<open>$ZBITFIND\<close> of it agree with that.
\<close>

theorem zbitstr_roundtrip:
  assumes "0 < sz" and "sz \<le> 253952"
  shows "\<exists>s. op_fnzbitstr sz t = Inr s \<and> zbit_wf s \<and> zbit_clean s
    \<and> zbits s = replicate (nat sz) (t \<noteq> 0) \<and> op_fnzbitlen s = Inr sz
    \<and> op_fnzbitcoun s = Inr (if t \<noteq> 0 then sz else 0)
    \<and> op_fnzbitfind s 1 1 = Inr (if t \<noteq> 0 then 2 else 0)"
proof -
  obtain s where s: "op_fnzbitstr sz t = Inr s" "zbit_wf s" "zbit_clean s"
      "zbits s = replicate (nat sz) (t \<noteq> 0)"
    using zbitstr_spec [OF assms] by blast
  then have z: "zlen s = nat sz" by (metis length_zbits length_replicate)
  note c = zbit_wf_consts [OF s(2)]
  have len: "op_fnzbitlen s = Inr sz" using c z assms by (simp add: op_fnzbitlen_def)
  have cnt: "op_fnzbitcoun s = Inr (if t \<noteq> 0 then sz else 0)"
    using zbitcoun_spec [OF s(2)] z assms s(4) by simp
  have "[0..<nat sz] = 0 # [1..<nat sz]" using assms by (simp add: upt_rec)
  then have "op_fnzbitfind s 1 1 = Inr (if t \<noteq> 0 then 2 else 0)"
    using zbitfind_spec [OF s(2), of 1 1] z assms s(4)
    by (auto simp: find_None_iff find_Some_iff split: option.splits)
  then show ?thesis using s len cnt by blast
qed

theorem zbitstr_roundtrip_witness:
  "\<exists>s. op_fnzbitstr 11 1 = Inr s \<and> zbit_wf s \<and> zbit_clean s
    \<and> zbits s = replicate (nat 11) ((1::int) \<noteq> 0) \<and> op_fnzbitlen s = Inr 11
    \<and> op_fnzbitcoun s = Inr (if (1::int) \<noteq> 0 then 11 else 0)
    \<and> op_fnzbitfind s 1 1 = Inr (if (1::int) \<noteq> 0 then 2 else 0)"
  by (rule zbitstr_roundtrip) simp_all

text \<open>
  C39: On a valid bit string with at least one bit \<open>$ZBITCOUNT\<close> returns the number of set bits and
  \<open>$ZBITFIND\<close> the position after the first bit equal to the truth value from the given position on,
  or 0 when there is none.
\<close>

theorem zbit_count_find:
  assumes "zbit_wf s" and "0 < zlen s"
  shows "op_fnzbitcoun s = Inr (int (length (filter id (zbits s))))
    \<and> op_fnzbitfind s t pos =
      Inr (case find (\<lambda>p. zbits s ! p = (t \<noteq> 0)) [nat (max pos 1) - 1..<zlen s] of
        None \<Rightarrow> 0 | Some p \<Rightarrow> int p + 2)"
  using zbitcoun_spec [OF assms] zbitfind_spec [OF assms] by blast

theorem zbit_count_find_witness:
  "op_fnzbitcoun [5, 0xA0] = Inr (int (length (filter id (zbits [5, 0xA0]))))
    \<and> op_fnzbitfind [5, 0xA0] 1 2 =
      Inr (case find (\<lambda>p. zbits [5, 0xA0] ! p = ((1::int) \<noteq> 0)) [nat (max 2 1) - 1..<zlen [5, 0xA0]] of
        None \<Rightarrow> 0 | Some p \<Rightarrow> int p + 2)"
  by (rule zbit_count_find) (simp_all add: zbit_wf_def zlen_def)

text \<open>
  on the valid bit string that has no bits, \<open>$CHAR(0)\<close>, \<open>$ZBITCOUNT\<close> reads the byte after the string.
\<close>

theorem zbitcoun_empty_overread:
  "zbit_wf [0] \<and> zbits [0] = [] \<and> op_fnzbitcoun [0] = Inl OutOfBounds"
proof -
  have "zbits [0] = [] \<and> op_fnzbitcoun [0] = Inl OutOfBounds" by code_simp
  then show ?thesis by (simp add: zbit_wf_def)
qed

end
