(* ===== verification/Bitmap.thy ===== *)
theory Bitmap
  imports Ydb_Prelude
begin

text \<open>
  Block allocation maps of a GDS database file. A local bitmap keeps two bits per block
  (\<open>gdsbml.h\<close>: busy 00, free 01, recycled 11, invalid 10), the master map one bit per local map.
  Modelled here: the raw bit operations (\<open>bit_set.c\<close>, \<open>bit_clear.c\<close>, \<open>gtm_ffs.c\<close>), the state changes of
  a block (\<open>bml_busy.c\<close>, \<open>bml_free.c\<close>, \<open>bml_recycled.c\<close>, \<open>gvcst_map_build.c\<close>), a new map
  (\<open>bml_newmap.c\<close>) and the searches (\<open>bml_find_free.c\<close>, \<open>bml_find_busy.c\<close>, \<open>bm_find_blk.c\<close>,
  \<open>bmm_find_free.c\<close>). A map is the list of its bytes after the block header; block and bit numbers,
  which the sources assert to be non-negative, are \<open>nat\<close>. A search result \<open>None\<close> is
  \<open>NO_FREE_SPACE\<close> (-1).
\<close>

section \<open>Raw bits\<close>

definition bit_set :: "nat \<Rightarrow> mstr \<Rightarrow> (bool \<times> mstr) res" where
  "bit_set b base =
     res_bind (rd base (int (b div 8))) (\<lambda>x.
       Inr (push_bit (b mod 8) 1 AND x \<noteq> 0, base[b div 8 := x OR push_bit (b mod 8) 1]))"

definition bit_clear :: "nat \<Rightarrow> mstr \<Rightarrow> (bool \<times> mstr) res" where
  "bit_clear b base =
     res_bind (rd base (int (b div 8))) (\<lambda>x.
       Inr (push_bit (b mod 8) 1 AND x \<noteq> 0, base[b div 8 := x AND NOT (push_bit (b mod 8) 1)]))"

text \<open>\<open>for (; k steps; j++) if (*c & (1 << j)) return\<close>: the first set bit of a byte from bit \<open>j\<close> on.\<close>

fun ffs_byte :: "byte \<Rightarrow> nat \<Rightarrow> nat \<Rightarrow> nat option" where
  "ffs_byte c j 0 = None"
| "ffs_byte c j (Suc k) = (if c AND push_bit j 1 \<noteq> 0 then Some j else ffs_byte c (Suc j) k)"

text \<open>The loop over whole bytes; \<open>c\<close> is the index of the byte, \<open>k\<close> the number of bytes left.\<close>

fun ffs_bytes :: "mstr \<Rightarrow> nat \<Rightarrow> nat \<Rightarrow> nat option res" where
  "ffs_bytes addr c 0 = Inr None"
| "ffs_bytes addr c (Suc k) =
     res_bind (rd addr (int c)) (\<lambda>b.
       case (if b \<noteq> 0 then ffs_byte b 0 8 else None) of
         Some j \<Rightarrow> Inr (Some (8 * c + j))
       | None \<Rightarrow> ffs_bytes addr (Suc c) k)"

definition ffs_part :: "mstr \<Rightarrow> nat \<Rightarrow> nat \<Rightarrow> nat \<Rightarrow> nat option res" where
  "ffs_part addr c j k =
     (if k = 0 then Inr None
      else res_bind (rd addr (int c)) (\<lambda>b. Inr (map_option (\<lambda>j. 8 * c + j) (ffs_byte b j k))))"

definition gtm_ffs :: "nat \<Rightarrow> mstr \<Rightarrow> nat \<Rightarrow> nat option res" where
  "gtm_ffs offset addr sz =
     (let i0 = offset mod 8;
          c1 = (if i0 \<noteq> 0 then offset div 8 + 1 else offset div 8);
          i1 = 8 * ((offset + 7) div 8);
          topp = 8 * ((sz + offset) div 8)
      in res_bind (if i0 \<noteq> 0 then ffs_part addr (offset div 8) i0 (min (8 - i0) sz) else Inr None) (\<lambda>r.
         case r of
           Some n \<Rightarrow> Inr (Some n)
         | None \<Rightarrow>
             res_bind (ffs_bytes addr c1 ((topp - i1) div 8)) (\<lambda>r.
               case r of
                 Some n \<Rightarrow> Inr (Some n)
               | None \<Rightarrow>
                   let i2 = max i1 topp
                   in ffs_part addr (i2 div 8) 0 (sz + offset - i2))))"

text \<open>The inner loop of \<open>bmm_find_free\<close>: words of 32 bits from \<open>start\<close> to \<open>topp\<close>.\<close>

function bmm_inner :: "mstr \<Rightarrow> nat \<Rightarrow> nat \<Rightarrow> nat \<Rightarrow> nat option res" where
  "bmm_inner base start topp width =
     (if width > 0
      then res_bind (gtm_ffs start base width) (\<lambda>r.
             case r of
               Some n \<Rightarrow> Inr (Some n)
             | None \<Rightarrow> bmm_inner base (start + width) topp (min (topp - (start + width)) 32))
      else Inr None)"
  by pat_completeness auto
termination
  by (relation "measures [\<lambda>(base, start, topp, width). topp - start, \<lambda>(base, start, topp, width). width]") auto

declare bmm_inner.simps [simp del]

definition bmm_find_free :: "nat \<Rightarrow> mstr \<Rightarrow> nat \<Rightarrow> nat option res" where
  "bmm_find_free hint0 base total_bits =
     (let hint = (if hint0 \<ge> total_bits then 0 else hint0);
          pass = (\<lambda>start topp. bmm_inner base start topp (min topp (32 * (start div 32) + 32) - start))
      in if total_bits = 0 then Inr None
         else res_bind (pass hint total_bits) (\<lambda>r.
           case r of
             Some n \<Rightarrow> Inr (Some n)
           | None \<Rightarrow> if hint = 0 then Inr None else pass 0 hint))"

section \<open>Block states of a local bitmap\<close>

abbreviation (input) BLK_BUSY :: byte where "BLK_BUSY \<equiv> 0"
abbreviation (input) BLK_FREE :: byte where "BLK_FREE \<equiv> 1"
abbreviation (input) BLK_MAPINVALID :: byte where "BLK_MAPINVALID \<equiv> 2"
abbreviation (input) BLK_RECYCLED :: byte where "BLK_RECYCLED \<equiv> 3"
abbreviation (input) BLKS_PER_LMAP :: nat where "BLKS_PER_LMAP \<equiv> 512"
abbreviation (input) LCL_MAP_LEVL :: nat where "LCL_MAP_LEVL \<equiv> 255"

definition get_bm_status :: "mstr \<Rightarrow> nat \<Rightarrow> byte" where
  "get_bm_status m blknum = drop_bit ((blknum * 2) mod 8) (m ! ((blknum * 2) div 8)) AND 3"

definition set_bm_status :: "mstr \<Rightarrow> nat \<Rightarrow> byte \<Rightarrow> mstr" where
  "set_bm_status m blknum new =
     m[(blknum * 2) div 8 :=
       (m ! ((blknum * 2) div 8) AND NOT (push_bit ((blknum * 2) mod 8) 3))
         OR push_bit ((blknum * 2) mod 8) (new AND 3)]"

definition bml_busy :: "nat \<Rightarrow> mstr \<Rightarrow> (bool \<times> mstr) res" where
  "bml_busy setbusy m =
     res_bind (bit_clear (setbusy * 2) m) (\<lambda>(ret, m).
     res_bind (bit_clear (setbusy * 2 + 1) m) (\<lambda>(ret1, m). Inr (ret, m)))"

definition bml_free :: "nat \<Rightarrow> mstr \<Rightarrow> (bool \<times> mstr) res" where
  "bml_free setfree m =
     res_bind (bit_set (setfree * 2) m) (\<lambda>(ret, m).
     res_bind (bit_clear (setfree * 2 + 1) m) (\<lambda>(ret1, m). Inr (ret, m)))"

definition bml_recycled :: "nat \<Rightarrow> mstr \<Rightarrow> (bool \<times> mstr) res" where
  "bml_recycled setfree m =
     res_bind (bit_set (setfree * 2) m) (\<lambda>(ret, m).
     res_bind (bit_set (setfree * 2 + 1) m) (\<lambda>(ret1, m). Inr (ret, m)))"

text \<open>
  The block header fields that the bitmap code reads or writes; \<open>lbm_body\<close> is the map after the
  header. \<open>blk_hdr_size\<close> is \<open>SIZEOF(blk_hdr)\<close>.
\<close>

record lbm_blk =
  lbm_bver :: nat
  lbm_bsiz :: nat
  lbm_levl :: nat
  lbm_tn :: nat
  lbm_body :: mstr

definition bml_newmap :: "nat \<Rightarrow> nat \<Rightarrow> nat \<Rightarrow> nat \<Rightarrow> lbm_blk" where
  "bml_newmap gdsvcurr blk_hdr_size sz curr_tn =
     \<lparr>lbm_bver = gdsvcurr, lbm_bsiz = sz, lbm_levl = LCL_MAP_LEVL, lbm_tn = curr_tn,
      lbm_body = 0x54 # replicate (sz - blk_hdr_size - 1) 0x55\<rparr>"

definition bm_minus_blkhdr_size :: "nat \<Rightarrow> nat" where
  "bm_minus_blkhdr_size bplm = bplm div 4"

text \<open>
  The cache set element and the region fields that \<open>gvcst_map_build\<close> and the macro
  \<open>DETERMINE_BML_FUNC\<close> use.
\<close>

datatype bml_func = Bml_busy | Bml_free | Bml_recycled

record map_cse =
  cse_blk :: nat
  cse_reference_cnt :: int
  cse_level_drt_lvl0_free :: bool
  cse_level_lcl_map :: bool

record map_region =
  nl_trunc_pid :: nat
  nl_highest_lbm_with_busy_blk :: nat
  hdr_db_got_to_v5_once :: bool
  mu_reorg_upgrd_dwngrd_in_prog :: bool

definition determine_bml_func :: "map_cse \<Rightarrow> map_region \<Rightarrow> bml_func \<times> map_cse \<times> map_region" where
  "determine_bml_func cs csa =
     (if nl_trunc_pid csa \<noteq> 0 then
        if cse_reference_cnt cs > 0 then
          (Bml_busy, cs,
           csa\<lparr>nl_highest_lbm_with_busy_blk := max (cse_blk cs) (nl_highest_lbm_with_busy_blk csa)\<rparr>)
        else if cse_reference_cnt cs < 0 then
          if hdr_db_got_to_v5_once csa \<and> \<not> cse_level_drt_lvl0_free cs
          then (Bml_recycled, cs, csa)
          else (Bml_free, cs\<lparr>cse_level_drt_lvl0_free := False, cse_level_lcl_map := True\<rparr>, csa)
        else
          if hdr_db_got_to_v5_once csa \<and> mu_reorg_upgrd_dwngrd_in_prog csa
          then (Bml_recycled, cs, csa)
          else (Bml_free, cs, csa)
      else
        ((if cse_reference_cnt cs > 0 then Bml_busy
          else if hdr_db_got_to_v5_once csa then Bml_recycled else Bml_free), cs, csa))"

fun run_bml_func :: "bml_func \<Rightarrow> nat \<Rightarrow> mstr \<Rightarrow> (bool \<times> mstr) res" where
  "run_bml_func Bml_busy n m = bml_busy n m"
| "run_bml_func Bml_free n m = bml_free n m"
| "run_bml_func Bml_recycled n m = bml_recycled n m"

fun bml_func_status :: "bml_func \<Rightarrow> byte" where
  "bml_func_status Bml_busy = BLK_BUSY"
| "bml_func_status Bml_free = BLK_FREE"
| "bml_func_status Bml_recycled = BLK_RECYCLED"

text \<open>
  The loop over the update array, which ends at the first zero; \<open>actual_cnt\<close> is the counter the
  debug build compares with \<open>cs->reference_cnt\<close>.
\<close>

fun map_build_loop :: "bml_func \<Rightarrow> bool \<Rightarrow> nat list \<Rightarrow> mstr \<Rightarrow> int \<Rightarrow> (mstr \<times> int) res" where
  "map_build_loop f acquiring [] m cnt = Inl OutOfBounds"
| "map_build_loop f acquiring (bitnum # array) m cnt =
     (if bitnum = 0 then Inr (m, cnt)
      else res_bind (run_bml_func f bitnum m) (\<lambda>(ret, m).
        map_build_loop f acquiring array m
          (if acquiring then cnt + 1 else if \<not> ret then cnt - 1 else cnt)))"

definition gvcst_map_build ::
  "nat list \<Rightarrow> lbm_blk \<Rightarrow> map_cse \<Rightarrow> map_region \<Rightarrow> nat \<Rightarrow>
     (lbm_blk \<times> map_cse \<times> map_region \<times> int) res" where
  "gvcst_map_build array blk cs csa ctn =
     (case determine_bml_func cs csa of (f, cs', csa') \<Rightarrow>
        res_bind (map_build_loop f (cse_reference_cnt cs' > 0) array (lbm_body blk) 0) (\<lambda>(m, cnt).
          Inr (blk\<lparr>lbm_tn := ctn, lbm_body := m\<rparr>, cs', csa', cnt)))"

section \<open>Searching a local bitmap\<close>

text \<open>\<open>RETURN_IF_FREE\<close>: the block of a byte that is not all busy.\<close>

definition return_if_free :: "byte \<Rightarrow> nat \<Rightarrow> nat option" where
  "return_if_free valid ptr =
     (if valid \<noteq> 0
      then Some (ptr * 4 +
        (if valid > 0x3F then 3 else if valid > 0x0F then 2 else if valid > 0x03 then 1 else 0))
      else None)"

fun bml_find_free_loop :: "mstr \<Rightarrow> nat \<Rightarrow> nat \<Rightarrow> nat option res" where
  "bml_find_free_loop base ptr 0 = Inr None"
| "bml_find_free_loop base ptr (Suc k) =
     res_bind (rd base (int ptr)) (\<lambda>valid.
       case return_if_free valid ptr of
         Some n \<Rightarrow> Inr (Some n)
       | None \<Rightarrow> bml_find_free_loop base (Suc ptr) k)"

definition last_byte_valid :: "byte \<Rightarrow> nat \<Rightarrow> byte" where
  "last_byte_valid b bits =
     (if bits = 6 then b AND 0x3F else if bits = 4 then b AND 0x0F else if bits = 2 then b AND 0x03 else b)"

definition bml_find_free :: "nat \<Rightarrow> mstr \<Rightarrow> nat \<Rightarrow> nat option res" where
  "bml_find_free hint0 base total_blks =
     (let total_bits = total_blks * 2;
          hint1 = hint0 * 2 div 8;
          nbytes = (total_bits + 7) div 8;
          hint = (if hint1 > nbytes then 0 else hint1);
          ptr = max hint (nbytes - 1)
      in res_bind (bml_find_free_loop base hint (nbytes - 1 - hint)) (\<lambda>r.
         case r of
           Some n \<Rightarrow> Inr (Some n)
         | None \<Rightarrow>
             res_bind (rd base (int ptr)) (\<lambda>b.
               case (if b \<noteq> 0 then return_if_free (last_byte_valid b (total_bits mod 8)) ptr else None) of
                 Some n \<Rightarrow> Inr (Some n)
               | None \<Rightarrow> if hint \<noteq> 0 then bml_find_free_loop base 0 hint else Inr None)))"

text \<open>
  \<open>bm_find_blk\<close>: the first block from \<open>hint\<close> on that is not busy, without wrapping, and whether
  it was used before (\<open>*used\<close>).
\<close>

definition bm_pick :: "byte \<Rightarrow> nat \<Rightarrow> nat \<times> bool" where
  "bm_pick valid ptr =
     (if valid AND 1 \<noteq> 0 then (ptr * 4, valid AND 2 \<noteq> 0)
      else if valid AND 4 \<noteq> 0 then (ptr * 4 + 1, valid AND 8 \<noteq> 0)
      else if valid AND 16 \<noteq> 0 then (ptr * 4 + 2, valid AND 32 \<noteq> 0)
      else (ptr * 4 + 3, valid AND 128 \<noteq> 0))"

definition hint_mask :: "byte \<Rightarrow> nat \<Rightarrow> byte" where
  "hint_mask valid h =
     (if h = 1 then valid AND 252 else if h = 2 then valid AND 240 else if h = 3 then valid AND 192 else valid)"

fun bm_find_loop :: "mstr \<Rightarrow> nat \<Rightarrow> nat \<Rightarrow> (nat \<times> bool) option res" where
  "bm_find_loop base ptr 0 = Inr None"
| "bm_find_loop base ptr (Suc k) =
     res_bind (rd base (int ptr)) (\<lambda>b.
       if b \<noteq> 0 then Inr (Some (bm_pick b ptr)) else bm_find_loop base (Suc ptr) k)"

definition bm_find_rest :: "mstr \<Rightarrow> nat \<Rightarrow> nat \<Rightarrow> nat \<Rightarrow> (nat \<times> bool) option res" where
  "bm_find_rest base total_bits ptr topp =
     res_bind (bm_find_loop base ptr (topp - ptr)) (\<lambda>r.
       case r of
         Some n \<Rightarrow> Inr (Some n)
       | None \<Rightarrow>
           if max ptr topp = topp
           then res_bind (rd base (int topp)) (\<lambda>b.
             let valid = last_byte_valid b (total_bits mod 8)
             in if b \<noteq> 0 \<and> valid \<noteq> 0 then Inr (Some (bm_pick valid topp)) else Inr None)
           else Inr None)"

definition bm_find_blk :: "nat \<Rightarrow> mstr \<Rightarrow> nat \<Rightarrow> (nat \<times> bool) option res" where
  "bm_find_blk hint base total_blks =
     (let total_bits = total_blks * 2;
          topp = (total_bits + 7) div 8 - 1
      in if hint \<noteq> 0 then
           let ptr = hint * 2 div 8
           in res_bind (rd base (int ptr)) (\<lambda>b.
                let valid = hint_mask (if ptr = topp then last_byte_valid b (total_bits mod 8) else b)
                              (hint mod 4)
                in if valid \<noteq> 0 then Inr (Some (bm_pick valid ptr))
                   else bm_find_rest base total_bits (ptr + 1) topp)
         else bm_find_rest base total_bits 0 topp)"

text \<open>
  \<open>bml_find_busy\<close>: \<open>busy_pick\<close> is the chain of tests on one byte in the first part of the search, which
  accepts a block only from \<open>hint\<close> on; \<open>busy_pick0\<close> the chain in the wrapped part.
\<close>

definition busy_pick :: "byte \<Rightarrow> nat \<Rightarrow> (nat \<Rightarrow> bool) \<Rightarrow> (nat \<Rightarrow> bool) \<Rightarrow> nat option" where
  "busy_pick v ptr ok ok3 =
     (if v AND 0x3 = 0 \<and> ok (ptr * 4) then Some (ptr * 4)
      else if v AND 0xc = 0 \<and> ok (ptr * 4 + 1) then Some (ptr * 4 + 1)
      else if v AND 0x30 = 0 \<and> ok (ptr * 4 + 2) then Some (ptr * 4 + 2)
      else if v AND 0xc0 = 0 \<and> ok3 (ptr * 4 + 3) then Some (ptr * 4 + 3)
      else None)"

fun busy_loop :: "mstr \<Rightarrow> (nat \<Rightarrow> bool) \<Rightarrow> nat \<Rightarrow> nat \<Rightarrow> nat option res" where
  "busy_loop base ok ptr 0 = Inr None"
| "busy_loop base ok ptr (Suc k) =
     res_bind (rd base (int ptr)) (\<lambda>b.
       case busy_pick b ptr ok ok of
         Some n \<Rightarrow> Inr (Some n)
       | None \<Rightarrow> busy_loop base ok (Suc ptr) k)"

definition busy_last_valid :: "byte \<Rightarrow> nat \<Rightarrow> byte" where
  "busy_last_valid b slots =
     (if slots = 3 then b OR 0xc0 else if slots = 2 then b OR 0xf0 else if slots = 1 then b OR 0xfc else b)"

definition bml_find_busy :: "nat \<Rightarrow> mstr \<Rightarrow> nat \<Rightarrow> nat option res" where
  "bml_find_busy hint base total_blks =
     (let total_bits = total_blks * 2;
          hint_pos = (if hint * 2 \<ge> total_bits then 0 else hint * 2) div 8;
          topp = (total_bits + 7) div 8 - 1;
          ptr = max hint_pos topp
      in res_bind (busy_loop base (\<lambda>n. n \<ge> hint) hint_pos (topp - hint_pos)) (\<lambda>r.
         case r of
           Some n \<Rightarrow> Inr (Some n)
         | None \<Rightarrow>
             res_bind (rd base (int ptr)) (\<lambda>b.
               case busy_pick (busy_last_valid b (total_bits mod 8 div 2)) ptr
                      (\<lambda>n. n \<ge> hint) (\<lambda>n. n \<ge> hint \<and> n \<le> total_blks) of
                 Some n \<Rightarrow> Inr (Some n)
               | None \<Rightarrow>
                   res_bind (busy_loop base (\<lambda>n. True) 0 hint_pos) (\<lambda>r.
                     case r of
                       Some n \<Rightarrow> Inr (Some n)
                     | None \<Rightarrow>
                         res_bind (rd base (int hint_pos)) (\<lambda>b.
                           Inr (busy_pick (busy_last_valid b (hint mod 4)) hint_pos
                             (\<lambda>n. True) (\<lambda>n. True)))))))"

section \<open>Bits and block states, abstractly\<close>

declare bit_numeral_word_iff [simp del]

definition bitat :: "mstr \<Rightarrow> nat \<Rightarrow> bool" where
  "bitat m n = bit (m ! (n div 8)) (n mod 8)"

definition bitput :: "mstr \<Rightarrow> nat \<Rightarrow> bool \<Rightarrow> mstr" where
  "bitput m n v =
     m[n div 8 := (if v then m ! (n div 8) OR push_bit (n mod 8) 1
                   else m ! (n div 8) AND NOT (push_bit (n mod 8) 1))]"

lemma exp_and_bit: "(2 ^ j AND (x::byte) \<noteq> 0) = bit x j"
  by (metis and.commute and_exp_eq_0_iff_not_bit)

lemma bit_exp_byte: "j < 8 \<Longrightarrow> bit (2 ^ j :: byte) i \<longleftrightarrow> i = j"
  by (auto simp: bit_exp_iff)

lemma bit_2: "bit (2::byte) j \<longleftrightarrow> j = 1"
  using bit_exp_byte [of 1 j] by simp

lemma bit_ops_eq:
  assumes "n < 8 * length m"
  shows "bit_set n m = Inr (bitat m n, bitput m n True)"
    and "bit_clear n m = Inr (bitat m n, bitput m n False)"
proof -
  have "n div 8 < length m" using assms by (simp add: less_mult_imp_div_less mult.commute)
  then show "bit_set n m = Inr (bitat m n, bitput m n True)"
    "bit_clear n m = Inr (bitat m n, bitput m n False)"
    by (simp_all add: bit_set_def bit_clear_def bitat_def bitput_def exp_and_bit)
qed

interpretation bitstore: indexed_store "\<lambda>_. True" "\<lambda>m n. n < 8 * length m" bitat bitput
proof
  fix m :: mstr and i v j
  assume i: "i < 8 * length m"
  show "(j < 8 * length (bitput m i v)) = (j < 8 * length m)" by (simp add: bitput_def)
  assume "j < 8 * length m"
  then have len: "j div 8 < length m" by (simp add: less_mult_imp_div_less mult.commute)
  have b: "bit (if v then x OR push_bit (i mod 8) 1 else x AND NOT (push_bit (i mod 8) 1)) (j mod 8)
      = (if j mod 8 = i mod 8 then v else bit x (j mod 8))" for x :: byte
    by (auto simp: bit_or_iff bit_and_iff bit_not_iff bit_exp_byte)
  show "bitat (bitput m i v) j = (if i = j then v else bitat m j)"
  proof (cases "j div 8 = i div 8")
    case True
    then have eq: "(j mod 8 = i mod 8) = (i = j)" using div8_mod8_eq by metis
    have "bitat (bitput m i v) j = bit (if v then m ! (i div 8) OR push_bit (i mod 8) 1
        else m ! (i div 8) AND NOT (push_bit (i mod 8) 1)) (j mod 8)"
      unfolding bitat_def bitput_def using True len by (simp only: nth_list_update_eq)
    also have "\<dots> = (if i = j then v else bit (m ! (i div 8)) (j mod 8))" unfolding b eq ..
    finally show ?thesis unfolding bitat_def True .
  next
    case False
    then show ?thesis by (auto simp: bitat_def bitput_def)
  qed
qed simp

lemma length_bitput [simp]: "length (bitput m n v) = length m"
  by (simp add: bitput_def)

lemma double_index:
  fixes n :: nat
  shows "(n * 2) div 8 = n div 4" and "(n * 2) mod 8 = 2 * (n mod 4)"
    and "(n * 2 + 1) div 8 = n div 4" and "(n * 2 + 1) mod 8 = 2 * (n mod 4) + 1"
proof -
  show "(n * 2) div 8 = n div 4" "(n * 2 + 1) div 8 = n div 4" by linarith+
  show "(n * 2) mod 8 = 2 * (n mod 4)"
    using mult_mod_right [of 2 n 4] by (simp add: mult.commute)
  have "2 * (n mod 4) + 1 < 8" by simp
  then have "(2 * (n mod 4) + 1) mod 8 = 2 * (n mod 4) + 1" by (rule mod_less)
  moreover have "n * 2 + 1 = (2 * (n mod 4) + 1) + (n div 4) * 8"
    using div_mult_mod_eq [of n 4] by linarith
  ultimately show "(n * 2 + 1) mod 8 = 2 * (n mod 4) + 1" by (metis mod_mult_self1)
qed

lemma bit_3: "bit (3::byte) j \<longleftrightarrow> j < 2"
proof (cases "j < 8")
  case True
  have "list_all (\<lambda>j. bit (3::byte) j = (j < 2)) [0..<8]" by code_simp
  then show ?thesis using True by (simp add: list_all_iff)
next
  case False
  then show ?thesis by (auto dest: bit_imp_le_length)
qed

lemma get_bm_status_bit:
  "bit (get_bm_status m n) j \<longleftrightarrow> j < 2 \<and> bitat m (n * 2 + j)"
proof -
  have "bit (get_bm_status m n) j \<longleftrightarrow> j < 2 \<and> bit (m ! (n div 4)) (2 * (n mod 4) + j)"
    by (auto simp: get_bm_status_def double_index bit_and_iff bit_drop_bit_eq bit_3)
  moreover have "bitat m (n * 2 + j) = bit (m ! (n div 4)) (2 * (n mod 4) + j)" if "j < 2"
  proof -
    from that consider "j = 0" | "j = 1" by (auto simp: less_2_cases_iff)
    then show ?thesis by cases (simp_all add: bitat_def double_index double_index [simplified])
  qed
  ultimately show ?thesis by blast
qed

lemma get_bm_status_cases:
  "get_bm_status m n =
     (if bitat m (n * 2) then if bitat m (n * 2 + 1) then BLK_RECYCLED else BLK_FREE
      else if bitat m (n * 2 + 1) then BLK_MAPINVALID else BLK_BUSY)"
proof -
  have j: "(j::nat) < 2 \<longleftrightarrow> j = 0 \<or> j = 1" for j by linarith
  show ?thesis
    by (rule bit_word_eqI) (auto simp: get_bm_status_bit bit_3 bit_2 bit_1_iff j intro!: gr0I)
qed

text \<open>Block states are a store of four values over the bytes of the map.\<close>

datatype blk_state = St_busy | St_free | St_invalid | St_recycled

fun st_code :: "blk_state \<Rightarrow> byte" where
  "st_code St_busy = BLK_BUSY"
| "st_code St_free = BLK_FREE"
| "st_code St_invalid = BLK_MAPINVALID"
| "st_code St_recycled = BLK_RECYCLED"

definition blk_state :: "mstr \<Rightarrow> nat \<Rightarrow> blk_state" where
  "blk_state m n =
     (if bitat m (n * 2) then if bitat m (n * 2 + 1) then St_recycled else St_free
      else if bitat m (n * 2 + 1) then St_invalid else St_busy)"

fun st_bit0 :: "blk_state \<Rightarrow> bool" where
  "st_bit0 St_busy = False" | "st_bit0 St_free = True" | "st_bit0 St_invalid = False" | "st_bit0 St_recycled = True"

fun st_bit1 :: "blk_state \<Rightarrow> bool" where
  "st_bit1 St_busy = False" | "st_bit1 St_free = False" | "st_bit1 St_invalid = True" | "st_bit1 St_recycled = True"

lemma get_bm_status_state: "get_bm_status m n = st_code (blk_state m n)"
  by (simp add: get_bm_status_cases blk_state_def)

lemma blk_state_bits:
  "bitat m (n * 2) = st_bit0 (blk_state m n)" "bitat m (n * 2 + 1) = st_bit1 (blk_state m n)"
  by (auto simp: blk_state_def)

lemma blk_state_eq_iff:
  "blk_state m n = st \<longleftrightarrow> bitat m (n * 2) = st_bit0 st \<and> bitat m (n * 2 + 1) = st_bit1 st"
  by (cases st) (auto simp: blk_state_def)

lemma st_code_bit: "bit (st_code st) j \<longleftrightarrow> (j = 0 \<and> st_bit0 st) \<or> (j = 1 \<and> st_bit1 st)"
  by (cases st) (auto simp: bit_3 bit_2 bit_1_iff)

lemma mstr_bits_eqI:
  assumes "length a = length b" and "\<And>k. k < 8 * length a \<Longrightarrow> bitat a k = bitat b k"
  shows "a = b"
proof (rule nth_equalityI [OF assms(1)])
  fix i assume i: "i < length a"
  show "a ! i = b ! i"
  proof (rule bit_word_eqI)
    fix n assume n: "n < LENGTH(8)"
    then show "bit (a ! i) n = bit (b ! i) n"
      using assms(2) [of "8 * i + n"] i by (simp add: bitat_def)
  qed
qed

lemma bitat_set_bm_status:
  assumes "n < 4 * length m" and "k < 8 * length m"
  shows "bitat (set_bm_status m n (st_code st)) k =
    (if k = n * 2 then st_bit0 st else if k = n * 2 + 1 then st_bit1 st else bitat m k)"
proof (cases "k div 8 = n div 4")
  case True
  let ?k = "n mod 4"
  have len: "n div 4 < length m" using assms(1) by (simp add: less_mult_imp_div_less mult.commute)
  have "bit ((x AND NOT (push_bit (2 * ?k) 3)) OR push_bit (2 * ?k) (st_code st AND 3)) j =
      (if j = 2 * ?k then st_bit0 st else if j = 2 * ?k + 1 then st_bit1 st else bit x j)"
    if "j < 8" for j and x :: byte
    using that by (auto simp: bit_or_iff bit_and_iff bit_not_iff bit_push_bit_iff bit_3 st_code_bit)
  then have "bitat (set_bm_status m n (st_code st)) k =
      (if k mod 8 = 2 * ?k then st_bit0 st else if k mod 8 = 2 * ?k + 1 then st_bit1 st
       else bit (m ! (n div 4)) (k mod 8))"
    unfolding bitat_def set_bm_status_def double_index True
    using len by (simp only: nth_list_update_eq mod_less_divisor zero_less_numeral)
  moreover have "(k mod 8 = 2 * ?k) = (k = n * 2)" "(k mod 8 = 2 * ?k + 1) = (k = n * 2 + 1)"
    using True double_index [of n] div8_mod8_eq [of k "n * 2"] div8_mod8_eq [of k "n * 2 + 1"] by auto
  ultimately show ?thesis by (simp only: bitat_def True)
next
  case False
  then have "k \<noteq> n * 2" "k \<noteq> n * 2 + 1" using double_index [of n] by metis+
  then show ?thesis using False by (simp add: bitat_def set_bm_status_def double_index)
qed

lemma set_bm_status_bitput:
  assumes "n < 4 * length m"
  shows "set_bm_status m n (st_code st) = bitput (bitput m (n * 2) (st_bit0 st)) (n * 2 + 1) (st_bit1 st)"
proof (rule mstr_bits_eqI)
  fix k assume "k < 8 * length (set_bm_status m n (st_code st))"
  then have "k < 8 * length m" by (simp add: set_bm_status_def)
  then show "bitat (set_bm_status m n (st_code st)) k =
      bitat (bitput (bitput m (n * 2) (st_bit0 st)) (n * 2 + 1) (st_bit1 st)) k"
    using assms by (auto simp: bitat_set_bm_status bitstore.get_put)
qed (simp add: set_bm_status_def)

interpretation bmstore: indexed_store "\<lambda>_. True" "\<lambda>m n. n < 4 * length m" blk_state
  "\<lambda>m n st. set_bm_status m n (st_code st)"
proof
  fix m :: mstr and i st j
  assume i: "i < 4 * length m"
  show "(j < 4 * length (set_bm_status m i (st_code st))) = (j < 4 * length m)"
    by (simp add: set_bm_status_def)
  assume j: "j < 4 * length m"
  then have j2: "j * 2 < 8 * length m" "j * 2 + 1 < 8 * length m" by linarith+
  have ne: "j * 2 \<noteq> i * 2 + 1" "j * 2 + 1 \<noteq> i * 2" by presburger+
  show "blk_state (set_bm_status m i (st_code st)) j = (if i = j then st else blk_state m j)"
  proof (cases "i = j")
    case True
    then show ?thesis
      using j2 i by (simp only: blk_state_eq_iff bitat_set_bm_status if_True) simp
  next
    case False
    then show ?thesis
      using j2 i ne by (simp add: blk_state_def bitat_set_bm_status)
  qed
qed simp

section \<open>The state changes\<close>

fun bml_func_state :: "bml_func \<Rightarrow> blk_state" where
  "bml_func_state Bml_busy = St_busy"
| "bml_func_state Bml_free = St_free"
| "bml_func_state Bml_recycled = St_recycled"

lemma bml_func_status_code: "bml_func_status f = st_code (bml_func_state f)"
  by (cases f) simp_all

text \<open>
  The three state changes, done as two single-bit updates, are one update of the block's state;
  the returned value says whether the block was free or recycled before.
\<close>

lemma run_bml_func_eq:
  assumes "n < 4 * length m"
  shows "run_bml_func f n m =
    Inr (st_bit0 (blk_state m n), set_bm_status m n (st_code (bml_func_state f)))"
proof -
  have b: "n * 2 < 8 * length m" "n * 2 + 1 < 8 * length m" using assms by linarith+
  show ?thesis
    unfolding set_bm_status_bitput [OF assms]
    using b by (cases f) (simp_all add: bml_busy_def bml_free_def bml_recycled_def bit_ops_eq
      flip: blk_state_bits)
qed

lemma map_build_loop_eq:
  assumes "0 \<notin> set bs" and "\<forall>b \<in> set bs. b < 4 * length m" and "distinct bs"
  shows "map_build_loop f acq (bs @ 0 # rest) m cnt =
    Inr (bmstore.put_all m bs (bml_func_state f),
      cnt + (if acq then int (length bs) else - int (length (filter (\<lambda>b. \<not> st_bit0 (blk_state m b)) bs))))"
  using assms
proof (induction bs arbitrary: m cnt)
  case Nil
  then show ?case by simp
next
  case (Cons b bs)
  let ?m = "set_bm_status m b (st_code (bml_func_state f))"
  have b: "b \<noteq> 0" "b < 4 * length m" using Cons.prems by auto
  have len: "length ?m = length m" by (simp add: set_bm_status_def)
  have same: "blk_state ?m c = blk_state m c" if "c \<in> set bs" for c
    using that Cons.prems bmstore.get_put [of b m c] by auto
  then have "filter (\<lambda>c. \<not> st_bit0 (blk_state ?m c)) bs = filter (\<lambda>c. \<not> st_bit0 (blk_state m c)) bs"
    by (auto intro: filter_cong)
  then show ?case
    using Cons.IH [of ?m] Cons.prems b len run_bml_func_eq [OF b(2), of f]
    by simp
qed

lemma gvcst_map_build_eq:
  assumes "0 \<notin> set bs" and "\<forall>b \<in> set bs. b < 4 * length (lbm_body blk)" and "distinct bs"
    and "determine_bml_func cs csa = (f, cs', csa')"
  shows "\<exists>m. gvcst_map_build (bs @ 0 # rest) blk cs csa ctn =
      Inr (blk\<lparr>lbm_tn := ctn, lbm_body := m\<rparr>, cs', csa',
        (if cse_reference_cnt cs > 0 then int (length bs)
         else - int (length (filter (\<lambda>b. \<not> st_bit0 (blk_state (lbm_body blk) b)) bs))))
    \<and> (\<forall>n < 4 * length (lbm_body blk).
        blk_state m n = (if n \<in> set bs then bml_func_state f else blk_state (lbm_body blk) n))"
proof -
  have r: "cse_reference_cnt cs' = cse_reference_cnt cs"
    using assms(4) by (auto simp: determine_bml_func_def split: if_splits)
  show ?thesis
    using map_build_loop_eq [OF assms(1-3), of f "cse_reference_cnt cs' > 0" rest 0] r assms(2)
      bmstore.get_put_all [where s = "lbm_body blk" and ids = bs and v = "bml_func_state f"]
    by (auto simp: gvcst_map_build_def assms(4))
qed

text \<open>A new map: the map's own block is busy, every other block is free.\<close>

lemma blk_state_bytes:
  "k < 4 \<Longrightarrow> blk_state [0x54] k = (if k = 0 then St_busy else St_free)"
  "k < 4 \<Longrightarrow> blk_state [0x55] k = St_free"
proof -
  have "list_all (\<lambda>k. blk_state [0x54] k = (if k = 0 then St_busy else St_free) \<and> blk_state [0x55] k = St_free) [0..<4]"
    by code_simp
  then show "k < 4 \<Longrightarrow> blk_state [0x54] k = (if k = 0 then St_busy else St_free)"
    "k < 4 \<Longrightarrow> blk_state [0x55] k = St_free"
    by (simp_all add: list_all_iff)
qed

lemma blk_state_byte: "n < 4 * length m \<Longrightarrow> blk_state m n = blk_state [m ! (n div 4)] (n mod 4)"
proof -
  have z: "(n mod 4) * 2 div 8 = 0" "((n mod 4) * 2 + 1) div 8 = 0"
    "(n mod 4) * 2 mod 8 = 2 * (n mod 4)" "((n mod 4) * 2 + 1) mod 8 = 2 * (n mod 4) + 1"
    using double_index [of "n mod 4"] by simp_all
  show ?thesis
    unfolding blk_state_def bitat_def double_index z by simp
qed

lemma bml_newmap_spec:
  assumes "hsize < sz" and "n < 4 * (sz - hsize)"
  shows "blk_state (lbm_body (bml_newmap v hsize sz tn)) n = (if n = 0 then St_busy else St_free)"
proof -
  let ?m = "lbm_body (bml_newmap v hsize sz tn)"
  have "length ?m = sz - hsize" using assms(1) by (simp add: bml_newmap_def)
  then have e: "blk_state ?m n = blk_state [?m ! (n div 4)] (n mod 4)"
    using assms(2) by (intro blk_state_byte) simp
  show ?thesis
  proof (cases "n div 4 = 0")
    case True
    then have "?m ! (n div 4) = 0x54" "n mod 4 = n" by (auto simp: bml_newmap_def)
    then show ?thesis using e blk_state_bytes(1) [of n] True by auto
  next
    case False
    moreover have "n div 4 < sz - hsize" using assms(2) by (simp add: less_mult_imp_div_less mult.commute)
    ultimately have "?m ! (n div 4) = 0x55" by (auto simp: bml_newmap_def nth_Cons')
    then show ?thesis using e blk_state_bytes(2) [of "n mod 4"] False by auto
  qed
qed

section \<open>Finding set bits\<close>

lemma ffs_byte_eq: "j + k \<le> 8 \<Longrightarrow> ffs_byte c j k = find (bit c) [j..<j + k]"
proof (induction k arbitrary: j)
  case 0
  then show ?case by simp
next
  case (Suc k)
  have "ffs_byte c (Suc j) k = find (bit c) [Suc j..<Suc j + k]"
    using Suc.prems by (intro Suc.IH) simp
  moreover have "[j..<j + Suc k] = j # [Suc j..<Suc j + k]" by (simp add: upt_conv_Cons)
  ultimately show ?case using exp_and_bit [of j c] by (simp add: and.commute del: upt_Suc)
qed

lemma byte_positions:
  "j + k \<le> 8 \<Longrightarrow> find (bitat m) [8 * c + j..<8 * c + (j + k)] = map_option (\<lambda>i. 8 * c + i) (find (bit (m ! c)) [j..<j + k])"
proof -
  assume jk: "j + k \<le> 8"
  have "find (\<lambda>i. bitat m (8 * c + i)) [j..<j + k] = find (bit (m ! c)) [j..<j + k]"
    by (rule find_cong) (use jk in \<open>auto simp: bitat_def\<close>)
  then show ?thesis by (simp add: find_upt_shift)
qed

lemma ffs_part_eq:
  "j + k \<le> 8 \<Longrightarrow> (k = 0 \<or> c < length m) \<Longrightarrow>
    ffs_part m c j k = Inr (find (bitat m) [8 * c + j..<8 * c + j + k])"
  using byte_positions [of j k m c] by (auto simp: ffs_part_def ffs_byte_eq add.assoc)

lemma ffs_bytes_eq:
  "c + k \<le> length m \<Longrightarrow> ffs_bytes m c k = Inr (find (bitat m) [8 * c..<8 * (c + k)])"
proof (induction k arbitrary: c)
  case 0
  then show ?case by simp
next
  case (Suc k)
  have z: "find (bit (0::byte)) [0..<8] = None" by (simp add: find_None_iff)
  have "(if m ! c \<noteq> 0 then ffs_byte (m ! c) 0 8 else None) = find (bit (m ! c)) [0..<8]"
    using ffs_byte_eq [of 0 8] z by auto
  moreover have "find (bitat m) [8 * c..<8 * c + 8] = map_option (\<lambda>i. 8 * c + i) (find (bit (m ! c)) [0..<8])"
    using byte_positions [of 0 8 m c] by simp
  moreover have "find (bitat m) [8 * c..<8 * (c + Suc k)] =
      (case find (bitat m) [8 * c..<8 * c + 8] of
         None \<Rightarrow> find (bitat m) [8 * Suc c..<8 * (Suc c + k)] | Some x \<Rightarrow> Some x)"
  proof -
    have e: "8 * c + 8 = 8 * Suc c" "8 * (c + Suc k) = 8 * (Suc c + k)" by simp_all
    show ?thesis unfolding e by (rule find_upt_split) simp_all
  qed
  ultimately show ?case
    using Suc.IH [of "Suc c"] Suc.prems by (auto split: option.splits simp del: upt_Suc)
qed

lemma gtm_ffs_eq:
  assumes "offset + sz \<le> 8 * length m"
  shows "gtm_ffs offset m sz = Inr (find (bitat m) [offset..<offset + sz])"
proof -
  define i0 where "i0 = offset mod 8"
  define c where "c = offset div 8"
  define p1 where "p1 = (if i0 \<noteq> 0 then min (8 - i0) sz else 0)"
  define c1 where "c1 = (if i0 \<noteq> 0 then c + 1 else c)"
  define t where "t = (sz + offset) div 8"
  define i2 where "i2 = max (8 * c1) (8 * t)"
  have off: "offset = 8 * c + i0" "i0 < 8" by (simp_all add: i0_def c_def)
  have c1: "(offset + 7) div 8 = c1"
  proof (cases "i0 = 0")
    case True
    then show ?thesis using off by (simp add: c1_def)
  next
    case False
    then have "(offset + 7) div 8 = c + 1" using off by linarith
    then show ?thesis using False by (simp add: c1_def)
  qed
  have len: "p1 = 0 \<or> c < length m"
    using assms off by (auto simp: p1_def split: if_splits)
  have ph1: "(if i0 \<noteq> 0 then ffs_part m c i0 (min (8 - i0) sz) else Inr None)
      = Inr (find (bitat m) [offset..<offset + p1])"
  proof (cases "i0 = 0")
    case True
    then show ?thesis by (simp add: p1_def)
  next
    case False
    then show ?thesis
      using ffs_part_eq [of i0 "min (8 - i0) sz" c m] len off by (auto simp: p1_def)
  qed
  have t8: "8 * t \<le> sz + offset" "sz + offset < 8 * t + 8" by (simp_all add: t_def; linarith)+
  have ph2: "ffs_bytes m c1 (t - c1) = Inr (find (bitat m) [8 * c1..<8 * (c1 + (t - c1))])"
    using t8 assms off by (cases "c1 \<le> t"; intro ffs_bytes_eq; auto simp: c1_def split: if_splits)
  show ?thesis
  proof (cases "8 * c1 \<le> offset + sz")
    case True
    then have ct: "c1 \<le> t" using t8 by linarith
    have p1: "offset + p1 = 8 * c1" using True off by (auto simp: p1_def c1_def min_def)
    have i2: "i2 = 8 * t" using ct by (simp add: i2_def)
    have ph3: "ffs_part m t 0 (sz + offset - 8 * t) = Inr (find (bitat m) [8 * t..<offset + sz])"
    proof -
      have "sz + offset - 8 * t = 0 \<or> t < length m" using t8 assms by linarith
      then show ?thesis
        using ffs_part_eq [of 0 "sz + offset - 8 * t" t m] t8 by (simp add: add.commute)
    qed
    have spl: "find (bitat m) [offset..<offset + sz] =
       (case find (bitat m) [offset..<offset + p1] of
          Some x \<Rightarrow> Some x
        | None \<Rightarrow> (case find (bitat m) [8 * c1..<8 * t] of
             Some x \<Rightarrow> Some x | None \<Rightarrow> find (bitat m) [8 * t..<offset + sz]))"
      using find_upt_split [of offset "8 * c1" "offset + sz"] p1 True
        find_upt_split [of "8 * c1" "8 * t" "offset + sz"] t8 ct
      by (auto split: option.splits)
    have d: "(8 * t - 8 * c1) div 8 = t - c1" by (simp flip: diff_mult_distrib2)
    show ?thesis
      unfolding gtm_ffs_def Let_def i0_def [symmetric] c_def [symmetric] c1 c1_def [symmetric] t_def [symmetric] ph1 d
      using ph2 ph3 ct i2 by (auto simp: spl i2_def split: option.splits)
  next
    case False
    then have p1: "p1 = sz" "t - c1 = 0" using off t8 by (auto simp: p1_def c1_def min_def split: if_splits)
    then have "8 * c1 \<ge> 8 * t" by simp
    then show ?thesis
      unfolding gtm_ffs_def Let_def i0_def [symmetric] c_def [symmetric] c1 c1_def [symmetric] t_def [symmetric] ph1
      using False p1 by (auto simp: ffs_part_def max_def split: option.splits)
  qed
qed

text \<open>
  \<open>bmm_find_free\<close> looks at words of 32 bits; together they cover the range without gaps.
\<close>

lemma bmm_inner_eq:
  assumes "width \<le> topp - start" and "start < topp \<Longrightarrow> 0 < width" and "topp \<le> 8 * length m"
  shows "bmm_inner m start topp width = Inr (find (bitat m) [start..<topp])"
  using assms
proof (induction m start topp width rule: bmm_inner.induct)
  case (1 m start topp width)
  show ?case
  proof (cases "width > 0")
    case True
    then have le: "start + width \<le> topp" using "1.prems" by simp
    have "gtm_ffs start m width = Inr (find (bitat m) [start..<start + width])"
      using le "1.prems" by (intro gtm_ffs_eq) simp
    moreover have "bmm_inner m (start + width) topp (min (topp - (start + width)) 32)
        = Inr (find (bitat m) [start + width..<topp])"
      if "find (bitat m) [start..<start + width] = None"
      using that True le "1.prems" calculation by (intro "1.IH") auto
    ultimately show ?thesis
      using True find_upt_split [of start "start + width" topp "bitat m"] le
      by (subst bmm_inner.simps) (auto split: option.splits)
  next
    case False
    then have "topp \<le> start" using "1.prems" by force
    then show ?thesis using False by (subst bmm_inner.simps) simp
  qed
qed

lemma bmm_find_free_eq:
  fixes hint :: nat
  assumes "tot \<le> 8 * length m"
  defines "h \<equiv> (if hint \<ge> tot then 0 else hint)"
  shows "bmm_find_free hint m tot = Inr (find (bitat m) ([h..<tot] @ [0..<h]))"
proof (cases "tot = 0")
  case True
  then show ?thesis by (simp add: bmm_find_free_def h_def)
next
  case False
  then have h: "h < tot" by (simp add: h_def)
  have pass: "bmm_inner m start topp (min topp (32 * (start div 32) + 32) - start)
      = Inr (find (bitat m) [start..<topp])" if "topp \<le> tot" "start \<le> topp" for start topp
  proof (rule bmm_inner_eq)
    assume "start < topp"
    moreover have "start < 32 * (start div 32) + 32" using mod_less_divisor [of 32 start] by linarith
    ultimately show "0 < min topp (32 * (start div 32) + 32) - start" by simp
  qed (use that assms(1) in auto)
  show ?thesis
    using False h pass [of tot h] pass [of h 0] unfolding bmm_find_free_def Let_def h_def [symmetric]
    by (auto simp: find_append_case split: option.splits)
qed

section \<open>Searching the block states\<close>

lemma byte_zero_iff: "(v::byte) = 0 \<longleftrightarrow> (\<forall>j<8. \<not> bit v j)"
  by (auto simp: bit_eq_iff)

lemma all_less_8: "(\<forall>j<8. P j) \<longleftrightarrow> P 0 \<and> P 1 \<and> P 2 \<and> P 3 \<and> P 4 \<and> P 5 \<and> P 6 \<and> P (7::nat)"
  using less8_cases by (auto 4 3)

lemma and_exps:
  "(v::byte) AND 1 \<noteq> 0 \<longleftrightarrow> bit v 0" "v AND 2 \<noteq> 0 \<longleftrightarrow> bit v 1" "v AND 4 \<noteq> 0 \<longleftrightarrow> bit v 2"
  "v AND 8 \<noteq> 0 \<longleftrightarrow> bit v 3" "v AND 16 \<noteq> 0 \<longleftrightarrow> bit v 4" "v AND 32 \<noteq> 0 \<longleftrightarrow> bit v 5"
  "v AND 64 \<noteq> 0 \<longleftrightarrow> bit v 6" "v AND 128 \<noteq> 0 \<longleftrightarrow> bit v 7"
proof -
  have "v AND 2 ^ j \<noteq> 0 \<longleftrightarrow> bit v j" for j using and_exp_eq_0_iff_not_bit [of v j] by simp
  from this [of 0] this [of 1] this [of 2] this [of 3] this [of 4] this [of 5] this [of 6] this [of 7]
  show "(v::byte) AND 1 \<noteq> 0 \<longleftrightarrow> bit v 0" "v AND 2 \<noteq> 0 \<longleftrightarrow> bit v 1" "v AND 4 \<noteq> 0 \<longleftrightarrow> bit v 2"
    "v AND 8 \<noteq> 0 \<longleftrightarrow> bit v 3" "v AND 16 \<noteq> 0 \<longleftrightarrow> bit v 4" "v AND 32 \<noteq> 0 \<longleftrightarrow> bit v 5"
    "v AND 64 \<noteq> 0 \<longleftrightarrow> bit v 6" "v AND 128 \<noteq> 0 \<longleftrightarrow> bit v 7"
    by simp_all
qed

end
