(* ===== verification/Bitmap_Search.thy ===== *)
theory Bitmap_Search
  imports Bitmap
begin

text \<open>
  Correctness of the three searches over the block states of a local bitmap:
  \<open>bm_find_blk\<close> finds the first block that is not busy from the hint on, \<open>bml_find_free\<close> finds some
  block that is not busy if there is one, \<open>bml_find_busy\<close> finds the first busy block from the hint
  on and wraps around.
\<close>

section \<open>One byte of the map\<close>

lemma slot_bits:
  "bitat m (n * 2) = bit (m ! (n div 4)) (2 * (n mod 4))"
  "bitat m (n * 2 + 1) = bit (m ! (n div 4)) (2 * (n mod 4) + 1)"
  unfolding bitat_def double_index by (rule refl)+

lemma slot_bits_at:
  assumes "k < 4"
  shows "bitat m ((ptr * 4 + k) * 2) = bit (m ! ptr) (2 * k)"
    and "bitat m ((ptr * 4 + k) * 2 + 1) = bit (m ! ptr) (2 * k + 1)"
  using assms unfolding slot_bits by (simp_all add: div_mult_self3 add.commute)

lemma four_slots: "(k::nat) < 4 \<longleftrightarrow> k = 0 \<or> k = 1 \<or> k = 2 \<or> k = 3"
  by arith

lemma byte_zero_pairs:
  assumes "\<And>k. k < 4 \<Longrightarrow> bit (v::byte) (2 * k + 1) \<Longrightarrow> bit v (2 * k)"
  shows "v = 0 \<longleftrightarrow> \<not> bit v 0 \<and> \<not> bit v 2 \<and> \<not> bit v 4 \<and> \<not> bit v 6"
proof -
  have "bit v 1 \<longrightarrow> bit v 0" "bit v 3 \<longrightarrow> bit v 2" "bit v 5 \<longrightarrow> bit v 4" "bit v 7 \<longrightarrow> bit v 6"
    using assms [of 0] assms [of 1] assms [of 2] assms [of 3] by simp_all
  then show ?thesis unfolding byte_zero_iff all_less_8 by blast
qed

lemma bm_pick_find:
  assumes "\<And>k. k < 4 \<Longrightarrow> bit v (2 * k + 1) \<Longrightarrow> bit v (2 * k)"
  shows "(if v \<noteq> 0 then Some (bm_pick v ptr) else None) =
    map_option (\<lambda>k. (ptr * 4 + k, bit v (2 * k + 1))) (find (\<lambda>k. bit v (2 * k)) [0..<4])"
proof -
  have u: "[0..<4] = [0, 1, 2, 3::nat]" by (simp add: upt_rec)
  have z: "v = 0 \<longleftrightarrow> \<not> bit v 0 \<and> \<not> bit v 2 \<and> \<not> bit v 4 \<and> \<not> bit v 6"
    by (rule byte_zero_pairs) (rule assms)
  show ?thesis
    unfolding bm_pick_def and_exps u z
    by (cases "bit v 0"; cases "bit v 2"; cases "bit v 4"; cases "bit v 6") simp_all
qed

lemma last_byte_valid_bit:
  "bit (last_byte_valid b (2 * r)) j \<longleftrightarrow> bit b j \<and> (r = 0 \<or> 4 \<le> r \<or> j < 2 * r)"
proof (cases "j < 8")
  case True
  have "list_all (\<lambda>j. bit (0x3F::byte) j = (j < 6) \<and> bit (0x0F::byte) j = (j < 4) \<and> bit (0x03::byte) j = (j < 2)) [0..<8]"
    by code_simp
  then have "bit (0x3F::byte) j = (j < 6)" "bit (0x0F::byte) j = (j < 4)" "bit (0x03::byte) j = (j < 2)"
    using True by (simp_all add: list_all_iff)
  then show ?thesis by (auto simp: last_byte_valid_def bit_and_iff)
next
  case False
  then show ?thesis by (auto dest: bit_imp_le_length)
qed

lemma hint_mask_bit: "h < 4 \<Longrightarrow> bit (hint_mask v h) j \<longleftrightarrow> bit v j \<and> 2 * h \<le> j"
proof (cases "j < 8")
  case True
  assume h: "h < 4"
  have "list_all (\<lambda>j. bit (252::byte) j = (2 \<le> j) \<and> bit (240::byte) j = (4 \<le> j) \<and> bit (192::byte) j = (6 \<le> j)) [0..<8]"
    by code_simp
  then have "bit (252::byte) j = (2 \<le> j)" "bit (240::byte) j = (4 \<le> j)" "bit (192::byte) j = (6 \<le> j)"
    using True by (simp_all add: list_all_iff)
  then show ?thesis using h by (auto simp: hint_mask_def bit_and_iff four_slots)
next
  case False
  then show ?thesis by (auto dest: bit_imp_le_length)
qed

text \<open>A masked byte restricts the search to the slots from \<open>lo\<close> below \<open>hi\<close>.\<close>

lemma masked_pick:
  assumes v: "\<And>j. bit v j \<longleftrightarrow> bit (m ! ptr) j \<and> 2 * lo \<le> j \<and> j < 2 * hi" and "hi \<le> 4"
    and ok: "\<And>n. ptr * 4 + lo \<le> n \<Longrightarrow> n < ptr * 4 + hi \<Longrightarrow> blk_state m n \<noteq> St_invalid"
  shows "(if v \<noteq> 0 then Some (bm_pick v ptr) else None) =
    map_option (\<lambda>n. (n, bitat m (n * 2 + 1))) (find (\<lambda>n. bitat m (n * 2)) [ptr * 4 + lo..<ptr * 4 + hi])"
proof -
  have v0: "bit v (2 * k) \<longleftrightarrow> bitat m ((ptr * 4 + k) * 2) \<and> lo \<le> k \<and> k < hi" if "k < 4" for k
    unfolding v slot_bits_at(1) [OF that] by simp
  have v1: "bit v (2 * k + 1) \<longleftrightarrow> bitat m ((ptr * 4 + k) * 2 + 1) \<and> lo \<le> k \<and> k < hi" if "k < 4" for k
    unfolding v slot_bits_at(2) [OF that] by auto
  have nv: "bit v (2 * k)" if "k < 4" "bit v (2 * k + 1)" for k
    using that ok [of "ptr * 4 + k"] unfolding v0 [OF that(1)] v1 [OF that(1)]
    by (auto simp: blk_state_def split: if_splits)
  have "find (\<lambda>k. bit v (2 * k)) [0..<4] = find (\<lambda>k. bitat m ((ptr * 4 + k) * 2) \<and> lo \<le> k \<and> k < hi) [0..<4]"
    by (rule find_cong) (use v0 in simp_all)
  also have "\<dots> = find (\<lambda>k. bitat m ((ptr * 4 + k) * 2)) [lo..<hi]"
    by (rule find_upt_restrict [OF assms(2)])
  finally have f: "find (\<lambda>k. bit v (2 * k)) [0..<4] = find (\<lambda>k. bitat m ((ptr * 4 + k) * 2)) [lo..<hi]" .
  have u: "bit v (2 * k + 1) = bitat m ((ptr * 4 + k) * 2 + 1)"
    if "find (\<lambda>k. bitat m ((ptr * 4 + k) * 2)) [lo..<hi] = Some k" for k
  proof -
    have "k \<in> set [lo..<hi]" using that by (metis find_Some_iff nth_mem)
    then have k: "lo \<le> k" "k < hi" "k < 4" using assms(2) by simp_all
    show ?thesis unfolding v1 [OF k(3)] using k by simp
  qed
  have "(if v \<noteq> 0 then Some (bm_pick v ptr) else None) =
      map_option (\<lambda>k. (ptr * 4 + k, bit v (2 * k + 1))) (find (\<lambda>k. bit v (2 * k)) [0..<4])"
    by (rule bm_pick_find) (rule nv)
  then show ?thesis
    unfolding f find_upt_shift
    using u by (cases "find (\<lambda>k. bitat m ((ptr * 4 + k) * 2)) [lo..<hi]") simp_all
qed


section \<open>\<open>bm_find_blk\<close>\<close>

text \<open>The first block of a range that is not busy, and whether it is recycled.\<close>

definition first_free :: "mstr \<Rightarrow> nat \<Rightarrow> nat \<Rightarrow> (nat \<times> bool) option" where
  "first_free m lo hi =
     map_option (\<lambda>n. (n, blk_state m n = St_recycled)) (find (\<lambda>n. blk_state m n \<noteq> St_busy) [lo..<hi])"

definition no_invalid :: "mstr \<Rightarrow> nat \<Rightarrow> bool" where
  "no_invalid m tot \<longleftrightarrow> (\<forall>n < tot. blk_state m n \<noteq> St_invalid)"

lemma first_free_bits:
  assumes "\<And>n. lo \<le> n \<Longrightarrow> n < hi \<Longrightarrow> blk_state m n \<noteq> St_invalid"
  shows "first_free m lo hi = map_option (\<lambda>n. (n, bitat m (n * 2 + 1))) (find (\<lambda>n. bitat m (n * 2)) [lo..<hi])"
proof -
  have b: "(blk_state m n \<noteq> St_busy) = bitat m (n * 2)" if "n \<in> set [lo..<hi]" for n
    using assms [of n] that by (auto simp: blk_state_def split: if_splits)
  then have f: "find (\<lambda>n. blk_state m n \<noteq> St_busy) [lo..<hi] = find (\<lambda>n. bitat m (n * 2)) [lo..<hi]"
    by (intro find_cong) simp_all
  have "(blk_state m n = St_recycled) = bitat m (n * 2 + 1)"
    if "find (\<lambda>n. bitat m (n * 2)) [lo..<hi] = Some n" for n
    using that by (auto simp: find_Some_iff blk_state_def split: if_splits)
  then show ?thesis
    unfolding first_free_def f by (cases "find (\<lambda>n. bitat m (n * 2)) [lo..<hi]") simp_all
qed

lemma first_free_split:
  "i \<le> j \<Longrightarrow> j \<le> k \<Longrightarrow>
    first_free m i k = (case first_free m i j of None \<Rightarrow> first_free m j k | Some x \<Rightarrow> Some x)"
  unfolding first_free_def by (subst find_upt_split [of i j k]) (simp_all split: option.splits)

lemma pick_first_free:
  assumes "\<And>j. bit v j \<longleftrightarrow> bit (m ! ptr) j \<and> 2 * lo \<le> j \<and> j < 2 * hi" and "hi \<le> 4"
    and "no_invalid m tot" and "ptr * 4 + hi \<le> tot"
  shows "(if v \<noteq> 0 then Some (bm_pick v ptr) else None) = first_free m (ptr * 4 + lo) (ptr * 4 + hi)"
proof -
  have ok: "blk_state m n \<noteq> St_invalid" if "n < ptr * 4 + hi" for n
    using assms(3,4) that by (simp add: no_invalid_def)
  show ?thesis
    using masked_pick [OF assms(1,2)] first_free_bits [of "ptr * 4 + lo" "ptr * 4 + hi" m] ok by simp
qed

lemma bm_find_loop_eq:
  assumes "no_invalid m tot" and "(ptr + k) * 4 \<le> tot" and "ptr + k \<le> length m"
  shows "bm_find_loop m ptr k = Inr (first_free m (ptr * 4) ((ptr + k) * 4))"
  using assms(2,3)
proof (induction k arbitrary: ptr)
  case 0
  then show ?case by (simp add: first_free_def)
next
  case (Suc k)
  have "bit (m ! ptr) j \<longleftrightarrow> bit (m ! ptr) j \<and> 2 * 0 \<le> j \<and> j < 2 * 4" for j
    by (auto dest: bit_imp_le_length)
  from pick_first_free [OF this order_refl assms(1)] have
    "(if m ! ptr \<noteq> 0 then Some (bm_pick (m ! ptr) ptr) else None) = first_free m (ptr * 4) (Suc ptr * 4)"
    using Suc.prems by (simp add: add.commute)
  moreover have "first_free m (ptr * 4) ((ptr + Suc k) * 4) =
      (case first_free m (ptr * 4) (Suc ptr * 4) of
         None \<Rightarrow> first_free m (Suc ptr * 4) ((Suc ptr + k) * 4) | Some x \<Rightarrow> Some x)"
    unfolding add_Suc add_Suc_right by (rule first_free_split) simp_all
  ultimately show ?case using Suc.IH [of "Suc ptr"] Suc.prems by (auto split: if_splits option.splits)
qed

text \<open>The last byte of the map holds the slots below the total only.\<close>

lemma last_byte_index:
  fixes tot :: nat
  assumes "0 < tot"
  defines "topp \<equiv> (tot * 2 + 7) div 8 - 1"
  shows "topp * 4 < tot" and "tot \<le> topp * 4 + 4" and "topp = (tot + 3) div 4 - 1"
  using assms by linarith+

lemma last_byte_bit:
  fixes tot :: nat
  assumes "0 < tot" and "topp = (tot * 2 + 7) div 8 - 1"
  shows "bit (last_byte_valid b (tot * 2 mod 8)) j \<longleftrightarrow> bit b j \<and> j < 2 * (tot - topp * 4)"
proof -
  have i: "topp * 4 < tot" "tot \<le> topp * 4 + 4" using last_byte_index [OF assms(1)] assms(2) by simp_all
  have r: "tot mod 4 = (if tot - topp * 4 = 4 then 0 else tot - topp * 4)"
  proof (cases "tot = topp * 4 + 4")
    case False
    then have "tot - topp * 4 < 4" using i by linarith
    moreover have "tot = (tot - topp * 4) + topp * 4" using i by linarith
    ultimately show ?thesis by (metis mod_less mod_mult_self1 nat_neq_iff)
  qed simp
  have "bit b j \<Longrightarrow> j < 8" using bit_imp_le_length [of b j] by simp
  then show ?thesis
    unfolding double_index(2) last_byte_valid_bit r using i by auto
qed

lemma bm_find_rest_eq:
  assumes inv: "no_invalid m tot" and t: "0 < tot" "topp = (tot * 2 + 7) div 8 - 1" "topp < length m"
    and "ptr \<le> topp + 1"
  shows "bm_find_rest m (tot * 2) ptr topp = Inr (first_free m (ptr * 4) tot)"
proof -
  have i: "topp * 4 < tot" "tot \<le> topp * 4 + 4" using last_byte_index [OF t(1)] t(2) by simp_all
  show ?thesis
  proof (cases "ptr \<le> topp")
    case False
    then have "first_free m (ptr * 4) tot = None" using i by (simp add: first_free_def find_None_iff)
    then show ?thesis using False by (simp add: bm_find_rest_def)
  next
    case True
    have l: "bm_find_loop m ptr (topp - ptr) = Inr (first_free m (ptr * 4) (topp * 4))"
      using bm_find_loop_eq [OF inv, of ptr "topp - ptr"] True t(3) i by simp
    let ?v = "last_byte_valid (m ! topp) (tot * 2 mod 8)"
    have "bit ?v j \<longleftrightarrow> bit (m ! topp) j \<and> 2 * 0 \<le> j \<and> j < 2 * (tot - topp * 4)" for j
      using last_byte_bit [OF t(1,2)] by simp
    from pick_first_free [OF this _ inv] have
      p: "(if ?v \<noteq> 0 then Some (bm_pick ?v topp) else None) = first_free m (topp * 4) tot"
      using i by simp
    have z: "?v = 0" if "m ! topp = 0" using that by (simp add: last_byte_valid_def)
    show ?thesis
      using l True t(3) p z first_free_split [of "ptr * 4" "topp * 4" tot m] i
      by (auto simp: bm_find_rest_def Let_def max_def split: option.splits if_splits)
  qed
qed

lemma bm_find_blk_eq:
  assumes inv: "no_invalid m tot" and h: "hint < tot" and len: "tot \<le> 4 * length m"
  shows "bm_find_blk hint m tot = Inr (first_free m hint tot)"
proof -
  define topp where "topp = (tot * 2 + 7) div 8 - 1"
  have t: "0 < tot" using h by simp
  have i: "topp * 4 < tot" "tot \<le> topp * 4 + 4"
    using last_byte_index [OF t] by (simp_all add: topp_def)
  then have tl: "topp < length m" using len by linarith
  note rest = bm_find_rest_eq [OF inv t topp_def tl]
  define ptr where "ptr = hint div 4"
  define v where "v = hint_mask (if ptr = topp then last_byte_valid (m ! ptr) (tot * 2 mod 8) else m ! ptr) (hint mod 4)"
  define hi where "hi = (if ptr = topp then tot - topp * 4 else 4)"
  have hp: "hint = ptr * 4 + hint mod 4" by (simp add: ptr_def)
  have pt: "ptr \<le> topp" using h i by (simp add: ptr_def; linarith)
  have "bit (m ! ptr) j \<Longrightarrow> j < 8" for j using bit_imp_le_length [of "m ! ptr" j] by simp
  then have v: "bit v j \<longleftrightarrow> bit (m ! ptr) j \<and> 2 * (hint mod 4) \<le> j \<and> j < 2 * hi" for j
    using last_byte_bit [OF t topp_def] by (auto simp: v_def hi_def hint_mask_bit)
  have hi: "hi \<le> 4" "ptr * 4 + hi \<le> tot" "ptr = topp \<or> ptr * 4 + hi = (ptr + 1) * 4"
    "ptr = topp \<Longrightarrow> ptr * 4 + hi = tot"
    using i pt by (auto simp: hi_def)
  have p: "(if v \<noteq> 0 then Some (bm_pick v ptr) else None) = first_free m hint (ptr * 4 + hi)"
    using pick_first_free [OF v hi(1) inv hi(2)] hp by simp
  have r: "bm_find_rest m (tot * 2) (ptr + 1) topp = Inr (first_free m (ptr * 4 + hi) tot)"
  proof (cases "ptr = topp")
    case True
    then have "first_free m ((ptr + 1) * 4) tot = None" "first_free m tot tot = None"
      using i by (simp_all add: first_free_def)
    then show ?thesis using True rest [of "ptr + 1"] hi(4) by simp
  qed (use rest [of "ptr + 1"] hi(3) pt in \<open>auto simp: add.commute\<close>)
  have "hint \<le> ptr * 4 + hi" using h hp hi by (cases "ptr = topp") auto
  then have s: "first_free m hint tot = (case first_free m hint (ptr * 4 + hi) of
      None \<Rightarrow> first_free m (ptr * 4 + hi) tot | Some x \<Rightarrow> Some x)"
    using hi(2) by (rule first_free_split)
  show ?thesis
  proof (cases "hint = 0")
    case True
    then show ?thesis using rest [of 0] by (simp add: bm_find_blk_def Let_def topp_def)
  next
    case False
    have "rd m (int ptr) = Inr (m ! ptr)" using pt tl by simp
    then show ?thesis
      using False p r s unfolding bm_find_blk_def Let_def double_index(1) ptr_def [symmetric] topp_def [symmetric]
      by (auto simp flip: v_def split: if_splits option.splits)
  qed
qed

section \<open>\<open>bml_find_free\<close>\<close>

lemma byte_less_exp: "unat (v::byte) < 2 ^ n \<longleftrightarrow> (\<forall>j. bit v j \<longrightarrow> j < n)"
proof -
  have "unat v < 2 ^ n \<longleftrightarrow> take_bit n (unat v) = unat v" by (simp add: take_bit_nat_eq_self_iff)
  also have "\<dots> \<longleftrightarrow> (\<forall>j. bit v j \<longrightarrow> j < n)"
    by (auto simp: bit_eq_iff bit_take_bit_iff bit_unsigned_iff dest: bit_imp_le_length)
  finally show ?thesis .
qed

lemma free_bounds:
  "(v::byte) > 0x3F \<longleftrightarrow> \<not> (\<forall>j. bit v j \<longrightarrow> j < 6)"
  "(v::byte) > 0x0F \<longleftrightarrow> \<not> (\<forall>j. bit v j \<longrightarrow> j < 4)"
  "(v::byte) > 0x03 \<longleftrightarrow> \<not> (\<forall>j. bit v j \<longrightarrow> j < 2)"
  unfolding byte_less_exp [symmetric] by (auto simp: word_less_nat_alt)

lemma return_if_free_sound:
  assumes "return_if_free v ptr = Some n"
  shows "\<exists>k<4. n = ptr * 4 + k \<and> (bit v (2 * k) \<or> bit v (2 * k + 1))"
proof -
  have j8: "bit v j \<Longrightarrow> j < 8" for j using bit_imp_le_length [of v j] by simp
  have two: "bit v (2 * k) \<or> bit v (2 * k + 1)" if "bit v j" "2 * k \<le> j" "j < 2 * k + 2" for j k
  proof -
    have "j = 2 * k \<or> j = 2 * k + 1" using that by linarith
    then show ?thesis using that by auto
  qed
  have nz: "v \<noteq> 0" using assms by (auto simp: return_if_free_def)
  then have ex: "\<exists>j. bit v j" by (auto simp: bit_eq_iff)
  show ?thesis
    using assms nz unfolding return_if_free_def free_bounds
    using two [of _ 3] two [of _ 2] two [of _ 1] two [of _ 0] j8 ex
    by (fastforce split: if_splits)
qed

lemma return_if_free_None: "return_if_free v ptr = None \<longleftrightarrow> v = 0"
  by (simp add: return_if_free_def)

text \<open>
  A result for the blocks from \<open>lo\<close> below \<open>hi\<close>: a block of the range that is not busy, or none when
  all of them are busy.
\<close>

definition free_hit :: "mstr \<Rightarrow> nat \<Rightarrow> nat \<Rightarrow> nat option \<Rightarrow> bool" where
  "free_hit m lo hi r \<longleftrightarrow> (case r of
     Some n \<Rightarrow> lo \<le> n \<and> n < hi \<and> blk_state m n \<noteq> St_busy
   | None \<Rightarrow> \<forall>n. lo \<le> n \<and> n < hi \<longrightarrow> blk_state m n = St_busy)"

lemma free_hit_empty [simp]: "hi \<le> lo \<Longrightarrow> free_hit m lo hi None"
  by (auto simp: free_hit_def)

lemma free_hit_join:
  "free_hit m lo mid r \<Longrightarrow> lo \<le> mid \<Longrightarrow> mid \<le> hi \<Longrightarrow> (r = None \<Longrightarrow> free_hit m mid hi r') \<Longrightarrow>
    free_hit m lo hi (case r of None \<Rightarrow> r' | Some x \<Rightarrow> Some x)"
  by (auto simp: free_hit_def split: option.splits) (meson not_le_imp_less)+

lemma return_if_free_hit:
  assumes v: "\<And>j. bit v j \<longleftrightarrow> bit (m ! ptr) j \<and> j < 2 * hi" and hi: "hi \<le> 4"
  shows "free_hit m (ptr * 4) (ptr * 4 + hi) (return_if_free v ptr)"
proof (cases "return_if_free v ptr")
  case None
  then have z: "v = 0" by (simp add: return_if_free_None)
  have "blk_state m n = St_busy" if n: "ptr * 4 \<le> n" "n < ptr * 4 + hi" for n
  proof -
    define k where "k = n - ptr * 4"
    have k: "k < 4" "k < hi" "n = ptr * 4 + k" using n hi by (auto simp: k_def)
    have "\<not> bit (m ! ptr) (2 * k)" "\<not> bit (m ! ptr) (2 * k + 1)"
      using v [of "2 * k"] v [of "2 * k + 1"] z k(2) by simp_all
    then show ?thesis unfolding k(3) blk_state_def slot_bits_at [OF k(1)] by simp
  qed
  then show ?thesis using None by (simp add: free_hit_def)
next
  case (Some n)
  then obtain k where k: "k < 4" "n = ptr * 4 + k" "bit v (2 * k) \<or> bit v (2 * k + 1)"
    using return_if_free_sound by blast
  then have "k < hi" "bit (m ! ptr) (2 * k) \<or> bit (m ! ptr) (2 * k + 1)"
    using v [of "2 * k"] v [of "2 * k + 1"] by auto
  then have "blk_state m n \<noteq> St_busy"
    unfolding k(2) blk_state_def slot_bits_at [OF k(1)] by auto
  then show ?thesis using Some k \<open>k < hi\<close> by (simp add: free_hit_def)
qed

lemma bml_find_free_loop_hit:
  "ptr + k \<le> length m \<Longrightarrow> \<exists>r. bml_find_free_loop m ptr k = Inr r \<and> free_hit m (ptr * 4) ((ptr + k) * 4) r"
proof (induction k arbitrary: ptr)
  case 0
  then show ?case by simp
next
  case (Suc k)
  obtain r where r: "bml_find_free_loop m (Suc ptr) k = Inr r"
    "free_hit m (Suc ptr * 4) ((Suc ptr + k) * 4) r" using Suc.IH [of "Suc ptr"] Suc.prems by auto
  have "bit (m ! ptr) j \<longleftrightarrow> bit (m ! ptr) j \<and> j < 2 * 4" for j
    by (auto dest: bit_imp_le_length)
  from return_if_free_hit [OF this] have f: "free_hit m (ptr * 4) (Suc ptr * 4) (return_if_free (m ! ptr) ptr)"
    by (simp add: add.commute)
  have "free_hit m (ptr * 4) ((ptr + Suc k) * 4)
      (case return_if_free (m ! ptr) ptr of None \<Rightarrow> r | Some x \<Rightarrow> Some x)"
    by (rule free_hit_join [OF f]) (use r(2) in simp_all)
  then show ?case using r(1) Suc.prems by (auto split: option.splits)
qed

lemma bml_find_free_hit:
  assumes t: "0 < tot" and len: "tot \<le> 4 * length m" and h: "hint div 4 \<noteq> (tot + 3) div 4"
  shows "\<exists>r. bml_find_free hint m tot = Inr r \<and> free_hit m 0 tot r"
proof -
  define topp where "topp = (tot * 2 + 7) div 8 - 1"
  have i: "topp * 4 < tot" "tot \<le> topp * 4 + 4" "topp = (tot + 3) div 4 - 1"
    using last_byte_index [OF t] by (simp_all add: topp_def)
  then have tl: "topp < length m" using len by linarith
  have nb: "(tot * 2 + 7) div 8 = topp + 1" "(tot + 3) div 4 = topp + 1" using t i by (simp_all only: topp_def; linarith)+
  define h' where "h' = (if hint div 4 > topp + 1 then 0 else hint div 4)"
  have h': "h' \<le> topp" using h nb by (auto simp: h'_def)
  obtain r1 where r1: "bml_find_free_loop m h' (topp - h') = Inr r1" "free_hit m (h' * 4) (topp * 4) r1"
    using bml_find_free_loop_hit [of h' "topp - h'" m] h' tl by auto
  obtain r3 where r3: "bml_find_free_loop m 0 h' = Inr r3" "free_hit m 0 (h' * 4) r3"
    using bml_find_free_loop_hit [of 0 h' m] h' tl by auto
  define r2 where "r2 = return_if_free (last_byte_valid (m ! topp) (tot * 2 mod 8)) topp"
  have r2: "free_hit m (topp * 4) tot r2"
    using return_if_free_hit [OF last_byte_bit [OF t topp_def], of m topp] i(1,2) by (simp add: r2_def)
  have r2': "(if m ! topp \<noteq> 0 then r2 else None) = r2"
    by (simp add: r2_def last_byte_valid_def return_if_free_def)
  have r12: "free_hit m (h' * 4) tot (case r1 of None \<Rightarrow> r2 | Some x \<Rightarrow> Some x)"
    by (rule free_hit_join [OF r1(2)]) (use h' i r2 in simp_all)
  have r: "bml_find_free hint m tot =
      Inr (case (case r1 of None \<Rightarrow> r2 | Some x \<Rightarrow> Some x) of None \<Rightarrow> r3 | Some x \<Rightarrow> Some x)"
    unfolding bml_find_free_def Let_def double_index(1) nb h'_def [symmetric]
    using r1(1) r3(1) h' tl r2' by (auto simp: max_absorb2 simp flip: r2_def split: option.splits)
  have "free_hit m 0 tot (case (case r1 of None \<Rightarrow> r2 | Some x \<Rightarrow> Some x) of None \<Rightarrow> r3 | Some x \<Rightarrow> Some x)"
    using r12 r3(2) i h' by (cases r1; cases r2; cases r3) (auto simp: free_hit_def; meson leI)+
  then show ?thesis using r by blast
qed

section \<open>\<open>bml_find_busy\<close>\<close>

lemma and_pairs:
  "(v::byte) AND 0x3 = 0 \<longleftrightarrow> \<not> bit v 0 \<and> \<not> bit v 1" "v AND 0xc = 0 \<longleftrightarrow> \<not> bit v 2 \<and> \<not> bit v 3"
  "v AND 0x30 = 0 \<longleftrightarrow> \<not> bit v 4 \<and> \<not> bit v 5" "v AND 0xc0 = 0 \<longleftrightarrow> \<not> bit v 6 \<and> \<not> bit v 7"
proof -
  have "list_all (\<lambda>j. bit (0x3::byte) j = (j < 2) \<and> bit (0xc::byte) j = (2 \<le> j \<and> j < 4) \<and>
      bit (0x30::byte) j = (4 \<le> j \<and> j < 6) \<and> bit (0xc0::byte) j = (6 \<le> j)) [0..<8]"
    by code_simp
  then have b: "bit (0x3::byte) j = (j < 2)" "bit (0xc::byte) j = (2 \<le> j \<and> j < 4)"
      "bit (0x30::byte) j = (4 \<le> j \<and> j < 6)" "bit (0xc0::byte) j = (6 \<le> j)" if "j < 8" for j
    using that by (simp_all add: list_all_iff)
  show "(v::byte) AND 0x3 = 0 \<longleftrightarrow> \<not> bit v 0 \<and> \<not> bit v 1" "v AND 0xc = 0 \<longleftrightarrow> \<not> bit v 2 \<and> \<not> bit v 3"
    "v AND 0x30 = 0 \<longleftrightarrow> \<not> bit v 4 \<and> \<not> bit v 5" "v AND 0xc0 = 0 \<longleftrightarrow> \<not> bit v 6 \<and> \<not> bit v 7"
    unfolding byte_zero_iff bit_and_iff all_less_8 by (simp_all add: b)
qed

lemma busy_pick_find:
  assumes "\<And>k. k < 4 \<Longrightarrow> (\<not> bit v (2 * k) \<and> \<not> bit v (2 * k + 1) \<and> ok (ptr * 4 + k)) = P (ptr * 4 + k)"
    and "\<not> bit v 6 \<and> \<not> bit v 7 \<and> ok3 (ptr * 4 + 3) \<longleftrightarrow> P (ptr * 4 + 3)"
  shows "busy_pick v ptr ok ok3 = find P [ptr * 4..<ptr * 4 + 4]"
proof -
  have u: "[ptr * 4..<ptr * 4 + 4] = [ptr * 4, ptr * 4 + 1, ptr * 4 + 2, ptr * 4 + 3]"
    by (simp add: upt_rec)
  have p: "(\<not> bit v 0 \<and> \<not> bit v 1) \<and> ok (ptr * 4) \<longleftrightarrow> P (ptr * 4)"
    "(\<not> bit v 2 \<and> \<not> bit v 3) \<and> ok (ptr * 4 + 1) \<longleftrightarrow> P (ptr * 4 + 1)"
    "(\<not> bit v 4 \<and> \<not> bit v 5) \<and> ok (ptr * 4 + 2) \<longleftrightarrow> P (ptr * 4 + 2)"
    "(\<not> bit v 6 \<and> \<not> bit v 7) \<and> ok3 (ptr * 4 + 3) \<longleftrightarrow> P (ptr * 4 + 3)"
    using assms(1) [of 0] assms(1) [of 1] assms(1) [of 2] assms(2) by simp_all
  show ?thesis unfolding busy_pick_def and_pairs p u by simp
qed

lemma busy_slot:
  "k < 4 \<Longrightarrow> blk_state m (ptr * 4 + k) = St_busy \<longleftrightarrow> \<not> bit (m ! ptr) (2 * k) \<and> \<not> bit (m ! ptr) (2 * k + 1)"
  unfolding blk_state_def by (simp only: slot_bits_at) simp

lemma busy_loop_eq:
  "ptr + k \<le> length m \<Longrightarrow>
    busy_loop m ok ptr k = Inr (find (\<lambda>n. blk_state m n = St_busy \<and> ok n) [ptr * 4..<(ptr + k) * 4])"
proof (induction k arbitrary: ptr)
  case 0
  then show ?case by simp
next
  case (Suc k)
  let ?P = "\<lambda>n. blk_state m n = St_busy \<and> ok n"
  have p: "busy_pick (m ! ptr) ptr ok ok = find ?P [ptr * 4..<Suc ptr * 4]"
    using busy_pick_find [of "m ! ptr" ok ptr ?P ok] busy_slot [of _ m ptr] busy_slot [of 3 m ptr]
    by (simp add: add.commute)
  have "find ?P [ptr * 4..<(ptr + Suc k) * 4] = (case find ?P [ptr * 4..<Suc ptr * 4] of
      None \<Rightarrow> find ?P [Suc ptr * 4..<(Suc ptr + k) * 4] | Some x \<Rightarrow> Some x)"
    unfolding add_Suc add_Suc_right by (rule find_upt_split) simp_all
  then show ?case
    using Suc.IH [of "Suc ptr"] Suc.prems p by (simp split: option.splits)
qed

lemma busy_last_valid_bit:
  "r < 4 \<Longrightarrow> j < 8 \<Longrightarrow> bit (busy_last_valid b r) j \<longleftrightarrow> bit b j \<or> (0 < r \<and> 2 * r \<le> j)"
proof -
  assume r: "r < 4" and j: "j < 8"
  have "list_all (\<lambda>j. bit (0xc0::byte) j = (6 \<le> j) \<and> bit (0xf0::byte) j = (4 \<le> j) \<and> bit (0xfc::byte) j = (2 \<le> j)) [0..<8]"
    by code_simp
  then have b: "bit (0xc0::byte) j = (6 \<le> j)" "bit (0xf0::byte) j = (4 \<le> j)" "bit (0xfc::byte) j = (2 \<le> j)"
    using j by (simp_all add: list_all_iff)
  from r consider "r = 0" | "r = 1" | "r = 2" | "r = 3" by linarith
  then show ?thesis by cases (simp_all add: busy_last_valid_def bit_or_iff b)
qed

lemma busy_last_pick:
  assumes r: "r < 4" and e: "r \<noteq> 0 \<Longrightarrow> e = ptr * 4 + r" "r = 0 \<Longrightarrow> ptr * 4 + 4 \<le> e"
    and ok3: "ptr * 4 + 3 < e \<Longrightarrow> ok3 (ptr * 4 + 3) = ok (ptr * 4 + 3)"
  shows "busy_pick (busy_last_valid (m ! ptr) r) ptr ok ok3 =
    find (\<lambda>n. blk_state m n = St_busy \<and> ok n \<and> n < e) [ptr * 4..<ptr * 4 + 4]"
proof -
  let ?v = "busy_last_valid (m ! ptr) r"
  have v: "\<not> bit ?v (2 * k) \<and> \<not> bit ?v (2 * k + 1) \<longleftrightarrow> blk_state m (ptr * 4 + k) = St_busy \<and> ptr * 4 + k < e"
    if k: "k < 4" for k
    unfolding busy_slot [OF k]
    using busy_last_valid_bit [OF r, of "2 * k" "m ! ptr"] busy_last_valid_bit [OF r, of "2 * k + 1" "m ! ptr"] k e
    by (cases "r = 0") auto
  show ?thesis
    by (rule busy_pick_find) (use v v [of 3] ok3 in auto)
qed

lemma find_range_restrict:
  assumes "a \<le> lo" and "hi \<le> (n::nat)"
  shows "find (\<lambda>k. P k \<and> lo \<le> k \<and> k < hi) [a..<n] = find P [lo..<hi]"
proof -
  have "find (\<lambda>k. P k \<and> lo \<le> k \<and> k < hi) [a..<n] = find (\<lambda>k. (P k \<and> lo \<le> k \<and> k < hi) \<and> a \<le> k \<and> k < n) [0..<n]"
    by (rule find_upt_restrict [symmetric]) simp
  also have "\<dots> = find (\<lambda>k. P k \<and> lo \<le> k \<and> k < hi) [0..<n]"
    by (rule find_cong) (use assms in auto)
  finally show ?thesis using find_upt_restrict [OF assms(2)] by simp
qed

text \<open>The first part of the search covers the blocks from the hint to the end.\<close>

lemma busy_forward:
  assumes "hint < tot" and "topp * 4 < tot" "tot \<le> topp * 4 + 4" and "hp = hint div 4" and "topp < length m"
    and b: "b = busy_pick (busy_last_valid (m ! topp) (tot mod 4)) topp (\<lambda>n. n \<ge> hint) (\<lambda>n. n \<ge> hint \<and> n \<le> tot)"
  shows "\<exists>a. busy_loop m (\<lambda>n. n \<ge> hint) hp (topp - hp) = Inr a \<and>
    (case a of None \<Rightarrow> b | Some x \<Rightarrow> Some x) = find (\<lambda>n. blk_state m n = St_busy) [hint..<tot]"
proof -
  let ?Q = "\<lambda>n. blk_state m n = St_busy \<and> hint \<le> n \<and> n < tot"
  have hp: "hp * 4 \<le> hint" "hp \<le> topp" using assms(1-4) by linarith+
  have "busy_loop m (\<lambda>n. n \<ge> hint) hp (topp - hp) =
      Inr (find (\<lambda>n. blk_state m n = St_busy \<and> n \<ge> hint) [hp * 4..<topp * 4])"
    using busy_loop_eq [of hp "topp - hp" m] hp(2) assms(5) by simp
  also have "find (\<lambda>n. blk_state m n = St_busy \<and> n \<ge> hint) [hp * 4..<topp * 4] = find ?Q [hp * 4..<topp * 4]"
    by (rule find_cong) (use assms(2) in auto)
  finally have l: "busy_loop m (\<lambda>n. n \<ge> hint) hp (topp - hp) = Inr (find ?Q [hp * 4..<topp * 4])" .
  have r: "tot mod 4 \<noteq> 0 \<Longrightarrow> tot = topp * 4 + tot mod 4" "tot mod 4 = 0 \<Longrightarrow> topp * 4 + 4 \<le> tot"
  proof -
    have d: "tot = tot div 4 * 4 + tot mod 4" "tot mod 4 < 4" by simp_all
    show "tot = topp * 4 + tot mod 4" if "tot mod 4 \<noteq> 0"
    proof -
      have "\<not> tot div 4 < topp" "\<not> topp < tot div 4" using that d assms(2,3) by linarith+
      then show ?thesis using d(1) by (metis nat_neq_iff)
    qed
    show "topp * 4 + 4 \<le> tot" if "tot mod 4 = 0"
    proof -
      have "tot = tot div 4 * 4" using that d(1) by linarith
      then have "topp < tot div 4" using assms(2) by linarith
      then show ?thesis using \<open>tot = tot div 4 * 4\<close> by linarith
    qed
  qed
  have "b = find (\<lambda>n. blk_state m n = St_busy \<and> n \<ge> hint \<and> n < tot) [topp * 4..<topp * 4 + 4]"
    unfolding b by (rule busy_last_pick) (use r in auto)
  moreover have "find (\<lambda>n. blk_state m n = St_busy) [hint..<tot] = find ?Q [hp * 4..<topp * 4 + 4]"
    by (rule find_range_restrict [symmetric]) (use hp assms(3) in auto)
  moreover have "\<dots> = (case find ?Q [hp * 4..<topp * 4] of
      None \<Rightarrow> find ?Q [topp * 4..<topp * 4 + 4] | Some x \<Rightarrow> Some x)"
    by (rule find_upt_split) (use hp in auto)
  ultimately show ?thesis using l by auto
qed

text \<open>The second part covers the blocks below the hint, when it stays inside the map.\<close>

lemma busy_wrapped:
  assumes "hp = hint div 4" "hp < length m" and "hint mod 4 = 0 \<Longrightarrow> \<forall>n. hint \<le> n \<and> n < hint + 4 \<longrightarrow> blk_state m n \<noteq> St_busy"
    and b: "b = busy_pick (busy_last_valid (m ! hp) (hint mod 4)) hp (\<lambda>n. True) (\<lambda>n. True)"
  shows "\<exists>a. busy_loop m (\<lambda>n. True) 0 hp = Inr a \<and>
    (case a of None \<Rightarrow> b | Some x \<Rightarrow> Some x) = find (\<lambda>n. blk_state m n = St_busy) [0..<hint]"
proof -
  let ?Q = "\<lambda>n. blk_state m n = St_busy"
  have h: "hint = hp * 4 + hint mod 4" by (simp add: assms(1))
  have l: "busy_loop m (\<lambda>n. True) 0 hp = Inr (find ?Q [0..<hp * 4])"
    using busy_loop_eq [of 0 hp m] assms(2) by simp
  have "b = find (\<lambda>n. ?Q n \<and> True \<and> n < (if hint mod 4 = 0 then hint + 4 else hint)) [hp * 4..<hp * 4 + 4]"
    unfolding b by (rule busy_last_pick) (use h in auto)
  also have "\<dots> = find (\<lambda>n. ?Q n \<and> hp * 4 \<le> n \<and> n < hint) [hp * 4..<hp * 4 + 4]"
    by (rule find_cong) (use h assms(3) in auto)
  also have "\<dots> = find ?Q [hp * 4..<hint]"
    by (rule find_range_restrict) (use h mod_less_divisor [of 4 hint] in linarith)+
  finally have "(case find ?Q [0..<hp * 4] of None \<Rightarrow> b | Some x \<Rightarrow> Some x) = find ?Q [0..<hint]"
    using find_upt_split [of 0 "hp * 4" hint ?Q] h by (simp split: option.splits)
  then show ?thesis using l by blast
qed

lemma bml_find_busy_eq:
  assumes h: "hint < tot" and len: "tot \<le> 4 * length m" and a: "hint mod 4 = 0 \<Longrightarrow> hint + 4 \<le> tot"
  shows "bml_find_busy hint m tot = Inr (find (\<lambda>n. blk_state m n = St_busy) ([hint..<tot] @ [0..<hint]))"
proof -
  define topp where "topp = (tot * 2 + 7) div 8 - 1"
  define hp where "hp = hint div 4"
  have t: "0 < tot" using h by simp
  have i: "topp * 4 < tot" "tot \<le> topp * 4 + 4"
    using last_byte_index [OF t] by (simp_all add: topp_def)
  then have tl: "topp < length m" using len by linarith
  have hp: "hp \<le> topp" "hp < length m" using h i tl unfolding hp_def by linarith+
  obtain a1 where a1: "busy_loop m (\<lambda>n. n \<ge> hint) hp (topp - hp) = Inr a1"
    "(case a1 of None \<Rightarrow> busy_pick (busy_last_valid (m ! topp) (tot mod 4)) topp (\<lambda>n. n \<ge> hint) (\<lambda>n. n \<ge> hint \<and> n \<le> tot)
      | Some x \<Rightarrow> Some x) = find (\<lambda>n. blk_state m n = St_busy) [hint..<tot]"
    using busy_forward [OF h i hp_def tl refl] by blast
  have a2: "\<exists>a2. busy_loop m (\<lambda>n. True) 0 hp = Inr a2 \<and>
    (case a2 of None \<Rightarrow> busy_pick (busy_last_valid (m ! hp) (hint mod 4)) hp (\<lambda>n. True) (\<lambda>n. True)
      | Some x \<Rightarrow> Some x) = find (\<lambda>n. blk_state m n = St_busy) [0..<hint]"
    if "find (\<lambda>n. blk_state m n = St_busy) [hint..<tot] = None"
    using that a by (intro busy_wrapped [OF hp_def hp(2) _ refl]) (auto simp: find_None_iff)
  have z: "2 * (tot mod 4) div 2 = tot mod 4" "hint * 2 < tot * 2" using h by simp_all
  show ?thesis
    unfolding find_append_case bml_find_busy_def Let_def double_index
    unfolding double_index topp_def [symmetric] z(1)
    using z(2) a1 a2 tl hp
    by (auto simp: double_index max_absorb2 simp flip: hp_def split: option.splits)
qed

section \<open>Properties\<close>

text \<open>
  C17: \<open>bml_busy\<close>, \<open>bml_free\<close> and \<open>bml_recycled\<close> put the block into the state they are named after, change
  the state of no other block, and return whether the block was free or recycled before.
\<close>

theorem bml_state_change:
  assumes "n < 4 * length m" and "k < 4 * length m"
  shows "\<exists>m'. run_bml_func f n m = Inr (blk_state m n = St_free \<or> blk_state m n = St_recycled, m')
    \<and> length m' = length m \<and> get_bm_status m' n = bml_func_status f
    \<and> blk_state m' k = (if k = n then bml_func_state f else blk_state m k)"
proof -
  have "st_bit0 st = (st = St_free \<or> st = St_recycled)" for st by (cases st) simp_all
  then show ?thesis
    using run_bml_func_eq [OF assms(1), of f] bmstore.get_put [of n m k] bmstore.get_put [of n m n] assms
    by (auto simp: set_bm_status_def get_bm_status_state bml_func_status_code)
qed

theorem bml_state_change_witness:
  "\<exists>m'. run_bml_func Bml_recycled 5 [0, 0x54] =
      Inr (blk_state [0, 0x54] 5 = St_free \<or> blk_state [0, 0x54] 5 = St_recycled, m')
    \<and> length m' = length [0::byte, 0x54] \<and> get_bm_status m' 5 = bml_func_status Bml_recycled
    \<and> blk_state m' 6 = (if (6::nat) = 5 then bml_func_state Bml_recycled else blk_state [0, 0x54] 6)"
  by (rule bml_state_change) simp_all

text \<open>
  C16: \<open>gvcst_map_build\<close> puts every block of the update array into the state that \<open>DETERMINE_BML_FUNC\<close>
  selects, leaves all other blocks of the map as they were, stamps the transaction number, and its
  debug counter is the number of blocks acquired, or minus the number of busy blocks freed.
\<close>

theorem gvcst_map_build_updates:
  assumes "0 \<notin> set bs" and "\<forall>b \<in> set bs. b < 4 * length (lbm_body blk)" and "distinct bs"
    and "determine_bml_func cs csa = (f, cs', csa')"
  shows "\<exists>m. gvcst_map_build (bs @ 0 # rest) blk cs csa ctn =
      Inr (blk\<lparr>lbm_tn := ctn, lbm_body := m\<rparr>, cs', csa',
        (if cse_reference_cnt cs > 0 then int (length bs)
         else - int (length (filter (\<lambda>b. \<not> st_bit0 (blk_state (lbm_body blk) b)) bs))))
    \<and> (\<forall>n < 4 * length (lbm_body blk).
        blk_state m n = (if n \<in> set bs then bml_func_state f else blk_state (lbm_body blk) n))"
  by (rule gvcst_map_build_eq [OF assms])

definition example_cse :: map_cse where
  "example_cse = \<lparr>cse_blk = 512, cse_reference_cnt = 2, cse_level_drt_lvl0_free = False, cse_level_lcl_map = True\<rparr>"

definition example_region :: map_region where
  "example_region = \<lparr>nl_trunc_pid = 0, nl_highest_lbm_with_busy_blk = 0, hdr_db_got_to_v5_once = True,
     mu_reorg_upgrd_dwngrd_in_prog = False\<rparr>"

theorem gvcst_map_build_updates_witness:
  "\<exists>m. gvcst_map_build ([3, 5] @ 0 # []) (bml_newmap 6 16 18 7) example_cse example_region 8 =
      Inr ((bml_newmap 6 16 18 7)\<lparr>lbm_tn := 8, lbm_body := m\<rparr>, example_cse, example_region,
        (if cse_reference_cnt example_cse > 0 then int (length [3::nat, 5])
         else - int (length (filter (\<lambda>b. \<not> st_bit0 (blk_state (lbm_body (bml_newmap 6 16 18 7)) b)) [3, 5]))))
    \<and> (\<forall>n < 4 * length (lbm_body (bml_newmap 6 16 18 7)).
        blk_state m n = (if n \<in> set [3, 5] then bml_func_state Bml_busy
          else blk_state (lbm_body (bml_newmap 6 16 18 7)) n))"
  by (rule gvcst_map_build_updates)
    (simp_all add: bml_newmap_def example_cse_def example_region_def determine_bml_func_def)

text \<open>in a new local map the map's own block is busy and every other block is free.\<close>

theorem bml_newmap_states:
  assumes "blk_hdr_size < sz" and "n < 4 * (sz - blk_hdr_size)"
  shows "blk_state (lbm_body (bml_newmap v blk_hdr_size sz tn)) n = (if n = 0 then St_busy else St_free)"
  by (rule bml_newmap_spec [OF assms])

theorem bml_newmap_states_witness:
  "blk_state (lbm_body (bml_newmap 6 16 (16 + bm_minus_blkhdr_size 512) 1)) 511 = (if (511::nat) = 0 then St_busy else St_free)"
  by (rule bml_newmap_states) (simp_all add: bm_minus_blkhdr_size_def)

text \<open>
  C15: \<open>bm_find_blk\<close> returns the first block from the hint on that is not busy, together with whether it
  is recycled, and reports no free space only when every block from the hint on is busy.
\<close>

theorem bm_find_blk_first:
  assumes "no_invalid m tot" and "hint < tot" and "tot \<le> 4 * length m"
  shows "bm_find_blk hint m tot =
    Inr (map_option (\<lambda>n. (n, blk_state m n = St_recycled)) (find (\<lambda>n. blk_state m n \<noteq> St_busy) [hint..<tot]))"
  using bm_find_blk_eq [OF assms] by (simp add: first_free_def)

theorem bm_find_blk_first_witness:
  "bm_find_blk 1 [0x01, 0xC0] 8 =
    Inr (map_option (\<lambda>n. (n, blk_state [0x01, 0xC0] n = St_recycled))
      (find (\<lambda>n. blk_state [0x01, 0xC0] n \<noteq> St_busy) [1..<8]))"
proof (rule bm_find_blk_first)
  have "list_all (\<lambda>n. blk_state [0x01, 0xC0] n \<noteq> St_invalid) [0..<8]" by code_simp
  then show "no_invalid [0x01, 0xC0] 8" by (auto simp: no_invalid_def list_all_iff)
qed simp_all

text \<open>
  C18: \<open>bml_find_free\<close> returns a block of the map that is not busy if there is one and \<open>NO_FREE_SPACE\<close>
  only when all blocks are busy, provided that the byte of the hint is not the one after the map.
\<close>

theorem bml_find_free_correct:
  assumes "0 < tot" and "tot \<le> 4 * length m" and "hint div 4 \<noteq> (tot + 3) div 4"
  shows "\<exists>r. bml_find_free hint m tot = Inr r \<and>
    (case r of
       Some n \<Rightarrow> n < tot \<and> blk_state m n \<noteq> St_busy
     | None \<Rightarrow> \<forall>n < tot. blk_state m n = St_busy)"
  using bml_find_free_hit [OF assms] by (auto simp: free_hit_def split: option.splits)

theorem bml_find_free_correct_witness:
  "\<exists>r. bml_find_free 6 [0x04, 0, 0] 9 = Inr r \<and>
    (case r of
       Some n \<Rightarrow> n < 9 \<and> blk_state [0x04, 0, 0] n \<noteq> St_busy
     | None \<Rightarrow> \<forall>n < 9. blk_state [0x04, 0, 0] n = St_busy)"
  by (rule bml_find_free_correct) simp_all

text \<open>
  With a hint whose byte is the one right after the map (the guard tests \<open>>\<close> instead of \<open>>=\<close>),
  \<open>bml_find_free\<close> reads past the map, although the map has a free block.
\<close>

theorem bml_find_free_hint_overread:
  "blk_state [0x55] 0 = St_free \<and> bml_find_free 4 [0x55] 4 = Inl OutOfBounds"
  by code_simp

text \<open>
  C19: \<open>bml_find_busy\<close> returns the first busy block from the hint on, wrapping around to the blocks below
  the hint, if the hint lies in the map and, when it is the first block of a byte, this byte is not cut short by the end of
  the map. Without these conditions the result may be wrong, see below.
\<close>

theorem bml_find_busy_first:
  assumes "hint < tot" and "tot \<le> 4 * length m" and "hint mod 4 = 0 \<Longrightarrow> hint + 4 \<le> tot"
  shows "bml_find_busy hint m tot = Inr (find (\<lambda>n. blk_state m n = St_busy) ([hint..<tot] @ [0..<hint]))"
  by (rule bml_find_busy_eq [OF assms])

theorem bml_find_busy_first_witness:
  "bml_find_busy 3 [0x51, 0x55] 7 = Inr (find (\<lambda>n. blk_state [0x51, 0x55] n = St_busy) ([3..<7] @ [0..<3]))"
  by (rule bml_find_busy_first) simp_all

text \<open>
  outside of that range the result is wrong: with the hint on the last, partial byte the search
  returns a block number beyond the end of the map, and with a hint beyond the map it searches only the
  first byte.
\<close>

theorem bml_find_busy_bad_hint:
  "bml_find_busy 4 [0x55, 0x01] 5 = Inr (Some 5)
   \<and> blk_state [0x55, 0x54] 4 = St_busy \<and> bml_find_busy 8 [0x55, 0x54] 8 = Inr None"
  by code_simp

text \<open>
  C20: \<open>bmm_find_free\<close> returns the first set bit of the master map from the hint on, wrapping around to
  the bits below the hint, and -1 only when no bit is set.
\<close>

theorem bmm_find_free_first:
  assumes "total_bits \<le> 8 * length m"
  shows "bmm_find_free hint m total_bits =
    Inr (find (bitat m) ([if hint \<ge> total_bits then 0 else hint..<total_bits]
      @ [0..<if hint \<ge> total_bits then 0 else hint]))"
  by (rule bmm_find_free_eq [OF assms])

theorem bmm_find_free_first_witness:
  "bmm_find_free 20 [0, 0x10, 0, 0, 0, 1] 41 =
    Inr (find (bitat [0, 0x10, 0, 0, 0, 1]) ([if (20::nat) \<ge> 41 then 0 else 20..<41]
      @ [0..<if (20::nat) \<ge> 41 then 0 else 20]))"
  by (rule bmm_find_free_first) simp

end
