(* ===== verification/Mval.thy ===== *)
theory Mval
  imports Ydb_Prelude
begin

text \<open>
  Numeric values. An mval with the \<open>MV_INT\<close> bit holds a thousandth-scaled integer in \<open>m[1]\<close>; without it the
  value is \<open>sgn\<close>, a biased decimal exponent \<open>e\<close> and an 18-digit mantissa in \<open>m[1]\<close> and \<open>m[0]\<close>. Modelled: the
  table \<open>ten_pwr\<close>, \<open>promote\<close> and \<open>demote\<close> (\<open>promodemo.c\<close>), \<open>numcmp\<close> (\<open>numcmp.c\<close>).
  The abstract view is the value scaled by \<open>10 ^ 80\<close>, an integer (\<open>mnum_val\<close>).
\<close>

section \<open>Representation\<close>

datatype mnum =
    MV_int (mi_m1: int)
  | MV_nm (mf_sgn: bool) (mf_e: int) (mf_m1: int) (mf_m0: int)

text \<open>
  An mval, by the bits of its \<open>mvtype\<close>: undefined, a number, a string, or \<open>$ZYSQLNULL\<close>.
\<close>

datatype mval = MV_undef | MV_num mnum | MV_str mstr | MV_sqlnull

abbreviation (input) MV_XBIAS :: int where "MV_XBIAS \<equiv> 62"
abbreviation (input) EXP_INT_OVERF :: int where "EXP_INT_OVERF \<equiv> 69"
abbreviation (input) EXP_INT_UNDERF :: int where "EXP_INT_UNDERF \<equiv> 59"
abbreviation (input) EXPLO :: int where "EXPLO \<equiv> 20"
abbreviation (input) EXPHI :: int where "EXPHI \<equiv> 110"
abbreviation (input) MANT_LO :: int where "MANT_LO \<equiv> 100000000"
abbreviation (input) MANT_HI :: int where "MANT_HI \<equiv> 1000000000"

definition ten_pwr :: "int list" where
  "ten_pwr = [1, 10, 100, 1000, 10000, 100000, 1000000, 10000000, 100000000, 1000000000]"

text \<open>\<open>while (m1 >= *pwr) { exp++; pwr++; }\<close>\<close>

function pwr_loop :: "int \<Rightarrow> nat \<Rightarrow> nat res" where
  "pwr_loop m1 exp =
     (if exp < length ten_pwr
      then if m1 \<ge> ten_pwr ! exp then pwr_loop m1 (Suc exp) else Inr exp
      else Inl OutOfBounds)"
  by pat_completeness auto
termination
  by (relation "measure (\<lambda>(m1, exp). length ten_pwr - exp)") auto

declare pwr_loop.simps [simp del]

definition promote :: "int \<Rightarrow> mnum res" where
  "promote v_m1 =
     (if v_m1 = 0 then Inr (MV_nm False 0 0 0)
      else
        let sgn = (v_m1 < 0);
            m1 = (if sgn then - v_m1 else v_m1)
        in res_bind (pwr_loop m1 0) (\<lambda>exp.
           res_bind (rd ten_pwr (9 - int exp)) (\<lambda>p.
           Inr (MV_nm sgn (EXP_INT_UNDERF + int exp) (m1 * p) 0))))"

definition demote :: "int \<Rightarrow> int \<Rightarrow> bool \<Rightarrow> mnum res" where
  "demote v_m1 exp sign =
     (if exp = 0 then Inr (MV_int v_m1)
      else res_bind (rd ten_pwr (EXP_INT_OVERF - 1 - exp)) (\<lambda>p.
        Inr (MV_int (v_m1 sdiv (if sign then - p else p)))))"

text \<open>The comparison of two values in floating representation, the second half of \<open>numcmp\<close>.\<close>

definition numcmp_flt :: "mnum \<Rightarrow> mnum \<Rightarrow> int" where
  "numcmp_flt u v =
     (let u_sgn = (if mf_sgn u then -1 else 1);
          v_sgn = (if mf_sgn v then -1 else 1);
          exp_diff = mf_e u - mf_e v;
          m1_diff = mf_m1 u - mf_m1 v;
          m0_diff = mf_m0 u - mf_m0 v
      in if u_sgn \<noteq> v_sgn then u_sgn
         else if exp_diff \<noteq> 0 then (if 0 > exp_diff then - u_sgn else u_sgn)
         else if m1_diff \<noteq> 0 then (if 0 > m1_diff then - u_sgn else u_sgn)
         else if mf_m1 u = 0 then 0
         else if m0_diff \<noteq> 0 then (if 0 > m0_diff then - u_sgn else u_sgn)
         else 0)"

fun numcmp :: "mnum \<Rightarrow> mnum \<Rightarrow> int res" where
  "numcmp (MV_int a) (MV_int b) = Inr (if a > b then 1 else if a = b then 0 else -1)"
| "numcmp (MV_int a) v = res_bind (promote a) (\<lambda>w. Inr (numcmp_flt w v))"
| "numcmp u (MV_int b) = res_bind (promote b) (\<lambda>w. Inr (numcmp_flt u w))"
| "numcmp u v = Inr (numcmp_flt u v)"

section \<open>Values\<close>

fun mnum_ok :: "mnum \<Rightarrow> bool" where
  "mnum_ok (MV_int m) \<longleftrightarrow> - MANT_HI < m \<and> m < MANT_HI"
| "mnum_ok (MV_nm s e m1 m0) \<longleftrightarrow>
     (e = 0 \<and> \<not> s \<and> m1 = 0 \<and> m0 = 0) \<or>
     (0 < e \<and> e < 128 \<and> MANT_LO \<le> m1 \<and> m1 < MANT_HI \<and> 0 \<le> m0 \<and> m0 < MANT_HI)"

fun mnum_val :: "mnum \<Rightarrow> int" where
  "mnum_val (MV_int m) = m * 10 ^ 77"
| "mnum_val (MV_nm s e m1 m0) = (if s then -1 else 1) * (m1 * MANT_HI + m0) * 10 ^ nat e"

lemma ten_pwr_nth: "i < 10 \<Longrightarrow> ten_pwr ! i = 10 ^ i"
proof -
  assume i: "i < 10"
  have "list_all (\<lambda>i. ten_pwr ! i = 10 ^ i) [0..<10]" by code_simp
  then show ?thesis using i by (simp add: list_all_iff)
qed

lemma length_ten_pwr [simp]: "length ten_pwr = 10"
  by (simp add: ten_pwr_def)

lemma rd_ten_pwr: "0 \<le> i \<Longrightarrow> i < 10 \<Longrightarrow> rd ten_pwr i = Inr (10 ^ nat i)"
  by (simp add: ten_pwr_nth nat_less_iff)

lemma pwr_loop_spec:
  assumes "0 < m1" and "m1 < MANT_HI" and "\<forall>i < exp. 10 ^ i \<le> m1" and "exp \<le> 9"
  shows "\<exists>d. pwr_loop m1 exp = Inr d \<and> d \<le> 9 \<and> m1 < 10 ^ d \<and> (\<forall>i < d. 10 ^ i \<le> m1)"
  using assms
proof (induction "9 - exp" arbitrary: exp)
  case 0
  then show ?case by (intro exI [of _ 9]) (subst pwr_loop.simps, simp add: ten_pwr_nth)
next
  case (Suc k)
  show ?case
  proof (cases "m1 \<ge> ten_pwr ! exp")
    case True
    then have "\<forall>i < Suc exp. 10 ^ i \<le> m1" using Suc.prems Suc.hyps(2) by (auto simp: less_Suc_eq ten_pwr_nth)
    then show ?thesis
      using Suc.hyps(1) [of "Suc exp"] Suc.hyps(2) Suc.prems True by (subst pwr_loop.simps) auto
  next
    case False
    then show ?thesis
      using Suc.prems Suc.hyps(2) by (intro exI [of _ exp]) (subst pwr_loop.simps, simp add: ten_pwr_nth)
  qed
qed

text \<open>\<open>promote\<close> succeeds on every \<open>MV_INT\<close> value, normalises the mantissa and keeps the value.\<close>

lemma promote_spec:
  assumes "- MANT_HI < m" and "m < MANT_HI"
  shows "\<exists>s e m1. promote m = Inr (MV_nm s e m1 0) \<and> mnum_ok (MV_nm s e m1 0)
    \<and> mnum_val (MV_nm s e m1 0) = mnum_val (MV_int m)"
proof (cases "m = 0")
  case True
  then show ?thesis by (intro exI [of _ False]) (simp add: promote_def)
next
  case False
  define a where "a = \<bar>m\<bar>"
  have a: "0 < a" "a < MANT_HI" using assms False by (auto simp: a_def)
  obtain d where d: "pwr_loop a 0 = Inr d" "d \<le> 9" "a < 10 ^ d" "\<forall>i < d. 10 ^ i \<le> a"
    using pwr_loop_spec [OF a, of 0] by auto
  have d0: "0 < d" using d(3) a by (cases d) auto
  have ms: "(if m < 0 then - m else m) = a" by (simp add: a_def)
  have p: "promote m = Inr (MV_nm (m < 0) (59 + int d) (a * 10 ^ (9 - d)) 0)"
    using False d(1,2) by (simp add: promote_def Let_def ms nat_diff_distrib ten_pwr_nth)
  have "10 ^ (d - 1) \<le> a" using d(4) d0 by simp
  then have "10 ^ (d - 1) * 10 ^ (9 - d) \<le> a * 10 ^ (9 - d)" by (intro mult_right_mono) auto
  moreover have "(10::int) ^ (d - 1) * 10 ^ (9 - d) = 100000000"
    using d0 d(2) by (simp flip: power_add)
  ultimately have lo: "100000000 \<le> a * 10 ^ (9 - d)" by (simp only:)
  have "a * 10 ^ (9 - d) < 10 ^ d * 10 ^ (9 - d)" using d(3) by (intro mult_strict_right_mono) auto
  moreover have "(10::int) ^ d * 10 ^ (9 - d) = 1000000000" using d(2) by (simp flip: power_add)
  ultimately have "a * 10 ^ (9 - d) < 1000000000" by (simp only:)
  then have ok: "mnum_ok (MV_nm (m < 0) (59 + int d) (a * 10 ^ (9 - d)) 0)" using lo d(2) by auto
  have n: "nat (59 + int d) = 59 + d" by simp
  have "(10::int) ^ (9 - d) * 1000000000 * 10 ^ (59 + d) = 10 ^ (9 - d) * 10 ^ 9 * 10 ^ (59 + d)" by simp
  also have "\<dots> = 10 ^ (9 - d + 9 + (59 + d))" by (simp only: power_add)
  also have "9 - d + 9 + (59 + d) = 77" using d(2) by simp
  finally have k: "(10::int) ^ (9 - d) * 1000000000 * 10 ^ (59 + d) = 10 ^ 77" .
  have "mnum_val (MV_nm (m < 0) (59 + int d) (a * 10 ^ (9 - d)) 0) =
      (if m < 0 then -1 else 1) * a * (10 ^ (9 - d) * 1000000000 * 10 ^ (59 + d))"
    unfolding mnum_val.simps n by (simp only: add_0_right mult.assoc)
  also have "\<dots> = m * 10 ^ 77" unfolding k by (simp add: a_def)
  finally show ?thesis using p ok by auto
qed

lemma mag_order:
  fixes M M' :: int
  assumes "M < 10 ^ 18" and "10 ^ 17 \<le> M'" and "0 \<le> M" and "e < e'"
  shows "M * 10 ^ e < M' * 10 ^ (e' :: nat)"
proof -
  have "M * 10 ^ e < 10 ^ 18 * 10 ^ e" using assms(1) by simp
  also have "\<dots> = 10 ^ 17 * 10 ^ Suc e" by simp
  also have "\<dots> \<le> M' * 10 ^ e'"
    using assms(2,4) by (intro mult_mono power_increasing) auto
  finally show ?thesis .
qed

lemma numcmp_flt_val:
  assumes "mnum_ok u" and "mnum_ok v" and "u = MV_nm su eu u1 u0" and "v = MV_nm sv ev v1 v0"
  shows "numcmp_flt u v = sgn (mnum_val u - mnum_val v)"
proof -
  define U where "U = u1 * MANT_HI + u0"
  define V where "V = v1 * MANT_HI + v0"
  have vu: "mnum_val u = (if su then -1 else 1) * (U * 10 ^ nat eu)" by (simp add: assms(3) U_def)
  have vv: "mnum_val v = (if sv then -1 else 1) * (V * 10 ^ nat ev)" by (simp add: assms(4) V_def)
  have ou: "(eu = 0 \<and> \<not> su \<and> u1 = 0 \<and> u0 = 0 \<and> U = 0) \<or> (0 < eu \<and> 10 ^ 17 \<le> U \<and> U < 10 ^ 18 \<and> 0 \<le> u0 \<and> u0 < MANT_HI \<and> 0 < u1)"
    using assms(1) by (auto simp: assms(3) U_def)
  have ov: "(ev = 0 \<and> \<not> sv \<and> v1 = 0 \<and> v0 = 0 \<and> V = 0) \<or> (0 < ev \<and> 10 ^ 17 \<le> V \<and> V < 10 ^ 18 \<and> 0 \<le> v0 \<and> v0 < MANT_HI \<and> 0 < v1)"
    using assms(2) by (auto simp: assms(4) V_def)
  have U0: "0 \<le> U * 10 ^ nat eu" "su \<Longrightarrow> 0 < U * 10 ^ nat eu" using ou by auto
  have V0: "0 \<le> V * 10 ^ nat ev" "sv \<Longrightarrow> 0 < V * 10 ^ nat ev" using ov by auto
  have ne: "eu \<ge> 0" "ev \<ge> 0" using ou ov by auto
  have lt: "eu < ev \<Longrightarrow> U * 10 ^ nat eu < V * 10 ^ nat ev"
    using mag_order [of U V "nat eu" "nat ev"] ou ov ne by auto
  have gt: "ev < eu \<Longrightarrow> V * 10 ^ nat ev < U * 10 ^ nat eu"
    using mag_order [of V U "nat ev" "nat eu"] ou ov ne by auto
  have mant: "u1 < v1 \<Longrightarrow> U < V" "v1 < u1 \<Longrightarrow> V < U"
    "u1 = v1 \<Longrightarrow> u0 < v0 \<Longrightarrow> U < V" "u1 = v1 \<Longrightarrow> v0 < u0 \<Longrightarrow> V < U"
    using ou ov by (auto simp: U_def V_def)
  have nf: "numcmp_flt u v = (let u_sgn = (if su then -1 else 1) in
      if su \<noteq> sv then u_sgn
      else if eu \<noteq> ev then (if eu < ev then - u_sgn else u_sgn)
      else if u1 \<noteq> v1 then (if u1 < v1 then - u_sgn else u_sgn)
      else if u1 = 0 then 0
      else if u0 \<noteq> v0 then (if u0 < v0 then - u_sgn else u_sgn) else 0)"
    by (simp add: numcmp_flt_def Let_def assms(3,4))
  show ?thesis
  proof (cases "su = sv")
    case False
    then show ?thesis
      unfolding nf vu vv using U0 V0 by (cases su) (auto simp: sgn_if)
  next
    case True
    consider "eu < ev" | "ev < eu" | "eu = ev" by linarith
    then show ?thesis
    proof cases
      case 3
      have s: "sgn (mnum_val u - mnum_val v) = (if su then -1 else 1) * sgn (U - V)"
        unfolding vu vv 3 True by (simp add: sgn_mult flip: left_diff_distrib right_diff_distrib)
      have z: "u1 = 0 \<Longrightarrow> u1 = v1 \<Longrightarrow> U = V" using ou ov by auto
      show ?thesis unfolding s using mant z True 3
        by (auto simp: nf U_def V_def sgn_if)
    qed (unfold nf vu vv, use lt gt True in \<open>auto simp: sgn_if\<close>)
  qed
qed

lemma numcmp_val:
  assumes "mnum_ok u" and "mnum_ok v"
  shows "numcmp u v = Inr (sgn (mnum_val u - mnum_val v))"
proof -
  have flt: "\<exists>s e m1 m0. w = MV_nm s e m1 m0" if "\<not> (\<exists>a. w = MV_int a)" for w
    using that by (cases w) auto
  show ?thesis
  proof (cases u)
    case a: (MV_int a)
    obtain s e m1 where p: "promote a = Inr (MV_nm s e m1 0)" "mnum_ok (MV_nm s e m1 0)"
      "mnum_val (MV_nm s e m1 0) = mnum_val u" using promote_spec [of a] assms(1) a by auto
    show ?thesis
    proof (cases v)
      case (MV_int b)
      have "mnum_val u - mnum_val v = (a - b) * 10 ^ 77" using a MV_int by (simp add: left_diff_distrib)
      then have "sgn (mnum_val u - mnum_val v) = sgn (a - b)" by (simp only: sgn_mult) simp
      then show ?thesis using a MV_int by (simp add: sgn_if del: mnum_val.simps)
    next
      case (MV_nm s' e' m1' m0')
      then show ?thesis using numcmp_flt_val [OF p(2) assms(2) refl MV_nm] p a
        by (simp del: mnum_val.simps)
    qed
  next
    case a: (MV_nm s' e' m1' m0')
    show ?thesis
    proof (cases v)
      case (MV_int b)
      obtain s e m1 where p: "promote b = Inr (MV_nm s e m1 0)" "mnum_ok (MV_nm s e m1 0)"
        "mnum_val (MV_nm s e m1 0) = mnum_val v" using promote_spec [of b] assms(2) MV_int by auto
      show ?thesis using numcmp_flt_val [OF assms(1) p(2) a refl] p a MV_int
        by (simp del: mnum_val.simps)
    next
      case (MV_nm s'' e'' m1'' m0'')
      then show ?thesis using numcmp_flt_val [OF assms a] a by (simp del: mnum_val.simps)
    qed
  qed
qed

end
