(* ===== verification/Arith.thy ===== *)
theory Arith
  imports Mval
begin

text \<open>
  Addition and subtraction of numeric values (\<open>sr_port/op_add.c\<close>): the fast path for two \<open>MV_INT\<close> operands and \<open>add_mvals\<close>, which
  aligns two 18-digit mantissas, adds or subtracts them, normalizes the result and stores it as \<open>MV_INT\<close> when it fits. All intermediate
  values stay below \<open>2 ^ 31\<close>, so the \<open>int4\<close> variables are integers here.
\<close>

section \<open>The operations\<close>

text \<open>The loop that turns an \<open>MV_INT\<close> into a mantissa; at most eight rounds for a positive number.\<close>

fun scale_up :: "nat \<Rightarrow> int \<Rightarrow> int \<Rightarrow> (int \<times> int) res" where
  "scale_up fuel m1 exp =
     (if m1 < MANT_LO then (case fuel of 0 \<Rightarrow> Inl NoReturn | Suc n \<Rightarrow> scale_up n (m1 * 10) (exp - 1)) else Inr (m1, exp))"

declare scale_up.simps [simp del]

text \<open>Sign, exponent and mantissa of an operand; \<open>None\<close> for the integer zero.\<close>

fun unpack_mval :: "mnum \<Rightarrow> (bool \<times> int \<times> int \<times> int) option res" where
  "unpack_mval (MV_nm s e m1 m0) = Inr (Some (s, e, m1, m0))"
| "unpack_mval (MV_int m1) =
     (if m1 = 0 then Inr None
      else res_bind (scale_up 8 (if m1 > 0 then m1 else - m1) (EXP_INT_OVERF - 1)) (\<lambda>(m1', e). Inr (Some (\<not> m1 > 0, e, m1', 0))))"

text \<open>The mantissa with the smaller exponent loses \<open>delta\<close> digits.\<close>

definition shift_mantissa :: "int \<Rightarrow> int \<Rightarrow> int \<Rightarrow> (int \<times> int) res" where
  "shift_mantissa delta n1 n0 =
     (if delta \<ge> 9 then res_bind (rd ten_pwr (delta - 9)) (\<lambda>p. Inr (0, n1 div p))
      else if delta > 0 then
        res_bind (rd ten_pwr delta) (\<lambda>factor.
        res_bind (rd ten_pwr (9 - delta)) (\<lambda>p.
          let x = n1; n1 = n1 div factor
          in Inr (n1, (x - n1 * factor) * p + n0 div factor)))
      else Inr (n1, n0))"

definition add_mantissas :: "int \<Rightarrow> int \<Rightarrow> int \<Rightarrow> int \<Rightarrow> int \<Rightarrow> int \<times> int \<times> int" where
  "add_mantissas exp m1 m0 n1 n0 =
     (let m0 = m0 + n0;
          (m1, m0) = (if m0 \<ge> MANT_HI then (m1 + 1, m0 - MANT_HI) else (m1, m0));
          m1 = m1 + n1
      in if m1 \<ge> MANT_HI then (let x = m1 div 10 in (exp + 1, x, m0 div 10 + (m1 - x * 10) * MANT_LO))
         else (exp, m1, m0))"

text \<open>The loop \<open>for (delta = 0 ; m1 < MANT_LO ; delta++) m1 *= 10\<close>.\<close>

fun scale_count :: "nat \<Rightarrow> int \<Rightarrow> int \<Rightarrow> (int \<times> int) res" where
  "scale_count fuel m1 delta =
     (if m1 < MANT_LO then (case fuel of 0 \<Rightarrow> Inl NoReturn | Suc n \<Rightarrow> scale_count n (m1 * 10) (delta + 1)) else Inr (m1, delta))"

declare scale_count.simps [simp del]

text \<open>Subtraction of the smaller from the larger mantissa and normalization; \<open>None\<close> if nothing is left.\<close>

definition sub_mantissas :: "int \<Rightarrow> int \<Rightarrow> int \<Rightarrow> int \<Rightarrow> int \<Rightarrow> (int \<times> int \<times> int) option res" where
  "sub_mantissas exp m1 m0 n1 n0 =
     (let m0 = m0 - n0;
          (m1, m0) = (if m0 < 0 then (m1 - 1, m0 + MANT_HI) else (m1, m0));
          m1 = m1 - n1
      in if m1 = 0 \<and> m0 = 0 then Inr None
         else
           let (exp, m1, m0) = (if m1 = 0 then (exp - 9, m0, 0) else (exp, m1, m0));
               (exp, m1) = (if m1 < 0 then (exp - 1, m1 + MANT_HI) else (exp, m1))
           in if m1 < MANT_LO then
                res_bind (scale_count 9 m1 0) (\<lambda>(m1, delta).
                res_bind (rd ten_pwr (9 - delta)) (\<lambda>factor.
                res_bind (rd ten_pwr delta) (\<lambda>p.
                  let x = m0 div factor
                  in Inr (Some (exp - delta, m1 + x, (m0 - x * factor) * p)))))
              else Inr (Some (exp, m1, m0)))"

text \<open>The result as \<open>MV_INT\<close> if it fits, with the error and the underflow to \<open>literal_zero\<close>.\<close>

definition pack_result :: "bool \<Rightarrow> int \<Rightarrow> int \<Rightarrow> int \<Rightarrow> mnum res" where
  "pack_result rsign exp m1 m0 =
     res_bind (if exp < EXP_INT_OVERF \<and> exp > EXP_INT_UNDERF \<and> m0 = 0
               then res_bind (rd ten_pwr (EXP_INT_OVERF - 1 - exp)) (\<lambda>factor.
                 let x = m1 div factor in Inr (if x * factor = m1 then Some (if rsign then - x else x) else None))
               else Inr None) (\<lambda>r. case r of
       Some x \<Rightarrow> Inr (MV_int x)
     | None \<Rightarrow>
         if EXPHI \<le> exp then Inl ERR_NUMOFLOW
         else if EXPLO > exp then Inr (MV_int 0)
         else Inr (MV_nm rsign exp m1 m0))"

fun result_is_v :: "bool \<Rightarrow> mnum \<Rightarrow> mnum" where
  "result_is_v subtraction (MV_int m) = MV_int (if subtraction then - m else m)"
| "result_is_v subtraction (MV_nm s e m1 m0) = MV_nm (if subtraction then \<not> s else s) e m1 m0"

text \<open>\<open>add_mvals\<close> from the alignment on.\<close>

definition add_aligned :: "mnum \<Rightarrow> mnum \<Rightarrow> bool \<Rightarrow> bool \<times> int \<times> int \<times> int \<Rightarrow> bool \<times> int \<times> int \<times> int \<Rightarrow> mnum res" where
  "add_aligned u v subtraction = (\<lambda>(usign, uexp, m1, m0) (vsign, vexp, n1, n0).
     let delta = uexp - vexp in
     if delta \<ge> 18 then Inr u
     else if delta \<le> - 18 then Inr (result_is_v subtraction v)
     else
       res_bind (if delta \<ge> 0 then Inr (m1, m0) else shift_mantissa (- delta) m1 m0) (\<lambda>(m1, m0).
       res_bind (if delta \<ge> 0 then shift_mantissa delta n1 n0 else Inr (n1, n0)) (\<lambda>(n1, n0).
         let exp = (if delta \<ge> 0 then uexp else vexp) in
         if usign = vsign then (case add_mantissas exp m1 m0 n1 n0 of (exp, m1, m0) \<Rightarrow> pack_result usign exp m1 m0)
         else
           let swap = (delta < 0 \<or> (delta = 0 \<and> (m1 < n1 \<or> (m1 = n1 \<and> m0 < n0))))
           in res_bind (if swap then sub_mantissas exp n1 n0 m1 m0 else sub_mantissas exp m1 m0 n1 n0) (\<lambda>r. case r of
                None \<Rightarrow> Inr (MV_int 0)
              | Some (exp, m1, m0) \<Rightarrow> pack_result (if swap then vsign else usign) exp m1 m0))))"

definition add_mvals :: "mnum \<Rightarrow> mnum \<Rightarrow> bool \<Rightarrow> mnum res" where
  "add_mvals u v subtraction =
     res_bind (unpack_mval u) (\<lambda>ru. case ru of
         None \<Rightarrow> Inr (result_is_v subtraction v)
       | Some (usign, uexp, m1, m0) \<Rightarrow>
           res_bind (unpack_mval v) (\<lambda>rv. case rv of
               None \<Rightarrow> Inr u
             | Some (s, vexp, n1, n0) \<Rightarrow>
                 add_aligned u v subtraction (usign, uexp, m1, m0) (s \<noteq> subtraction, vexp, n1, n0)))"

text \<open>The sum of two \<open>MV_INT\<close> operands, or the 18-digit form when it has ten digits.\<close>

definition int_result :: "int \<Rightarrow> mnum" where
  "int_result m1 =
     (if m1 < MANT_HI \<and> m1 > - MANT_HI then MV_int m1
      else let a = (if m1 > 0 then m1 else - m1); m0 = a div 10
           in MV_nm (\<not> m1 > 0) EXP_INT_OVERF m0 ((a - m0 * 10) * MANT_LO))"

definition op_add_num :: "mnum \<Rightarrow> mnum \<Rightarrow> mnum res" where
  "op_add_num u v = (case (u, v) of (MV_int a, MV_int b) \<Rightarrow> Inr (int_result (a + b)) | _ \<Rightarrow> add_mvals u v False)"

definition op_sub_num :: "mnum \<Rightarrow> mnum \<Rightarrow> mnum res" where
  "op_sub_num u v = (case (u, v) of (MV_int a, MV_int b) \<Rightarrow> Inr (int_result (a - b)) | _ \<Rightarrow> add_mvals u v True)"

section \<open>Mantissas\<close>

definition mant_ok :: "int \<Rightarrow> int \<Rightarrow> bool" where
  "mant_ok m1 m0 \<longleftrightarrow> 0 \<le> m1 \<and> m1 < MANT_HI \<and> 0 \<le> m0 \<and> m0 < MANT_HI"

definition mant_norm :: "int \<Rightarrow> int \<Rightarrow> bool" where
  "mant_norm m1 m0 \<longleftrightarrow> MANT_LO \<le> m1 \<and> m1 < MANT_HI \<and> 0 \<le> m0 \<and> m0 < MANT_HI"

abbreviation mant :: "int \<Rightarrow> int \<Rightarrow> int" where "mant m1 m0 \<equiv> m1 * MANT_HI + m0"

lemma mant_norm_ok: "mant_norm m1 m0 \<Longrightarrow> mant_ok m1 m0"
  by (simp add: mant_norm_def mant_ok_def)

lemma mant_range:
  "mant_ok m1 m0 \<Longrightarrow> 0 \<le> mant m1 m0 \<and> mant m1 m0 < 10 ^ 18"
  "mant_norm m1 m0 \<Longrightarrow> 10 ^ 17 \<le> mant m1 m0 \<and> mant m1 m0 < 10 ^ 18"
  by (auto simp: mant_ok_def mant_norm_def)

lemma mant_less: "mant_ok m1 m0 \<Longrightarrow> mant_ok n1 n0 \<Longrightarrow> mant m1 m0 < mant n1 n0 \<longleftrightarrow> m1 < n1 \<or> (m1 = n1 \<and> m0 < n0)"
  by (auto simp: mant_ok_def)

lemma norm_mant: "mant_ok m1 m0 \<Longrightarrow> 10 ^ 17 \<le> mant m1 m0 \<Longrightarrow> mant_norm m1 m0"
  by (auto simp: mant_norm_def mant_ok_def)

lemma digit_powers: "(10::int) ^ nat d * 10 ^ nat (9 - d) = MANT_HI" if "0 \<le> d" "d \<le> 9"
proof -
  have "nat d + nat (9 - d) = 9" using that by simp
  then show ?thesis by (simp flip: power_add)
qed

lemma shift_spec:
  assumes "mant_ok n1 n0" and "0 \<le> d" and "d < 18"
  shows "\<exists>a b. shift_mantissa d n1 n0 = Inr (a, b) \<and> mant_ok a b \<and> mant a b = mant n1 n0 div 10 ^ nat d"
proof -
  consider "d = 0" | "0 < d" "d < 9" | "9 \<le> d" using assms(2) by linarith
  then show ?thesis
  proof cases
    case 1
    then show ?thesis using assms(1) by (simp add: shift_mantissa_def)
  next
    case 2
    let ?f = "10 ^ nat d :: int" and ?g = "10 ^ nat (9 - d) :: int"
    have fg: "?f * ?g = MANT_HI" using digit_powers [of d] 2 by simp
    have f0: "0 < ?f" "0 < ?g" by simp_all
    define r where "r = n1 mod ?f"
    have r: "n1 - n1 div ?f * ?f = r" "0 \<le> r" "r < ?f" using f0 by (simp_all add: r_def minus_div_mult_eq_mod)
    have sh: "shift_mantissa d n1 n0 = Inr (n1 div ?f, r * ?g + n0 div ?f)"
      using 2 r(1) by (simp add: shift_mantissa_def ten_pwr_nth nat_less_iff Let_def)
    have "n0 div ?f < ?g" using assms(1) fg f0 by (intro int_div_less_mult) (auto simp: mant_ok_def)
    moreover have "r * ?g \<le> (?f - 1) * ?g" using r f0 by (intro mult_right_mono) auto
    ultimately have hi: "r * ?g + n0 div ?f < MANT_HI" using fg by (simp add: algebra_simps)
    have "n1 = n1 div ?f * ?f + r" using r(1) by simp
    then have "mant n1 n0 = n1 div ?f * ?f * MANT_HI + r * MANT_HI + n0" by (metis distrib_right)
    also have "\<dots> = (n1 div ?f * MANT_HI + r * ?g) * ?f + n0" using fg by (simp add: algebra_simps)
    finally have "mant n1 n0 div ?f = n1 div ?f * MANT_HI + r * ?g + n0 div ?f" using f0 by simp
    moreover have "n1 div ?f \<le> n1" "0 \<le> n1 div ?f" "0 \<le> n0 div ?f" using assms(1) f0
      by (auto simp: mant_ok_def pos_imp_zdiv_nonneg_iff intro: int_div_le_self)
    moreover have "mant_ok (n1 div ?f) (r * ?g + n0 div ?f)" using calculation hi r(2) f0 assms(1) by (simp add: mant_ok_def)
    ultimately show ?thesis using sh by (intro exI [of _ "n1 div ?f"] exI [of _ "r * ?g + n0 div ?f"]) simp
  next
    case 3
    let ?g = "10 ^ nat (d - 9) :: int"
    have "nat d = 9 + nat (d - 9)" using 3 by simp
    then have p: "(10::int) ^ nat d = MANT_HI * ?g" by (simp add: power_add)
    have "mant n1 n0 div (MANT_HI * ?g) = mant n1 n0 div MANT_HI div ?g" by (simp add: zdiv_zmult2_eq)
    also have "mant n1 n0 div MANT_HI = n1" using assms(1) by (auto simp: mant_ok_def)
    finally have "mant n1 n0 div 10 ^ nat d = n1 div ?g" using p by simp
    moreover have "n1 div ?g \<le> n1" "0 \<le> n1 div ?g" using assms(1)
      by (auto simp: mant_ok_def pos_imp_zdiv_nonneg_iff intro: int_div_le_self)
    ultimately show ?thesis using 3 assms(1,3) by (auto simp: shift_mantissa_def ten_pwr_nth nat_less_iff mant_ok_def)
  qed
qed

lemma add_mantissas_spec:
  assumes "mant_norm m1 m0" and "mant_ok n1 n0"
  shows "\<exists>a b. add_mantissas e m1 m0 n1 n0 =
      (if mant m1 m0 + mant n1 n0 < 10 ^ 18 then e else e + 1, a, b) \<and> mant_norm a b
    \<and> mant a b = (if mant m1 m0 + mant n1 n0 < 10 ^ 18 then mant m1 m0 + mant n1 n0 else (mant m1 m0 + mant n1 n0) div 10)"
proof -
  define c0 where "c0 = (if m0 + n0 \<ge> MANT_HI then m0 + n0 - MANT_HI else m0 + n0)"
  define c1 where "c1 = (if m0 + n0 \<ge> MANT_HI then m1 + 1 else m1) + n1"
  have sum: "mant c1 c0 = mant m1 m0 + mant n1 n0" by (simp add: c0_def c1_def algebra_simps)
  have c0: "0 \<le> c0" "c0 < MANT_HI" using assms by (auto simp: c0_def mant_norm_def mant_ok_def)
  have c1: "MANT_LO \<le> c1" "c1 < 2 * MANT_HI" using assms by (auto simp: c1_def mant_norm_def mant_ok_def)
  have add: "add_mantissas e m1 m0 n1 n0 = (if c1 \<ge> MANT_HI then (e + 1, c1 div 10, c0 div 10 + (c1 - c1 div 10 * 10) * MANT_LO) else (e, c1, c0))"
    by (auto simp: add_mantissas_def c0_def c1_def Let_def)
  have less: "c1 \<ge> MANT_HI \<longleftrightarrow> \<not> mant m1 m0 + mant n1 n0 < 10 ^ 18" using c0 c1 unfolding sum [symmetric] by auto
  have "mant (c1 div 10) (c0 div 10 + (c1 - c1 div 10 * 10) * MANT_LO) = mant c1 c0 div 10"
  proof -
    define q r where "q = c1 div 10" and "r = c1 mod 10"
    have "c1 = 10 * q + r" by (simp add: q_def r_def)
    moreover have "c1 - c1 div 10 * 10 = r" by (simp add: r_def minus_div_mult_eq_mod)
    moreover have "(10 * (q * MANT_HI + r * MANT_LO) + c0) div 10 = q * MANT_HI + r * MANT_LO + c0 div 10" by simp
    ultimately show ?thesis unfolding q_def [symmetric] by (simp add: algebra_simps)
  qed
  then show ?thesis using add less c0 c1 sum by (auto simp: mant_norm_def)
qed

lemma scale_count_spec:
  assumes "0 < m" and "m < MANT_HI" and "m * 10 ^ n \<ge> MANT_LO"
  shows "\<exists>k \<le> n. scale_count n m d = Inr (m * 10 ^ k, d + int k) \<and> MANT_LO \<le> m * 10 ^ k \<and> m * 10 ^ k < MANT_HI \<and> (MANT_LO \<le> m \<longrightarrow> k = 0)"
  using assms
proof (induction n arbitrary: m d)
  case 0
  then show ?case by (simp add: scale_count.simps)
next
  case (Suc n)
  show ?case
  proof (cases "m < MANT_LO")
    case True
    then obtain k where "k \<le> n" "scale_count n (m * 10) (d + 1) = Inr (m * 10 * 10 ^ k, d + 1 + int k)"
      "MANT_LO \<le> m * 10 * 10 ^ k" "m * 10 * 10 ^ k < MANT_HI" using Suc.IH [of "m * 10" "d + 1"] Suc.prems by (auto simp: mult.assoc)
    then show ?thesis using True by (intro exI [of _ "Suc k"]) (simp add: scale_count.simps [of "Suc n"] mult.assoc)
  next
    case False
    then show ?thesis using Suc.prems by (intro exI [of _ 0]) (simp add: scale_count.simps)
  qed
qed

lemma normalize_spec:
  assumes "0 < m1" and "m1 < MANT_LO" and "0 \<le> m0" and "m0 < MANT_HI"
  shows "\<exists>a b k. res_bind (scale_count 9 m1 0) (\<lambda>(m1, delta). res_bind (rd ten_pwr (9 - delta)) (\<lambda>factor. res_bind (rd ten_pwr delta) (\<lambda>p.
      let x = m0 div factor in Inr (Some (e - delta, m1 + x, (m0 - x * factor) * p))))) = Inr (Some (e - int k, a, b))
    \<and> mant_norm a b \<and> mant a b = mant m1 m0 * 10 ^ k \<and> k \<le> 8"
proof -
  have "m1 * 10 ^ 9 \<ge> MANT_LO" using assms(1) by simp
  then obtain k where k: "k \<le> 9" "scale_count 9 m1 0 = Inr (m1 * 10 ^ k, int k)" "MANT_LO \<le> m1 * 10 ^ k" "m1 * 10 ^ k < MANT_HI"
    using scale_count_spec [of m1 9 0] assms by auto
  have k8: "k \<le> 8"
  proof (rule ccontr)
    assume "\<not> k \<le> 8"
    then have "k = 9" using k(1) by simp
    then show False using k(4) assms(1) by simp
  qed
  let ?f = "10 ^ (9 - k) :: int"
  define x where "x = m0 div ?f"
  have fp: "?f * 10 ^ k = MANT_HI" using k(1) by (simp flip: power_add)
  have x: "0 \<le> x" "x < 10 ^ k" using assms(3,4) fp int_div_less_mult [of ?f m0 "10 ^ k"] by (auto simp: x_def pos_imp_zdiv_nonneg_iff)
  have rem: "0 \<le> m0 - x * ?f" "m0 - x * ?f < ?f" by (simp_all add: x_def minus_div_mult_eq_mod)
  have lo: "(m0 - x * ?f) * 10 ^ k < MANT_HI" using rem(2) fp mult_strict_right_mono [OF rem(2), of "10 ^ k"] by simp
  have "m1 * 10 ^ k + x < MANT_HI"
  proof -
    have "m1 * 10 ^ k \<le> (?f - 1) * 10 ^ k"
    proof (rule mult_right_mono)
      have "m1 * 10 ^ k < ?f * 10 ^ k" using k(4) fp by simp
      then show "m1 \<le> ?f - 1" by simp
    qed simp
    then show ?thesis using x(2) fp by (simp add: algebra_simps)
  qed
  moreover have "mant (m1 * 10 ^ k + x) ((m0 - x * ?f) * 10 ^ k) = mant m1 m0 * 10 ^ k" using fp by (simp add: algebra_simps)
  moreover have "mant_norm (m1 * 10 ^ k + x) ((m0 - x * ?f) * 10 ^ k)" using calculation(1) k(3) x(1) rem(1) lo by (simp add: mant_norm_def)
  moreover have "nat (9 - int k) = 9 - k" by simp
  then have rd: "rd ten_pwr (9 - int k) = Inr ?f" "rd ten_pwr (int k) = Inr (10 ^ k)" using k(1) rd_ten_pwr [of "9 - int k"] rd_ten_pwr [of "int k"] k8 by simp_all
  have "res_bind (scale_count 9 m1 0) (\<lambda>(m1, delta). res_bind (rd ten_pwr (9 - delta)) (\<lambda>factor. res_bind (rd ten_pwr delta) (\<lambda>p.
      let x = m0 div factor in Inr (Some (e - delta, m1 + x, (m0 - x * factor) * p)))))
    = Inr (Some (e - int k, m1 * 10 ^ k + x, (m0 - x * ?f) * 10 ^ k))"
    unfolding k(2) by (simp only: res_bind_simps prod.case rd Let_def x_def)
  ultimately show ?thesis using k8 by blast
qed

lemma sub_mantissas_spec:
  assumes "mant_norm m1 m0" and "mant_ok n1 n0" and "mant n1 n0 \<le> mant m1 m0"
  shows "if mant n1 n0 = mant m1 m0 then sub_mantissas e m1 m0 n1 n0 = Inr None
    else \<exists>a b k. sub_mantissas e m1 m0 n1 n0 = Inr (Some (e - int k, a, b)) \<and> mant_norm a b
      \<and> mant a b = (mant m1 m0 - mant n1 n0) * 10 ^ k \<and> k \<le> 17"
proof -
  define d0 where "d0 = (if m0 - n0 < 0 then m0 - n0 + MANT_HI else m0 - n0)"
  define d1 where "d1 = (if m0 - n0 < 0 then m1 - 1 else m1) - n1"
  have diff: "mant d1 d0 = mant m1 m0 - mant n1 n0" by (simp add: d0_def d1_def algebra_simps)
  have d0: "0 \<le> d0" "d0 < MANT_HI" using assms by (auto simp: d0_def mant_norm_def mant_ok_def)
  have d1: "0 \<le> d1" "d1 < MANT_HI" using assms(1,2,3) d0 diff by (auto simp: d1_def mant_norm_def mant_ok_def)
  have zero: "mant n1 n0 = mant m1 m0 \<longleftrightarrow> d1 = 0 \<and> d0 = 0" using diff d0 d1 by auto
  let ?N = "\<lambda>e m1 m0. res_bind (scale_count 9 m1 0) (\<lambda>(m1, delta). res_bind (rd ten_pwr (9 - delta)) (\<lambda>factor. res_bind (rd ten_pwr delta) (\<lambda>p.
      let x = m0 div factor in Inr (Some (e - delta, m1 + x, (m0 - x * factor) * p)))))"
  have pos: "\<not> d1 < 0" "\<not> d0 < 0" using d0 d1 by simp_all
  have sub: "sub_mantissas e m1 m0 n1 n0 = (if d1 = 0 \<and> d0 = 0 then Inr None
      else if d1 = 0 then (if d0 < MANT_LO then ?N (e - 9) d0 0 else Inr (Some (e - 9, d0, 0)))
      else if d1 < MANT_LO then ?N e d1 d0 else Inr (Some (e, d1, d0)))"
    using pos unfolding sub_mantissas_def d0_def d1_def Let_def by (auto split: if_splits)
  consider "d1 = 0" "d0 = 0" | "d1 = 0" "0 < d0" "d0 < MANT_LO" | "d1 = 0" "MANT_LO \<le> d0" | "0 < d1" "d1 < MANT_LO" | "MANT_LO \<le> d1"
    using d0 d1 by linarith
  then show ?thesis
  proof cases
    case 1
    then show ?thesis using sub zero by simp
  next
    case 2
    then obtain a b k where "?N (e - 9) d0 0 = Inr (Some (e - 9 - int k, a, b))" "mant_norm a b" "mant a b = mant d0 0 * 10 ^ k" "k \<le> 8"
      using normalize_spec [of d0 0 "e - 9"] by auto
    then have "sub_mantissas e m1 m0 n1 n0 = Inr (Some (e - int (k + 9), a, b)) \<and> mant_norm a b \<and> mant a b = (mant m1 m0 - mant n1 n0) * 10 ^ (k + 9) \<and> k + 9 \<le> 17"
      using sub 2 diff [symmetric] by (simp add: power_add)
    then show ?thesis using zero 2 by auto
  next
    case 3
    then have "sub_mantissas e m1 m0 n1 n0 = Inr (Some (e - int 9, d0, 0)) \<and> mant_norm d0 0 \<and> mant d0 0 = (mant m1 m0 - mant n1 n0) * 10 ^ 9 \<and> (9 :: nat) \<le> 17"
      using sub diff [symmetric] d0 by (simp add: mant_norm_def)
    then show ?thesis using zero 3 by auto
  next
    case 4
    then obtain a b k where "?N e d1 d0 = Inr (Some (e - int k, a, b))" "mant_norm a b" "mant a b = mant d1 d0 * 10 ^ k" "k \<le> 8"
      using normalize_spec [of d1 d0 e] d0 by auto
    then have "sub_mantissas e m1 m0 n1 n0 = Inr (Some (e - int k, a, b)) \<and> mant_norm a b \<and> mant a b = (mant m1 m0 - mant n1 n0) * 10 ^ k \<and> k \<le> 17"
      using sub 4 diff by simp
    then show ?thesis using zero 4 by auto
  next
    case 5
    then have "sub_mantissas e m1 m0 n1 n0 = Inr (Some (e - int 0, d1, d0)) \<and> mant_norm d1 d0 \<and> mant d1 d0 = (mant m1 m0 - mant n1 n0) * 10 ^ 0 \<and> (0 :: nat) \<le> 17"
      using sub diff d0 d1 by (simp add: mant_norm_def)
    then show ?thesis using zero 5 by auto
  qed
qed

section \<open>Values of results\<close>

text \<open>The numbers that the run time makes: integers and normalized mantissas with an exponent in range.\<close>

fun num_ok :: "mnum \<Rightarrow> bool" where
  "num_ok (MV_int m) \<longleftrightarrow> - MANT_HI < m \<and> m < MANT_HI"
| "num_ok (MV_nm s e m1 m0) \<longleftrightarrow> EXPLO \<le> e \<and> e < EXPHI \<and> mant_norm m1 m0"

lemma num_ok_mnum: "num_ok u \<Longrightarrow> mnum_ok u"
  by (cases u) (auto simp: mant_norm_def)

abbreviation signed :: "bool \<Rightarrow> int \<Rightarrow> int" where "signed s x \<equiv> (if s then - x else x)"

lemma mnum_val_nm: "mnum_val (MV_nm s e m1 m0) = signed s (mant m1 m0 * 10 ^ nat e)"
  by (cases s) (simp_all only: mnum_val.simps if_True if_False mult_1 mult_minus_left)

lemma pack_spec:
  assumes "mant_norm m1 m0" and "0 \<le> e"
  shows "if EXPHI \<le> e then pack_result s e m1 m0 = Inl ERR_NUMOFLOW
    else if e < EXPLO then pack_result s e m1 m0 = Inr (MV_int 0)
    else \<exists>r. pack_result s e m1 m0 = Inr r \<and> num_ok r \<and> mnum_val r = signed s (mant m1 m0 * 10 ^ nat e)"
proof (cases "e < EXP_INT_OVERF \<and> e > EXP_INT_UNDERF \<and> m0 = 0")
  case False
  then show ?thesis using assms by (auto simp: pack_result_def mnum_val_nm simp del: mnum_val.simps(2))
next
  case True
  let ?f = "10 ^ nat (68 - e) :: int"
  have rd: "rd ten_pwr (68 - e) = Inr ?f" using True by (intro rd_ten_pwr) auto
  show ?thesis
  proof (cases "m1 div ?f * ?f = m1")
    case no: False
    then show ?thesis using True rd assms by (simp add: pack_result_def Let_def)
  next
    case yes: True
    have "nat (68 - e) + (9 + nat e) = 77" using True by arith
    then have p: "?f * (10 ^ 9 * 10 ^ nat e) = (10 :: int) ^ 77" by (simp only: power_add [symmetric])
    have "m1 div ?f * 10 ^ 77 = m1 div ?f * ?f * (10 ^ 9 * 10 ^ nat e)" unfolding mult.assoc p ..
    also have "\<dots> = mant m1 m0 * 10 ^ nat e" using yes True by simp
    finally have v: "m1 div ?f * 10 ^ 77 = mant m1 m0 * 10 ^ nat e" .
    have "0 \<le> m1 div ?f" "m1 div ?f < MANT_HI"
      using assms(1) int_div_le_self [of m1 ?f] by (auto simp: mant_norm_def pos_imp_zdiv_nonneg_iff)
    then show ?thesis using True yes rd v by (auto simp: pack_result_def Let_def)
  qed
qed

lemma unpack_spec:
  assumes "num_ok u"
  shows "unpack_mval u = Inr None \<and> mnum_val u = 0 \<or>
    (\<exists>s e m1 m0. unpack_mval u = Inr (Some (s, e, m1, m0)) \<and> mant_norm m1 m0 \<and> EXPLO \<le> e \<and> e < EXPHI
      \<and> mnum_val u = signed s (mant m1 m0 * 10 ^ nat e))"
proof (cases u)
  case (MV_nm s e m1 m0)
  then show ?thesis using assms by (auto simp: mnum_val_nm simp del: mnum_val.simps(2))
next
  case (MV_int m)
  have up: "\<exists>k \<le> n. scale_up n x d = Inr (x * 10 ^ k, d - int k) \<and> MANT_LO \<le> x * 10 ^ k \<and> x * 10 ^ k < MANT_HI"
    if "0 < x" "x < MANT_HI" "x * 10 ^ n \<ge> MANT_LO" for n x d using that
  proof (induction n arbitrary: x d)
    case 0
    then show ?case by (simp add: scale_up.simps)
  next
    case (Suc n)
    show ?case
    proof (cases "x < MANT_LO")
      case True
      then obtain k where "k \<le> n" "scale_up n (x * 10) (d - 1) = Inr (x * 10 * 10 ^ k, d - 1 - int k)"
        "MANT_LO \<le> x * 10 * 10 ^ k" "x * 10 * 10 ^ k < MANT_HI" using Suc.IH [of "x * 10" "d - 1"] Suc.prems by (auto simp: mult.assoc)
      then show ?thesis using True by (intro exI [of _ "Suc k"]) (simp add: scale_up.simps [of "Suc n"] mult.assoc)
    next
      case False
      then show ?thesis using Suc.prems by (intro exI [of _ 0]) (simp add: scale_up.simps)
    qed
  qed
  show ?thesis
  proof (cases "m = 0")
    case True
    then show ?thesis using MV_int by simp
  next
    case False
    define x where "x = (if m > 0 then m else - m)"
    have x: "0 < x" "x < MANT_HI" using assms False MV_int by (auto simp: x_def)
    then obtain k where k: "k \<le> 8" "scale_up 8 x 68 = Inr (x * 10 ^ k, 68 - int k)" "MANT_LO \<le> x * 10 ^ k" "x * 10 ^ k < MANT_HI"
      using up [of x 8 68] by auto
    have "nat (68 - int k) = 68 - k" by simp
    moreover have "k + (9 + (68 - k)) = 77" using k(1) by simp
    ultimately have "(10 :: int) ^ k * (10 ^ 9 * 10 ^ nat (68 - int k)) = 10 ^ 77" by (simp flip: power_add)
    then have "x * 10 ^ 77 = mant (x * 10 ^ k) 0 * 10 ^ nat (68 - int k)" by (simp add: algebra_simps)
    moreover have "mnum_val u = signed (\<not> m > 0) (x * 10 ^ 77)" using MV_int by (simp add: x_def)
    ultimately show ?thesis using MV_int False k by (auto simp: x_def [symmetric] mant_norm_def)
  qed
qed

section \<open>The sum\<close>

text \<open>
  What an addition returns for the exact value \<open>T\<close> when the larger operand has exponent \<open>E\<close>. The smaller operand is cut at the last place of
  the larger one, \<open>10 ^ E\<close>; if the sum has a digit more, its last place is \<open>10 ^ Suc E\<close>. The result is the overflow error exactly if the sum has
  more than 47 digits before the point, else a number that differs from the sum by less than this unit, and that is the sum if the unit
  divides it. When leading digits cancel, the unit is larger than the last place of the result.
\<close>

definition sum_unit :: "int \<Rightarrow> nat \<Rightarrow> int" where
  "sum_unit T E = (if \<bar>T\<bar> < 10 ^ (18 + E) then 10 ^ E else 10 ^ Suc E)"

definition sum_result :: "int \<Rightarrow> nat \<Rightarrow> mnum res \<Rightarrow> bool" where
  "sum_result T E res \<longleftrightarrow> (if 10 ^ 127 \<le> \<bar>T\<bar> then res = Inl ERR_NUMOFLOW
     else \<exists>r. res = Inr r \<and> num_ok r \<and> (10 ^ 37 \<le> \<bar>T\<bar> \<longrightarrow> \<bar>mnum_val r - T\<bar> < sum_unit T E)
       \<and> (sum_unit T E dvd T \<and> (T = 0 \<or> 10 ^ 37 \<le> \<bar>T\<bar>) \<longrightarrow> mnum_val r = T))"

lemma dvd_small: "(p :: int) dvd x \<Longrightarrow> 0 \<le> x \<Longrightarrow> x < p \<Longrightarrow> x = 0"
  by (auto dest: zdvd_imp_le)

lemma power_mono_int: "a \<le> b \<Longrightarrow> (10 :: int) ^ a \<le> 10 ^ b"
  by (rule power_increasing) simp_all

lemma sum_resultI:
  assumes "res = Inr r" and "num_ok r" and "mnum_val r = signed s B" and "0 < A" and "A < 10 ^ 127" and "\<bar>B - A\<bar> < sum_unit A E"
    and "sum_unit A E dvd A \<Longrightarrow> B = A"
  shows "sum_result (signed s A) E res"
proof -
  have abs: "\<bar>signed s A\<bar> = A" "\<bar>signed s B - signed s A\<bar> = \<bar>B - A\<bar>" "p dvd signed s A \<longleftrightarrow> p dvd A" for p using assms(4) by (cases s; simp)+
  have "sum_unit (signed s A) E = sum_unit A E" using assms(4) by (simp add: sum_unit_def abs(1))
  then show ?thesis unfolding sum_result_def using assms by (auto simp: abs)
qed

lemma same_sign_spec:
  assumes "mant_norm m1 m0" and "mant_ok n1 n0" and "EXPLO \<le> e" and "e < EXPHI"
    and "S = mant m1 m0 + mant n1 n0" and A: "S * 10 ^ nat e \<le> A" "A < (S + 1) * 10 ^ nat e"
  shows "sum_result (signed s A) (nat e) (case add_mantissas e m1 m0 n1 n0 of (e, m1, m0) \<Rightarrow> pack_result s e m1 m0)"
proof -
  let ?P = "10 ^ nat e :: int"
  have P: "0 < ?P" by simp
  have S: "10 ^ 17 \<le> S" "S < 2 * 10 ^ 18" using mant_range(2) [OF assms(1)] mant_range(1) [OF assms(2)] assms(5) by auto
  have "0 < S * ?P" using S(1) by (intro mult_pos_pos) auto
  then have A0: "0 < A" using A(1) by linarith
  obtain a b where ab: "add_mantissas e m1 m0 n1 n0 = (if S < 10 ^ 18 then e else e + 1, a, b)" "mant_norm a b"
    "mant a b = (if S < 10 ^ 18 then S else S div 10)" using add_mantissas_spec [OF assms(1,2), of e] unfolding assms(5) [symmetric] by blast
  show ?thesis
  proof (cases "S < 10 ^ 18")
    case True
    have "(S + 1) * ?P \<le> 10 ^ 18 * 10 ^ 109" using True assms(4) by (intro mult_mono power_mono_int) auto
    then have lt: "A < 10 ^ 127" using A(2) by (simp add: power_add [symmetric])
    obtain r where "pack_result s e a b = Inr r" "num_ok r" "mnum_val r = signed s (S * ?P)"
      using pack_spec [OF ab(2), of e s] assms(3,4) ab(3) True by auto
    moreover have "(S + 1) * ?P \<le> 10 ^ 18 * ?P" using True by (intro mult_right_mono) auto
    from less_le_trans [OF A(2) this] have "A < 10 ^ (18 + nat e)" unfolding power_add .
    then have unit: "sum_unit A (nat e) = ?P" using A0 by (simp add: sum_unit_def)
    moreover have d: "A - S * ?P < ?P" "0 \<le> A - S * ?P" using A by (simp_all add: distrib_right)
    moreover have "\<bar>S * ?P - A\<bar> < sum_unit A (nat e)" using d unfolding unit by simp
    moreover have "S * ?P = A" if "?P dvd A" using dvd_small [of ?P "A - S * ?P"] that d by simp
    ultimately show ?thesis using sum_resultI [OF _ _ _ A0 lt, of _ r s "S * ?P" "nat e"] ab(1) True by simp
  next
    case False
    have ge: "10 ^ 18 * ?P \<le> A" using A(1) False P by (intro order.trans [OF _ A(1)] mult_right_mono) auto
    show ?thesis
    proof (cases "e = 109")
      case True
      then have "pack_result s (e + 1) a b = Inl ERR_NUMOFLOW" using pack_spec [OF ab(2), of "e + 1" s] by simp
      moreover have "10 ^ 127 \<le> A" using ge True by (simp add: power_add [symmetric])
      ultimately show ?thesis using ab(1) False A0 by (simp add: sum_result_def)
    next
      case e: False
      have "(S + 1) * ?P \<le> (2 * 10 ^ 18) * 10 ^ 108" using S e assms(4) by (intro mult_mono power_mono_int) auto
      then have lt: "A < 10 ^ 127" using A(2) by simp
      have n: "nat (e + 1) = Suc (nat e)" using assms(3) by simp
      obtain r where r: "pack_result s (e + 1) a b = Inr r" "num_ok r" "mnum_val r = signed s (S div 10 * 10 ^ Suc (nat e))"
        using pack_spec [OF ab(2), of "e + 1" s] assms(3,4) ab(3) False e n by auto
      have "(10 * q + m) * ?P = q * 10 ^ Suc (nat e) + m * ?P" for q m :: int by (simp add: algebra_simps)
      from this [of "S div 10" "S mod 10"] have "S * ?P = S div 10 * 10 ^ Suc (nat e) + S mod 10 * ?P" by simp
      moreover have "S mod 10 \<le> 9" "0 \<le> S mod 10" using pos_mod_bound [of 10 S] by simp_all
      then have "S mod 10 * ?P \<le> 9 * ?P" "0 \<le> S mod 10 * ?P" by (auto intro: mult_right_mono)
      moreover have "A < S * ?P + ?P" using A(2) by (simp add: distrib_right)
      moreover have "(10 :: int) ^ Suc (nat e) = 10 * ?P" by simp
      ultimately have d: "0 \<le> A - S div 10 * 10 ^ Suc (nat e)" "A - S div 10 * 10 ^ Suc (nat e) < 10 ^ Suc (nat e)" using A(1) by linarith+
      have "\<not> \<bar>A\<bar> < 10 ^ (18 + nat e)" using ge A0 by (simp add: power_add)
      then have unit: "sum_unit A (nat e) = 10 ^ Suc (nat e)" unfolding sum_unit_def by (rule if_not_P)
      have "S div 10 * 10 ^ Suc (nat e) = A" if "sum_unit A (nat e) dvd A"
        using dvd_small [of "10 ^ Suc (nat e)" "A - S div 10 * 10 ^ Suc (nat e)"] that d unfolding unit by (simp add: dvd_diff del: power_Suc)
      moreover have "\<bar>S div 10 * 10 ^ Suc (nat e) - A\<bar> < sum_unit A (nat e)" using d unfolding unit by linarith
      ultimately show ?thesis using sum_resultI [OF _ r(2,3) A0 lt] ab(1) False r(1) by simp
    qed
  qed
qed

lemma diff_sign_spec:
  assumes "mant_norm m1 m0" and "mant_ok n1 n0" and "EXPLO \<le> e" and "e < EXPHI" and "mant n1 n0 \<le> mant m1 m0"
    and "D = mant m1 m0 - mant n1 n0" and A: "A \<le> D * 10 ^ nat e" "D * 10 ^ nat e < A + 10 ^ nat e" and "D = 0 \<longrightarrow> A = 0"
  shows "sum_result (signed s A) (nat e) (res_bind (sub_mantissas e m1 m0 n1 n0) (\<lambda>r. case r of None \<Rightarrow> Inr (MV_int 0)
    | Some (e, m1, m0) \<Rightarrow> pack_result s e m1 m0))"
proof (cases "D = 0")
  case True
  then show ?thesis using sub_mantissas_spec [OF assms(1,2,5), of e] assms(6,9) by (simp add: sum_result_def)
next
  case False
  let ?P = "10 ^ nat e :: int"
  have D: "1 \<le> D" "D < 10 ^ 18" using assms(2,5,6) False mant_range(1) [OF assms(2)] mant_range(2) [OF assms(1)] by auto
  have "1 * ?P \<le> D * ?P" using D(1) by (intro mult_right_mono) auto
  then have A0: "0 < A" using A(2) by linarith
  have "D * ?P \<le> (10 ^ 18 - 1) * 10 ^ 109" using D(2) D(1) assms(4) by (intro mult_mono power_mono_int) auto
  then have lt: "A < 10 ^ 127" using A(1) by simp
  obtain a b k where k: "sub_mantissas e m1 m0 n1 n0 = Inr (Some (e - int k, a, b))" "mant_norm a b" "mant a b = D * 10 ^ k" "k \<le> 17"
    using sub_mantissas_spec [OF assms(1,2,5), of e] assms(6) False by (auto split: if_splits)
  have nk: "k + nat (e - int k) = nat e" using k(4) assms(3) by arith
  have v: "mant a b * 10 ^ nat (e - int k) = D * ?P" unfolding k(3) mult.assoc power_add [symmetric] nk ..
  show ?thesis
  proof (cases "e - int k < EXPLO")
    case True
    then have r: "pack_result s (e - int k) a b = Inr (MV_int 0)" using pack_spec [OF k(2), of "e - int k" s] k(4) assms(3) by simp
    have "mant a b * 10 ^ nat (e - int k) \<le> (10 ^ 18 - 1) * 10 ^ 19" using mant_range(2) [OF k(2)] True by (intro mult_mono power_mono_int) auto
    then have "A < 10 ^ 37" using A(1) v by simp
    moreover have "\<bar>signed s A\<bar> = A" using A0 by simp
    ultimately show ?thesis using k(1) r lt A0 by (simp add: sum_result_def)
  next
    case ok: False
    obtain r where r: "pack_result s (e - int k) a b = Inr r" "num_ok r" "mnum_val r = signed s (D * ?P)"
      using pack_spec [OF k(2), of "e - int k" s] k(4) assms(3,4) ok v by auto
    have "D * ?P < 10 ^ 18 * ?P" using D(2) by (intro mult_strict_right_mono) auto
    from le_less_trans [OF A(1) this] have "A < 10 ^ (18 + nat e)" unfolding power_add .
    then have unit: "sum_unit A (nat e) = ?P" using A0 by (simp add: sum_unit_def)
    have "D * ?P = A" if "sum_unit A (nat e) dvd A" using dvd_small [of ?P "D * ?P - A"] that A unfolding unit by simp
    moreover have "\<bar>D * ?P - A\<bar> < sum_unit A (nat e)" using A unfolding unit by simp
    ultimately show ?thesis using sum_resultI [OF _ r(2,3) A0 lt] k(1) r(1) by simp
  qed
qed

lemma add_mantissas_commute: "add_mantissas e m1 m0 n1 n0 = add_mantissas e n1 n0 m1 m0"
  by (simp add: add_mantissas_def Let_def add.commute add.left_commute)

text \<open>The smaller operand in units of the larger one.\<close>

lemma aligned_value:
  assumes "mant_norm n1 n0" and "0 \<le> d" and "d \<le> e"
  shows "mant n1 n0 div 10 ^ nat d * 10 ^ nat e \<le> mant n1 n0 * 10 ^ nat (e - d)"
    and "mant n1 n0 * 10 ^ nat (e - d) < mant n1 n0 div 10 ^ nat d * 10 ^ nat e + 10 ^ nat e"
    and "0 < d \<Longrightarrow> mant n1 n0 div 10 ^ nat d < 10 ^ 17"
proof -
  let ?Q = "10 ^ nat d :: int" and ?R = "10 ^ nat (e - d) :: int" and ?N = "mant n1 n0"
  have e: "(10 :: int) ^ nat e = ?Q * ?R"
  proof -
    have "nat e = nat d + nat (e - d)" using assms(2,3) by arith
    then show ?thesis by (simp only: power_add)
  qed
  have R: "0 < ?R" and Q: "0 < ?Q" by simp_all
  have N: "?N = ?N div ?Q * ?Q + ?N mod ?Q" by (rule div_mult_mod_eq [symmetric])
  have m: "0 \<le> ?N mod ?Q" "?N mod ?Q < ?Q" using Q by simp_all
  have eq: "?N * ?R = ?N div ?Q * 10 ^ nat e + ?N mod ?Q * ?R" unfolding e by (subst N) (simp only: distrib_right mult.assoc)
  have "0 \<le> ?N mod ?Q * ?R" "?N mod ?Q * ?R < ?Q * ?R" using m R by (auto intro!: mult_nonneg_nonneg mult_strict_right_mono)
  then show "?N div ?Q * 10 ^ nat e \<le> ?N * ?R" "?N * ?R < ?N div ?Q * 10 ^ nat e + 10 ^ nat e" unfolding eq e by linarith+
  show "?N div ?Q < 10 ^ 17" if "0 < d"
  proof (rule int_div_less [OF Q])
    have "(10 :: int) ^ 1 \<le> ?Q" using that by (intro power_mono_int) arith
    then have "(10 :: int) ^ 17 * 10 ^ 1 \<le> 10 ^ 17 * ?Q" by (intro mult_left_mono) auto
    then show "?N < 10 ^ 17 * ?Q" using mant_range(2) [OF assms(1)] by simp
  qed
qed

lemma near_spec:
  assumes "mant_norm m1 m0" and "mant_norm n1 n0" and "0 \<le> d" and "d < 18" and "EXPLO \<le> e - d" and "e < EXPHI"
    and sh: "mant_ok a b" "mant a b = mant n1 n0 div 10 ^ nat d" and T: "T = signed s (mant m1 m0 * 10 ^ nat e) + signed s' (mant n1 n0 * 10 ^ nat (e - d))"
  shows "s = s' \<Longrightarrow> sum_result T (nat e) (case add_mantissas e m1 m0 a b of (e, m1, m0) \<Rightarrow> pack_result s e m1 m0)"
    and "s \<noteq> s' \<Longrightarrow> 0 < d \<or> mant n1 n0 \<le> mant m1 m0 \<Longrightarrow>
      sum_result T (nat e) (res_bind (sub_mantissas e m1 m0 a b) (\<lambda>r. case r of None \<Rightarrow> Inr (MV_int 0) | Some (e, m1, m0) \<Rightarrow> pack_result s e m1 m0))"
proof -
  let ?P = "10 ^ nat e :: int" and ?V = "mant n1 n0 * 10 ^ nat (e - d)"
  have e: "EXPLO \<le> e" "d \<le> e" using assms(3,5) by simp_all
  note v = aligned_value [OF assms(2,3) e(2), folded sh(2)]
  show "sum_result T (nat e) (case add_mantissas e m1 m0 a b of (e, m1, m0) \<Rightarrow> pack_result s e m1 m0)" if "s = s'"
  proof -
    have "T = signed s (mant m1 m0 * ?P + ?V)" using T that by simp
    then show ?thesis using same_sign_spec [OF assms(1) sh(1) e(1) assms(6) refl, of "mant m1 m0 * ?P + ?V" s] v by (simp add: distrib_right)
  qed
  assume ne: "s \<noteq> s'" and big: "0 < d \<or> mant n1 n0 \<le> mant m1 m0"
  have le: "mant a b \<le> mant m1 m0" using big v(3) mant_range(2) [OF assms(1)] assms(3) sh(2) by (cases "0 < d") auto
  have zero: "mant m1 m0 - mant a b = 0 \<longrightarrow> mant m1 m0 * ?P - ?V = 0"
    using v(3) mant_range(2) [OF assms(1)] assms(3) sh(2) by (cases "0 < d") auto
  have "T = signed s (mant m1 m0 * ?P - ?V)" using T ne by (cases s) auto
  then show "sum_result T (nat e) (res_bind (sub_mantissas e m1 m0 a b) (\<lambda>r. case r of None \<Rightarrow> Inr (MV_int 0) | Some (e, m1, m0) \<Rightarrow> pack_result s e m1 m0))"
    using diff_sign_spec [OF assms(1) sh(1) e(1) assms(6) le refl, of "mant m1 m0 * ?P - ?V" s] v zero by (simp add: left_diff_distrib)
qed

text \<open>An operand so small that none of its digits matters.\<close>

lemma far_spec:
  assumes "num_ok u" and "mnum_val u = signed s (mant m1 m0 * 10 ^ nat e)" and "mant_norm m1 m0" and "EXPLO \<le> e" and "e < EXPHI"
    and "mant_norm n1 n0" and "0 \<le> f" and "f + 18 \<le> e" and T: "T = signed s (mant m1 m0 * 10 ^ nat e) + signed s' (mant n1 n0 * 10 ^ nat f)"
  shows "sum_result T (nat e) (Inr u)"
proof -
  let ?P = "10 ^ nat e :: int" and ?V = "mant n1 n0 * 10 ^ nat f"
  have "?V < 10 ^ 18 * 10 ^ nat f" using mant_range(2) [OF assms(6)] by simp
  also have "(10 :: int) ^ 18 * 10 ^ nat f \<le> ?P" unfolding power_add [symmetric] using assms(7,8) by (intro power_mono_int) arith
  finally have V: "?V < ?P" "0 \<le> ?V" using mant_range(2) [OF assms(6)] by simp_all
  have "(mant m1 m0 + 1) * ?P \<le> 10 ^ 18 * 10 ^ 109" using mant_range(2) [OF assms(3)] assms(5) by (intro mult_mono power_mono_int) auto
  then have hi: "mant m1 m0 * ?P + ?P \<le> 10 ^ 127" by (simp add: distrib_right)
  have "1 * ?P < mant m1 m0 * ?P" using mant_range(2) [OF assms(3)] by (intro mult_strict_right_mono) auto
  then have lo: "?P < mant m1 m0 * ?P" by (simp only: mult_1)
  define A where "A = (if s = s' then mant m1 m0 * ?P + ?V else mant m1 m0 * ?P - ?V)"
  have TA: "T = signed s A" using T by (auto simp: A_def)
  have bounds: "0 < (if b then w + x else w - x) \<and> (if b then w + x else w - x) < z \<and> \<bar>w - (if b then w + x else w - x)\<bar> < p"
    if "x < p" "0 \<le> x" "w + p \<le> z" "p < w" for b and w x z p :: int using that by auto
  have A: "0 < A" "A < 10 ^ 127" "\<bar>mant m1 m0 * ?P - A\<bar> < ?P" unfolding A_def using bounds [OF V hi lo] by blast+
  have exact: "mant m1 m0 * ?P = A" if "?P dvd A"
  proof -
    have "?P dvd ?V" using that by (auto simp: A_def dvd_add_right_iff dvd_diff_right_iff split: if_splits)
    then show ?thesis using dvd_small [of ?P ?V] V by (simp add: A_def)
  qed
  have "?P dvd sum_unit A (nat e)" "?P \<le> sum_unit A (nat e)" by (simp_all add: sum_unit_def)
  then show ?thesis unfolding TA by (intro sum_resultI [OF refl assms(1,2) A(1,2)] less_le_trans [OF A(3)] exact) (auto intro: dvd_trans)
qed

lemma add_aligned_spec:
  assumes u: "num_ok u" "mnum_val u = signed us (mant m1 m0 * 10 ^ nat eu)" "mant_norm m1 m0" "EXPLO \<le> eu" "eu < EXPHI"
    and v: "num_ok v" "mnum_val v = signed (vs \<noteq> sub) (mant n1 n0 * 10 ^ nat ev)" "mant_norm n1 n0" "EXPLO \<le> ev" "ev < EXPHI"
  shows "sum_result (signed us (mant m1 m0 * 10 ^ nat eu) + signed vs (mant n1 n0 * 10 ^ nat ev)) (nat (max eu ev))
    (add_aligned u v sub (us, eu, m1, m0) (vs, ev, n1, n0))" (is "sum_result ?T _ _")
proof -
  define T where "T = ?T"
  have T: "T = signed us (mant m1 m0 * 10 ^ nat eu) + signed vs (mant n1 n0 * 10 ^ nat ev)"
    and T': "T = signed vs (mant n1 n0 * 10 ^ nat ev) + signed us (mant m1 m0 * 10 ^ nat eu)" by (simp_all only: T_def add.commute)
  consider (far_u) "eu - ev \<ge> 18" | (far_v) "eu - ev \<le> - 18" | (near_u) "0 \<le> eu - ev" "eu - ev < 18" | (near_v) "eu - ev < 0" "- 18 < eu - ev" by linarith
  then have "sum_result T (nat (max eu ev)) (add_aligned u v sub (us, eu, m1, m0) (vs, ev, n1, n0))"
  proof cases
    case far_u
    then show ?thesis using far_spec [OF u v(3) _ _ T] v(4) by (simp add: add_aligned_def)
  next
    case far_v
    have r: "num_ok (result_is_v sub v)" "mnum_val (result_is_v sub v) = signed vs (mant n1 n0 * 10 ^ nat ev)"
      using v(1,2) by (cases v; auto simp: mnum_val_nm simp del: mnum_val.simps(2))+
    show ?thesis using far_v far_spec [OF r v(3-5) u(3) _ _ T'] u(4) by (simp add: add_aligned_def)
  next
    case near_u
    obtain a b where ab: "shift_mantissa (eu - ev) n1 n0 = Inr (a, b)" "mant_ok a b" "mant a b = mant n1 n0 div 10 ^ nat (eu - ev)"
      using shift_spec [OF mant_norm_ok [OF v(3)], of "eu - ev"] near_u by auto
    have e: "eu - (eu - ev) = ev" "max eu ev = eu" using near_u by simp_all
    note n = near_spec [OF u(3) v(3) near_u _ u(5) ab(2,3), of T us vs, unfolded e(1), OF v(4) T]
    show ?thesis
    proof (cases "us = vs")
      case True
      then show ?thesis using n(1) near_u ab(1) e(2) by (simp add: add_aligned_def)
    next
      case ne: False
      show ?thesis
      proof (cases "eu = ev \<and> mant m1 m0 < mant n1 n0")
        case True
        then have eq: "eu = ev" and le: "0 < (0 :: int) \<or> mant m1 m0 \<le> mant n1 n0" by simp_all
        have T0: "T = signed vs (mant n1 n0 * 10 ^ nat ev) + signed us (mant m1 m0 * 10 ^ nat (ev - 0))" unfolding T' eq by (simp only: diff_0_right)
        have "sum_result T (nat ev) (res_bind (sub_mantissas ev n1 n0 m1 m0) (\<lambda>r. case r of None \<Rightarrow> Inr (MV_int 0) | Some (e, m1, m0) \<Rightarrow> pack_result vs e m1 m0))"
          by (rule near_spec(2) [OF v(3) u(3) _ _ _ v(5) mant_norm_ok [OF u(3)] _ T0 ne [symmetric] le]) (use v(4) in simp_all)
        moreover have "a = n1" "b = n0" using eq ab(1) by (simp_all add: shift_mantissa_def)
        moreover have "m1 < n1 \<or> (m1 = n1 \<and> m0 < n0)" using True mant_less mant_norm_ok u(3) v(3) by blast
        ultimately show ?thesis using ne ab(1) eq by (simp add: add_aligned_def)
      next
        case False
        then have "(eu - ev < 0 \<or> eu - ev = 0 \<and> (m1 < a \<or> m1 = a \<and> m0 < b)) = False"
          using near_u ab mant_less [OF mant_norm_ok [OF u(3)] ab(2)] by auto
        moreover have "0 < eu - ev \<or> mant n1 n0 \<le> mant m1 m0" using False near_u by auto
        moreover have "\<not> eu - ev \<ge> 18" "\<not> eu - ev \<le> - 18" "eu - ev \<ge> 0" using near_u by simp_all
        ultimately show ?thesis using n(2) [OF ne]
          unfolding add_aligned_def Let_def prod.case by (simp only: if_False if_True ab(1) res_bind_simps prod.case ne e(2))
      qed
    qed
  next
    case near_v
    obtain a b where ab: "shift_mantissa (ev - eu) m1 m0 = Inr (a, b)" "mant_ok a b" "mant a b = mant m1 m0 div 10 ^ nat (ev - eu)"
      using shift_spec [OF mant_norm_ok [OF u(3)], of "ev - eu"] near_v by auto
    have e: "ev - (ev - eu) = eu" "max eu ev = ev" using near_v by simp_all
    have d: "0 \<le> ev - eu" "ev - eu < 18" "0 < ev - eu" using near_v by simp_all
    note n = near_spec [OF v(3) u(3) d(1,2) _ v(5) ab(2,3), of T vs us, unfolded e(1), OF u(4) T']
    show ?thesis using n near_v d ab(1) e(2) by (cases "us = vs") (simp_all add: add_aligned_def add_mantissas_commute [of ev n1 n0])
  qed
  then show ?thesis unfolding T_def .
qed

lemma num_ok_less:
  assumes "num_ok r"
  shows "\<bar>mnum_val r\<bar> < 10 ^ 127"
proof (cases r)
  case (MV_int m)
  then have "\<bar>m\<bar> < MANT_HI" using assms by auto
  then have "\<bar>m\<bar> * 10 ^ 77 < MANT_HI * 10 ^ 77" by (intro mult_strict_right_mono) simp_all
  then show ?thesis using MV_int by (simp add: abs_mult)
next
  case (MV_nm s e m1 m0)
  then have m: "0 \<le> mant m1 m0" "mant m1 m0 \<le> 10 ^ 18 - 1" and e: "nat e \<le> 109" using assms mant_range(2) [of m1 m0] by auto
  have "mant m1 m0 * 10 ^ nat e \<le> (10 ^ 18 - 1) * 10 ^ 109" using m e by (intro mult_mono power_mono_int) simp_all
  also have "\<dots> < (10 :: int) ^ 127" by simp
  finally have "mant m1 m0 * 10 ^ nat e < 10 ^ 127" .
  moreover have "0 \<le> mant m1 m0 * 10 ^ nat e" using m(1) by simp
  ultimately show ?thesis unfolding MV_nm mnum_val_nm by (cases s) simp_all
qed

lemma exact_result: "num_ok r \<Longrightarrow> mnum_val r = T \<Longrightarrow> sum_result T E (Inr r)"
  using num_ok_less [of r] by (auto simp: sum_result_def sum_unit_def)

lemma exp_unique:
  assumes "10 ^ 17 \<le> M" and "M < 10 ^ 18" and "10 ^ (17 + E) \<le> M * 10 ^ n" and "M * 10 ^ n < (10 :: int) ^ (18 + E)"
  shows "n = E"
proof (rule ccontr)
  assume "n \<noteq> E"
  then consider "n < E" | "E < n" by linarith
  then show False
  proof cases
    case 1
    have "M * 10 ^ n < 10 ^ 18 * 10 ^ n" using assms(2) by simp
    also have "\<dots> \<le> (10 :: int) ^ (17 + E)" unfolding power_add [symmetric] using 1 by (intro power_mono_int) simp
    finally show False using assms(3) by simp
  next
    case 2
    have "(10 :: int) ^ (18 + E) \<le> 10 ^ 17 * 10 ^ n" unfolding power_add [symmetric] using 2 by (intro power_mono_int) simp
    also have "\<dots> \<le> M * 10 ^ n" using assms(1) by (intro mult_right_mono) auto
    finally show False using assms(4) by simp
  qed
qed

lemma larger_exp:
  assumes "mant_norm m1 m0" and "mant_norm n1 n0" and "0 \<le> eu" and "0 \<le> ev"
    and "10 ^ (17 + E) \<le> max \<bar>signed us (mant m1 m0 * 10 ^ nat eu)\<bar> \<bar>signed vs (mant n1 n0 * 10 ^ nat ev)\<bar>"
    and "max \<bar>signed us (mant m1 m0 * 10 ^ nat eu)\<bar> \<bar>signed vs (mant n1 n0 * 10 ^ nat ev)\<bar> < 10 ^ (18 + E)"
  shows "nat (max eu ev) = E"
proof -
  have abs: "\<bar>signed us (mant m1 m0 * 10 ^ nat eu)\<bar> = mant m1 m0 * 10 ^ nat eu" "\<bar>signed vs (mant n1 n0 * 10 ^ nat ev)\<bar> = mant n1 n0 * 10 ^ nat ev"
    using mant_range(2) [OF assms(1)] mant_range(2) [OF assms(2)] by (auto simp: abs_mult)
  have M: "10 ^ 17 \<le> mant m1 m0" "mant m1 m0 < 10 ^ 18" "10 ^ 17 \<le> mant n1 n0" "mant n1 n0 < 10 ^ 18"
    using mant_range(2) [OF assms(1)] mant_range(2) [OF assms(2)] by auto
  consider "eu < ev" | "ev < eu" | "eu = ev" by linarith
  then show ?thesis
  proof cases
    case 1
    then have "mant m1 m0 * 10 ^ nat eu < mant n1 n0 * 10 ^ nat ev" using assms(3,4) M(1) by (intro mag_order [OF M(2,3)]) simp_all
    then show ?thesis using exp_unique [OF M(3,4), of E "nat ev"] assms(5,6) 1 unfolding abs by (simp add: max_def)
  next
    case 2
    then have "mant n1 n0 * 10 ^ nat ev < mant m1 m0 * 10 ^ nat eu" using assms(3,4) M(3) by (intro mag_order [OF M(4,1)]) simp_all
    then show ?thesis using exp_unique [OF M(1,2), of E "nat eu"] assms(5,6) 2 unfolding abs by (simp add: max_def)
  next
    case 3
    then show ?thesis using exp_unique [OF M(1,2), of E "nat eu"] exp_unique [OF M(3,4), of E "nat eu"] assms(5,6) unfolding abs by (auto simp: max_def split: if_splits)
  qed
qed

lemma add_mvals_spec:
  assumes u: "num_ok u" and v: "num_ok v" and E: "10 ^ (17 + E) \<le> max \<bar>mnum_val u\<bar> \<bar>mnum_val v\<bar>" "max \<bar>mnum_val u\<bar> \<bar>mnum_val v\<bar> < 10 ^ (18 + E)"
  shows "sum_result (mnum_val u + signed sub (mnum_val v)) E (add_mvals u v sub)"
proof -
  have rv: "num_ok (result_is_v sub v)" "mnum_val (result_is_v sub v) = signed sub (mnum_val v)"
    using v by (cases v; auto simp: mnum_val_nm simp del: mnum_val.simps(2))+
  consider (u0) "unpack_mval u = Inr None" "mnum_val u = 0"
    | (v0) us eu m1 m0 where "unpack_mval u = Inr (Some (us, eu, m1, m0))" "unpack_mval v = Inr None" "mnum_val v = 0"
    | (both) us eu m1 m0 vs ev n1 n0 where "unpack_mval u = Inr (Some (us, eu, m1, m0))" "unpack_mval v = Inr (Some (vs, ev, n1, n0))"
        "mant_norm m1 m0" "EXPLO \<le> eu" "eu < EXPHI" "mnum_val u = signed us (mant m1 m0 * 10 ^ nat eu)"
        "mant_norm n1 n0" "EXPLO \<le> ev" "ev < EXPHI" "mnum_val v = signed vs (mant n1 n0 * 10 ^ nat ev)"
    using unpack_spec [OF u] unpack_spec [OF v] by metis
  then show ?thesis
  proof cases
    case u0
    then show ?thesis using exact_result [OF rv(1)] rv(2) by (simp add: add_mvals_def)
  next
    case v0
    then show ?thesis using exact_result [OF u] by (simp add: add_mvals_def)
  next
    case both
    have "nat (max eu ev) = E" by (rule larger_exp [OF both(3,7) _ _ E [unfolded both(6,10)]]) (use both(4,8) in simp_all)
    moreover have "mnum_val v = signed ((vs \<noteq> sub) \<noteq> sub) (mant n1 n0 * 10 ^ nat ev)" using both(10) by auto
    moreover have "signed us (mant m1 m0 * 10 ^ nat eu) + signed (vs \<noteq> sub) (mant n1 n0 * 10 ^ nat ev) = mnum_val u + signed sub (mnum_val v)"
      using both(6,10) by (cases sub) auto
    ultimately show ?thesis using add_aligned_spec [OF u both(6,3-5) v _ both(7-9), of "vs \<noteq> sub" sub] both(1,2) by (simp add: add_mvals_def)
  qed
qed

lemma int_result_exact:
  assumes "- 2 * MANT_HI < m" and "m < 2 * MANT_HI"
  shows "num_ok (int_result m) \<and> mnum_val (int_result m) = m * 10 ^ 77"
proof (cases "m < MANT_HI \<and> m > - MANT_HI")
  case True
  then show ?thesis by (simp add: int_result_def)
next
  case False
  define a where "a = (if m > 0 then m else - m)"
  have a: "MANT_HI \<le> a" "a < 2 * MANT_HI" "a = a div 10 * 10 + a mod 10" using False assms by (auto simp: a_def)
  have r: "int_result m = MV_nm (\<not> m > 0) 69 (a div 10) ((a - a div 10 * 10) * MANT_LO)" using False by (simp add: int_result_def a_def Let_def)
  have d: "a - a div 10 * 10 = a mod 10" by (simp add: minus_div_mult_eq_mod)
  have n: "mant_norm (a div 10) (a mod 10 * MANT_LO)" using a(1,2) by (auto simp: mant_norm_def)
  have "mant (a div 10) (a mod 10 * MANT_LO) = a * MANT_LO" using a(3) by linarith
  then have "mant (a div 10) (a mod 10 * MANT_LO) * 10 ^ nat 69 = a * 10 ^ 77" by (simp add: mult.assoc)
  moreover have "signed (\<not> m > 0) a = m" by (simp add: a_def)
  ultimately show ?thesis unfolding r d mnum_val_nm using n by (auto simp: a_def)
qed

text \<open>
  C26: Addition and subtraction of numbers. If the larger operand has exponent \<open>E\<close> (18 digits from \<open>10 ^ E\<close> on), then \<open>op_add\<close> and \<open>op_sub\<close>
  fail with \<open>NUMOFLOW\<close> exactly if the exact result is out of range; otherwise the result is a valid number that differs from the exact
  one by less than one unit of the last place of the larger operand (of the next place if the result has a digit more), and equals it if
  it is a multiple of this unit. The bound is relative to the operands: when leading digits cancel, the result may be wrong in its first
  digit, because the smaller operand has been cut. If the exact result is not zero but below \<open>10 ^ -43\<close>, nothing but the validity of the
  result is claimed. The loops end and the table \<open>ten_pwr\<close> is only read inside of its bounds.
\<close>

theorem op_add_correct:
  assumes "num_ok u" and "num_ok v"
    and "10 ^ (17 + E) \<le> max \<bar>mnum_val u\<bar> \<bar>mnum_val v\<bar>" and "max \<bar>mnum_val u\<bar> \<bar>mnum_val v\<bar> < 10 ^ (18 + E)"
  shows "sum_result (mnum_val u + mnum_val v) E (op_add_num u v) \<and> sum_result (mnum_val u - mnum_val v) E (op_sub_num u v)"
proof (cases "\<exists>a b. u = MV_int a \<and> v = MV_int b")
  case True
  then obtain a b where uv: "u = MV_int a" "v = MV_int b" by blast
  have "num_ok (int_result (a + b)) \<and> mnum_val (int_result (a + b)) = (a + b) * 10 ^ 77"
    "num_ok (int_result (a - b)) \<and> mnum_val (int_result (a - b)) = (a - b) * 10 ^ 77"
    by (rule int_result_exact; use assms(1,2) uv in auto)+
  then show ?thesis unfolding uv op_add_num_def op_sub_num_def prod.case mnum.case mnum_val.simps distrib_right [symmetric] left_diff_distrib [symmetric]
    using exact_result by blast
next
  case False
  then have "op_add_num u v = add_mvals u v False" "op_sub_num u v = add_mvals u v True"
    by (cases u; cases v; simp add: op_add_num_def op_sub_num_def)+
  then show ?thesis using add_mvals_spec [OF assms, of False] add_mvals_spec [OF assms, of True] by simp
qed

theorem op_add_correct_witness:
  "sum_result ((100000000 * MANT_HI + 5) * 10 ^ 65 - 7 * 10 ^ 77) 65 (op_add_num (MV_nm False 65 100000000 5) (MV_int (- 7)))
   \<and> op_add_num (MV_nm False 65 100000000 5) (MV_int (- 7)) = Inr (MV_nm False 64 999930000 50)"
proof (rule conjI)
  have u: "mnum_val (MV_nm False 65 100000000 5) = (100000000 * MANT_HI + 5) * 10 ^ 65" "mnum_val (MV_int (- 7)) = - (7 * 10 ^ 77)" by simp_all
  have m: "10 ^ (17 + 65) \<le> max \<bar>mnum_val (MV_nm False 65 100000000 5)\<bar> \<bar>mnum_val (MV_int (- 7))\<bar>"
    "max \<bar>mnum_val (MV_nm False 65 100000000 5)\<bar> \<bar>mnum_val (MV_int (- 7))\<bar> < 10 ^ (18 + 65)"
    unfolding u by simp_all
  show "sum_result ((100000000 * MANT_HI + 5) * 10 ^ 65 - 7 * 10 ^ 77) 65 (op_add_num (MV_nm False 65 100000000 5) (MV_int (- 7)))"
    using op_add_correct [OF _ _ m] unfolding u by (simp add: mant_norm_def)
  show "op_add_num (MV_nm False 65 100000000 5) (MV_int (- 7)) = Inr (MV_nm False 64 999930000 50)" by code_simp
qed


end
