(* ===== verification/Muldiv.thy ===== *)
theory Muldiv
  imports Arith
begin

text \<open>
  Multiplication and division of 18-digit mantissas (\<open>sr_port/eb_muldiv.c\<close>: \<open>eb_mul\<close>, \<open>eb_div\<close>, \<open>eb_int_mod\<close>). Mantissas are broken into
  limbs of four digits; the product is the schoolbook one, the quotient is computed limb by limb from an estimate that uses the leading
  limb of the divisor only and is corrected afterwards. All values stay below \<open>2 ^ 31\<close> (\<open>row_range\<close> and \<open>estimate_range\<close>), so \<open>int4\<close>
  variables are integers; their quotients and remainders are those of nonnegative numbers except in \<open>eb_int_mod\<close>.
\<close>

section \<open>Limbs\<close>

abbreviation (input) RADIX :: int where "RADIX \<equiv> 10000"

text \<open>The number an array of limbs stands for; a larger index is more significant.\<close>

fun limbs_val :: "int list \<Rightarrow> int" where
  "limbs_val [] = 0"
| "limbs_val (x # xs) = x + RADIX * limbs_val xs"

definition limbs_ok :: "int list \<Rightarrow> bool" where
  "limbs_ok xs \<longleftrightarrow> (\<forall>x \<in> set xs. 0 \<le> x \<and> x < RADIX)"

lemma limbs_ok_simps [simp]:
  "limbs_ok []" "limbs_ok (x # xs) \<longleftrightarrow> 0 \<le> x \<and> x < RADIX \<and> limbs_ok xs"
  by (auto simp: limbs_ok_def)

lemma limbs_ok_nth: "limbs_ok xs \<Longrightarrow> i < length xs \<Longrightarrow> 0 \<le> xs ! i \<and> xs ! i < RADIX"
  by (auto simp: limbs_ok_def)

lemma limbs_ok_update: "limbs_ok xs \<Longrightarrow> 0 \<le> y \<Longrightarrow> y < RADIX \<Longrightarrow> limbs_ok (xs[i := y])"
  unfolding limbs_ok_def using set_update_subset_insert [of xs i y] by auto

lemma limbs_val_update: "i < length xs \<Longrightarrow> limbs_val (xs[i := y]) = limbs_val xs + (y - xs ! i) * RADIX ^ i"
proof (induction xs arbitrary: i)
  case (Cons x xs)
  show ?case
  proof (cases i)
    case (Suc k)
    then have IH: "limbs_val (xs[k := y]) = limbs_val xs + (y - xs ! k) * RADIX ^ k" using Cons by simp
    show ?thesis unfolding Suc list_update.simps nat.case limbs_val.simps IH by (simp add: distrib_left)
  qed simp
qed simp

lemma limbs_val_range: "limbs_ok xs \<Longrightarrow> 0 \<le> limbs_val xs \<and> limbs_val xs < RADIX ^ length xs"
  by (induction xs) auto

lemma limbs_val_drop: "i < length xs \<Longrightarrow> limbs_val (drop i xs) = xs ! i + RADIX * limbs_val (drop (Suc i) xs)"
  by (simp add: Cons_nth_drop_Suc [symmetric])

lemma limbs_val_append: "limbs_val (xs @ ys) = limbs_val xs + RADIX ^ length xs * limbs_val ys"
  by (induction xs) (simp_all add: algebra_simps)

lemma limbs_val_zeros: "(\<forall>x \<in> set xs. x = 0) \<Longrightarrow> limbs_val xs = 0"
  by (induction xs) auto

section \<open>Multiplication\<close>

text \<open>The five limbs of a mantissa, 2-4-(3/1)-4-4 digits.\<close>

definition mul_limbs :: "int \<Rightarrow> int \<Rightarrow> int list" where
  "mul_limbs v1 v0 =
     [v0 mod RADIX, (v0 div RADIX) mod RADIX, (v1 mod (RADIX div 10)) * 10 + v0 div (RADIX * RADIX),
      (v1 div (RADIX div 10)) mod RADIX, v1 div ((RADIX div 10) * RADIX)]"

text \<open>The inner loop: one limb \<open>d\<close> of the second factor times all limbs of the first, added at position \<open>j\<close>.\<close>

function mul_row :: "int list \<Rightarrow> int \<Rightarrow> nat \<Rightarrow> nat \<Rightarrow> int list \<Rightarrow> int \<Rightarrow> int list \<times> int" where
  "mul_row m1 d j i prd carry =
     (if i \<le> 4 then
        let acc = m1 ! i * d + prd ! (i + j) + carry
        in mul_row m1 d j (Suc i) (prd[i + j := acc mod RADIX]) (acc div RADIX)
      else (prd, carry))"
  by pat_completeness auto
termination
  by (relation "measure (\<lambda>(m1, d, j, i, prd, carry). 5 - i)") auto

declare mul_row.simps [simp del]

function mul_rows :: "int list \<Rightarrow> int list \<Rightarrow> nat \<Rightarrow> int list \<Rightarrow> int list" where
  "mul_rows m1 m2 j prd =
     (if j \<le> 4 then
        mul_rows m1 m2 (Suc j)
          (if m2 ! j \<noteq> 0 then
             (case mul_row m1 (m2 ! j) j 0 prd 0 of (prd, carry) \<Rightarrow> if 9 > 5 + j then prd[5 + j := carry] else prd)
           else prd)
      else prd)"
  by pat_completeness auto
termination
  by (relation "measure (\<lambda>(m1, m2, j, prd). 5 - j)") auto

declare mul_rows.simps [simp del]

text \<open>The mantissa from the leading limbs of a product or quotient: 4-4-1/3-4-2 digits, or 3-4-2/2-4-3 if the leading digit is zero.\<close>

definition join_441 :: "int \<Rightarrow> int \<Rightarrow> int \<Rightarrow> int \<Rightarrow> int \<Rightarrow> int \<times> int" where
  "join_441 a8 a7 a6 a5 a4 =
     ((a8 * RADIX + a7) * (RADIX div 1000) + a6 div 1000, ((a6 mod 1000) * RADIX + a5) * (RADIX div 100) + a4 div 100)"

definition join_342 :: "int \<Rightarrow> int \<Rightarrow> int \<Rightarrow> int \<Rightarrow> int \<Rightarrow> int \<times> int" where
  "join_342 a8 a7 a6 a5 a4 =
     ((a8 * RADIX + a7) * (RADIX div 100) + a6 div 100, ((a6 mod 100) * RADIX + a5) * (RADIX div 10) + a4 div 10)"

text \<open>\<open>eb_mul (v, u)\<close>: the scale and the mantissa of the product.\<close>

definition eb_mul :: "int \<times> int \<Rightarrow> int \<times> int \<Rightarrow> int \<times> int \<times> int" where
  "eb_mul v u =
     (let prd = mul_rows (mul_limbs (fst v) (snd v)) (mul_limbs (fst u) (snd u)) 0 (replicate 9 0)
      in if prd ! 8 \<ge> RADIX div 10
         then (0, join_441 (prd ! 8) (prd ! 7) (prd ! 6) (prd ! 5) (prd ! 4))
         else (-1, join_342 (prd ! 8) (prd ! 7) (prd ! 6) (prd ! 5) (prd ! 4)))"

lemma split_div: "(x :: int) = x mod a + a * (x div a mod b) + a * b * (x div (a * b))" if "0 \<le> b"
proof -
  have "x div a = x div a mod b + b * (x div (a * b))" using that by (simp add: zdiv_zmult2_eq)
  then have "a * (x div a) = a * (x div a mod b) + a * b * (x div (a * b))" by (metis distrib_left mult.assoc)
  then show ?thesis using mod_mult_div_eq [of x a] by linarith
qed

lemma limbs_2_4_4_4_4:
  "limbs_val [x0, x1, y0 * 10 + x2, y1, y2] = (y0 + 1000 * y1 + 10000000 * y2) * MANT_HI + (x0 + 10000 * x1 + 100000000 * x2)"
  by simp

lemma mul_limbs_spec:
  assumes "mant_ok v1 v0"
  shows "limbs_ok (mul_limbs v1 v0)" and "limbs_val (mul_limbs v1 v0) = mant v1 v0" and "length (mul_limbs v1 v0) = 5"
proof -
  have d: "0 \<le> v0 div 100000000" "v0 div 100000000 < 10" "0 \<le> v1 div 10000000" "v1 div 10000000 < 100" "0 \<le> v1 div 1000" "0 \<le> v0 div 10000"
    using assms by (auto simp: mant_ok_def pos_imp_zdiv_nonneg_iff intro!: int_div_less)
  have m: "0 \<le> v1 mod 1000" "v1 mod 1000 < 1000" by simp_all
  have "v1 mod 1000 * 10 + v0 div 100000000 < 10000" using d m by linarith
  then show "limbs_ok (mul_limbs v1 v0)" using d m by (simp add: mul_limbs_def)
  have v: "v0 mod 10000 + 10000 * (v0 div 10000 mod 10000) + 100000000 * (v0 div 100000000) = v0"
    "v1 mod 1000 + 1000 * (v1 div 1000 mod 10000) + 10000000 * (v1 div 10000000) = v1"
    by (rule split_div [of RADIX v0 RADIX, symmetric, simplified], rule split_div [of RADIX v1 1000, symmetric, simplified])
  have m: "mul_limbs v1 v0 = [v0 mod 10000, v0 div 10000 mod 10000, v1 mod 1000 * 10 + v0 div 100000000, v1 div 1000 mod 10000, v1 div 10000000]"
    by (simp add: mul_limbs_def)
  show "limbs_val (mul_limbs v1 v0) = mant v1 v0"
    unfolding m using limbs_2_4_4_4_4 [of "v0 mod 10000" "v0 div 10000 mod 10000" "v1 mod 1000" "v0 div 100000000" "v1 div 1000 mod 10000" "v1 div 10000000"]
    unfolding v .
  show "length (mul_limbs v1 v0) = 5" by (simp add: mul_limbs_def)
qed

text \<open>No step of a row leaves the range of \<open>int4\<close>, and the next carry is a limb.\<close>

lemma row_range:
  assumes "0 \<le> a" "a < RADIX" "0 \<le> d" "d < RADIX" "0 \<le> p" "p < RADIX" "0 \<le> c" "c < RADIX"
  shows "0 \<le> a * d + p + c" "a * d + p + c < 2 ^ 31" "0 \<le> (a * d + p + c) div RADIX" "(a * d + p + c) div RADIX < RADIX"
proof -
  have "a * d \<le> 9999 * 9999" using assms by (intro mult_mono) auto
  then have u: "a * d + p + c < RADIX * RADIX" using assms by simp
  show l: "0 \<le> a * d + p + c" using assms by simp
  show "a * d + p + c < 2 ^ 31" using u by simp
  show "0 \<le> (a * d + p + c) div RADIX" using l by (simp add: pos_imp_zdiv_nonneg_iff)
  show "(a * d + p + c) div RADIX < RADIX" using u by (intro int_div_less) simp_all
qed

text \<open>A step of a row: the limb at position \<open>i + j\<close> becomes \<open>y\<close>, the rest goes to the carry \<open>c'\<close>.\<close>

lemma row_step:
  assumes "i + j < length yx" and "j < length xx" and "y + c' * RADIX = yx ! (i + j) + a * xx ! j + c"
    and "V + c'' * W = limbs_val (yx[i + j := y]) + c' * RADIX ^ (i + Suc j) + a * RADIX ^ (i + Suc j) * limbs_val (drop (Suc j) xx)"
  shows "V + c'' * W = limbs_val yx + c * RADIX ^ (i + j) + a * RADIX ^ (i + j) * limbs_val (drop j xx)"
proof -
  define P where "P = (RADIX :: int) ^ (i + j)"
  define D where "D = limbs_val (drop (Suc j) xx)"
  have u: "limbs_val (yx[i + j := y]) = limbs_val yx + (y - yx ! (i + j)) * P" unfolding P_def by (rule limbs_val_update [OF assms(1)])
  have d: "limbs_val (drop j xx) = xx ! j + RADIX * D" unfolding D_def by (rule limbs_val_drop [OF assms(2)])
  have S: "RADIX ^ (i + Suc j) = RADIX * P" by (simp add: P_def)
  have "(y + c' * RADIX) * P = (yx ! (i + j) + a * xx ! j + c) * P" by (simp only: assms(3))
  then show ?thesis using assms(4) unfolding u d S D_def [symmetric] P_def [symmetric] by (simp only: algebra_simps)
qed

lemma mul_row_spec:
  assumes "length prd = 9" "limbs_ok prd" "0 \<le> carry" "carry < RADIX" "length m1 = 5" "limbs_ok m1" "0 \<le> d" "d < RADIX" "j \<le> 4" "i \<le> 5"
  shows "\<exists>prd' c'. mul_row m1 d j i prd carry = (prd', c') \<and> length prd' = 9 \<and> limbs_ok prd' \<and> 0 \<le> c' \<and> c' < RADIX
    \<and> limbs_val prd' + c' * RADIX ^ (5 + j) = limbs_val prd + carry * RADIX ^ (i + j) + d * RADIX ^ (i + j) * limbs_val (drop i m1)
    \<and> (\<forall>k \<ge> 5 + j. prd' ! k = prd ! k)"
  using assms
proof (induction "5 - i" arbitrary: i prd carry)
  case 0
  then have "i = 5" by simp
  then show ?case using "0.prems" by (simp add: mul_row.simps)
next
  case (Suc n)
  then have i: "i \<le> 4" "n = 5 - Suc i" by simp_all
  define acc where "acc = m1 ! i * d + prd ! (i + j) + carry"
  have p: "0 \<le> prd ! (i + j) \<and> prd ! (i + j) < RADIX" "0 \<le> m1 ! i \<and> m1 ! i < RADIX"
    using limbs_ok_nth Suc.prems i by auto
  have acc: "0 \<le> acc div RADIX" "acc div RADIX < RADIX" "acc = acc div RADIX * RADIX + acc mod RADIX"
    using row_range [of "m1 ! i" d "prd ! (i + j)" carry] p Suc.prems by (simp_all add: acc_def)
  let ?prd = "prd[i + j := acc mod RADIX]"
  obtain prd' c' where IH: "mul_row m1 d j (Suc i) ?prd (acc div RADIX) = (prd', c')" "length prd' = 9" "limbs_ok prd'" "0 \<le> c'" "c' < RADIX"
    "limbs_val prd' + c' * RADIX ^ (5 + j) = limbs_val ?prd + acc div RADIX * RADIX ^ (Suc i + j) + d * RADIX ^ (Suc i + j) * limbs_val (drop (Suc i) m1)"
    "\<forall>k \<ge> 5 + j. prd' ! k = ?prd ! k"
    using Suc.hyps(1) [OF i(2), of ?prd "acc div RADIX"] Suc.prems i acc by (auto simp: limbs_ok_update)
  have "limbs_val prd' + c' * RADIX ^ (5 + j) = limbs_val prd + carry * RADIX ^ (j + i) + d * RADIX ^ (j + i) * limbs_val (drop i m1)"
    using IH(6) acc(3) Suc.prems i by (intro row_step [of j i prd m1 "acc mod RADIX" "acc div RADIX"]) (simp_all add: acc_def add.commute mult.commute)
  moreover have "\<forall>k \<ge> 5 + j. prd' ! k = prd ! k" using IH(7) i by simp
  moreover have "mul_row m1 d j i prd carry = mul_row m1 d j (Suc i) ?prd (acc div RADIX)" using i by (subst mul_row.simps) (simp add: acc_def Let_def)
  ultimately show ?case using IH(1-5) by (simp add: add.commute)
qed

text \<open>All rows: limbs beyond the rows done are still zero, so that the last carry of a row has its own place, except in the last row,
  where it is zero.\<close>

lemma mul_rows_spec:
  assumes "length prd = 9" "limbs_ok prd" "limbs_val prd < RADIX ^ (5 + j)" "length m1 = 5" "limbs_ok m1" "length m2 = 5" "limbs_ok m2"
    "j \<le> 5" "\<forall>k \<ge> 5 + j. k < 9 \<longrightarrow> prd ! k = 0" "limbs_val prd + RADIX ^ j * limbs_val m1 * limbs_val (drop j m2) < RADIX ^ 9"
  shows "\<exists>prd'. mul_rows m1 m2 j prd = prd' \<and> length prd' = 9 \<and> limbs_ok prd'
    \<and> limbs_val prd' = limbs_val prd + RADIX ^ j * limbs_val m1 * limbs_val (drop j m2)"
  using assms
proof (induction "5 - j" arbitrary: j prd)
  case 0
  then have "j = 5" by simp
  then show ?case using "0.prems" by (simp add: mul_rows.simps)
next
  case (Suc n)
  then have j: "j \<le> 4" "n = 5 - Suc j" by simp_all
  define d where "d = m2 ! j"
  define L where "L = limbs_val (drop (Suc j) m2)"
  define P where "P = (RADIX :: int) ^ j"
  define M where "M = limbs_val m1"
  have d: "0 \<le> d" "d < RADIX" using limbs_ok_nth Suc.prems j by (auto simp: d_def)
  have drop: "limbs_val (drop j m2) = d + RADIX * L" using Suc.prems j unfolding d_def L_def by (intro limbs_val_drop) simp
  have M: "0 \<le> M" "M < RADIX ^ 5" using limbs_val_range [of m1] Suc.prems by (simp_all add: M_def)
  have L: "0 \<le> L"
  proof -
    have "limbs_ok (drop (Suc j) m2)" using Suc.prems by (auto simp: limbs_ok_def dest: in_set_dropD)
    then show ?thesis using limbs_val_range by (simp add: L_def)
  qed
  have P: "0 < P" by (simp add: P_def)
  define row where "row = (if d \<noteq> 0 then (case mul_row m1 d j 0 prd 0 of (prd, carry) \<Rightarrow> if 9 > 5 + j then prd[5 + j := carry] else prd) else prd)"
  have total: "limbs_val prd + P * M * (d + RADIX * L) < RADIX ^ 9" using Suc.prems(10) unfolding drop P_def M_def .
  have split: "P * M * (d + RADIX * L) = d * P * M + P * RADIX * M * L" by (simp add: algebra_simps)
  have "length row = 9 \<and> limbs_ok row \<and> limbs_val row = limbs_val prd + d * P * M \<and> (\<forall>k \<ge> 5 + Suc j. k < 9 \<longrightarrow> row ! k = 0)"
  proof (cases "d = 0")
    case True
    then show ?thesis using Suc.prems by (simp add: row_def)
  next
    case False
    obtain q c where q: "mul_row m1 d j 0 prd 0 = (q, c)" "length q = 9" "limbs_ok q" "0 \<le> c" "c < RADIX"
      "limbs_val q + c * RADIX ^ (5 + j) = limbs_val prd + d * P * M" "\<forall>k \<ge> 5 + j. q ! k = prd ! k"
      using mul_row_spec [OF Suc.prems(1,2) _ _ Suc.prems(4,5) d j(1), of 0 0] by (auto simp: P_def M_def)
    show ?thesis
    proof (cases "j = 4")
      case True
      have "0 \<le> limbs_val q" using limbs_val_range q by simp
      moreover have "0 \<le> P * RADIX * M * L" using P M L by simp
      moreover have "limbs_val q + c * RADIX ^ 9 = limbs_val prd + d * P * M" using q(6) True by simp
      ultimately have "c * RADIX ^ 9 < RADIX ^ 9" using total unfolding split by linarith
      then have "c = 0" using q(4) by simp
      then show ?thesis using True False q by (simp add: row_def)
    next
      case ne: False
      then have "limbs_val (q[5 + j := c]) = limbs_val q + c * RADIX ^ (5 + j)" using q j Suc.prems(9) by (subst limbs_val_update) simp_all
      then show ?thesis using ne False j q Suc.prems(9) by (simp add: row_def limbs_ok_update)
    qed
  qed
  note row = this [THEN conjunct1] this [THEN conjunct2, THEN conjunct1] this [THEN conjunct2, THEN conjunct2, THEN conjunct1] this [THEN conjunct2, THEN conjunct2, THEN conjunct2]
  have "limbs_val prd + d * P * M < RADIX ^ (5 + Suc j)"
  proof -
    have "P * (d * M) \<le> P * (9999 * RADIX ^ 5)" using d M P by (intro mult_left_mono mult_mono) auto
    then have "d * P * M \<le> 9999 * RADIX ^ (5 + j)" by (simp add: P_def power_add algebra_simps)
    moreover have "RADIX ^ (5 + Suc j) = RADIX * (RADIX ^ (5 + j) :: int)" by (simp only: add_Suc_right power_Suc)
    ultimately show ?thesis using Suc.prems(3) by linarith
  qed
  moreover have "limbs_val row + RADIX ^ Suc j * limbs_val m1 * limbs_val (drop (Suc j) m2) < RADIX ^ 9"
    using total unfolding split row(3) L_def [symmetric] M_def [symmetric] by (simp add: P_def)
  ultimately have "\<exists>prd'. mul_rows m1 m2 (Suc j) row = prd' \<and> length prd' = 9 \<and> limbs_ok prd' \<and> limbs_val prd' = limbs_val row + RADIX ^ Suc j * limbs_val m1 * limbs_val (drop (Suc j) m2)"
    using j row Suc.prems by (intro Suc.hyps(1)) simp_all
  moreover have "limbs_val row + RADIX ^ Suc j * limbs_val m1 * limbs_val (drop (Suc j) m2) = limbs_val prd + RADIX ^ j * limbs_val m1 * limbs_val (drop j m2)"
    unfolding drop row(3) L_def [symmetric] M_def [symmetric] P_def [symmetric] power_Suc by (simp add: algebra_simps)
  moreover have "mul_rows m1 m2 j prd = mul_rows m1 m2 (Suc j) row" using j by (subst mul_rows.simps) (simp add: row_def d_def)
  ultimately show ?case by simp
qed

lemma join_441:
  assumes "0 \<le> a4" "a4 < RADIX" "0 \<le> a5" "a5 < RADIX" "0 \<le> a6" "a6 < RADIX" "0 \<le> a7" "a7 < RADIX" "0 \<le> a8" "a8 < RADIX" "0 \<le> T" "T < RADIX ^ 4"
    and "N = T + RADIX ^ 4 * (a4 + RADIX * a5 + RADIX ^ 2 * a6 + RADIX ^ 3 * a7 + RADIX ^ 4 * a8)"
  shows "\<exists>p1 p0. join_441 a8 a7 a6 a5 a4 = (p1, p0) \<and> mant_ok p1 p0 \<and> mant p1 p0 = N div 10 ^ 18"
proof -
  obtain q6 r6 q4 r4 where d: "a6 div 1000 = q6" "a6 mod 1000 = r6" "a4 div 100 = q4" "a4 mod 100 = r4" by blast
  have a: "a6 = 1000 * q6 + r6" "a4 = 100 * q4 + r4" using d by auto
  have r: "0 \<le> r6" "r6 < 1000" "0 \<le> r4" "r4 < 100" using d by auto
  have q: "0 \<le> q6" "q6 < 10" "0 \<le> q4" "q4 < 100" using assms a r by linarith+
  have "mant_ok ((a8 * RADIX + a7) * 10 + q6) ((r6 * RADIX + a5) * 100 + q4)" using assms r q by (simp add: mant_ok_def)
  moreover have "N = mant ((a8 * RADIX + a7) * 10 + q6) ((r6 * RADIX + a5) * 100 + q4) * 10 ^ 18 + (T + RADIX ^ 4 * r4)" unfolding assms(13) a by simp
  then have "N div 10 ^ 18 = mant ((a8 * RADIX + a7) * 10 + q6) ((r6 * RADIX + a5) * 100 + q4)" by (rule divmod_eq(1)) (use assms r in simp_all)
  ultimately show ?thesis using d by (simp add: join_441_def)
qed

lemma join_342:
  assumes "0 \<le> a4" "a4 < RADIX" "0 \<le> a5" "a5 < RADIX" "0 \<le> a6" "a6 < RADIX" "0 \<le> a7" "a7 < RADIX" "0 \<le> a8" "a8 < 1000" "0 \<le> T" "T < RADIX ^ 4"
    and "N = T + RADIX ^ 4 * (a4 + RADIX * a5 + RADIX ^ 2 * a6 + RADIX ^ 3 * a7 + RADIX ^ 4 * a8)"
  shows "\<exists>p1 p0. join_342 a8 a7 a6 a5 a4 = (p1, p0) \<and> mant_ok p1 p0 \<and> mant p1 p0 = N div 10 ^ 17"
proof -
  obtain q6 r6 q4 r4 where d: "a6 div 100 = q6" "a6 mod 100 = r6" "a4 div 10 = q4" "a4 mod 10 = r4" by blast
  have a: "a6 = 100 * q6 + r6" "a4 = 10 * q4 + r4" using d by auto
  have r: "0 \<le> r6" "r6 < 100" "0 \<le> r4" "r4 < 10" using d by auto
  have q: "0 \<le> q6" "q6 < 100" "0 \<le> q4" "q4 < 1000" using assms a r by linarith+
  have "mant_ok ((a8 * RADIX + a7) * 100 + q6) ((r6 * RADIX + a5) * 1000 + q4)" using assms r q by (simp add: mant_ok_def)
  moreover have "N = mant ((a8 * RADIX + a7) * 100 + q6) ((r6 * RADIX + a5) * 1000 + q4) * 10 ^ 17 + (T + RADIX ^ 4 * r4)" unfolding assms(13) a by simp
  then have "N div 10 ^ 17 = mant ((a8 * RADIX + a7) * 100 + q6) ((r6 * RADIX + a5) * 1000 + q4)" by (rule divmod_eq(1)) (use assms r in simp_all)
  ultimately show ?thesis using d by (simp add: join_342_def)
qed

text \<open>The 18 leading digits of the product, and one less power of ten if it has only 35 digits.\<close>

lemma eb_mul_spec:
  assumes "mant_norm v1 v0" and "mant_norm u1 u0"
  shows "\<exists>p1 p0. eb_mul (v1, v0) (u1, u0) = (if 10 ^ 35 \<le> mant v1 v0 * mant u1 u0 then 0 else - 1, p1, p0) \<and> mant_norm p1 p0
    \<and> mant p1 p0 = mant v1 v0 * mant u1 u0 div (if 10 ^ 35 \<le> mant v1 v0 * mant u1 u0 then 10 ^ 18 else 10 ^ 17)"
proof -
  define N where "N = mant v1 v0 * mant u1 u0"
  note v = mul_limbs_spec [OF mant_norm_ok [OF assms(1)]] and u = mul_limbs_spec [OF mant_norm_ok [OF assms(2)]]
  note r = mant_range(2) [OF assms(1)] mant_range(2) [OF assms(2)]
  have "10 ^ 17 * 10 ^ 17 \<le> N" unfolding N_def using r by (intro mult_mono) auto
  then have lo: "10 ^ 34 \<le> N" by simp
  have "N < 10 ^ 18 * 10 ^ 18" unfolding N_def using r by (intro mult_strict_mono) auto
  then have hi: "N < RADIX ^ 9" by simp
  define q where "q = mul_rows (mul_limbs v1 v0) (mul_limbs u1 u0) 0 (replicate 9 0)"
  have z: "limbs_val (replicate 9 0) = 0" by (simp add: limbs_val_zeros)
  have q: "length q = 9" "limbs_ok q" "limbs_val q = N"
  proof -
    have "\<exists>q'. q = q' \<and> length q' = 9 \<and> limbs_ok q' \<and> limbs_val q' = limbs_val (replicate 9 0) + RADIX ^ 0 * limbs_val (mul_limbs v1 v0) * limbs_val (drop 0 (mul_limbs u1 u0))"
      unfolding q_def using v u hi z by (intro mul_rows_spec) (simp_all only: limbs_ok_def, auto simp: N_def)
    then show "length q = 9" "limbs_ok q" "limbs_val q = N" using v u by (simp_all add: z N_def)
  qed
  then obtain a0 a1 a2 a3 a4 a5 a6 a7 a8 where a: "q = [a0, a1, a2, a3, a4, a5, a6, a7, a8]" by (auto simp: length_Suc_conv eval_nat_numeral)
  define T where "T = a0 + RADIX * a1 + RADIX ^ 2 * a2 + RADIX ^ 3 * a3"
  have ok: "0 \<le> a4" "a4 < RADIX" "0 \<le> a5" "a5 < RADIX" "0 \<le> a6" "a6 < RADIX" "0 \<le> a7" "a7 < RADIX" "0 \<le> a8" "a8 < RADIX" "0 \<le> T" "T < RADIX ^ 4"
    using q(2) by (simp_all add: a T_def)
  have N: "N = T + RADIX ^ 4 * (a4 + RADIX * a5 + RADIX ^ 2 * a6 + RADIX ^ 3 * a7 + RADIX ^ 4 * a8)" using q(3) by (simp add: a T_def)
  have big: "10 ^ 35 \<le> N \<longleftrightarrow> 1000 \<le> a8" using ok unfolding N by auto
  have ps: "eb_mul (v1, v0) (u1, u0) = (if 10 ^ 35 \<le> N then (0, join_441 a8 a7 a6 a5 a4) else (- 1, join_342 a8 a7 a6 a5 a4))"
    unfolding big by (simp add: eb_mul_def Let_def a join_441_def join_342_def flip: q_def)
  show ?thesis
  proof (cases "1000 \<le> a8")
    case True
    then show ?thesis using join_441 [OF ok N] lo big ps unfolding N_def [symmetric] by (auto intro!: norm_mant)
  next
    case False
    then show ?thesis using join_342 [OF ok(1-9) _ ok(11,12) N] lo big ps unfolding N_def [symmetric] by (auto intro!: norm_mant)
  qed
qed

section \<open>Division\<close>

text \<open>A mantissa in limbs, 4-4-1/3-4-2 digits (scaled by 100) or 3-4-2/2-4-3 digits (scaled by 10).\<close>

definition split_441 :: "int \<Rightarrow> int \<Rightarrow> int list" where
  "split_441 y1 y0 =
     [(y0 mod (RADIX div 100)) * 100, (y0 div (RADIX div 100)) mod RADIX,
      (y1 mod (RADIX div 1000)) * (RADIX div 10) + y0 div ((RADIX div 100) * RADIX),
      (y1 div (RADIX div 1000)) mod RADIX, y1 div ((RADIX div 1000) * RADIX)]"

definition split_342 :: "int \<Rightarrow> int \<Rightarrow> int list" where
  "split_342 y1 y0 =
     [(y0 mod (RADIX div 10)) * 10, (y0 div (RADIX div 10)) mod RADIX,
      (y1 mod (RADIX div 100)) * (RADIX div 100) + y0 div ((RADIX div 10) * RADIX),
      (y1 div (RADIX div 100)) mod RADIX, y1 div ((RADIX div 100) * RADIX)]"

text \<open>The loop that subtracts \<open>q\<close> times the divisor at position \<open>i\<close>, and the one that adds it back.\<close>

function sub_row :: "int \<Rightarrow> int list \<Rightarrow> nat \<Rightarrow> nat \<Rightarrow> int list \<Rightarrow> int \<Rightarrow> int list \<times> int" where
  "sub_row q xx i j yx borrow =
     (if j \<le> 4 then
        let prd = q * xx ! j + borrow;
            borrow = prd div RADIX;
            y = yx ! (i + j) - prd mod RADIX
        in if y < 0 then sub_row q xx i (Suc j) (yx[i + j := y + RADIX]) (borrow + 1)
           else sub_row q xx i (Suc j) (yx[i + j := y]) borrow
      else (yx, borrow))"
  by pat_completeness auto
termination
  by (relation "measure (\<lambda>(q, xx, i, j, yx, borrow). 5 - j)") auto

declare sub_row.simps [simp del]

function add_row :: "int list \<Rightarrow> nat \<Rightarrow> nat \<Rightarrow> int list \<Rightarrow> int \<Rightarrow> int list \<times> int" where
  "add_row xx i j yx carry =
     (if j \<le> 4 then
        let y = yx ! (i + j) + (xx ! j + carry)
        in add_row xx i (Suc j) (yx[i + j := y mod RADIX]) (y div RADIX)
      else (yx, carry))"
  by pat_completeness auto
termination
  by (relation "measure (\<lambda>(xx, i, j, yx, carry). 5 - j)") auto

declare add_row.simps [simp del]

text \<open>\<open>while (yx[i+5] < 0)\<close>; each round lowers \<open>qx[i]\<close>, which bounds the number of rounds.\<close>

function add_back :: "int list \<Rightarrow> nat \<Rightarrow> int \<Rightarrow> int list \<Rightarrow> (int \<times> int list) res" where
  "add_back xx i q yx =
     (if yx ! (i + 5) < 0 then
        if q \<le> 0 then Inl NoReturn
        else (case add_row xx i 0 yx 0 of (yx, carry) \<Rightarrow> add_back xx i (q - 1) (yx[i + 5 := yx ! (i + 5) + carry]))
      else Inr (q, yx))"
  by pat_completeness auto
termination
  by (relation "measure (\<lambda>(xx, i, q, yx). nat q)") auto

declare add_back.simps [simp del]

text \<open>One round of the loop over \<open>i\<close>: a limb of the quotient and the remainder. A zero divisor would be a trap.\<close>

definition div_limb :: "int list \<Rightarrow> nat \<Rightarrow> int list \<Rightarrow> (int \<times> int list) res" where
  "div_limb xx i yx =
     (if xx ! 4 = 0 then Inl SigIntDiv
      else let q = (yx ! (i + 5) * RADIX + yx ! (i + 4)) div xx ! 4
      in if q \<noteq> 0
         then (case sub_row q xx i 0 yx 0 of (yx, borrow) \<Rightarrow> add_back xx i q (yx[i + 5 := yx ! (i + 5) - borrow]))
         else Inr (q, yx))"

text \<open>The rounds for \<open>i - 1, \<dots>, 0\<close>; the limbs of the quotient found before are \<open>qx\<close>.\<close>

fun div_loop :: "int list \<Rightarrow> nat \<Rightarrow> int list \<Rightarrow> int list \<Rightarrow> int list res" where
  "div_loop xx 0 yx qx = Inr qx"
| "div_loop xx (Suc i) yx qx = res_bind (div_limb xx i yx) (\<lambda>(q, yx). div_loop xx i yx (q # qx))"

text \<open>\<open>eb_div (x, y)\<close>: the scale and the mantissa of \<open>y / x\<close>.\<close>

definition eb_div :: "int \<times> int \<Rightarrow> int \<times> int \<Rightarrow> (int \<times> int \<times> int) res" where
  "eb_div = (\<lambda>(x1, x0) (y1, y0).
     let (scale, yh) = (if x1 < y1 \<or> (x1 = y1 \<and> x0 \<le> y0) then (1, split_342 y1 y0) else (0, split_441 y1 y0))
     in res_bind (div_loop (split_441 x1 x0) 5 (replicate 5 0 @ yh) []) (\<lambda>qx.
          Inr (scale, join_441 (qx ! 4) (qx ! 3) (qx ! 2) (qx ! 1) (qx ! 0))))"

lemma split_441_spec:
  assumes "mant_ok v1 v0"
  shows "limbs_ok (split_441 v1 v0)" and "limbs_val (split_441 v1 v0) = mant v1 v0 * 100" and "length (split_441 v1 v0) = 5"
proof -
  have d: "0 \<le> v0 div 1000000" "v0 div 1000000 < 1000" "0 \<le> v1 div 100000" "v1 div 100000 < RADIX"
    using assms by (auto simp: mant_ok_def pos_imp_zdiv_nonneg_iff intro!: int_div_less)
  have m: "0 \<le> v1 mod 10" "v1 mod 10 < 10" "0 \<le> v0 mod 100" "v0 mod 100 < 100" by simp_all
  have s: "split_441 v1 v0 = [v0 mod 100 * 100, v0 div 100 mod 10000, v1 mod 10 * 1000 + v0 div 1000000, v1 div 10 mod 10000, v1 div 100000]"
    by (simp add: split_441_def)
  have "v1 mod 10 * 1000 + v0 div 1000000 < 10000" "v0 mod 100 * 100 < 10000" using d m by linarith+
  then show "limbs_ok (split_441 v1 v0)" using d m unfolding s by simp
  have v: "v0 mod 100 + 100 * (v0 div 100 mod 10000) + 1000000 * (v0 div 1000000) = v0"
    "v1 mod 10 + 10 * (v1 div 10 mod 10000) + 100000 * (v1 div 100000) = v1"
    by (rule split_div [of RADIX v0 100, symmetric, simplified], rule split_div [of RADIX v1 10, symmetric, simplified])
  have "limbs_val [x0 * 100, x1, y0 * 1000 + x2, y1, y2] = ((y0 + 10 * y1 + 100000 * y2) * MANT_HI + (x0 + 100 * x1 + 1000000 * x2)) * 100" for x0 x1 x2 y0 y1 y2
    by simp
  from this [of "v0 mod 100" "v0 div 100 mod 10000" "v1 mod 10" "v0 div 1000000" "v1 div 10 mod 10000" "v1 div 100000"]
  show "limbs_val (split_441 v1 v0) = mant v1 v0 * 100" unfolding s v .
  show "length (split_441 v1 v0) = 5" by (simp add: s)
qed

lemma split_342_spec:
  assumes "mant_ok v1 v0"
  shows "limbs_ok (split_342 v1 v0)" and "limbs_val (split_342 v1 v0) = mant v1 v0 * 10" and "length (split_342 v1 v0) = 5"
proof -
  have d: "0 \<le> v0 div 10000000" "v0 div 10000000 < 100" "0 \<le> v1 div 1000000" "v1 div 1000000 < 1000"
    using assms by (auto simp: mant_ok_def pos_imp_zdiv_nonneg_iff intro!: int_div_less)
  have m: "0 \<le> v1 mod 100" "v1 mod 100 < 100" "0 \<le> v0 mod 1000" "v0 mod 1000 < 1000" by simp_all
  have s: "split_342 v1 v0 = [v0 mod 1000 * 10, v0 div 1000 mod 10000, v1 mod 100 * 100 + v0 div 10000000, v1 div 100 mod 10000, v1 div 1000000]"
    by (simp add: split_342_def)
  have "v1 mod 100 * 100 + v0 div 10000000 < 10000" "v0 mod 1000 * 10 < 10000" using d m by linarith+
  then show "limbs_ok (split_342 v1 v0)" using d m unfolding s by simp
  have v: "v0 mod 1000 + 1000 * (v0 div 1000 mod 10000) + 10000000 * (v0 div 10000000) = v0"
    "v1 mod 100 + 100 * (v1 div 100 mod 10000) + 1000000 * (v1 div 1000000) = v1"
    by (rule split_div [of RADIX v0 1000, symmetric, simplified], rule split_div [of RADIX v1 100, symmetric, simplified])
  have "limbs_val [x0 * 10, x1, y0 * 100 + x2, y1, y2] = ((y0 + 100 * y1 + 1000000 * y2) * MANT_HI + (x0 + 1000 * x1 + 10000000 * x2)) * 10" for x0 x1 x2 y0 y1 y2
    by simp
  from this [of "v0 mod 1000" "v0 div 1000 mod 10000" "v1 mod 100" "v0 div 10000000" "v1 div 100 mod 10000" "v1 div 1000000"]
  show "limbs_val (split_342 v1 v0) = mant v1 v0 * 10" unfolding s v .
  show "length (split_342 v1 v0) = 5" by (simp add: s)
qed


lemma sub_row_spec:
  assumes "length yx = 10" "limbs_ok yx" "0 \<le> borrow" "borrow \<le> q" "length xx = 5" "limbs_ok xx" "i \<le> 4" "j \<le> 5"
  shows "\<exists>yx' b. sub_row q xx i j yx borrow = (yx', b) \<and> length yx' = 10 \<and> limbs_ok yx' \<and> 0 \<le> b \<and> b \<le> q
    \<and> limbs_val yx' + - b * RADIX ^ (5 + i) = limbs_val yx + - borrow * RADIX ^ (i + j) + - q * RADIX ^ (i + j) * limbs_val (drop j xx)
    \<and> (\<forall>k \<ge> 5 + i. yx' ! k = yx ! k)"
  using assms
proof (induction "5 - j" arbitrary: j yx borrow)
  case 0
  then have "j = 5" by simp
  then show ?case using "0.prems" by (simp add: sub_row.simps add.commute)
next
  case (Suc n)
  then have j: "j \<le> 4" "n = 5 - Suc j" by simp_all
  define p where "p = q * xx ! j + borrow"
  define y where "y = yx ! (i + j) - p mod RADIX"
  define y' b' where "y' = (if y < 0 then y + RADIX else y)" and "b' = (if y < 0 then p div RADIX + 1 else p div RADIX)"
  have x: "0 \<le> yx ! (i + j) \<and> yx ! (i + j) < RADIX" "0 \<le> xx ! j \<and> xx ! j < RADIX" using limbs_ok_nth Suc.prems j by auto
  have y': "0 \<le> y'" "y' < RADIX" using x(1) pos_mod_bound [of RADIX p] pos_mod_sign [of RADIX p] by (auto simp: y'_def y_def simp del: pos_mod_bound pos_mod_sign)
  have b': "0 \<le> b'" "b' \<le> q"
  proof -
    have "q * xx ! j \<le> q * 9999" using x(2) Suc.prems by (intro mult_left_mono) auto
    then have p: "0 \<le> p" "p \<le> q * RADIX" using x(2) Suc.prems by (simp_all add: p_def)
    then show "0 \<le> b'" by (simp add: b'_def pos_imp_zdiv_nonneg_iff)
    show "b' \<le> q"
    proof (cases "p = q * RADIX")
      case True
      then show ?thesis using x(1) by (simp add: b'_def y_def)
    next
      case False
      then have "p div RADIX < q" using p by (intro int_div_less) simp_all
      then show ?thesis by (simp add: b'_def)
    qed
  qed
  have bal: "y' + - b' * RADIX = yx ! (i + j) + - q * xx ! j + - borrow"
  proof -
    have "p div RADIX * RADIX + p mod RADIX = q * xx ! j + borrow" using div_mult_mod_eq [of p RADIX] unfolding p_def .
    moreover have "y' - b' * RADIX = y - p div RADIX * RADIX" by (simp add: y'_def b'_def)
    ultimately show ?thesis using y_def unfolding mult_minus_left by linarith
  qed
  obtain yx' b where IH: "sub_row q xx i (Suc j) (yx[i + j := y']) b' = (yx', b)" "length yx' = 10" "limbs_ok yx'" "0 \<le> b" "b \<le> q"
    "limbs_val yx' + - b * RADIX ^ (5 + i) = limbs_val (yx[i + j := y']) + - b' * RADIX ^ (i + Suc j) + - q * RADIX ^ (i + Suc j) * limbs_val (drop (Suc j) xx)"
    "\<forall>k \<ge> 5 + i. yx' ! k = yx[i + j := y'] ! k"
    using Suc.hyps(1) [OF j(2), of "yx[i + j := y']" b'] Suc.prems j y' b' by (auto simp: limbs_ok_update)
  have "limbs_val yx' + - b * RADIX ^ (5 + i) = limbs_val yx + - borrow * RADIX ^ (i + j) + - q * RADIX ^ (i + j) * limbs_val (drop j xx)"
    by (rule row_step [OF _ _ bal IH(6)]) (use Suc.prems j in simp_all)
  moreover have "sub_row q xx i j yx borrow = sub_row q xx i (Suc j) (yx[i + j := y']) b'"
    using j by (subst sub_row.simps) (simp add: Let_def p_def y_def y'_def b'_def)
  moreover have "\<forall>k \<ge> 5 + i. yx' ! k = yx ! k" using IH(7) j by simp
  ultimately show ?case using IH(1-5) by simp
qed


lemma limbs_ok_update0: "limbs_ok (yx[n := 0]) \<Longrightarrow> k \<noteq> n \<Longrightarrow> 0 \<le> y \<Longrightarrow> y < RADIX \<Longrightarrow> limbs_ok (yx[k := y, n := 0])"
  by (subst list_update_swap) (auto intro: limbs_ok_update)

lemma limbs_ok_nth0: "limbs_ok (yx[n := 0]) \<Longrightarrow> k < length yx \<Longrightarrow> k \<noteq> n \<Longrightarrow> 0 \<le> yx ! k \<and> yx ! k < RADIX"
  using limbs_ok_nth [of "yx[n := 0]" k] by simp

text \<open>Adding the divisor back; the limb at \<open>i + 5\<close> may be negative.\<close>

lemma add_row_spec:
  assumes "length yx = 10" "limbs_ok (yx[5 + i := 0])" "0 \<le> carry" "carry < RADIX" "length xx = 5" "limbs_ok xx" "i \<le> 4" "j \<le> 5"
  shows "\<exists>yx' c. add_row xx i j yx carry = (yx', c) \<and> length yx' = 10 \<and> limbs_ok (yx'[5 + i := 0]) \<and> 0 \<le> c
    \<and> limbs_val yx' + c * RADIX ^ (5 + i) = limbs_val yx + carry * RADIX ^ (i + j) + 1 * RADIX ^ (i + j) * limbs_val (drop j xx)
    \<and> (\<forall>k \<ge> 5 + i. yx' ! k = yx ! k)"
  using assms
proof (induction "5 - j" arbitrary: j yx carry)
  case 0
  then have "j = 5" by simp
  then show ?case using "0.prems" by (simp add: add_row.simps add.commute)
next
  case (Suc n)
  then have j: "j \<le> 4" "n = 5 - Suc j" by simp_all
  define y where "y = yx ! (i + j) + (xx ! j + carry)"
  have x: "0 \<le> yx ! (i + j) \<and> yx ! (i + j) < RADIX" "0 \<le> xx ! j \<and> xx ! j < RADIX"
    using limbs_ok_nth limbs_ok_nth0 [OF Suc.prems(2), of "i + j"] Suc.prems j by auto
  have y: "0 \<le> y div RADIX" "y div RADIX < RADIX" using x Suc.prems by (auto simp: y_def pos_imp_zdiv_nonneg_iff intro!: int_div_less)
  have bal: "y mod RADIX + y div RADIX * RADIX = yx ! (i + j) + 1 * xx ! j + carry" by (simp add: y_def)
  obtain yx' c where IH: "add_row xx i (Suc j) (yx[i + j := y mod RADIX]) (y div RADIX) = (yx', c)" "length yx' = 10" "limbs_ok (yx'[5 + i := 0])" "0 \<le> c"
    "limbs_val yx' + c * RADIX ^ (5 + i) = limbs_val (yx[i + j := y mod RADIX]) + y div RADIX * RADIX ^ (i + Suc j) + 1 * RADIX ^ (i + Suc j) * limbs_val (drop (Suc j) xx)"
    "\<forall>k \<ge> 5 + i. yx' ! k = yx[i + j := y mod RADIX] ! k"
    using Suc.hyps(1) [OF j(2), of "yx[i + j := y mod RADIX]" "y div RADIX"] Suc.prems j y by (auto simp: limbs_ok_update0)
  have "limbs_val yx' + c * RADIX ^ (5 + i) = limbs_val yx + carry * RADIX ^ (i + j) + 1 * RADIX ^ (i + j) * limbs_val (drop j xx)"
    by (rule row_step [OF _ _ bal IH(5)]) (use Suc.prems j in simp_all)
  moreover have "add_row xx i j yx carry = add_row xx i (Suc j) (yx[i + j := y mod RADIX]) (y div RADIX)"
    using j by (subst add_row.simps) (simp add: Let_def y_def)
  moreover have "\<forall>k \<ge> 5 + i. yx' ! k = yx ! k" using IH(6) j by simp
  ultimately show ?case using IH(1-4) by simp
qed

text \<open>A number below \<open>RADIX ^ n\<close> has no limbs from \<open>n\<close> on; one limb may be split off.\<close>

lemma limbs_high_zero: "limbs_ok xs \<Longrightarrow> limbs_val xs < RADIX ^ n \<Longrightarrow> n \<le> k \<Longrightarrow> k < length xs \<Longrightarrow> xs ! k = 0"
proof (induction xs arbitrary: n k)
  case (Cons x xs)
  have v: "0 \<le> limbs_val xs" using Cons.prems limbs_val_range by simp
  show ?case
  proof (cases n)
    case 0
    then have "x = 0" "limbs_val xs = 0" using Cons.prems v by auto
    then show ?thesis using Cons.IH [of 0 "k - 1"] Cons.prems by (cases k) simp_all
  next
    case (Suc m)
    then obtain k' where k: "k = Suc k'" using Cons.prems by (cases k) auto
    have "limbs_val xs < RADIX ^ m" using Cons.prems Suc v by simp
    then show ?thesis using Cons.IH [of m k'] Cons.prems Suc k by simp
  qed
qed simp

lemma limbs_val_low: "limbs_ok xs \<Longrightarrow> \<forall>k \<ge> n. k < length xs \<longrightarrow> xs ! k = 0 \<Longrightarrow> limbs_val xs < RADIX ^ n"
proof (induction xs arbitrary: n)
  case (Cons x xs)
  show ?case
  proof (cases n)
    case 0
    have "\<forall>y \<in> set (x # xs). y = 0" using Cons.prems(2) 0 by (auto simp: in_set_conv_nth simp del: list.set)
    then show ?thesis using limbs_val_zeros [of "x # xs"] 0 by simp
  next
    case (Suc m)
    have "\<forall>k \<ge> m. k < length xs \<longrightarrow> xs ! k = 0" using Cons.prems(2) Suc by (metis Suc_le_mono Suc_less_eq length_Cons nth_Cons_Suc)
    then show ?thesis using Cons.IH [of m] Cons.prems Suc by simp
  qed
qed simp


lemma add_back_spec:
  assumes "length yx = 10" "limbs_ok (yx[5 + i := 0])" "\<forall>k > 5 + i. k < 10 \<longrightarrow> yx ! k = 0" "length xx = 5" "limbs_ok xx" "0 < limbs_val xx" "i \<le> 4"
    "limbs_val yx = V - q * (limbs_val xx * RADIX ^ i)" "limbs_val yx < limbs_val xx * RADIX ^ i" "0 \<le> V" "0 \<le> q"
  shows "\<exists>yx'. add_back xx i q yx = Inr (V div (limbs_val xx * RADIX ^ i), yx') \<and> length yx' = 10 \<and> limbs_ok yx'
    \<and> limbs_val yx' = V mod (limbs_val xx * RADIX ^ i)"
  using assms
proof (induction "nat q" arbitrary: q yx rule: less_induct)
  case (less q yx)
  define X where "X = limbs_val xx * RADIX ^ i"
  define t where "t = yx ! (5 + i)"
  define L where "L = limbs_val (yx[5 + i := 0])"
  have val: "limbs_val yx = L + t * RADIX ^ (5 + i)" using less.prems limbs_val_update [of "5 + i" yx 0] by (simp add: L_def t_def)
  have "\<forall>k \<ge> 5 + i. k < length (yx[5 + i := 0]) \<longrightarrow> yx[5 + i := 0] ! k = 0" using less.prems(1,3) by (auto simp: nth_list_update)
  then have L: "0 \<le> L" "L < RADIX ^ (5 + i)" using limbs_val_range [OF less.prems(2)] limbs_val_low [OF less.prems(2)] by (simp_all add: L_def)
  have X: "0 < X" "X < RADIX ^ (5 + i)" using less.prems limbs_val_range [of xx] by (simp_all add: X_def power_add)
  show ?case
  proof (cases "t < 0")
    case True
    have "t * RADIX ^ (5 + i) \<le> - 1 * RADIX ^ (5 + i)" using True by (intro mult_right_mono) simp_all
    then have neg: "limbs_val yx < 0" using L val by simp
    have q: "0 < q"
    proof (rule ccontr)
      assume "\<not> 0 < q"
      then show False using neg less.prems by simp
    qed
    obtain yr c where row: "add_row xx i 0 yx 0 = (yr, c)" "length yr = 10" "limbs_ok (yr[5 + i := 0])" "0 \<le> c"
      "limbs_val yr + c * RADIX ^ (5 + i) = limbs_val yx + X" "\<forall>k \<ge> 5 + i. yr ! k = yx ! k"
      using add_row_spec [of yx i 0 xx 0] less.prems by (auto simp: X_def mult.commute)
    let ?yx = "yr[5 + i := yr ! (5 + i) + c]"
    have v: "limbs_val ?yx = limbs_val yx + X" using row less.prems by (subst limbs_val_update) simp_all
    have "limbs_val ?yx = V - (q - 1) * (limbs_val xx * RADIX ^ i)" using v less.prems(8) by (simp add: X_def left_diff_distrib)
    moreover have "limbs_val ?yx < limbs_val xx * RADIX ^ i" using v neg by (simp add: X_def)
    moreover have "\<forall>k > 5 + i. k < 10 \<longrightarrow> ?yx ! k = 0" using row less.prems by simp
    moreover have "add_back xx i q yx = add_back xx i (q - 1) ?yx" using True q row less.prems by (subst add_back.simps) (simp add: t_def add.commute)
    ultimately show ?thesis using less.hyps [of "q - 1" ?yx] less.prems row q by simp
  next
    case False
    have "t = 0"
    proof (rule ccontr)
      assume "t \<noteq> 0"
      then have "1 * RADIX ^ (5 + i) \<le> t * RADIX ^ (5 + i)" using False by (intro mult_right_mono) simp_all
      then show False using val L X less.prems(9) unfolding X_def by linarith
    qed
    then have "yx[5 + i := 0] = yx" using t_def by (metis list_update_id)
    then have ok: "limbs_ok yx" using less.prems by simp
    have "V = q * X + limbs_val yx" "0 \<le> limbs_val yx" "limbs_val yx < X" using less.prems(8,9) limbs_val_range [OF ok] by (simp_all add: X_def)
    note divmod_eq [OF this]
    then show ?thesis using False ok less.prems by (subst add_back.simps) (simp add: t_def X_def add.commute)
  qed
qed

lemma limbs_take_drop:
  assumes "limbs_ok xs" and "n \<le> length xs"
  shows "limbs_val xs = limbs_val (take n xs) + RADIX ^ n * limbs_val (drop n xs)" and "0 \<le> limbs_val (take n xs)" and "limbs_val (take n xs) < RADIX ^ n"
proof -
  show "limbs_val xs = limbs_val (take n xs) + RADIX ^ n * limbs_val (drop n xs)"
    using limbs_val_append [of "take n xs" "drop n xs"] assms(2) by simp
  have "limbs_ok (take n xs)" using assms(1) by (auto simp: limbs_ok_def dest: in_set_takeD)
  then show "0 \<le> limbs_val (take n xs)" "limbs_val (take n xs) < RADIX ^ n" using limbs_val_range [of "take n xs"] assms(2) by simp_all
qed

lemma two_limbs:
  assumes "length yx = 10" "limbs_ok yx" "i \<le> 4" "limbs_val yx < RADIX ^ (6 + i)"
  shows "limbs_val (drop (4 + i) yx) = yx ! (i + 5) * RADIX + yx ! (i + 4)"
proof -
  have "\<forall>x \<in> set (drop (6 + i) yx). x = 0" using assms limbs_high_zero [OF assms(2,4)] by (auto simp: in_set_conv_nth)
  then have "limbs_val (drop (6 + i) yx) = 0" by (rule limbs_val_zeros)
  then show ?thesis using limbs_val_drop [of "4 + i" yx] limbs_val_drop [of "5 + i" yx] assms by (simp add: add.commute)
qed

lemma remainder_range:
  assumes "length xx = 5" "limbs_ok xx" "V < limbs_val xx * RADIX ^ Suc i"
  shows "V < RADIX ^ (6 + i)"
proof -
  have "limbs_val xx * RADIX ^ Suc i \<le> RADIX ^ 5 * RADIX ^ Suc i" using limbs_val_range [OF assms(2)] assms(1) by (intro mult_right_mono) simp_all
  also have "\<dots> = RADIX ^ (6 + i)" unfolding power_add [symmetric] by simp
  finally show ?thesis using assms(3) by (rule order.strict_trans2 [rotated])
qed

text \<open>The estimate from the leading limb of the divisor is never too small, and at most 10 more than \<open>RADIX\<close>.\<close>

lemma estimate:
  assumes "length yx = 10" "limbs_ok yx" "length xx = 5" "limbs_ok xx" "1000 \<le> xx ! 4" "i \<le> 4" "limbs_val yx < limbs_val xx * RADIX ^ Suc i"
  shows "limbs_val yx div (limbs_val xx * RADIX ^ i) \<le> (yx ! (i + 5) * RADIX + yx ! (i + 4)) div xx ! 4"
    and "(yx ! (i + 5) * RADIX + yx ! (i + 4)) div xx ! 4 < 10010"
proof -
  define A where "A = yx ! (i + 5) * RADIX + yx ! (i + 4)"
  define P where "P = (RADIX :: int) ^ (4 + i)"
  define I where "I = (RADIX :: int) ^ i"
  define x where "x = xx ! 4"
  define V where "V = limbs_val yx"
  define X where "X = limbs_val xx"
  have P: "0 < P" "0 < I" "P = RADIX ^ 4 * I" "RADIX ^ Suc i = RADIX * I" by (simp_all add: P_def I_def power_add)
  have "limbs_val (drop 4 xx) = x" using limbs_val_drop [of 4 xx] assms(3) by (simp add: x_def)
  then have X: "x * RADIX ^ 4 \<le> X" "X < (x + 1) * RADIX ^ 4" "0 < x" "0 < X"
    using limbs_take_drop [of xx 4] assms(3,4,5) by (simp_all add: X_def x_def)
  have d: "limbs_val (drop (4 + i) yx) = A" using two_limbs [OF assms(1,2,6) remainder_range [OF assms(3,4,7)]] by (simp add: A_def)
  have V: "A * P \<le> V" "V < (A + 1) * P" "V < X * (RADIX * I)"
    using limbs_take_drop [OF assms(2), of "4 + i"] assms(1,6,7) unfolding d V_def [symmetric] P_def [symmetric] X_def [symmetric] P(4) by (simp_all add: algebra_simps)
  define d where "d = V div (X * I)"
  have d0: "0 \<le> d" using V P X limbs_val_range [OF assms(2)] by (simp add: d_def V_def pos_imp_zdiv_nonneg_iff)
  have "d * (x * P) \<le> d * (X * I)" using X(1) P d0 by (intro mult_left_mono) (simp_all add: P(3) mult.assoc [symmetric])
  also have "\<dots> = V - V mod (X * I)" by (simp only: d_def minus_mod_eq_div_mult)
  also have "\<dots> \<le> V" using X P by simp
  also have "\<dots> < (A + 1) * P" by (rule V)
  finally have "(d * x) * P < (A + 1) * P" by (simp only: mult.assoc)
  then have "d * x \<le> A" using P(1) by simp
  then have "d * x div x \<le> A div x" using X by (intro zdiv_mono1)
  then show "limbs_val yx div (limbs_val xx * RADIX ^ i) \<le> (yx ! (i + 5) * RADIX + yx ! (i + 4)) div xx ! 4"
    using X(3) unfolding d_def V_def X_def I_def A_def x_def by simp
  have "X * (RADIX * I) < ((x + 1) * RADIX ^ 4) * (RADIX * I)" using X(2) P(2) by (intro mult_strict_right_mono) simp_all
  then have "A * P < ((x + 1) * RADIX ^ 4) * (RADIX * I)" using V(1,3) by linarith
  also have "\<dots> = ((x + 1) * RADIX) * P" by (simp add: P(3))
  finally have "A < (x + 1) * RADIX" using P(1) by simp
  then have "A < 10010 * x" using assms(5) by (simp add: x_def)
  then have "A div x < 10010" using X by (intro int_div_less)
  then show "(yx ! (i + 5) * RADIX + yx ! (i + 4)) div xx ! 4 < 10010" by (simp only: A_def x_def)
qed

text \<open>So no product in the division leaves the range of \<open>int4\<close> either.\<close>

lemma estimate_range:
  assumes "0 \<le> q" "q < 10010" "0 \<le> x" "x < RADIX" "0 \<le> b" "b \<le> q"
  shows "q * x + b < 2 ^ 31"
proof -
  have "q * x \<le> 10010 * RADIX" using assms by (intro mult_mono) simp_all
  then show ?thesis using assms by simp
qed

lemma div_limb_spec:
  assumes "length yx = 10" "limbs_ok yx" "length xx = 5" "limbs_ok xx" "1000 \<le> xx ! 4" "i \<le> 4" "limbs_val yx < limbs_val xx * RADIX ^ Suc i"
  shows "\<exists>yx'. div_limb xx i yx = Inr (limbs_val yx div (limbs_val xx * RADIX ^ i), yx') \<and> length yx' = 10 \<and> limbs_ok yx'
    \<and> limbs_val yx' = limbs_val yx mod (limbs_val xx * RADIX ^ i)"
proof -
  define q where "q = (yx ! (i + 5) * RADIX + yx ! (i + 4)) div xx ! 4"
  define X where "X = limbs_val xx * RADIX ^ i"
  define V where "V = limbs_val yx"
  have d: "V div X \<le> q" using estimate(1) [OF assms] by (simp add: q_def V_def X_def)
  have "RADIX ^ 4 * xx ! 4 \<le> limbs_val xx" using limbs_take_drop [of xx 4] limbs_val_drop [of 4 xx] assms(3,4) by simp
  then have X0: "0 < limbs_val xx" "0 < X" using assms(5) by (simp_all add: X_def)
  have V0: "0 \<le> V" using limbs_val_range [OF assms(2)] by (simp add: V_def)
  then have "0 \<le> V div X" using X0 by (simp add: pos_imp_zdiv_nonneg_iff)
  then have q0: "0 \<le> q" using d by simp
  have lt: "V - q * X < X"
  proof -
    have "V div X * X \<le> q * X" using d X0 by (intro mult_right_mono) simp_all
    moreover have "V - V div X * X < X" using X0 by (simp add: minus_div_mult_eq_mod)
    ultimately show ?thesis by linarith
  qed
  have limb: "div_limb xx i yx = (if q \<noteq> 0 then (case sub_row q xx i 0 yx 0 of (yx, borrow) \<Rightarrow> add_back xx i q (yx[i + 5 := yx ! (i + 5) - borrow])) else Inr (q, yx))"
    using assms(5) by (simp add: div_limb_def Let_def q_def)
  show ?thesis
  proof (cases "q = 0")
    case True
    then have "V < X" using lt by simp
    then show ?thesis using limb True V0 assms(1,2) by (simp add: V_def X_def)
  next
    case False
    obtain yr b where row: "sub_row q xx i 0 yx 0 = (yr, b)" "length yr = 10" "limbs_ok yr" "0 \<le> b"
      "limbs_val yr + - b * RADIX ^ (5 + i) = V + - q * X" "\<forall>k \<ge> 5 + i. yr ! k = yx ! k"
      using sub_row_spec [OF assms(1,2) _ q0 assms(3,4,6), of 0] by (auto simp: X_def V_def mult.commute mult.left_commute)
    let ?yx = "yr[5 + i := yr ! (5 + i) - b]"
    have "limbs_val ?yx = V - q * X" using row assms(6) by (subst limbs_val_update) simp_all
    moreover have "limbs_ok (?yx[5 + i := 0])" using row(3) by (simp add: limbs_ok_update)
    moreover have "\<forall>k > 5 + i. k < 10 \<longrightarrow> ?yx ! k = 0"
      using limbs_high_zero [OF assms(2) remainder_range [OF assms(3,4,7)]] row(6) assms(1) by simp
    ultimately show ?thesis using add_back_spec [of ?yx i xx V q] limb False row assms X0 lt V0 q0 by (simp add: X_def V_def add.commute)
  qed
qed


lemma div_loop_spec:
  assumes "length yx = 10" "limbs_ok yx" "length xx = 5" "limbs_ok xx" "1000 \<le> xx ! 4" "0 < limbs_val xx" "i \<le> 5" "limbs_val yx < limbs_val xx * RADIX ^ i"
    "limbs_ok qx"
  shows "\<exists>q. div_loop xx i yx qx = Inr (q @ qx) \<and> length q = i \<and> limbs_ok q \<and> limbs_val q = limbs_val yx div limbs_val xx"
  using assms
proof (induction i arbitrary: yx qx)
  case 0
  then show ?case using limbs_val_range [of yx] by simp
next
  case (Suc i)
  define X where "X = limbs_val xx"
  define V where "V = limbs_val yx"
  define d where "d = V div (X * RADIX ^ i)"
  have X: "0 < X" "0 < X * RADIX ^ i" using Suc.prems by (simp_all add: X_def)
  have V: "0 \<le> V" "V < X * RADIX ^ Suc i" using Suc.prems limbs_val_range by (simp_all add: V_def X_def)
  obtain yr where r: "div_limb xx i yx = Inr (d, yr)" "length yr = 10" "limbs_ok yr" "limbs_val yr = V mod (X * RADIX ^ i)"
    using div_limb_spec [of yx xx i] Suc.prems by (auto simp: d_def V_def X_def)
  have d: "0 \<le> d" "d < RADIX"
  proof -
    show "0 \<le> d" using V X by (simp add: d_def pos_imp_zdiv_nonneg_iff)
    show "d < RADIX" unfolding d_def using V X by (intro int_div_less) (simp_all add: mult.commute mult.left_commute)
  qed
  then obtain q where q: "div_loop xx i yr (d # qx) = Inr (q @ d # qx)" "length q = i" "limbs_ok q" "limbs_val q = V mod (X * RADIX ^ i) div X"
    using Suc.IH [of yr "d # qx"] Suc.prems r X by (auto simp: X_def)
  have "V = d * (X * RADIX ^ i) + V mod (X * RADIX ^ i)" unfolding d_def by (rule div_mult_mod_eq [symmetric])
  then have "V = V mod (X * RADIX ^ i) + (d * RADIX ^ i) * X" by (simp add: mult.commute mult.left_commute)
  then have "V div X = (V mod (X * RADIX ^ i) + (d * RADIX ^ i) * X) div X" by simp
  also have "\<dots> = d * RADIX ^ i + V mod (X * RADIX ^ i) div X" using X by (intro div_mult_self1) simp
  finally have "limbs_val (q @ [d]) = V div X" using q by (simp add: limbs_val_append mult.commute)
  moreover have "limbs_ok (q @ [d])" using q d by (auto simp: limbs_ok_def)
  ultimately show ?case using q r by (intro exI [of _ "q @ [d]"]) (simp add: V_def X_def)
qed

text \<open>The 18 leading digits of the quotient of two mantissas.\<close>

lemma eb_div_spec:
  assumes "mant_norm x1 x0" and "mant_ok y1 y0"
  shows "\<exists>q1 q0. eb_div (x1, x0) (y1, y0) = Inr (if mant x1 x0 \<le> mant y1 y0 then 1 else 0, q1, q0) \<and> mant_ok q1 q0
    \<and> mant q1 q0 = mant y1 y0 * (if mant x1 x0 \<le> mant y1 y0 then 10 ^ 17 else 10 ^ 18) div mant x1 x0"
proof -
  define X Y where "X = mant x1 x0" and "Y = mant y1 y0"
  have X: "10 ^ 17 \<le> X" "X < 10 ^ 18" and Y: "0 \<le> Y" "Y < 10 ^ 18" using mant_range assms by (simp_all add: X_def Y_def)
  note xs = split_441_spec [OF mant_norm_ok [OF assms(1)]]
  define f :: int where "f = (if X \<le> Y then 10 else 100)"
  define yh where "yh = (if X \<le> Y then split_342 y1 y0 else split_441 y1 y0)"
  have yh: "limbs_ok yh" "length yh = 5" "limbs_val yh = Y * f"
    using split_342_spec [OF assms(2)] split_441_spec [OF assms(2)] by (simp_all add: yh_def f_def Y_def)
  have le: "x1 < y1 \<or> (x1 = y1 \<and> x0 \<le> y0) \<longleftrightarrow> X \<le> Y"
    using mant_less [OF assms(2) mant_norm_ok [OF assms(1)]] by (auto simp: X_def Y_def)
  have ebd: "eb_div (x1, x0) (y1, y0) = res_bind (div_loop (split_441 x1 x0) 5 (replicate 5 0 @ yh) []) (\<lambda>qx.
      Inr (if X \<le> Y then 1 else 0, join_441 (qx ! 4) (qx ! 3) (qx ! 2) (qx ! 1) (qx ! 0)))"
    unfolding eb_div_def prod.case le by (simp add: yh_def)
  have yv: "limbs_val (replicate 5 0 @ yh) = RADIX ^ 5 * (Y * f)" by (simp add: limbs_val_append limbs_val_zeros yh)
  have small: "Y * f < X * 100" using X Y by (auto simp: f_def)
  have "100000000 div 100000 \<le> x1 div 100000" using assms(1) by (intro zdiv_mono1) (simp_all add: mant_norm_def)
  then have "1000 \<le> split_441 x1 x0 ! 4" by (simp add: split_441_def)
  moreover have "limbs_ok (replicate 5 0 @ yh)" using yh by (auto simp: limbs_ok_def)
  ultimately obtain q where q: "div_loop (split_441 x1 x0) 5 (replicate 5 0 @ yh) [] = Inr q" "length q = 5" "limbs_ok q"
    "limbs_val q = RADIX ^ 5 * (Y * f) div (X * 100)"
    using div_loop_spec [of "replicate 5 0 @ yh" "split_441 x1 x0" 5 "[]"] xs yh yv small X by (auto simp: X_def)
  then obtain a0 a1 a2 a3 a4 where a: "q = [a0, a1, a2, a3, a4]" by (auto simp: length_Suc_conv eval_nat_numeral)
  define N where "N = RADIX ^ 4 * limbs_val q"
  have "N = 0 + RADIX ^ 4 * (a0 + RADIX * a1 + RADIX ^ 2 * a2 + RADIX ^ 3 * a3 + RADIX ^ 4 * a4)" by (simp add: N_def a)
  from join_441 [OF _ _ _ _ _ _ _ _ _ _ _ _ this]
  obtain q1 q0 where j: "join_441 a4 a3 a2 a1 a0 = (q1, q0)" "mant_ok q1 q0" "mant q1 q0 = N div 10 ^ 18" using q(3) by (auto simp: a)
  have "N div 10 ^ 18 = limbs_val q div 100" by (simp add: N_def)
  also have "\<dots> = RADIX ^ 5 * (Y * f) div (X * 100 * 100)" unfolding q(4) by (rule zdiv_zmult2_eq [symmetric]) simp
  also have "X * 100 * 100 = 10 ^ 4 * X" by simp
  also have "RADIX ^ 5 * (Y * f) = 10 ^ 4 * (Y * (if X \<le> Y then 10 ^ 17 else 10 ^ 18))" by (simp add: f_def)
  also have "\<dots> div (10 ^ 4 * X) = Y * (if X \<le> Y then 10 ^ 17 else 10 ^ 18) div X" by (rule div_mult_mult1) simp
  finally show ?thesis using ebd q(1) j unfolding X_def [symmetric] Y_def [symmetric] by (simp add: a)
qed

end
