(* ===== verification/Dbl.thy ===== *)
theory Dbl
  imports Arith "HOL-Library.Log_Nat"
begin

text \<open>
  The arithmetic of \<open>double\<close> values that \<open>sr_port/eb_muldiv.c\<close> uses as a fast path for \<open>MV_INT\<close> operands: \<open>eb_int_mul\<close>, \<open>eb_mvint_div\<close>,
  \<open>eb_int_div\<close>. A finite double is a rational number; an operation returns the double nearest to the exact result, ties to even
  (\<open>dbl\<close>). The magnitudes that occur lie between \<open>10 ^ -30\<close> and \<open>10 ^ 19\<close>, so there is neither overflow nor gradual underflow.
\<close>

section \<open>Rounding\<close>

definition half_even :: "rat \<Rightarrow> int" where
  "half_even m =
     (let f = \<lfloor>m\<rfloor>; d = m - of_int f
      in if d < 1 / 2 then f else if d > 1 / 2 then f + 1 else if even f then f else f + 1)"

text \<open>The exponent for which the mantissa of a positive number has 53 bits.\<close>

definition dbl_exp :: "rat \<Rightarrow> int" where
  "dbl_exp x =
     (let (n, d) = quotient_of x; k = bitlen n - bitlen d
      in if x < 2 powi k then k - 53 else k - 52)"

definition dbl_pos :: "rat \<Rightarrow> rat" where
  "dbl_pos x = (let u = 2 powi dbl_exp x in of_int (half_even (x / u)) * u)"

definition dbl :: "rat \<Rightarrow> rat" where
  "dbl x = (if x = 0 then 0 else if x < 0 then - dbl_pos (- x) else dbl_pos x)"

text \<open>Conversion to \<open>int4\<close> truncates.\<close>

definition dtrunc :: "rat \<Rightarrow> int" where
  "dtrunc x = (if x < 0 then - \<lfloor>- x\<rfloor> else \<lfloor>x\<rfloor>)"

definition DFLOAT2MINT :: "rat \<Rightarrow> int \<times> int" where
  "DFLOAT2MINT df = (let x1 = dtrunc df in (x1, dtrunc (dbl (dbl (df - of_int x1) * 1000000000))))"

section \<open>The operations\<close>

text \<open>The product or quotient if it fits into an \<open>MV_INT\<close>, \<open>None\<close> if the operands have to be promoted.\<close>

definition fit_mint :: "rat \<Rightarrow> int option" where
  "fit_mint df =
     (if df < 1000000000 \<and> df > - 1000000000
      then (case DFLOAT2MINT df of (t1, t0) \<Rightarrow> if t0 = 0 then Some t1 else None) else None)"

definition eb_int_mul :: "int \<Rightarrow> int \<Rightarrow> int option" where
  "eb_int_mul v1 u1 = fit_mint (dbl (dbl (of_int u1 * of_int v1) / 1000))"

definition eb_mvint_div :: "int \<Rightarrow> int \<Rightarrow> int option" where
  "eb_mvint_div v u = fit_mint (dbl (dbl (of_int v * 1000) / of_int u))"

definition eb_int_div :: "int \<Rightarrow> int \<Rightarrow> int option" where
  "eb_int_div v1 u1 =
     (let qf = dbl (dbl (of_int v1 * 1000) / of_int u1)
      in if qf < 1000000000 \<and> qf > - 1000000000 then Some ((fst (DFLOAT2MINT qf) sdiv 1000) * 1000) else None)"

section \<open>Rounding errors\<close>

lemma half_even_bound: "\<bar>of_int (half_even m) - m\<bar> \<le> 1 / 2"
proof -
  define d where "d = m - of_int \<lfloor>m\<rfloor>"
  have d: "0 \<le> d" "d < 1" "m = of_int \<lfloor>m\<rfloor> + d" unfolding d_def by linarith+
  have "half_even m = (if d < 1 / 2 \<or> d = 1 / 2 \<and> even \<lfloor>m\<rfloor> then \<lfloor>m\<rfloor> else \<lfloor>m\<rfloor> + 1)" by (auto simp: half_even_def Let_def d_def)
  then show ?thesis using d by (auto split: if_splits)
qed

lemma half_even_int [simp]: "half_even (of_int n) = n"
  by (simp add: half_even_def)

lemma bitlen_rat:
  assumes "0 < n"
  shows "2 powi (bitlen n - 1) \<le> (of_int n :: rat)" and "(of_int n :: rat) < 2 powi bitlen n"
proof -
  have b: "0 < bitlen n" using assms bitlen_eq_zero_iff [of n] bitlen_nonneg [of n] by linarith
  have "(of_int (2 ^ nat (bitlen n - 1)) :: rat) \<le> of_int n" "(of_int n :: rat) < of_int (2 ^ nat (bitlen n))"
    using bitlen_bounds [OF assms] by (simp_all only: of_int_le_iff of_int_less_iff)
  then show "2 powi (bitlen n - 1) \<le> (of_int n :: rat)" "(of_int n :: rat) < 2 powi bitlen n" using b by (simp_all add: power_int_def)
qed

lemma dbl_exp_bounds:
  assumes "0 < x"
  shows "2 ^ 52 \<le> x / 2 powi dbl_exp x" and "x / 2 powi dbl_exp x < 2 ^ 53"
proof -
  obtain n d where q: "quotient_of x = (n, d)" by fastforce
  have d: "0 < d" and x: "x = of_int n / of_int d" using quotient_of_denom_pos [OF q] quotient_of_div [OF q] by simp_all
  have n: "0 < n" using assms d x by (simp add: zero_less_divide_iff)
  define k where "k = bitlen n - bitlen d"
  have lo: "2 powi (k - 1) < x"
  proof -
    have "2 powi (bitlen n - 1) / 2 powi bitlen d \<le> (of_int n :: rat) / 2 powi bitlen d"
      using bitlen_rat(1) [OF n] by (intro divide_right_mono) simp_all
    also have "\<dots> < x" unfolding x using bitlen_rat(2) [OF d] n d by (intro divide_strict_left_mono) simp_all
    finally show ?thesis by (simp add: k_def diff_right_commute flip: power_int_diff)
  qed
  have hi: "x < 2 powi (k + 1)"
  proof -
    have "x < 2 powi bitlen n / of_int d" unfolding x using bitlen_rat(2) [OF n] d by (intro divide_strict_right_mono) simp_all
    also have "\<dots> \<le> 2 powi bitlen n / 2 powi (bitlen d - 1)" using bitlen_rat(1) [OF d] d by (intro divide_left_mono) simp_all
    also have "\<dots> = 2 powi (bitlen n - (bitlen d - 1))" by (simp flip: power_int_diff)
    also have "bitlen n - (bitlen d - 1) = k + 1" by (simp add: k_def)
    finally show ?thesis .
  qed
  have e: "dbl_exp x = (if x < 2 powi k then k - 53 else k - 52)" by (simp add: dbl_exp_def q k_def)
  have p: "2 powi (k - 1) = 2 ^ 52 * (2 :: rat) powi (k - 53)" "2 powi k = 2 ^ 53 * (2 :: rat) powi (k - 53)"
     "2 powi k = 2 ^ 52 * (2 :: rat) powi (k - 52)" "2 powi (k + 1) = 2 ^ 53 * (2 :: rat) powi (k - 52)"
    using power_int_add [of "2 :: rat" 52 "k - 53"] power_int_add [of "2 :: rat" 53 "k - 53"]
      power_int_add [of "2 :: rat" 52 "k - 52"] power_int_add [of "2 :: rat" 53 "k - 52"] by (simp_all add: add.commute)
  show "2 ^ 52 \<le> x / 2 powi dbl_exp x" "x / 2 powi dbl_exp x < 2 ^ 53"
    using lo hi p e by (auto simp: pos_le_divide_eq pos_divide_less_eq)
qed

lemma dbl_neg: "dbl (- x) = - dbl x"
  by (auto simp: dbl_def)

lemma dbl_0 [simp]: "dbl 0 = 0"
  by (simp add: dbl_def)

lemma dbl_error: "\<bar>dbl x - x\<bar> \<le> \<bar>x\<bar> / 2 ^ 53"
proof -
  have pos: "\<bar>dbl_pos y - y\<bar> \<le> y / 2 ^ 53" if y: "0 < y" for y
  proof -
    define u where "u = (2 :: rat) powi dbl_exp y"
    have u: "0 < u" by (simp add: u_def)
    have "dbl_pos y - y = (of_int (half_even (y / u)) - y / u) * u" using u by (simp add: dbl_pos_def Let_def u_def left_diff_distrib)
    then have "\<bar>dbl_pos y - y\<bar> = \<bar>of_int (half_even (y / u)) - y / u\<bar> * u" using u by (simp add: abs_mult)
    also have "\<dots> \<le> 1 / 2 * u" using half_even_bound [of "y / u"] u by (intro mult_right_mono) simp_all
    also have "2 ^ 52 * u \<le> y" using dbl_exp_bounds(1) [OF y] u by (simp add: u_def pos_le_divide_eq)
    then have "1 / 2 * u \<le> y / 2 ^ 53" by (simp add: field_simps)
    finally show ?thesis .
  qed
  show ?thesis using pos [of x] pos [of "- x"] by (auto simp: dbl_def abs_if split: if_splits)
qed

lemma dbl_int:
  assumes "\<bar>n\<bar> < 2 ^ 53"
  shows "dbl (of_int n) = of_int n"
proof -
  have pos: "dbl_pos (of_int n) = of_int n" if n: "0 < n" "n < 2 ^ 53" for n :: int
  proof -
    define e where "e = dbl_exp (of_int n)"
    have "2 ^ 52 * 2 powi e \<le> (of_int n :: rat)" using dbl_exp_bounds(1) [of "of_int n"] n by (simp add: e_def pos_le_divide_eq)
    also have "(of_int n :: rat) < of_int (2 ^ 53)" using n by (simp only: of_int_less_iff)
    finally have "(2 :: rat) powi e < 2 powi 1" by simp
    then have "e < 1" by (intro power_int_le_imp_less_exp [of "2 :: rat"]) simp_all
    then have "(2 :: rat) powi e = 1 / 2 ^ nat (- e)" by (simp add: power_int_def inverse_eq_divide power_divide)
    then have "of_int n / (2 :: rat) powi e = of_int (n * 2 ^ nat (- e))" by simp
    then have "of_int (half_even (of_int n / 2 powi e)) = (of_int n :: rat) / 2 powi e" by (metis half_even_int)
    then show ?thesis by (simp add: dbl_pos_def e_def [symmetric])
  qed
  consider "n = 0" | "0 < n" | "n < 0" by linarith
  then show ?thesis
  proof cases
    case 3
    then show ?thesis using pos [of "- n"] assms by (simp add: dbl_def)
  qed (use pos [of n] assms in \<open>simp_all add: dbl_def\<close>)
qed

section \<open>Correctness of the fast paths\<close>

lemma dtrunc_neg [simp]: "dtrunc (- x) = - dtrunc x"
proof (cases x "0 :: rat" rule: linorder_cases)
  case equal
  then show ?thesis by (simp add: dtrunc_def)
qed (simp_all add: dtrunc_def)

lemma DFLOAT2MINT_neg: "DFLOAT2MINT (- x) = (- fst (DFLOAT2MINT x), - snd (DFLOAT2MINT x))"
proof -
  have "- x - of_int (- dtrunc x) = - (x - of_int (dtrunc x))" by simp
  then show ?thesis unfolding DFLOAT2MINT_def Let_def dtrunc_neg by (simp only: dbl_neg mult_minus_left dtrunc_neg fst_conv snd_conv)
qed

lemma fit_mint_neg: "fit_mint (- x) = map_option uminus (fit_mint x)"
  by (auto simp: fit_mint_def DFLOAT2MINT_neg split: prod.splits)

text \<open>A double close to a number with a fractional part: the integral part is the same.\<close>

lemma dtrunc_near:
  assumes "0 \<le> t" "of_int t < x - d" "x + d < of_int t + 1" "\<bar>df - x\<bar> \<le> d"
  shows "dtrunc df = t" "x - d - of_int t \<le> df - of_int t"
proof -
  have "of_int t < df" "df < of_int t + 1" using assms by linarith+
  then show "dtrunc df = t" using assms(1) by (auto simp: dtrunc_def floor_eq_iff)
  show "x - d - of_int t \<le> df - of_int t" using assms by linarith
qed

lemma dbl_lower: "0 \<le> x \<Longrightarrow> x * (1 - 1 / 2 ^ 53) \<le> dbl x"
  using dbl_error [of x] unfolding right_diff_distrib times_divide_eq_right mult_1_right by linarith

text \<open>The second word that \<open>DFLOAT2MINT\<close> computes is positive if the fraction is at least \<open>1.001 / 10 ^ 9\<close>.\<close>

lemma fraction_seen:
  assumes "1001 / 1000 \<le> f * 1000000000"
  shows "0 < dtrunc (dbl (dbl f * 1000000000))"
proof -
  have f: "0 \<le> f" using assms by simp
  have "f * (1 - 1 / 2 ^ 53) * 1000000000 \<le> dbl f * 1000000000" by (rule mult_right_mono [OF dbl_lower [OF f]]) simp
  moreover have "1001 / 1000 * (1 - 1 / 2 ^ 53) \<le> f * 1000000000 * (1 - 1 / 2 ^ 53)" by (rule mult_right_mono [OF assms]) simp
  ultimately have g: "1001 / 1000 * (1 - 1 / 2 ^ 53) \<le> dbl f * 1000000000" by (simp only: mult.assoc mult.commute mult.left_commute)
  then have "1001 / 1000 * (1 - 1 / 2 ^ 53) * (1 - 1 / 2 ^ 53) \<le> dbl f * 1000000000 * (1 - 1 / 2 ^ 53)" by (rule mult_right_mono) simp
  also have "\<dots> \<le> dbl (dbl f * 1000000000)" by (rule dbl_lower) (use g in \<open>simp add: order.trans [OF _ g]\<close>)
  finally have "1 \<le> dbl (dbl f * 1000000000)" by (rule order.trans [rotated]) simp
  then show ?thesis by (simp add: dtrunc_def)
qed

lemma fit_mint_int:
  assumes "\<bar>n\<bar> < 2 ^ 53"
  shows "fit_mint (of_int n) = (if \<bar>n\<bar> < 1000000000 then Some n else None)"
proof -
  have "dtrunc (of_int n) = n" by (simp add: dtrunc_def)
  then have "DFLOAT2MINT (of_int n) = (n, 0)" by (simp add: DFLOAT2MINT_def Let_def dtrunc_def)
  moreover have "(of_int n < (1000000000 :: rat) \<and> of_int n > (- 1000000000 :: rat)) \<longleftrightarrow> \<bar>n\<bar> < 1000000000" by (simp only: abs_less_iff) (auto)
  ultimately show ?thesis unfolding fit_mint_def by simp
qed

text \<open>The quotient of two integers, rounded to a double.\<close>

lemma quotient_near:
  assumes "0 \<le> N" "N < 10 ^ 12" "0 < D" "N mod D \<noteq> 0"
  defines "df \<equiv> dbl (of_int N / of_int D)"
  shows "dtrunc df = N div D" and "(of_int (N mod D) - 1 / 1000) / of_int D \<le> df - of_int (N div D)" and "df < of_int (N div D) + 1"
    and "of_int (N div D) \<le> df"
proof -
  define x where "x = (of_int N :: rat) / of_int D"
  define d where "d = (1 :: rat) / 1000 / of_int D"
  define t r where "t = N div D" and "r = N mod D"
  have r: "1 \<le> r" "r \<le> D - 1" using assms(4) pos_mod_sign [OF assms(3), of N] pos_mod_bound [OF assms(3), of N] unfolding r_def by linarith+
  have D: "(0 :: rat) < of_int D" using assms by simp
  have x: "x = of_int t + of_int r / of_int D"
  proof -
    have "(of_int N :: rat) = of_int (t * D + r)" by (simp add: t_def r_def)
    then show ?thesis using D by (simp add: x_def add_divide_distrib)
  qed
  have "(of_int N :: rat) \<le> of_int (10 ^ 12)" using assms by (simp only: of_int_le_iff)
  then have "(of_int N :: rat) / 2 ^ 53 \<le> 1 / 1000" by simp
  then have "(of_int N :: rat) / 2 ^ 53 / of_int D \<le> d" unfolding d_def using D by (intro divide_right_mono) simp_all
  moreover have "\<bar>x\<bar> / 2 ^ 53 = (of_int N :: rat) / 2 ^ 53 / of_int D" using assms D by (simp add: x_def)
  ultimately have err: "\<bar>df - x\<bar> \<le> d" using dbl_error [of x] by (simp add: df_def x_def)
  have "(of_int r :: rat) \<ge> of_int 1" "(of_int r :: rat) \<le> of_int (D - 1)" using r by (simp_all only: of_int_le_iff)
  then have "(1 :: rat) / of_int D \<le> of_int r / of_int D" "(of_int r :: rat) / of_int D \<le> of_int (D - 1) / of_int D"
    using D by (simp_all add: divide_right_mono)
  moreover have "(of_int (D - 1) :: rat) / of_int D = 1 - 1 / of_int D" using D by (simp add: diff_divide_distrib)
  moreover have "d < 1 / of_int D" unfolding d_def by (rule divide_strict_right_mono) (use D in simp_all)
  ultimately have n: "of_int t < x - d" "x + d < of_int t + 1" unfolding x by linarith+
  have t: "0 \<le> t" using assms by (simp add: t_def pos_imp_zdiv_nonneg_iff)
  show "dtrunc df = N div D" using dtrunc_near(1) [OF t n err] by (simp add: t_def)
  show "(of_int (N mod D) - 1 / 1000) / of_int D \<le> df - of_int (N div D)"
    using dtrunc_near(2) [OF t n err] D by (simp add: x d_def diff_divide_distrib t_def [symmetric] r_def [symmetric])
  show "df < of_int (N div D) + 1" "of_int (N div D) \<le> df" using n err unfolding t_def by linarith+
qed

text \<open>
  The result of the fast paths for a nonnegative quotient: exact, or absent, or the remainder is one and the divisor close to \<open>10 ^ 9\<close>.
\<close>

lemma fit_mint_quotient:
  assumes "0 \<le> N" "N < 10 ^ 12" "0 < D" and "D < 10 ^ 9"
  shows "fit_mint (dbl (of_int N / of_int D)) =
      (if N mod D = 0 \<and> N div D < 1000000000 then Some (N div D) else None)
    \<or> N mod D = 1 \<and> 998000000 \<le> D \<and> fit_mint (dbl (of_int N / of_int D)) = Some (N div D)"
proof (cases "N mod D = 0")
  case True
  then obtain k where k: "N = D * k" by (auto elim: dvdE)
  then have q: "N div D = k" "(of_int N :: rat) / of_int D = of_int k" using assms by simp_all
  have "k \<le> N" "0 \<le> k" using k assms int_div_le_self [of N D] q(1) by (simp_all add: zero_le_mult_iff)
  then have "\<bar>k\<bar> < 2 ^ 53" "\<bar>k\<bar> = k" using assms by simp_all
  then show ?thesis using True unfolding q by (simp add: dbl_int fit_mint_int)
next
  case False
  define df where "df = dbl (of_int N / of_int D)"
  note n = quotient_near [OF assms(1-3) False, folded df_def]
  define t r where "t = N div D" and "r = N mod D"
  have r: "1 \<le> r" using False pos_mod_sign [OF assms(3), of N] unfolding r_def by linarith
  show ?thesis
  proof (cases "fit_mint df = None")
    case True
    then show ?thesis using False by (simp add: df_def)
  next
    case some: False
    have m: "DFLOAT2MINT df = (t, dtrunc (dbl (dbl (df - of_int t) * 1000000000)))" using n(1) by (simp add: DFLOAT2MINT_def Let_def t_def)
    then have z: "dtrunc (dbl (dbl (df - of_int t) * 1000000000)) = 0" and v: "fit_mint df = Some t" using some by (auto simp: fit_mint_def split: if_splits)
    have D: "(0 :: rat) < of_int D" using assms by simp
    have small: "(of_int r - 1 / 1000) / of_int D * 1000000000 < (1001 / 1000 :: rat)"
    proof (rule ccontr)
      assume "\<not> (of_int r - 1 / 1000) / of_int D * 1000000000 < (1001 / 1000 :: rat)"
      moreover have "(of_int r - 1 / 1000) / of_int D * 1000000000 \<le> (df - of_int t) * 1000000000" using n(2) by (intro mult_right_mono) (simp_all add: t_def r_def)
      ultimately have "1001 / 1000 \<le> (df - of_int t) * 1000000000" by linarith
      then show False using fraction_seen z by fastforce
    qed
    then have "(of_int r - 1 / 1000) * 1000000000 < 1001 / 1000 * (of_int D :: rat)" using D by (simp add: divide_less_eq)
    then have "(of_int ((1000 * r - 1) * 1000000000) :: rat) < of_int (1001 * D)" by simp
    then have bound: "(1000 * r - 1) * 1000000000 < 1001 * D" by (simp only: of_int_less_iff)
    moreover have "1001 * D < 1001 * 1000000000" using assms(4) by simp
    ultimately have "r = 1" using r by simp
    then show ?thesis using bound v False by (simp add: r_def t_def df_def)
  qed
qed

lemma fit_mint_large: "1000000000 \<le> df \<Longrightarrow> fit_mint df = None"
  by (simp add: fit_mint_def)

text \<open>The fast multiplication is used exactly if the product has at most three digits after the point and at most six before it.\<close>

lemma fit_product:
  assumes "0 \<le> P"
  shows "fit_mint (dbl (dbl (of_int P) / 1000)) = (if P < 10 ^ 12 \<and> P mod 1000 = 0 then Some (P div 1000) else None)"
proof -
  consider (small) "P < 10 ^ 12" | (exact) "P = 10 ^ 12" | (medium) "10 ^ 12 < P" "P < 2 ^ 53" | (large) "2 ^ 53 \<le> P" by linarith
  then show ?thesis
  proof cases
    case small
    then have "dbl (of_int P) = of_int P" using assms by (intro dbl_int) simp
    moreover have "P div 1000 < 1000000000" using small by (intro int_div_less) simp_all
    ultimately show ?thesis using small fit_mint_quotient [of P 1000] assms by auto
  next
    case exact
    then have "dbl (of_int P) / 1000 = of_int 1000000000" using dbl_int [of P] by simp
    moreover have "dbl (of_int 1000000000) = of_int 1000000000" by (rule dbl_int) simp
    ultimately show ?thesis using fit_mint_large exact by simp
  next
    case medium
    have "(of_int (10 ^ 12 + 1) :: rat) \<le> of_int P" using medium by (simp only: of_int_le_iff)
    then have "(10 ^ 12 + 1) / 1000 \<le> (of_int P :: rat) / 1000" by simp
    then have "(10 ^ 12 + 1) / 1000 * (1 - 1 / 2 ^ 53) \<le> (of_int P :: rat) / 1000 * (1 - 1 / 2 ^ 53)" by (rule mult_right_mono) simp
    also have "\<dots> \<le> dbl (of_int P / 1000)" using assms by (intro dbl_lower) simp
    finally have "1000000000 \<le> dbl (of_int P / 1000)" by (rule order.trans [rotated]) simp
    then show ?thesis using fit_mint_large medium dbl_int [of P] by simp
  next
    case large
    define y where "y = dbl (of_int P)"
    have "(of_int (2 ^ 53) :: rat) \<le> of_int P" using large by (simp only: of_int_le_iff)
    then have "2 ^ 53 * (1 - 1 / 2 ^ 53) \<le> (of_int P :: rat) * (1 - 1 / 2 ^ 53)" by (intro mult_right_mono) simp_all
    also have "\<dots> \<le> y" unfolding y_def using assms by (intro dbl_lower) simp
    finally have y: "2 ^ 52 \<le> y" by (rule order.trans [rotated]) simp
    then have "2 ^ 52 / 1000 * (1 - 1 / 2 ^ 53) \<le> y / 1000 * (1 - 1 / 2 ^ 53)" by (intro mult_right_mono divide_right_mono) simp_all
    also have "\<dots> \<le> dbl (y / 1000)" by (rule dbl_lower) (use y in simp)
    finally have "1000000000 \<le> dbl (y / 1000)" by (rule order.trans [rotated]) simp
    then show ?thesis using fit_mint_large large by (simp add: y_def)
  qed
qed

lemma eb_int_mul_spec:
  "eb_int_mul v u = (if \<bar>u * v\<bar> < 10 ^ 12 \<and> (u * v) mod 1000 = 0 then Some (u * v div 1000) else None)"
proof -
  define P where "P = u * v"
  have m: "eb_int_mul v u = fit_mint (dbl (dbl (of_int P) / 1000))" by (simp add: eb_int_mul_def P_def)
  show ?thesis
  proof (cases "0 \<le> P")
    case True
    then show ?thesis unfolding m P_def [symmetric] fit_product [OF True] by simp
  next
    case False
    have "dbl (dbl (of_int P) / 1000) = - dbl (dbl (of_int (- P)) / 1000)" by (simp add: dbl_neg)
    then have "eb_int_mul v u = map_option uminus (fit_mint (dbl (dbl (of_int (- P)) / 1000)))" unfolding m by (simp only: fit_mint_neg)
    moreover have "- P mod 1000 = 0 \<longleftrightarrow> P mod 1000 = 0" by (simp add: mod_eq_0_iff_dvd)
    moreover have "P mod 1000 = 0 \<Longrightarrow> - (- P div 1000) = P div 1000" by (auto simp: mod_eq_0_iff_dvd)
    ultimately show ?thesis using False fit_product [of "- P"] unfolding P_def [symmetric] by auto
  qed
qed

text \<open>The double quotient of two \<open>MV_INT\<close> values by their signs and magnitudes.\<close>

lemma double_quotient:
  assumes "\<bar>v\<bar> < 10 ^ 9" and "u \<noteq> 0"
  defines "q \<equiv> dbl (of_int (\<bar>v\<bar> * 1000) / of_int \<bar>u\<bar>)"
  shows "dbl (dbl (of_int v * 1000) / of_int u) = (if (v < 0) \<noteq> (u < 0) then - q else q)"
proof -
  have "(of_int v * 1000 :: rat) = of_int (v * 1000)" by simp
  then have "dbl (of_int v * 1000) = of_int (v * 1000)" using dbl_int [of "v * 1000"] assms by (simp add: abs_mult)
  moreover have "(of_int (v * 1000) :: rat) / of_int u = (if (v < 0) \<noteq> (u < 0) then - (of_int (\<bar>v\<bar> * 1000) / of_int \<bar>u\<bar>) else of_int (\<bar>v\<bar> * 1000) / of_int \<bar>u\<bar>)" by auto
  ultimately show ?thesis by (simp add: dbl_neg q_def)
qed

lemma eb_mvint_div_spec:
  assumes "\<bar>v\<bar> < 10 ^ 9" and "\<bar>u\<bar> < 10 ^ 9" and "u \<noteq> 0"
  shows "eb_mvint_div v u =
      (if \<bar>v\<bar> * 1000 mod \<bar>u\<bar> = 0 \<and> \<bar>v\<bar> * 1000 div \<bar>u\<bar> < 10 ^ 9 then Some (signed ((v < 0) \<noteq> (u < 0)) (\<bar>v\<bar> * 1000 div \<bar>u\<bar>)) else None)
    \<or> \<bar>v\<bar> * 1000 mod \<bar>u\<bar> = 1 \<and> 998000000 \<le> \<bar>u\<bar> \<and> eb_mvint_div v u = Some (signed ((v < 0) \<noteq> (u < 0)) (\<bar>v\<bar> * 1000 div \<bar>u\<bar>))"
proof -
  have "eb_mvint_div v u = map_option (signed ((v < 0) \<noteq> (u < 0))) (fit_mint (dbl (of_int (\<bar>v\<bar> * 1000) / of_int \<bar>u\<bar>)))"
    unfolding eb_mvint_div_def double_quotient [OF assms(1,3)]
    by (cases "(v < 0) \<noteq> (u < 0)") (simp_all add: fit_mint_neg option.map_ident)
  then show ?thesis using fit_mint_quotient [of "\<bar>v\<bar> * 1000" "\<bar>u\<bar>"] assms by auto
qed

lemma eb_int_div_spec:
  assumes "\<bar>v\<bar> < 10 ^ 9" and "u \<noteq> 0"
  shows "eb_int_div v u =
    (if \<bar>v\<bar> * 1000 div \<bar>u\<bar> < 10 ^ 9 then Some (signed ((v < 0) \<noteq> (u < 0)) (\<bar>v\<bar> * 1000 div \<bar>u\<bar> div 1000 * 1000)) else None)"
proof -
  define N D where "N = \<bar>v\<bar> * 1000" and "D = \<bar>u\<bar>"
  define t where "t = N div D"
  define df where "df = dbl (of_int N / of_int D)"
  have N: "0 \<le> N" "N < 10 ^ 12" "0 < D" using assms by (simp_all add: N_def D_def)
  have t0: "0 \<le> t" using N by (simp add: t_def pos_imp_zdiv_nonneg_iff)
  have t: "dtrunc df = t \<and> of_int t \<le> df \<and> df < of_int t + 1"
  proof (cases "N mod D = 0")
    case True
    then obtain k where k: "N = D * k" by (auto elim: dvdE)
    then have "(of_int N :: rat) / of_int D = of_int t" "t \<le> N" using N int_div_le_self [of N D] by (simp_all add: t_def)
    then have "df = of_int t" using dbl_int [of t] t0 N by (simp add: df_def)
    then show ?thesis using t0 by (simp add: dtrunc_def)
  next
    case False
    then show ?thesis using quotient_near [OF N False] by (simp add: df_def t_def)
  qed
  have "df < 1000000000 \<longleftrightarrow> t < 10 ^ 9"
  proof
    assume "df < 1000000000"
    then have "(of_int t :: rat) < of_int (10 ^ 9)" using t by simp
    then show "t < 10 ^ 9" by (simp only: of_int_less_iff)
  next
    assume "t < 10 ^ 9"
    then have "(of_int (t + 1) :: rat) \<le> of_int (10 ^ 9)" by (simp only: of_int_le_iff)
    then show "df < 1000000000" using t by simp
  qed
  moreover have "- 1000000000 < df" "df > - 1000000000" using t t0 by (simp_all add: order.strict_trans2)
  moreover have "- t sdiv 1000 = - (t div 1000)" "t sdiv 1000 = t div 1000" using t0 by (simp_all add: signed_divide_int_def sgn_if)
  ultimately show ?thesis
    unfolding eb_int_div_def double_quotient [OF assms] Let_def N_def [symmetric] D_def [symmetric] df_def [symmetric] t_def [symmetric]
    using t by (cases "(v < 0) \<noteq> (u < 0)") (simp_all add: DFLOAT2MINT_neg DFLOAT2MINT_def Let_def)
qed

text \<open>
  A quotient with a remainder that the double does not show: \<open>666999.998 / 999999.997\<close> is \<open>0.667000000001\<close>, the fast path returns
  \<open>0.667\<close>.
\<close>

lemma eb_mvint_div_inexact: "eb_mvint_div 666999998 999999997 = Some 667"
  by code_simp

end
