(* ===== verification/Op_Muldiv.thy ===== *)
theory Op_Muldiv
  imports Muldiv Dbl
begin

text \<open>
  Multiplication, division, integer division and modulo of numbers (\<open>sr_port/op_mul.c\<close>, \<open>op_div.c\<close>, \<open>op_idiv.c\<close>, \<open>flt_mod.c\<close>): the fast paths
  on doubles when both operands are \<open>MV_INT\<close>, else promotion and 18-digit arithmetic.
\<close>

section \<open>The operations\<close>

definition promoted :: "mnum \<Rightarrow> mnum res" where
  "promoted u = (case u of MV_int m \<Rightarrow> promote m | MV_nm s e m1 m0 \<Rightarrow> Inr u)"

text \<open>The end of \<open>op_mul\<close> and \<open>op_div\<close>: overflow, underflow, \<open>demote\<close> if the result fits into an \<open>MV_INT\<close>.\<close>

definition store_result :: "bool \<Rightarrow> int \<Rightarrow> int \<Rightarrow> int \<Rightarrow> mnum res" where
  "store_result sign xp p1 p0 =
     (if EXPHI \<le> xp then Inl ERR_NUMOFLOW
      else if EXPLO > xp then Inr (MV_int 0)
      else res_bind (if xp < EXP_INT_OVERF \<and> xp > EXP_INT_UNDERF \<and> p0 = 0
                     then res_bind (rd ten_pwr (EXP_INT_OVERF - 1 - xp)) (\<lambda>p. Inr (p1 mod p = 0)) else Inr False) (\<lambda>fits.
        if fits then demote p1 xp sign
        else if p0 = 0 \<and> p1 = 0 then Inr (MV_int 0)
        else Inr (MV_nm sign xp p1 p0)))"

definition mul_flt :: "mnum \<Rightarrow> mnum \<Rightarrow> mnum res" where
  "mul_flt u v =
     (case eb_mul (mf_m1 u, mf_m0 u) (mf_m1 v, mf_m0 v) of (c, p1, p0) \<Rightarrow>
        store_result (mf_sgn u \<noteq> mf_sgn v) (mf_e u + mf_e v + c - MV_XBIAS) p1 p0)"

definition op_mul_num :: "mnum \<Rightarrow> mnum \<Rightarrow> mnum res" where
  "op_mul_num u v =
     (case (case (u, v) of (MV_int a, MV_int b) \<Rightarrow> eb_int_mul a b | _ \<Rightarrow> None) of
        Some m \<Rightarrow> Inr (MV_int m)
      | None \<Rightarrow> res_bind (promoted u) (\<lambda>u. res_bind (promoted v) (\<lambda>v. mul_flt u v)))"

text \<open>The macro \<open>EB_DIV (v, u, q, c)\<close>.\<close>

definition EB_DIV :: "mnum \<Rightarrow> mnum \<Rightarrow> (int \<times> int \<times> int) res" where
  "EB_DIV v u =
     (if EXPHI \<le> mf_e v \<or> EXPHI \<le> mf_e u then Inl ERR_NUMOFLOW
      else eb_div (mf_m1 v, mf_m0 v) (mf_m1 u, mf_m0 u))"

definition op_div_num :: "mnum \<Rightarrow> mnum \<Rightarrow> mnum res" where
  "op_div_num u v =
     (if v = MV_int 0 then Inl ERR_DIVZERO
      else case (case (u, v) of (MV_int a, MV_int b) \<Rightarrow> eb_mvint_div a b | _ \<Rightarrow> None) of
        Some m \<Rightarrow> Inr (MV_int m)
      | None \<Rightarrow>
          res_bind (promoted u) (\<lambda>u. res_bind (promoted v) (\<lambda>v.
          res_bind (EB_DIV v u) (\<lambda>(c, q1, q0).
            store_result (mf_sgn u \<noteq> mf_sgn v) (mf_e u - mf_e v + c + MV_XBIAS) q1 q0))))"

text \<open>The integral part of a mantissa with exponent \<open>xp\<close>.\<close>

definition idiv_trunc :: "int \<Rightarrow> int \<Rightarrow> int \<Rightarrow> (int \<times> int) res" where
  "idiv_trunc xp q1 q0 =
     (if xp \<le> MV_XBIAS then Inr (0, 0)
      else if xp < 71 then res_bind (rd ten_pwr (71 - xp)) (\<lambda>z. Inr ((q1 div z) * z, 0))
      else if xp < 80 then res_bind (rd ten_pwr (80 - xp)) (\<lambda>z. Inr (q1, (q0 div z) * z))
      else Inr (q1, q0))"

text \<open>The end of \<open>op_idiv\<close>, which differs from the one of \<open>op_div\<close> in the order of its tests.\<close>

definition idiv_store :: "bool \<Rightarrow> int \<Rightarrow> int \<Rightarrow> int \<Rightarrow> mnum res" where
  "idiv_store sign xp q1 q0 =
     res_bind (if xp < EXP_INT_OVERF \<and> xp > EXP_INT_UNDERF \<and> q0 = 0
               then res_bind (rd ten_pwr (EXP_INT_OVERF - 1 - xp)) (\<lambda>p. Inr (q1 mod p = 0)) else Inr False) (\<lambda>fits.
       if fits then demote q1 xp sign
       else if EXPHI \<le> xp then Inl ERR_NUMOFLOW
       else Inr (MV_nm sign xp q1 q0))"

definition idiv_flt :: "mnum \<Rightarrow> mnum \<Rightarrow> mnum res" where
  "idiv_flt u v =
     (let xp = mf_e u - mf_e v + MV_XBIAS in
      if xp < MV_XBIAS then Inr (MV_int 0)
      else
        res_bind (EB_DIV v u) (\<lambda>(c, q1, q0).
        let xp = xp + c in
        res_bind (idiv_trunc xp q1 q0) (\<lambda>(q1, q0). idiv_store (mf_sgn u \<noteq> mf_sgn v) xp q1 q0)))"

definition op_idiv_num :: "mnum \<Rightarrow> mnum \<Rightarrow> mnum res" where
  "op_idiv_num u v =
     (if v = MV_int 0 then Inl ERR_DIVZERO
      else case (case (u, v) of (MV_int a, MV_int b) \<Rightarrow> eb_int_div a b | _ \<Rightarrow> None) of
        Some m \<Rightarrow> Inr (MV_int m)
      | None \<Rightarrow> res_bind (promoted u) (\<lambda>u. res_bind (promoted v) (\<lambda>v. idiv_flt u v)))"

section \<open>Results of multiplication and division\<close>

text \<open>
  What an operation returns whose exact result is the quotient of \<open>N\<close> and \<open>D\<close>, negated if \<open>s\<close>, in units of \<open>10 ^ -80\<close>: the overflow error
  from \<open>10 ^ 47\<close> on, zero below \<open>10 ^ -43\<close>, and else the 18 leading digits.
\<close>

definition quot_result :: "bool \<Rightarrow> int \<Rightarrow> int \<Rightarrow> mnum res \<Rightarrow> bool" where
  "quot_result s N D res \<longleftrightarrow>
     (if 10 ^ 127 * D \<le> N then res = Inl ERR_NUMOFLOW
      else if N < 10 ^ 37 * D then res = Inr (MV_int 0)
      else \<exists>r e. res = Inr r \<and> num_ok r \<and> 10 ^ (17 + e) * D \<le> N \<and> N < 10 ^ (18 + e) * D
        \<and> mnum_val r = signed s (N div (D * 10 ^ e) * 10 ^ e))"

lemma store_result_pack:
  assumes "mant_norm p1 p0"
  shows "store_result s e p1 p0 = pack_result s e p1 p0"
proof (cases "e < EXP_INT_OVERF \<and> e > EXP_INT_UNDERF \<and> p0 = 0")
  case True
  let ?f = "10 ^ nat (68 - e) :: int"
  have rd: "rd ten_pwr (68 - e) = Inr ?f" using True by (intro rd_ten_pwr) auto
  have p: "0 < p1" using assms by (simp add: mant_norm_def)
  have "p1 mod ?f = 0 \<longleftrightarrow> p1 div ?f * ?f = p1" using minus_div_mult_eq_mod [of p1 ?f] by (metis diff_self eq_iff_diff_eq_0)
  moreover have "p1 sdiv ?f = p1 div ?f" "p1 sdiv - ?f = - (p1 div ?f)" using p by (simp_all add: signed_divide_int_def sgn_if)
  ultimately show ?thesis using True rd p by (simp add: store_result_def pack_result_def demote_def Let_def)
next
  case False
  then show ?thesis using assms by (auto simp: store_result_def pack_result_def mant_norm_def)
qed

lemma quot_result_fits:
  "\<not> 10 ^ 127 * D \<le> N \<Longrightarrow> \<not> N < 10 ^ 37 * D \<Longrightarrow> num_ok r \<Longrightarrow> 10 ^ (17 + e) * D \<le> N \<Longrightarrow> N < 10 ^ (18 + e) * D \<Longrightarrow>
    mnum_val r = signed s (N div (D * 10 ^ e) * 10 ^ e) \<Longrightarrow> quot_result s N D (Inr r)"
  unfolding quot_result_def by auto

lemma quot_resultI:
  assumes "0 < B" "0 < D" "0 \<le> N" "10 ^ 17 * B \<le> A" "A < 10 ^ 18 * B" "N * B * 10 ^ k = A * D * 10 ^ j" "mant_ok p1 p0" "mant p1 p0 = A div B"
  shows "quot_result s N D (store_result s (int j - int k) p1 p0)"
proof -
  define e where "e = int j - int k"
  have norm: "mant_norm p1 p0"
  proof (rule norm_mant [OF assms(7)])
    have "10 ^ 17 * B div B \<le> A div B" using assms(1,4) by (intro zdiv_mono1)
    then show "10 ^ 17 \<le> mant p1 p0" using assms(1) unfolding assms(8) by simp
  qed
  have lo: "10 ^ (17 + j) * D \<le> N * 10 ^ k"
  proof -
    have "10 ^ 17 * B * (D * 10 ^ j) \<le> A * (D * 10 ^ j)" using assms(2,4) by (intro mult_right_mono) simp_all
    also have "\<dots> = N * 10 ^ k * B" using assms(6) by (simp only: mult.assoc mult.commute mult.left_commute)
    finally have "10 ^ (17 + j) * D * B \<le> N * 10 ^ k * B" by (simp only: power_add mult.assoc mult.commute mult.left_commute)
    then show ?thesis using assms(1) by simp
  qed
  have hi: "N * 10 ^ k < 10 ^ (18 + j) * D"
  proof -
    have "N * 10 ^ k * B = A * (D * 10 ^ j)" using assms(6) by (simp only: mult.assoc mult.commute mult.left_commute)
    also have "\<dots> < 10 ^ 18 * B * (D * 10 ^ j)" using assms(2,5) by (intro mult_strict_right_mono) simp_all
    finally have "N * 10 ^ k * B < 10 ^ (18 + j) * D * B" by (simp only: power_add mult.assoc mult.commute mult.left_commute)
    then show ?thesis using assms(1) by simp
  qed
  consider (over) "EXPHI \<le> e" | (under) "e < EXPLO" | (fits) "EXPLO \<le> e" "e < EXPHI" by linarith
  then have "quot_result s N D (store_result s e p1 p0)"
  proof cases
    case over
    have "10 ^ 127 * D * 10 ^ k = 10 ^ (127 + k) * D" by (simp only: power_add mult.assoc mult.commute mult.left_commute)
    also have "\<dots> \<le> 10 ^ (17 + j) * D" using over assms(2) unfolding e_def by (intro mult_right_mono power_mono_int) simp_all
    also note lo
    finally have "10 ^ 127 * D \<le> N" by simp
    then show ?thesis using over by (simp add: quot_result_def store_result_def)
  next
    case under
    have "N * 10 ^ k < 10 ^ (18 + j) * D" by (rule hi)
    also have "\<dots> \<le> 10 ^ (37 + k) * D" using under assms(2) unfolding e_def by (intro mult_right_mono power_mono_int) simp_all
    also have "\<dots> = 10 ^ 37 * D * 10 ^ k" by (simp only: power_add mult.assoc mult.commute mult.left_commute)
    finally have "N < 10 ^ 37 * D" by simp
    moreover have "10 ^ 37 * D \<le> 10 ^ 127 * D" using assms(2) by simp
    ultimately show ?thesis using under by (simp add: quot_result_def store_result_def)
  next
    case fits
    have j: "j = nat e + k" "nat e \<le> 109" "20 \<le> nat e" using fits by (simp_all add: e_def)
    have eq: "N * B = A * D * 10 ^ nat e" using assms(6) unfolding j(1) power_add by (simp only: mult.assoc [symmetric] mult_cancel_right) simp
    define M where "M = A div B"
    have M: "M * B \<le> A" "A < (M + 1) * B"
      using div_mult_mod_eq [of A B] pos_mod_sign [OF assms(1), of A] pos_mod_bound [OF assms(1), of A] unfolding M_def distrib_right by linarith+
    have "N div (D * 10 ^ nat e) = M"
    proof (rule int_div_eqI)
      have "M * B * (D * 10 ^ nat e) \<le> A * (D * 10 ^ nat e)"
        using M(1) assms(2) by (intro mult_right_mono) simp_all
      then have "M * (D * 10 ^ nat e) * B \<le> N * B" unfolding eq by (simp only: mult.assoc mult.commute mult.left_commute)
      then show "M * (D * 10 ^ nat e) \<le> N" using assms(1) by simp
      have "A * (D * 10 ^ nat e) < (M + 1) * B * (D * 10 ^ nat e)"
        using M(2) assms(2) by (intro mult_strict_right_mono) simp_all
      then have "N * B < (M + 1) * (D * 10 ^ nat e) * B" unfolding eq by (simp only: mult.assoc mult.commute mult.left_commute)
      then show "N < (M + 1) * (D * 10 ^ nat e)" using assms(1) by simp
    qed
    moreover have lo': "10 ^ (17 + nat e) * D \<le> N" and hi': "N < 10 ^ (18 + nat e) * D" using lo hi unfolding j(1) by (simp_all add: power_add)
    have "10 ^ 37 * D \<le> 10 ^ (17 + nat e) * D" "10 ^ (18 + nat e) * D \<le> 10 ^ 127 * D"
      using j assms(2) by (intro mult_right_mono power_mono_int; simp)+
    then have "\<not> 10 ^ 127 * D \<le> N" "\<not> N < 10 ^ 37 * D" using lo' hi' by linarith+
    moreover obtain r where "store_result s e p1 p0 = Inr r" "num_ok r" "mnum_val r = signed s (M * 10 ^ nat e)"
      using pack_spec [OF norm, of e s] fits unfolding store_result_pack [OF norm] assms(8) M_def by auto
    ultimately show ?thesis using quot_result_fits [of D N r "nat e" s] lo' hi' by simp
  qed
  then show ?thesis unfolding e_def .
qed

text \<open>Promotion and its result: zero, or a normalized mantissa with the sign of the number.\<close>

lemma promoted_spec:
  assumes "num_ok u"
  obtains (zero) "mnum_val u = 0" "promoted u = Inr (MV_nm False 0 0 0)"
  | (pos) s e m1 m0 where "promoted u = Inr (MV_nm s e m1 m0)" "mant_norm m1 m0" "EXPLO \<le> e" "e < EXPHI" "s = (mnum_val u < 0)"
      "\<bar>mnum_val u\<bar> = mant m1 m0 * 10 ^ nat e"
proof (cases u)
  case (MV_nm s e m1 m0)
  have "0 < mant m1 m0 * 10 ^ nat e" using assms MV_nm mant_range(2) [of m1 m0] by simp
  then have "s = (mnum_val u < 0)" "\<bar>mnum_val u\<bar> = mant m1 m0 * 10 ^ nat e" unfolding MV_nm mnum_val_nm by (cases s; simp)+
  then show ?thesis using assms MV_nm by (intro pos [of s e m1 m0]) (simp_all add: promoted_def)
next
  case (MV_int m)
  show ?thesis
  proof (cases "m = 0")
    case True
    then show ?thesis using MV_int by (intro zero) (simp_all add: promoted_def promote_def)
  next
    case False
    obtain s e m1 where p: "promote m = Inr (MV_nm s e m1 0)" "mnum_ok (MV_nm s e m1 0)" "mnum_val (MV_nm s e m1 0) = mnum_val (MV_int m)"
      using promote_spec [of m] assms MV_int by auto
    have v: "signed s (mant m1 0 * 10 ^ nat e) = m * 10 ^ 77" using p(3) unfolding mnum_val_nm by simp
    then have "m1 \<noteq> 0" using False by (cases s) auto
    then have n: "mant_norm m1 0" "0 < e" using p(2) by (auto simp: mant_norm_def)
    note M = mant_range(2) [OF n(1)]
    have "0 < mant m1 0 * 10 ^ nat e" using M by simp
    then have s: "s = (m < 0)" "mant m1 0 * 10 ^ nat e = \<bar>m\<bar> * 10 ^ 77" using v by (cases s; simp)+
    have "20 \<le> e"
    proof (rule ccontr)
      assume "\<not> 20 \<le> e"
      then have "mant m1 0 * 10 ^ nat e \<le> 10 ^ 18 * 10 ^ 20" using M by (intro mult_mono power_mono_int) simp_all
      moreover have "1 * 10 ^ 77 \<le> \<bar>m\<bar> * (10 :: int) ^ 77" using False by (intro mult_right_mono) simp_all
      ultimately show False using s(2) by simp
    qed
    moreover have "e < 110"
    proof (rule ccontr)
      assume "\<not> e < 110"
      then have "10 ^ 17 * 10 ^ 110 \<le> mant m1 0 * 10 ^ nat e" using M by (intro mult_mono power_mono_int) simp_all
      moreover have "\<bar>m\<bar> * 10 ^ 77 \<le> 10 ^ 9 * (10 :: int) ^ 77" using assms MV_int by (intro mult_right_mono) (simp_all add: abs_le_iff)
      ultimately show False using s(2) by simp
    qed
    moreover have "s = (mnum_val u < 0)" "\<bar>mnum_val u\<bar> = mant m1 0 * 10 ^ nat e" using s MV_int by (simp_all add: abs_mult)
    ultimately show ?thesis using n(1) p(1) MV_int by (intro pos [of s e m1 0]) (simp_all add: promoted_def)
  qed
qed

text \<open>A result that is an \<open>MV_INT\<close> and exact.\<close>

lemma quot_result_int:
  assumes "\<bar>m\<bar> < 10 ^ 9" "0 < D" "N = \<bar>m\<bar> * 10 ^ 77 * D" "m = signed s \<bar>m\<bar>"
  shows "quot_result s N D (Inr (MV_int m))"
proof (cases "m = 0")
  case True
  then show ?thesis using assms by (simp add: quot_result_def)
next
  case False
  have ok: "num_ok (MV_int \<bar>m\<bar>)" using assms(1) by simp
  have v: "mnum_val (MV_int \<bar>m\<bar>) = \<bar>m\<bar> * 10 ^ 77" by simp
  from ok obtain e m1 m0 where p: "mant_norm m1 m0" "\<bar>m\<bar> * 10 ^ 77 = mant m1 m0 * 10 ^ nat e"
    using False by (cases rule: promoted_spec) (auto simp: abs_mult)
  define M E where "M = mant m1 m0" and "E = nat e"
  have M: "10 ^ 17 \<le> M" "M < 10 ^ 18" using mant_range(2) [OF p(1)] by (simp_all add: M_def)
  have N: "N = M * (D * 10 ^ E)" "N = \<bar>m\<bar> * 10 ^ 77 * D" using assms(3) p(2) by (simp_all only: M_def E_def mult.assoc mult.commute mult.left_commute)
  have "10 ^ 17 * (D * 10 ^ E) \<le> N" "N < 10 ^ 18 * (D * 10 ^ E)" using M assms(2) unfolding N(1) by (auto intro!: mult_right_mono mult_strict_right_mono)
  then have b: "10 ^ (17 + E) * D \<le> N" "N < 10 ^ (18 + E) * D" by (simp_all only: power_add mult.assoc mult.commute mult.left_commute)
  have "N div (D * 10 ^ E) * 10 ^ E = \<bar>m\<bar> * 10 ^ 77" using assms(2) p(2) unfolding N(1) by (simp add: M_def E_def)
  then have val: "mnum_val (MV_int m) = signed s (N div (D * 10 ^ E) * 10 ^ E)" using assms(4) by (cases s) simp_all
  have "1 * 10 ^ 77 * D \<le> N" unfolding N(2) using False assms(2) by (intro mult_right_mono) simp_all
  moreover have "N < 10 ^ 9 * 10 ^ 77 * D" unfolding N(2) using assms(1,2) by (intro mult_strict_right_mono) simp_all
  ultimately have "\<not> 10 ^ 127 * D \<le> N" "\<not> N < 10 ^ 37 * D" using assms(2) by simp_all
  then show ?thesis using quot_result_fits [OF _ _ _ b val] ok by (auto simp: abs_less_iff)
qed

lemma num_ok_zero: "num_ok v \<Longrightarrow> mnum_val v = 0 \<Longrightarrow> v = MV_int 0"
proof (cases v)
  case (MV_nm s e m1 m0)
  assume "num_ok v" "mnum_val v = 0"
  then show ?thesis using MV_nm mant_range(2) [of m1 m0] by (cases s) (simp_all add: mnum_val_nm del: mnum_val.simps(2))
qed simp

section \<open>Multiplication\<close>

lemma eb_mul_zero:
  assumes "mant_ok v1 v0" "mant_ok u1 u0" "mant v1 v0 * mant u1 u0 = 0"
  shows "eb_mul (v1, v0) (u1, u0) = (- 1, 0, 0)"
proof -
  note v = mul_limbs_spec [OF assms(1)] and u = mul_limbs_spec [OF assms(2)]
  define q where "q = mul_rows (mul_limbs v1 v0) (mul_limbs u1 u0) 0 (replicate 9 0)"
  have z: "limbs_val (replicate 9 0) = 0" by (simp add: limbs_val_zeros)
  have "\<exists>q'. q = q' \<and> length q' = 9 \<and> limbs_ok q' \<and> limbs_val q' = limbs_val (replicate 9 0) + RADIX ^ 0 * limbs_val (mul_limbs v1 v0) * limbs_val (drop 0 (mul_limbs u1 u0))"
    unfolding q_def using v u z assms(3) by (intro mul_rows_spec) (simp_all only: limbs_ok_def, auto)
  then have "length q = 9" "limbs_ok q" "limbs_val q < RADIX ^ 0" using v u assms(3) by (simp_all add: z)
  then have "q ! k = 0" if "k < 9" for k using limbs_high_zero [of q 0 k] that by simp
  then show ?thesis by (simp add: eb_mul_def Let_def join_342_def flip: q_def)
qed

lemma mul_flt_spec:
  assumes "num_ok u" "num_ok v"
  shows "quot_result ((mnum_val u < 0) \<noteq> (mnum_val v < 0)) (\<bar>mnum_val u\<bar> * \<bar>mnum_val v\<bar>) (10 ^ 80)
    (res_bind (promoted u) (\<lambda>u. res_bind (promoted v) (\<lambda>v. mul_flt u v)))"
  using assms(1)
proof (cases rule: promoted_spec)
  case u: zero
  show ?thesis using assms(2)
  proof (cases rule: promoted_spec)
    case zero
    then show ?thesis using u by (simp add: mul_flt_def eb_mul_zero mant_ok_def store_result_def quot_result_def)
  next
    case (pos s e m1 m0)
    then have "eb_mul (0, 0) (m1, m0) = (- 1, 0, 0)" by (intro eb_mul_zero [OF _ mant_norm_ok]) (simp_all add: mant_ok_def)
    then show ?thesis using u pos by (simp add: mul_flt_def store_result_def quot_result_def)
  qed
next
  case u: (pos s e m1 m0)
  show ?thesis using assms(2)
  proof (cases rule: promoted_spec)
    case zero
    then have "eb_mul (m1, m0) (0, 0) = (- 1, 0, 0)" using u by (intro eb_mul_zero [OF mant_norm_ok]) (simp_all add: mant_ok_def)
    then show ?thesis using u zero by (simp add: mul_flt_def store_result_def quot_result_def)
  next
    case v: (pos t f n1 n0)
    define A where "A = mant m1 m0 * mant n1 n0"
    define b :: nat where "b = (if 10 ^ 35 \<le> A then 18 else 17)"
    define c :: int where "c = (if 10 ^ 35 \<le> A then 0 else - 1)"
    have b: "b = 18 \<or> b = 17" "10 ^ 35 \<le> A \<longleftrightarrow> b = 18" "int b = 18 + c" by (simp_all add: b_def c_def)
    obtain p1 p0 where p: "eb_mul (m1, m0) (n1, n0) = (c, p1, p0)" "mant_norm p1 p0" "mant p1 p0 = A div 10 ^ b"
      using eb_mul_spec [OF u(2) v(2)] unfolding A_def b_def c_def by (auto split: if_splits)
    have A: "10 ^ 17 * 10 ^ 17 \<le> A" "A < 10 ^ 18 * 10 ^ 18" unfolding A_def using mant_range(2) [OF u(2)] mant_range(2) [OF v(2)]
      by (intro mult_mono mult_strict_mono; simp)+
    have "quot_result (s \<noteq> t) (\<bar>mnum_val u\<bar> * \<bar>mnum_val v\<bar>) (10 ^ 80) (store_result (s \<noteq> t) (int (nat e + nat f) - int (80 - b)) p1 p0)"
    proof (rule quot_resultI [of "10 ^ b" _ _ A])
      show "10 ^ 17 * 10 ^ b \<le> A" "A < 10 ^ 18 * 10 ^ b" using A b by auto
      have "\<bar>mnum_val u\<bar> * \<bar>mnum_val v\<bar> * 10 ^ b * 10 ^ (80 - b) = A * (10 ^ (nat e + nat f) * 10 ^ (b + (80 - b)))"
        unfolding u(6) v(6) A_def power_add by (simp only: mult.assoc mult.commute mult.left_commute)
      also have "b + (80 - b) = 80" using b by auto
      finally show "\<bar>mnum_val u\<bar> * \<bar>mnum_val v\<bar> * 10 ^ b * 10 ^ (80 - b) = A * 10 ^ 80 * 10 ^ (nat e + nat f)" by (simp only: mult.assoc mult.commute mult.left_commute)
    qed (use p mant_norm_ok in simp_all)
    moreover have "int (nat e + nat f) - int (80 - b) = e + f + c - 62" using u v b by auto
    ultimately have "quot_result (s \<noteq> t) (\<bar>mnum_val u\<bar> * \<bar>mnum_val v\<bar>) (10 ^ 80) (store_result (s \<noteq> t) (e + f + c - 62) p1 p0)" by (simp only:)
    then show ?thesis using u(1,5) v(1,5) p(1) by (simp add: mul_flt_def)
  qed
qed

lemma mul_int_spec:
  assumes "num_ok (MV_int a)" "num_ok (MV_int b)" "eb_int_mul a b = Some m"
  shows "quot_result ((mnum_val (MV_int a) < 0) \<noteq> (mnum_val (MV_int b) < 0)) (\<bar>mnum_val (MV_int a)\<bar> * \<bar>mnum_val (MV_int b)\<bar>) (10 ^ 80) (Inr (MV_int m))"
proof -
  have P: "\<bar>b * a\<bar> < 10 ^ 12" "(b * a) mod 1000 = 0" "m = b * a div 1000" using assms(3) by (auto simp: eb_int_mul_spec split: if_splits)
  then have m: "b * a = m * 1000" by auto
  have neg: "mnum_val (MV_int x) < 0 \<longleftrightarrow> x < 0" for x by simp
  show ?thesis
  proof (rule quot_result_int)
    show "\<bar>m\<bar> < 10 ^ 9" using P(1) unfolding m by (simp add: abs_mult)
    have "\<bar>a\<bar> * \<bar>b\<bar> = \<bar>m\<bar> * 1000" using m by (metis abs_mult abs_numeral mult.commute)
    then have "\<bar>a\<bar> * \<bar>b\<bar> * (10 ^ 77 * 10 ^ 77) = \<bar>m\<bar> * 1000 * (10 ^ 77 * 10 ^ 77)" by (simp only:)
    then show "\<bar>mnum_val (MV_int a)\<bar> * \<bar>mnum_val (MV_int b)\<bar> = \<bar>m\<bar> * 10 ^ 77 * 10 ^ 80" by (simp add: abs_mult)
    have "0 < m * 1000 \<longleftrightarrow> 0 < m" "m * 1000 < 0 \<longleftrightarrow> m < 0" by simp_all
    then show "m = signed ((mnum_val (MV_int a) < 0) \<noteq> (mnum_val (MV_int b) < 0)) \<bar>m\<bar>"
      unfolding neg m [symmetric] by (auto simp: mult_less_0_iff zero_less_mult_iff abs_if)
  qed simp
qed

text \<open>
  C27: Multiplication of numbers. For all numbers \<open>op_mul\<close> returns the 18 leading digits of the exact product with the right sign, zero if the
  product is below \<open>10 ^ -43\<close> in magnitude, and the error \<open>NUMOFLOW\<close> exactly if it reaches \<open>10 ^ 47\<close>; the product in doubles is only
  used where it is exact.
\<close>

theorem op_mul_correct:
  assumes "num_ok u" "num_ok v"
  shows "quot_result ((mnum_val u < 0) \<noteq> (mnum_val v < 0)) (\<bar>mnum_val u\<bar> * \<bar>mnum_val v\<bar>) (10 ^ 80) (op_mul_num u v)"
proof (cases "case (u, v) of (MV_int a, MV_int b) \<Rightarrow> eb_int_mul a b | _ \<Rightarrow> None")
  case None
  then show ?thesis using mul_flt_spec [OF assms] by (simp add: op_mul_num_def)
next
  case (Some m)
  then obtain a b where uv: "u = MV_int a" "v = MV_int b" by (cases u; cases v) auto
  then have m: "eb_int_mul a b = Some m" using Some by simp
  then have "op_mul_num u v = Inr (MV_int m)" by (simp add: op_mul_num_def uv)
  then show ?thesis using mul_int_spec [OF assms [unfolded uv] m] unfolding uv by simp
qed

theorem op_mul_correct_witness:
  "quot_result True ((123456789 * MANT_HI + 5) * 10 ^ 65 * (3 * 10 ^ 77)) (10 ^ 80) (op_mul_num (MV_nm False 65 123456789 5) (MV_int (- 3)))
   \<and> op_mul_num (MV_nm False 65 123456789 5) (MV_int (- 3)) = Inr (MV_nm True 62 370370367 15)"
proof (rule conjI)
  have val: "mnum_val (MV_nm False 65 123456789 5) = (123456789 * MANT_HI + 5) * 10 ^ 65" "mnum_val (MV_int (- 3)) = - (3 * 10 ^ 77)" by simp_all
  have "num_ok (MV_nm False 65 123456789 5)" "num_ok (MV_int (- 3))" by (simp_all add: mant_norm_def)
  from op_mul_correct [OF this]
  show "quot_result True ((123456789 * MANT_HI + 5) * 10 ^ 65 * (3 * 10 ^ 77)) (10 ^ 80) (op_mul_num (MV_nm False 65 123456789 5) (MV_int (- 3)))"
    unfolding val by simp
  show "op_mul_num (MV_nm False 65 123456789 5) (MV_int (- 3)) = Inr (MV_nm True 62 370370367 15)" by code_simp
qed

section \<open>Division\<close>

text \<open>The mantissa of a quotient of two normalized mantissas is normalized, and the scale says how it is to be read.\<close>

lemma eb_div_norm:
  assumes "mant_norm x1 x0" and "mant_norm y1 y0"
  obtains c q1 q0 where "eb_div (x1, x0) (y1, y0) = Inr (int c, q1, q0)" "mant_ok q1 q0" "c \<le> 1"
    "mant q1 q0 = mant y1 y0 * 10 ^ (18 - c) div mant x1 x0"
    "10 ^ 17 * mant x1 x0 \<le> mant y1 y0 * 10 ^ (18 - c)" "mant y1 y0 * 10 ^ (18 - c) < 10 ^ 18 * mant x1 x0"
proof (cases "mant x1 x0 \<le> mant y1 y0")
  case True
  then show ?thesis using eb_div_spec [OF assms(1) mant_norm_ok [OF assms(2)]] mant_range(2) [OF assms(1)] mant_range(2) [OF assms(2)]
    by (auto intro!: that [of 1])
next
  case False
  then show ?thesis using eb_div_spec [OF assms(1) mant_norm_ok [OF assms(2)]] mant_range(2) [OF assms(1)] mant_range(2) [OF assms(2)]
    by (auto intro!: that [of 0])
qed

lemma mant_zero: "mant_ok q1 q0 \<Longrightarrow> mant q1 q0 = 0 \<Longrightarrow> q1 = 0 \<and> q0 = 0"
  unfolding mant_ok_def by linarith

lemma div_flt_spec:
  assumes "num_ok u" "num_ok v" "mnum_val v \<noteq> 0"
  shows "quot_result ((mnum_val u < 0) \<noteq> (mnum_val v < 0)) (\<bar>mnum_val u\<bar> * 10 ^ 80) \<bar>mnum_val v\<bar>
    (res_bind (promoted u) (\<lambda>u. res_bind (promoted v) (\<lambda>v. res_bind (EB_DIV v u) (\<lambda>(c, q1, q0).
      store_result (mf_sgn u \<noteq> mf_sgn v) (mf_e u - mf_e v + c + MV_XBIAS) q1 q0))))"
  using assms(2)
proof (cases rule: promoted_spec)
  case zero
  then show ?thesis using assms(3) by simp
next
  case v: (pos t f n1 n0)
  show ?thesis using assms(1)
  proof (cases rule: promoted_spec)
    case zero
    obtain q1 q0 where q: "eb_div (n1, n0) (0, 0) = Inr (0, q1, q0)" "mant_ok q1 q0" "mant q1 q0 = 0"
      using eb_div_spec [OF v(2), of 0 0] mant_range(2) [OF v(2)] by (auto simp: mant_ok_def [of 0])
    then have "eb_div (n1, n0) (0, 0) = Inr (0, 0, 0)" using mant_zero by blast
    then show ?thesis using v(1,3-5) zero assms(3) by (simp add: EB_DIV_def store_result_def quot_result_def)
  next
    case u: (pos s e m1 m0)
    obtain c q1 q0 where q: "eb_div (n1, n0) (m1, m0) = Inr (int c, q1, q0)" "mant_ok q1 q0" "c \<le> 1" "mant q1 q0 = mant m1 m0 * 10 ^ (18 - c) div mant n1 n0"
      "10 ^ 17 * mant n1 n0 \<le> mant m1 m0 * 10 ^ (18 - c)" "mant m1 m0 * 10 ^ (18 - c) < 10 ^ 18 * mant n1 n0"
      using eb_div_norm [OF v(2) u(2)] by metis
    have "quot_result (s \<noteq> t) (\<bar>mnum_val u\<bar> * 10 ^ 80) \<bar>mnum_val v\<bar> (store_result (s \<noteq> t) (int (nat e + 62 + c) - int (nat f)) q1 q0)"
    proof (rule quot_resultI [OF _ _ _ q(5,6) _ q(2,4)])
      show "0 < mant n1 n0" using mant_range(2) [OF v(2)] by simp
      have "(18 - c) + (nat e + 62 + c) = nat e + 80" using q(3) by simp
      then have "10 ^ (18 - c) * 10 ^ (nat e + 62 + c) = (10 :: int) ^ nat e * 10 ^ 80" by (simp only: power_add [symmetric])
      moreover have "mant m1 m0 * 10 ^ (18 - c) * \<bar>mnum_val v\<bar> * 10 ^ (nat e + 62 + c) = mant m1 m0 * (10 ^ (18 - c) * 10 ^ (nat e + 62 + c)) * \<bar>mnum_val v\<bar>"
        by (simp only: mult.assoc mult.commute mult.left_commute)
      ultimately show "\<bar>mnum_val u\<bar> * 10 ^ 80 * mant n1 n0 * 10 ^ nat f = mant m1 m0 * 10 ^ (18 - c) * \<bar>mnum_val v\<bar> * 10 ^ (nat e + 62 + c)"
        unfolding u(6) v(6) by (simp only: mult.assoc mult.commute mult.left_commute)
    qed (use assms(3) in simp_all)
    moreover have "int (nat e + 62 + c) - int (nat f) = e - f + int c + 62" using u v by simp
    ultimately have "quot_result (s \<noteq> t) (\<bar>mnum_val u\<bar> * 10 ^ 80) \<bar>mnum_val v\<bar> (store_result (s \<noteq> t) (e - f + int c + 62) q1 q0)" by (simp only:)
    then show ?thesis using u(1,4,5) v(1,4,5) q(1) by (simp add: EB_DIV_def)
  qed
qed

lemma div_int_spec:
  assumes "num_ok (MV_int a)" "num_ok (MV_int b)" "b \<noteq> 0" "eb_mvint_div a b = Some m" "\<not> (\<bar>a\<bar> * 1000 mod \<bar>b\<bar> = 1 \<and> 998000000 \<le> \<bar>b\<bar>)"
  shows "quot_result ((mnum_val (MV_int a) < 0) \<noteq> (mnum_val (MV_int b) < 0)) (\<bar>mnum_val (MV_int a)\<bar> * 10 ^ 80) \<bar>mnum_val (MV_int b)\<bar> (Inr (MV_int m))"
proof -
  define q where "q = \<bar>a\<bar> * 1000 div \<bar>b\<bar>"
  have ab: "\<bar>a\<bar> < 10 ^ 9" "\<bar>b\<bar> < 10 ^ 9" using assms(1,2) by (auto simp: abs_less_iff)
  have P: "\<bar>a\<bar> * 1000 mod \<bar>b\<bar> = 0" "q < 10 ^ 9" "m = signed ((a < 0) \<noteq> (b < 0)) q"
    using eb_mvint_div_spec [OF ab assms(3)] assms(4,5) by (auto simp: q_def split: if_splits)
  have q0: "0 \<le> q" using assms(3) by (simp add: q_def pos_imp_zdiv_nonneg_iff)
  have neg: "mnum_val (MV_int x) < 0 \<longleftrightarrow> x < 0" for x by simp
  show ?thesis
  proof (rule quot_result_int)
    show m: "\<bar>m\<bar> < 10 ^ 9" "0 < \<bar>mnum_val (MV_int b)\<bar>" using P q0 assms(3) by auto
    have "\<bar>m\<bar> = q" using P(3) q0 by auto
    then have "\<bar>a\<bar> * 1000 = \<bar>m\<bar> * \<bar>b\<bar>" using P(1) by (auto simp: q_def)
    then have "\<bar>a\<bar> * 1000 * (10 ^ 77 * 10 ^ 77) = \<bar>m\<bar> * \<bar>b\<bar> * (10 ^ 77 * 10 ^ 77)" by (simp only:)
    then show "\<bar>mnum_val (MV_int a)\<bar> * 10 ^ 80 = \<bar>m\<bar> * 10 ^ 77 * \<bar>mnum_val (MV_int b)\<bar>" by (simp add: abs_mult)
    show "m = signed ((mnum_val (MV_int a) < 0) \<noteq> (mnum_val (MV_int b) < 0)) \<bar>m\<bar>" unfolding neg using P(3) q0 by (auto simp: abs_if)
  qed
qed

text \<open>
  C28: Division of numbers. \<open>op_div\<close> fails with \<open>DIVZERO\<close> for a zero divisor and otherwise returns the 18 leading digits of the exact
  quotient, zero on underflow and the error \<open>NUMOFLOW\<close> on overflow. The only operands left out are two \<open>MV_INT\<close> values \<open>a\<close> and \<open>b\<close> (in
  thousandths) with \<open>b\<close> at least \<open>998000000\<close> for which \<open>1000 * a\<close> leaves the remainder 1: there the quotient in doubles may be taken for exact.
\<close>

theorem op_div_correct:
  assumes "num_ok u" "num_ok v"
    and "case (u, v) of (MV_int a, MV_int b) \<Rightarrow> \<not> (\<bar>a\<bar> * 1000 mod \<bar>b\<bar> = 1 \<and> 998000000 \<le> \<bar>b\<bar>) | _ \<Rightarrow> True"
  shows "if mnum_val v = 0 then op_div_num u v = Inl ERR_DIVZERO
    else quot_result ((mnum_val u < 0) \<noteq> (mnum_val v < 0)) (\<bar>mnum_val u\<bar> * 10 ^ 80) \<bar>mnum_val v\<bar> (op_div_num u v)"
proof (cases "v = MV_int 0")
  case True
  then show ?thesis by (simp add: op_div_num_def)
next
  case False
  then have v: "mnum_val v \<noteq> 0" using assms(2) num_ok_zero by blast
  show ?thesis
  proof (cases "case (u, v) of (MV_int a, MV_int b) \<Rightarrow> eb_mvint_div a b | _ \<Rightarrow> None")
    case None
    then show ?thesis using div_flt_spec [OF assms(1,2) v] v False by (simp add: op_div_num_def)
  next
    case (Some m)
    then obtain a b where uv: "u = MV_int a" "v = MV_int b" by (cases u; cases v) auto
    then have m: "eb_mvint_div a b = Some m" using Some by simp
    then have "op_div_num u v = Inr (MV_int m)" using False by (simp add: op_div_num_def uv)
    moreover have "b \<noteq> 0" using False uv by simp
    ultimately show ?thesis using div_int_spec [OF assms(1,2) [unfolded uv] _ m] assms(3) v unfolding uv by simp
  qed
qed

theorem op_div_correct_witness:
  "quot_result True ((123456789 * MANT_HI + 5) * 10 ^ 65 * 10 ^ 80) (3 * 10 ^ 77) (op_div_num (MV_nm False 65 123456789 5) (MV_int (- 3)))
   \<and> op_div_num (MV_nm False 65 123456789 5) (MV_int (- 3)) = Inr (MV_nm True 67 411522630 16)"
proof (rule conjI)
  have val: "mnum_val (MV_nm False 65 123456789 5) = (123456789 * MANT_HI + 5) * 10 ^ 65" "mnum_val (MV_int (- 3)) = - (3 * 10 ^ 77)" by simp_all
  have "num_ok (MV_nm False 65 123456789 5)" "num_ok (MV_int (- 3))" by (simp_all add: mant_norm_def)
  from op_div_correct [OF this]
  show "quot_result True ((123456789 * MANT_HI + 5) * 10 ^ 65 * 10 ^ 80) (3 * 10 ^ 77) (op_div_num (MV_nm False 65 123456789 5) (MV_int (- 3)))"
    unfolding val by simp
  show "op_div_num (MV_nm False 65 123456789 5) (MV_int (- 3)) = Inr (MV_nm True 67 411522630 16)" by code_simp
qed

text \<open>
  C29: The case that is left out is a defect: \<open>666999.998 / 999999.997\<close> is \<open>0.667000000001\<close> to 18 digits, \<open>op_div\<close> returns \<open>0.667\<close>, although the same
  division on the promoted operands returns all digits.
\<close>

theorem op_div_loses_digits:
  "op_div_num (MV_int 666999998) (MV_int 999999997) = Inr (MV_int 667)
   \<and> \<not> quot_result False (\<bar>mnum_val (MV_int 666999998)\<bar> * 10 ^ 80) \<bar>mnum_val (MV_int 999999997)\<bar> (op_div_num (MV_int 666999998) (MV_int 999999997))
   \<and> op_div_num (MV_nm False 68 666999998 0) (MV_int 999999997) = Inr (MV_nm False 62 667000000 1000000)"
proof -
  have d: "op_div_num (MV_int 666999998) (MV_int 999999997) = Inr (MV_int 667)" by code_simp
  have p: "op_div_num (MV_nm False 68 666999998 0) (MV_int 999999997) = Inr (MV_nm False 62 667000000 1000000)" by code_simp
  have v: "\<bar>mnum_val (MV_int 666999998)\<bar> * 10 ^ 80 = 666999998 * 10 ^ 157" "\<bar>mnum_val (MV_int 999999997)\<bar> = 999999997 * 10 ^ 77" by simp_all
  have "\<not> quot_result False (666999998 * 10 ^ 157) (999999997 * 10 ^ 77) (Inr (MV_int 667))"
  proof
    assume "quot_result False (666999998 * 10 ^ 157) (999999997 * 10 ^ 77) (Inr (MV_int 667))"
    then obtain e :: nat where e: "10 ^ (17 + e) * (999999997 * 10 ^ 77) \<le> 666999998 * (10 :: int) ^ 157" "666999998 * 10 ^ 157 < 10 ^ (18 + e) * (999999997 * (10 :: int) ^ 77)"
      "mnum_val (MV_int 667) = 666999998 * 10 ^ 157 div (999999997 * 10 ^ 77 * 10 ^ e) * 10 ^ e"
      unfolding quot_result_def by (auto split: if_splits)
    have "e = 62"
    proof (rule ccontr)
      assume "e \<noteq> 62"
      then consider "18 + e \<le> 79" | "80 \<le> 17 + e" by linarith
      then show False
      proof cases
        case 1
        then have "10 ^ (18 + e) * (999999997 * (10 :: int) ^ 77) \<le> 10 ^ 79 * (999999997 * 10 ^ 77)" by (intro mult_right_mono power_mono_int) simp_all
        then show False using e(2) by simp
      next
        case 2
        then have "10 ^ 80 * (999999997 * (10 :: int) ^ 77) \<le> 10 ^ (17 + e) * (999999997 * 10 ^ 77)" by (intro mult_right_mono power_mono_int) simp_all
        then show False using e(1) by simp
      qed
    qed
    then show False using e(3) by simp
  qed
  then show ?thesis using d p unfolding v by simp
qed

section \<open>Integer division\<close>

text \<open>What integer division returns for the integral quotient \<open>I\<close>: its 18 leading digits, all of it if it has no more.\<close>

definition idiv_result :: "bool \<Rightarrow> int \<Rightarrow> mnum res \<Rightarrow> bool" where
  "idiv_result s I res \<longleftrightarrow>
     (if 10 ^ 47 \<le> I then res = Inl ERR_NUMOFLOW
      else \<exists>r k. res = Inr r \<and> num_ok r \<and> mnum_val r = signed s (I div 10 ^ k * 10 ^ k * 10 ^ 80)
        \<and> (k = 0 \<and> I < 10 ^ 18 \<or> 10 ^ (17 + k) \<le> I \<and> I < 10 ^ (18 + k)))"

lemma idiv_store_pack:
  assumes "mant_norm q1 q0" "EXPLO \<le> xp"
  shows "idiv_store s xp q1 q0 = pack_result s xp q1 q0"
proof -
  have "q1 \<noteq> 0" using assms(1) by (auto simp: mant_norm_def)
  then have "idiv_store s xp q1 q0 = store_result s xp q1 q0"
    using assms(2) by (cases "rd ten_pwr (68 - xp)") (simp_all add: idiv_store_def store_result_def)
  then show ?thesis using store_result_pack [OF assms(1)] by simp
qed

lemma div_mult_pow_le: "10 ^ a \<le> x \<Longrightarrow> b \<le> a \<Longrightarrow> 10 ^ a \<le> x div 10 ^ b * (10 :: int) ^ b"
proof -
  assume x: "10 ^ a \<le> x" and b: "b \<le> a"
  have "a = (a - b) + b" using b by simp
  then have p: "(10 :: int) ^ a = 10 ^ (a - b) * 10 ^ b" by (metis power_add)
  then have "(10 :: int) ^ (a - b) = 10 ^ a div 10 ^ b" by simp
  also have "\<dots> \<le> x div 10 ^ b" using x by (intro zdiv_mono1) simp_all
  finally show ?thesis unfolding p by (intro mult_right_mono) simp_all
qed

lemma idiv_trunc_spec:
  assumes "mant_norm q1 q0" and "MV_XBIAS < xp"
  shows "\<exists>a b. idiv_trunc xp q1 q0 = Inr (a, b) \<and> mant_norm a b \<and> mant a b = mant q1 q0 div 10 ^ nat (80 - xp) * 10 ^ nat (80 - xp)"
proof -
  have ok: "0 \<le> q0" "q0 < MANT_HI" "MANT_LO \<le> q1" "q1 < MANT_HI" using assms(1) by (simp_all add: mant_norm_def)
  consider "xp < 71" | "71 \<le> xp" "xp < 80" | "80 \<le> xp" by linarith
  then show ?thesis
  proof cases
    case 1
    let ?z = "10 ^ nat (71 - xp) :: int"
    have "nat (80 - xp) = 9 + nat (71 - xp)" using 1 by simp
    then have p: "10 ^ nat (80 - xp) = MANT_HI * ?z" by (simp add: power_add)
    have "mant q1 q0 div (MANT_HI * ?z) = mant q1 q0 div MANT_HI div ?z" by (simp add: zdiv_zmult2_eq)
    also have "mant q1 q0 div MANT_HI = q1" using ok by simp
    finally have m: "mant q1 q0 div 10 ^ nat (80 - xp) * 10 ^ nat (80 - xp) = q1 div ?z * ?z * MANT_HI" using p by simp
    have "MANT_LO \<le> q1 div ?z * ?z" using div_mult_pow_le [of 8 q1 "nat (71 - xp)"] ok assms(2) by simp
    moreover have "q1 div ?z * ?z \<le> q1" by (rule int_div_mult_le) simp
    ultimately have "mant_norm (q1 div ?z * ?z) 0" using ok by (simp add: mant_norm_def)
    then show ?thesis using 1 assms(2) m rd_ten_pwr [of "71 - xp"] by (simp add: idiv_trunc_def)
  next
    case 2
    let ?z = "10 ^ nat (80 - xp) :: int" and ?g = "10 ^ nat (9 - (80 - xp)) :: int"
    have g: "MANT_HI = ?g * ?z" using digit_powers [of "80 - xp"] 2 by (simp add: mult.commute)
    have "mant q1 q0 div ?z = (q0 + (q1 * ?g) * ?z) div ?z" unfolding g by (simp add: mult.assoc add.commute)
    also have "\<dots> = q1 * ?g + q0 div ?z" by (intro div_mult_self1) simp
    finally have "mant q1 q0 div ?z * ?z = q1 * (?g * ?z) + q0 div ?z * ?z" by (simp add: distrib_right mult.assoc)
    then have m: "mant q1 q0 div ?z * ?z = mant q1 (q0 div ?z * ?z)" unfolding g [symmetric] .
    have "q0 div ?z * ?z \<le> q0" "0 \<le> q0 div ?z * ?z"
      using int_div_mult_le [of ?z q0] ok by (simp_all add: pos_imp_zdiv_nonneg_iff)
    then have "mant_norm q1 (q0 div ?z * ?z)" using ok by (simp add: mant_norm_def)
    then show ?thesis using 2 m rd_ten_pwr [of "80 - xp"] by (simp add: idiv_trunc_def)
  next
    case 3
    then show ?thesis using assms by (simp add: idiv_trunc_def)
  qed
qed

text \<open>The integral quotient from the 18 leading digits of the quotient, for \<open>h\<close> digits before the point.\<close>

lemma integral_quotient:
  assumes "0 < V" "0 \<le> U" "q = U * 10 ^ (18 - c) div V" "c \<le> 1" "c \<le> h"
  defines "I \<equiv> U * 10 ^ (h - c) div (V :: int)"
  shows "h \<le> 18 \<Longrightarrow> I = q div 10 ^ (18 - h)" and "18 \<le> h \<Longrightarrow> q = I div 10 ^ (h - 18)"
proof -
  show "I = q div 10 ^ (18 - h)" if "h \<le> 18"
  proof -
    have "18 - c = (h - c) + (18 - h)" using that assms(4,5) by simp
    then have p: "U * 10 ^ (18 - c) = U * 10 ^ (h - c) * 10 ^ (18 - h)" by (simp only: power_add mult.assoc)
    have "q div 10 ^ (18 - h) = (U * 10 ^ (h - c) * 10 ^ (18 - h)) div (V * 10 ^ (18 - h))"
      unfolding assms(3) p by (rule zdiv_zmult2_eq [symmetric]) simp
    also have "\<dots> = I" unfolding I_def by (rule div_mult_mult2) simp
    finally show ?thesis by simp
  qed
  show "q = I div 10 ^ (h - 18)" if "18 \<le> h"
  proof -
    have "h - c = (18 - c) + (h - 18)" using that assms(4) by simp
    then have p: "U * 10 ^ (h - c) = U * 10 ^ (18 - c) * 10 ^ (h - 18)" by (simp only: power_add mult.assoc)
    have "I div 10 ^ (h - 18) = (U * 10 ^ (18 - c) * 10 ^ (h - 18)) div (V * 10 ^ (h - 18))"
      unfolding I_def p by (rule zdiv_zmult2_eq [symmetric]) simp
    also have "\<dots> = q" unfolding assms(3) by (rule div_mult_mult2) simp
    finally show ?thesis by simp
  qed
qed

lemma idiv_resultI:
  assumes "mant_norm a b" "mant a b = q div 10 ^ (18 - h) * 10 ^ (18 - h)" "10 ^ 17 \<le> q" "q < 10 ^ 18" "1 \<le> h"
    "h \<le> 18 \<Longrightarrow> I = q div 10 ^ (18 - h)" "18 \<le> h \<Longrightarrow> q = I div 10 ^ (h - 18)"
  shows "idiv_result s I (idiv_store s (int h + 62) a b)"
proof -
  note st = idiv_store_pack [OF assms(1), of "int h + 62" s] and pk = pack_spec [OF assms(1), of "int h + 62" s]
  define k where "k = h - 18"
  have I: "q * 10 ^ k \<le> I \<and> I < (q + 1) * 10 ^ k" if "18 \<le> h"
    using assms(7) [OF that] int_div_mult_le [of "10 ^ k" I] int_div_upper [of "10 ^ k" I] by (simp add: k_def)
  have lo: "10 ^ (17 + k) \<le> I" and hi: "I < 10 ^ (18 + k)" if "18 \<le> h"
  proof -
    have "10 ^ 17 * 10 ^ k \<le> q * 10 ^ k" "(q + 1) * 10 ^ k \<le> 10 ^ 18 * 10 ^ k" using assms(3,4) by (intro mult_right_mono; simp)+
    then show "10 ^ (17 + k) \<le> I" "I < 10 ^ (18 + k)" using I [OF that] unfolding power_add by linarith+
  qed
  show ?thesis
  proof (cases "48 \<le> h")
    case True
    then have "(10 :: int) ^ 47 \<le> 10 ^ (17 + k)" by (intro power_mono_int) (simp add: k_def)
    then have "10 ^ 47 \<le> I" using lo True by simp
    then show ?thesis using True st pk by (simp add: idiv_result_def)
  next
    case False
    then obtain r where r: "idiv_store s (int h + 62) a b = Inr r" "num_ok r" "mnum_val r = signed s (mant a b * 10 ^ (h + 62))"
      using st pk assms(5) by (auto simp: nat_add_distrib)
    show ?thesis
    proof (cases "18 \<le> h")
      case True
      then have "I < 10 ^ 47" using hi False power_mono_int [of "18 + k" 47] by (simp add: k_def)
      moreover have "mant a b * 10 ^ (h + 62) = I div 10 ^ k * 10 ^ k * 10 ^ 80"
      proof -
        have "h + 62 = k + 80" using True by (simp add: k_def)
        moreover have "mant a b = I div 10 ^ k" using assms(2,7) True by (simp add: k_def)
        ultimately show ?thesis by (simp only: power_add mult.assoc)
      qed
      ultimately show ?thesis using r lo hi True unfolding idiv_result_def by auto
    next
      case less: False
      have "h + 62 + (18 - h) = 80" using less by simp
      then have "(10 :: int) ^ (18 - h) * 10 ^ (h + 62) = 10 ^ 80" by (simp only: power_add [symmetric] add.commute)
      then have "mant a b * 10 ^ (h + 62) = I * 10 ^ 80" using assms(2,6) less by (simp add: mult.assoc)
      moreover have "I \<le> q" using assms(3,6) less int_div_le_self [of q "10 ^ (18 - h)"] by simp
      ultimately show ?thesis using r assms(4) unfolding idiv_result_def by (auto intro!: exI [of _ 0])
    qed
  qed
qed

lemma idiv_flt_spec:
  assumes "num_ok u" "num_ok v" "mnum_val v \<noteq> 0"
  shows "idiv_result ((mnum_val u < 0) \<noteq> (mnum_val v < 0)) (\<bar>mnum_val u\<bar> div \<bar>mnum_val v\<bar>)
    (res_bind (promoted u) (\<lambda>u. res_bind (promoted v) (\<lambda>v. idiv_flt u v)))"
  using assms(2)
proof (cases rule: promoted_spec)
  case zero
  then show ?thesis using assms(3) by simp
next
  case v: (pos t f n1 n0)
  have res0: "idiv_result x 0 (Inr (MV_int 0))" for x by (auto simp: idiv_result_def intro!: exI [of _ "0 :: nat"])
  show ?thesis using assms(1)
  proof (cases rule: promoted_spec)
    case zero
    then show ?thesis using v(1,3) res0 by (simp add: idiv_flt_def)
  next
    case u: (pos s e m1 m0)
    define U V where "U = mant m1 m0" and "V = mant n1 n0"
    have UV: "10 ^ 17 \<le> U" "U < 10 ^ 18" "10 ^ 17 \<le> V" "V < 10 ^ 18" using mant_range(2) [OF u(2)] mant_range(2) [OF v(2)] by (simp_all add: U_def V_def)
    define I where "I = \<bar>mnum_val u\<bar> div \<bar>mnum_val v\<bar>"
    show ?thesis
    proof (cases "e < f")
      case True
      then have "\<bar>mnum_val u\<bar> < \<bar>mnum_val v\<bar>" unfolding u(6) v(6) using UV u(3) v(3) unfolding U_def V_def by (intro mag_order) simp_all
      then show ?thesis using u(1) v(1) True res0 by (simp add: idiv_flt_def)
    next
      case False
      obtain c q1 q0 where q: "eb_div (n1, n0) (m1, m0) = Inr (int c, q1, q0)" "mant_ok q1 q0" "c \<le> 1" "mant q1 q0 = U * 10 ^ (18 - c) div V"
        "10 ^ 17 * V \<le> U * 10 ^ (18 - c)" "U * 10 ^ (18 - c) < 10 ^ 18 * V"
        using eb_div_norm [OF v(2) u(2)] unfolding U_def V_def by metis
      define h where "h = nat (e - f) + c"
      have I: "I = U * 10 ^ (h - c) div V"
      proof -
        have "nat e = (h - c) + nat f" using False v(3) by (simp add: h_def)
        then have "\<bar>mnum_val u\<bar> = U * 10 ^ (h - c) * 10 ^ nat f" unfolding u(6) U_def by (simp only: power_add mult.assoc)
        then show ?thesis unfolding I_def v(6) V_def [symmetric] by simp
      qed
      have Q: "10 ^ 17 \<le> mant q1 q0" "mant q1 q0 < 10 ^ 18"
        using zdiv_mono1 [OF q(5), of V] mant_range(1) [OF q(2)] UV unfolding q(4) by simp_all
      have V0: "0 < V" "0 \<le> U" using UV by simp_all
      have st: "res_bind (promoted u) (\<lambda>u. res_bind (promoted v) (\<lambda>v. idiv_flt u v))
          = res_bind (idiv_trunc (int h + 62) q1 q0) (\<lambda>(q1, q0). idiv_store (s \<noteq> t) (int h + 62) q1 q0)"
        using u(1,4) v(1,4) q(1) False by (simp add: idiv_flt_def EB_DIV_def h_def Let_def add_ac)
      show ?thesis
      proof (cases "h = 0")
        case True
        then have "c = 0" "U < V" using q(6) by (simp_all add: h_def)
        then have "I = 0" using I V0 True by simp
        moreover have "idiv_trunc 62 q1 q0 = Inr (0, 0)" "idiv_store (s \<noteq> t) 62 0 0 = Inr (MV_int 0)"
          using rd_ten_pwr [of 6] by (simp_all add: idiv_trunc_def idiv_store_def demote_def)
        ultimately show ?thesis using st True res0 unfolding I_def by simp
      next
        case h: False
        obtain a b where tr: "idiv_trunc (int h + 62) q1 q0 = Inr (a, b)" "mant_norm a b"
          "mant a b = mant q1 q0 div 10 ^ nat (80 - (int h + 62)) * 10 ^ nat (80 - (int h + 62))"
          using idiv_trunc_spec [OF norm_mant [OF q(2) Q(1)], of "int h + 62"] h by auto
        have "nat (80 - (int h + 62)) = 18 - h" by simp
        note tr3 = tr(3) [unfolded this]
        have ch: "c \<le> h" by (simp add: h_def)
        have "idiv_result (s \<noteq> t) I (idiv_store (s \<noteq> t) (int h + 62) a b)"
          using idiv_resultI [OF tr(2) tr3 Q _ integral_quotient [OF V0 q(4,3) ch, folded I]] h by simp
        then show ?thesis using st tr(1) u(5) v(5) unfolding I_def by simp
      qed
    qed
  qed
qed

lemma idiv_int_spec:
  assumes "num_ok (MV_int a)" "num_ok (MV_int b)" "b \<noteq> 0" "eb_int_div a b = Some m"
  shows "idiv_result ((mnum_val (MV_int a) < 0) \<noteq> (mnum_val (MV_int b) < 0)) (\<bar>mnum_val (MV_int a)\<bar> div \<bar>mnum_val (MV_int b)\<bar>) (Inr (MV_int m))"
proof -
  define I where "I = \<bar>a\<bar> div \<bar>b\<bar>"
  have ab: "\<bar>a\<bar> < 10 ^ 9" using assms(1) by (auto simp: abs_less_iff)
  have t: "\<bar>a\<bar> * 1000 div \<bar>b\<bar> < 10 ^ 9" "m = signed ((a < 0) \<noteq> (b < 0)) (\<bar>a\<bar> * 1000 div \<bar>b\<bar> div 1000 * 1000)"
    using eb_int_div_spec [OF ab assms(3)] assms(4) by (auto split: if_splits)
  have I: "\<bar>a\<bar> * 1000 div \<bar>b\<bar> div 1000 = I"
  proof -
    have "\<bar>a\<bar> * 1000 div \<bar>b\<bar> div 1000 = (\<bar>a\<bar> * 1000) div (\<bar>b\<bar> * 1000)" by (rule zdiv_zmult2_eq [symmetric]) simp
    then show ?thesis by (simp add: I_def)
  qed
  have I0: "0 \<le> I" "I * 1000 < 10 ^ 9"
    using int_div_mult_le [of 1000 "\<bar>a\<bar> * 1000 div \<bar>b\<bar>"] t(1) assms(3) unfolding I by (simp_all add: I_def pos_imp_zdiv_nonneg_iff)
  have "\<bar>mnum_val (MV_int a)\<bar> div \<bar>mnum_val (MV_int b)\<bar> = I" by (simp add: abs_mult I_def)
  moreover have "mnum_val (MV_int x) < 0 \<longleftrightarrow> x < 0" for x by simp
  moreover have "idiv_result ((a < 0) \<noteq> (b < 0)) I (Inr (MV_int m))"
    using t(2) I0 unfolding I idiv_result_def by (auto intro!: exI [of _ "0 :: nat"])
  ultimately show ?thesis by (simp only:)
qed

text \<open>
  C30: Integer division of numbers. \<open>op_idiv\<close> fails with \<open>DIVZERO\<close> for a zero divisor and otherwise returns the integral quotient, rounded towards
  zero; it is exact up to 18 digits, has its 18 leading digits correct beyond, and \<open>NUMOFLOW\<close> is raised exactly from \<open>10 ^ 47\<close> on.
\<close>

theorem op_idiv_correct:
  assumes "num_ok u" "num_ok v"
  shows "if mnum_val v = 0 then op_idiv_num u v = Inl ERR_DIVZERO
    else idiv_result ((mnum_val u < 0) \<noteq> (mnum_val v < 0)) (\<bar>mnum_val u\<bar> div \<bar>mnum_val v\<bar>) (op_idiv_num u v)"
proof (cases "v = MV_int 0")
  case True
  then show ?thesis by (simp add: op_idiv_num_def)
next
  case False
  then have v: "mnum_val v \<noteq> 0" using assms(2) num_ok_zero by blast
  show ?thesis
  proof (cases "case (u, v) of (MV_int a, MV_int b) \<Rightarrow> eb_int_div a b | _ \<Rightarrow> None")
    case None
    then show ?thesis using idiv_flt_spec [OF assms v] v False by (simp add: op_idiv_num_def)
  next
    case (Some m)
    then obtain a b where uv: "u = MV_int a" "v = MV_int b" by (cases u; cases v) auto
    then have m: "eb_int_div a b = Some m" using Some by simp
    then have "op_idiv_num u v = Inr (MV_int m)" using False by (simp add: op_idiv_num_def uv)
    moreover have "b \<noteq> 0" using False uv by simp
    ultimately show ?thesis using idiv_int_spec [OF assms [unfolded uv] _ m] v unfolding uv by simp
  qed
qed

theorem op_idiv_correct_witness:
  "idiv_result True ((123456789 * MANT_HI + 5) * 10 ^ 65 div (3 * 10 ^ 80)) (op_idiv_num (MV_nm False 65 123456789 5) (MV_int (- 3000)))
   \<and> op_idiv_num (MV_nm False 65 123456789 5) (MV_int (- 3000)) = Inr (MV_int (- 41000))"
proof (rule conjI)
  have val: "mnum_val (MV_nm False 65 123456789 5) = (123456789 * MANT_HI + 5) * 10 ^ 65" "mnum_val (MV_int (- 3000)) = - (3 * 10 ^ 80)" by simp_all
  have "num_ok (MV_nm False 65 123456789 5)" "num_ok (MV_int (- 3000))" by (simp_all add: mant_norm_def)
  from op_idiv_correct [OF this]
  show "idiv_result True ((123456789 * MANT_HI + 5) * 10 ^ 65 div (3 * 10 ^ 80)) (op_idiv_num (MV_nm False 65 123456789 5) (MV_int (- 3000)))"
    unfolding val by simp
  show "op_idiv_num (MV_nm False 65 123456789 5) (MV_int (- 3000)) = Inr (MV_int (- 41000))" by code_simp
qed

end
