(* ===== verification/Num_Str.thy ===== *)
theory Num_Str
  imports Arith
begin

text \<open>
  Conversion between numbers and strings: \<open>n2s\<close> (\<open>sr_port/n2s.c\<close>), \<open>s2n\<close> (\<open>sr_port/s2n.c\<close>) and the test for canonical numeric strings
  \<open>val_iscan\<close> (\<open>sr_port/val_iscan.c\<close>). A pointer into a string is the rest of the string from there on; the limit \<open>d\<close> of a loop is the number
  of characters left up to it, so that \<open>c < w\<close> says that there is a next character and the number is positive.
\<close>

section \<open>Characters\<close>

definition dig :: "int \<Rightarrow> byte" where
  "dig d = word_of_int (d + 48)"

definition DIGIT :: "byte \<Rightarrow> bool" where
  "DIGIT b \<longleftrightarrow> 48 \<le> uint b \<and> uint b \<le> 57"

definition digit_val :: "byte \<Rightarrow> int" where
  "digit_val b = uint b - 48"

abbreviation (input) ch_dot :: byte where "ch_dot \<equiv> 46"
abbreviation (input) ch_minus :: byte where "ch_minus \<equiv> 45"
abbreviation (input) ch_plus :: byte where "ch_plus \<equiv> 43"
abbreviation (input) ch_zero :: byte where "ch_zero \<equiv> 48"
abbreviation (input) ch_E :: byte where "ch_E \<equiv> 69"

section \<open>Numbers to strings\<close>

text \<open>The room \<open>n2s\<close> reserves in the string pool.\<close>

definition MAX_NUM_SIZE :: nat where
  "MAX_NUM_SIZE = 64"

text \<open>The loops of \<open>n2s\<close> for an \<open>MV_INT\<close>, which write from the end of a buffer: the last digit of the fraction that is not zero, the digits
  before it, the digits of the integral part.\<close>

function frac_skip :: "nat \<Rightarrow> int \<Rightarrow> int \<Rightarrow> nat \<times> int \<times> int" where
  "frac_skip n0 m1 tmp =
     (if n0 < 3 then
        let tmp = m1 - m1 div 10 * 10
        in if tmp \<noteq> 0 then (n0, m1 div 10, tmp) else frac_skip (Suc n0) (m1 div 10) tmp
      else (n0, m1, tmp))"
  by pat_completeness auto
termination
  by (relation "measure (\<lambda>(n0, m1, tmp). 3 - n0)") auto

function frac_rest :: "nat \<Rightarrow> int \<Rightarrow> mstr \<Rightarrow> mstr" where
  "frac_rest n0 m1 cp = (if n0 < 3 then frac_rest (Suc n0) (m1 div 10) (dig (m1 - m1 div 10 * 10) # cp) else cp)"
  by pat_completeness auto
termination
  by (relation "measure (\<lambda>(n0, m1, cp). 3 - n0)") auto

function int_digits :: "int \<Rightarrow> mstr \<Rightarrow> mstr" where
  "int_digits m0 cp = (if m0 > 0 then int_digits (m0 div 10) (dig (m0 - m0 div 10 * 10) # cp) else cp)"
  by pat_completeness auto
termination
  by (relation "measure (\<lambda>(m0, cp). nat m0)") auto

declare frac_skip.simps [simp del] frac_rest.simps [simp del] int_digits.simps [simp del]

definition n2s_int :: "int \<Rightarrow> mstr" where
  "n2s_int m =
     (let neg = m < 0;
          m = (if neg then - m else m);
          m0 = m div 1000;
          m1 = m - m0 * 1000;
          cp = (if m1 > 0 then (case frac_skip 0 m1 0 of (n0, m1, tmp) \<Rightarrow> ch_dot # frac_rest (Suc n0) m1 [dig tmp]) else [])
      in (if neg then [ch_minus] else []) @ int_digits m0 cp)"

text \<open>The inner loop over nine digits of a mantissa word; \<open>m0\<close> is the word that follows. It returns the exponent left and what it wrote.\<close>

function n2s_inner :: "nat \<Rightarrow> int \<Rightarrow> int \<Rightarrow> int \<Rightarrow> int \<times> mstr" where
  "n2s_inner n0 ex m1 m0 =
     (if n0 < 9 then
        if (ex = 0 \<or> ex - 1 < 0) \<and> m0 = 0 \<and> m1 = 0 then (ex - 1, [])
        else
          let tmp = m1 div MANT_LO
          in (case n2s_inner (Suc n0) (ex - 1) ((m1 - tmp * MANT_LO) * 10) m0 of
                (ex', cp) \<Rightarrow> (ex', (if ex = 0 then [ch_dot] else []) @ dig tmp # cp))
      else (ex, []))"
  by pat_completeness auto
termination
  by (relation "measure (\<lambda>(n0, ex, m1, m0). 9 - n0)") auto

declare n2s_inner.simps [simp del]

text \<open>\<open>for (; m1; m1 = m0, m0 = 0)\<close>\<close>

function n2s_outer :: "int \<Rightarrow> int \<Rightarrow> int \<Rightarrow> int \<times> mstr" where
  "n2s_outer ex m1 m0 =
     (if m1 \<noteq> 0 then (case n2s_inner 0 ex m1 m0 of (ex, cp) \<Rightarrow> (case n2s_outer ex m0 0 of (ex', cp') \<Rightarrow> (ex', cp @ cp'))) else (ex, []))"
  by pat_completeness auto
termination
  by (relation "measure (\<lambda>(ex, m1, m0). if m1 = 0 then 0 else if m0 = 0 then 1 else 2 :: nat)") (auto split: if_splits)

declare n2s_outer.simps [simp del]

definition n2s_flt :: "bool \<Rightarrow> int \<Rightarrow> int \<Rightarrow> int \<Rightarrow> mstr" where
  "n2s_flt sign e m1 m0 =
     (let ex = e - MV_XBIAS in
      (if sign then [ch_minus] else [])
      @ (if ex < 0 then ch_dot # replicate (nat (- ex)) ch_zero else [])
      @ (case n2s_outer ex m1 m0 of (ex, cp) \<Rightarrow> cp @ replicate (nat ex) ch_zero))"

definition n2s :: "mnum \<Rightarrow> mstr" where
  "n2s u =
     (case u of
        MV_int m1 \<Rightarrow> if m1 = 0 then [ch_zero] else n2s_int m1
      | MV_nm s e m1 m0 \<Rightarrow> if m1 = 0 then [ch_zero] else n2s_flt s e m1 m0)"

section \<open>Strings to numbers\<close>

fun skip_signs :: "mstr \<Rightarrow> int \<Rightarrow> mstr \<times> int" where
  "skip_signs [] sign = ([], sign)"
| "skip_signs (b # c) sign =
     (if b = ch_minus \<or> b = ch_plus then skip_signs c (sign + (if b = ch_minus then 1 else 2)) else (b # c, sign))"

fun skip_zeros :: "mstr \<Rightarrow> int \<Rightarrow> mstr \<times> int" where
  "skip_zeros [] n = ([], n)"
| "skip_zeros (b # c) n = (if b = ch_zero then skip_zeros c (n + 1) else (b # c, n))"

text \<open>The loops that read digits into \<open>m[1]\<close>, counting the zeros at the end in \<open>i\<close>, and into \<open>m[0]\<close>.\<close>

fun scan_m1 :: "nat \<Rightarrow> mstr \<Rightarrow> int \<Rightarrow> int \<Rightarrow> int \<Rightarrow> nat \<times> mstr \<times> int \<times> int \<times> int" where
  "scan_m1 n [] m1 i z = (n, [], m1, i, z)"
| "scan_m1 n (b # c) m1 i z =
     (if n > 0 \<and> DIGIT b then
        if b = ch_zero then scan_m1 (n - 1) c (m1 * 10) (i + 1) (z + 1)
        else scan_m1 (n - 1) c (m1 * 10 + digit_val b) 0 (z + 1)
      else (n, b # c, m1, i, z))"

fun scan_m0 :: "nat \<Rightarrow> mstr \<Rightarrow> int \<Rightarrow> int \<Rightarrow> nat \<times> mstr \<times> int \<times> int" where
  "scan_m0 n [] m0 z = (n, [], m0, z)"
| "scan_m0 n (b # c) m0 z =
     (if n > 0 \<and> DIGIT b then scan_m0 (n - 1) c (m0 * 10 + digit_val b) (z + 1) else (n, b # c, m0, z))"

text \<open>The decimal point between the two digit loops of a word.\<close>

definition take_dot :: "nat \<Rightarrow> mstr \<Rightarrow> bool \<Rightarrow> int \<Rightarrow> int \<Rightarrow> mstr \<times> bool \<times> int" where
  "take_dot n c dot y z = (if n > 0 \<and> c \<noteq> [] \<and> hd c = ch_dot \<and> \<not> dot then (tl c, True, z) else (c, dot, y))"

text \<open>The digits that do not fit.\<close>

fun skip_digits :: "bool \<Rightarrow> bool \<Rightarrow> mstr \<Rightarrow> int \<Rightarrow> mstr \<times> int" where
  "skip_digits dot dotseen [] z = ([], z)"
| "skip_digits dot dotseen (b # c) z =
     (let isdot = b = ch_dot in
      if isdot \<and> \<not> dot \<or> DIGIT b
      then let dotseen = (dotseen \<or> isdot) in skip_digits dot dotseen c (if \<not> dotseen then z + 1 else z)
      else (b # c, z))"

fun exp_digits :: "mstr \<Rightarrow> nat \<Rightarrow> int \<Rightarrow> mstr \<times> nat \<times> int" where
  "exp_digits [] n x = ([], n, x)"
| "exp_digits (b # c) n x =
     (if DIGIT b then (if n < 3 then exp_digits c (Suc n) (x * 10 + digit_val b) else exp_digits c n x) else (b # c, n, x))"

text \<open>The exponent after \<open>E\<close>; \<open>c\<close> starts with \<open>E\<close> if \<open>xp\<close>.\<close>

definition s2n_exp :: "bool \<Rightarrow> mstr \<Rightarrow> int" where
  "s2n_exp xp c =
     (if xp \<and> length c > 1 then
        let c = tl c;
            exneg = hd c = ch_minus;
            d = (if exneg \<or> hd c = ch_plus then tl c else c);
            (c, _) = skip_zeros d 0;
            (c, expdigits, x) = exp_digits c 0 0
        in if expdigits = 0 \<and> d = c then 0 else if exneg then - x else x
      else 0)"

text \<open>The number from its parts: digits, exponent \<open>x\<close>, unused digits \<open>k\<close> of \<open>m[1]\<close>, zeros \<open>i\<close> at its end, sign; \<open>apx\<close> is the
  approximation mark if the number does not underflow.\<close>

definition s2n_store :: "int \<Rightarrow> int \<Rightarrow> int \<Rightarrow> int \<Rightarrow> int \<Rightarrow> int \<Rightarrow> bool \<Rightarrow> (mnum \<times> bool) res" where
  "s2n_store m1 m0 x k i sign apx =
     (let j = x + k - 6; i = i + j; neg = odd sign in
      if m0 = 0 \<and> 6 \<ge> x \<and> 0 \<le> i then
        if 0 > j then res_bind (rd ten_pwr (- j)) (\<lambda>p. Inr (MV_int (m1 sdiv (if neg then - p else p)), apx))
        else res_bind (rd ten_pwr j) (\<lambda>p. Inr (MV_int (m1 * (if neg then - p else p)), apx))
      else
        res_bind (rd ten_pwr k) (\<lambda>p.
          let m1 = m1 * p; x = x + MV_XBIAS in
          if EXPLO > x \<or> m1 = 0 then Inr (MV_int 0, True)
          else if EXPHI \<le> x then Inl ERR_NUMOFLOW
          else Inr (MV_nm neg x m1 m0, apx)))"

text \<open>The first word of the mantissa, with the point if it comes before its ninth digit.\<close>

definition s2n_first :: "mstr \<Rightarrow> bool \<Rightarrow> int \<Rightarrow> nat \<times> mstr \<times> int \<times> int \<times> bool \<times> int \<times> int" where
  "s2n_first c dot y =
     (let (n, c, m1, i, z) = scan_m1 9 c 0 0 0;
          (c, dot, y) = take_dot n c dot y z;
          (n, c, m1, i, _) = scan_m1 n c m1 i z
      in (n, c, m1, i, dot, y, z))"

text \<open>The second word of the mantissa with the zeros after it.\<close>

definition s2n_second :: "mstr \<Rightarrow> bool \<Rightarrow> int \<Rightarrow> int \<Rightarrow> (mstr \<times> bool \<times> int \<times> int \<times> int) res" where
  "s2n_second c dot y z =
     (if c \<noteq> [] then
        let (n, c, m0, z) = scan_m0 9 c 0 z;
            (c, dot, y) = take_dot n c dot y z;
            (n, c, m0, _) = scan_m0 n c m0 z
        in res_bind (rd ten_pwr (int n)) (\<lambda>p.
             let (c, z) = skip_zeros c z in Inr (c, dot, y, z, m0 * p))
      else Inr (c, dot, y, z, 0))"

text \<open>The number and whether it only approximates the string (\<open>MV_NUM_APPROX\<close>).\<close>

definition s2n :: "mstr \<Rightarrow> (mnum \<times> bool) res" where
  "s2n str =
     (if str = [] then Inr (MV_int 0, True)
      else
        let (c, sign) = skip_signs str 0;
            (c, zero) = skip_zeros c 0;
            dot = (c \<noteq> [] \<and> hd c = ch_dot);
            c = (if dot then tl c else c);
            (c, y') = skip_zeros c 0;
            (n, c, m1, i, dot, y, z) = s2n_first c dot (- y');
            k = int n
        in res_bind (s2n_second c dot y z) (\<lambda>(c, dot, y, z, m0).
          let tail = (c \<noteq> [] \<or> dot \<and> (last str = ch_zero \<or> last str = ch_dot));
              (c, z) = skip_digits dot dot c z;
              digit = (z \<noteq> 0 \<or> y \<noteq> 0 \<or> zero \<noteq> 0);
              xp = (c \<noteq> [] \<and> hd c = ch_E \<and> digit);
              x = s2n_exp xp c
          in if digit
             then s2n_store m1 m0 (x + (if dot then y else z)) k i sign (tail \<or> 1 < sign \<or> (zero \<noteq> 0 \<and> length str \<noteq> 1))
             else Inr (MV_int 0, True)))"

section \<open>Canonical strings\<close>

fun can_digits :: "mstr \<Rightarrow> int \<Rightarrow> int \<Rightarrow> mstr \<times> int \<times> int" where
  "can_digits [] zeroes sigdigs = ([], zeroes, sigdigs)"
| "can_digits (b # c) zeroes sigdigs =
     (if DIGIT b then can_digits c (if b = ch_zero then zeroes + 1 else 0) (sigdigs + 1) else (b # c, zeroes, sigdigs))"

text \<open>The test at the end, with \<open>c\<close> the rest of the string that was not read.\<close>

definition can_end :: "mstr \<Rightarrow> mstr \<Rightarrow> bool \<Rightarrow> int \<Rightarrow> int \<Rightarrow> bool" where
  "can_end str c dot sigdigs ex =
     (let ex = ex + MV_XBIAS in
      \<not> (c \<noteq> [] \<or> (dot \<and> (last str = ch_zero \<or> last str = ch_dot)) \<or> 18 < sigdigs \<or> EXPLO > ex \<or> EXPHI \<le> ex))"

definition val_iscan :: "mstr \<Rightarrow> bool" where
  "val_iscan str =
     (if str = [] then False
      else if length str = 1 \<and> hd str = ch_zero then True
      else
        let c = (if hd str = ch_minus then tl str else str) in
        if c = [] then False
        else if DIGIT (hd c) \<and> hd c \<noteq> ch_zero then
          let (c, zeroes, sigdigs) = can_digits c 0 0;
              ex = sigdigs
          in if c \<noteq> [] \<and> hd c = ch_dot
             then (let (c, zeroes, sigdigs) = can_digits (tl c) zeroes sigdigs in can_end str c True (sigdigs - zeroes) ex)
             else can_end str c False (sigdigs - zeroes) ex
        else if hd c = ch_dot then
          let (c, n) = skip_zeros (tl c) 0;
              (c, _, sigdigs) = can_digits c 0 0
          in can_end str c True sigdigs (- n)
        else False)"

end
