(* ===== verification/Num_Str_Canon.thy ===== *)
theory Num_Str_Canon
  imports Num_Str
begin

text \<open>
  Lists of decimal digits and their values, the canonical texts of numbers, and the two conversions on them: \<open>s2n\<close> reads a canonical text exactly
  (\<open>s2n_canon\<close>), \<open>n2s\<close> writes the canonical text of an integer (\<open>n2s_int_canon\<close>) and of a decimal number (\<open>n2s_flt_canon\<close>).
\<close>

section \<open>Decimal texts\<close>

definition is_digit :: "int \<Rightarrow> bool" where
  "is_digit d \<longleftrightarrow> 0 \<le> d \<and> d < 10"

lemma uint_dig: "is_digit d \<Longrightarrow> uint (dig d) = d + 48"
  unfolding dig_def is_digit_def uint_word_of_int by simp

lemma DIGIT_dig [simp]: "is_digit d \<Longrightarrow> DIGIT (dig d)"
  by (simp add: DIGIT_def uint_dig is_digit_def)

lemma digit_val_dig [simp]: "is_digit d \<Longrightarrow> digit_val (dig d) = d"
  by (simp add: digit_val_def uint_dig)

lemma dig_zero [simp]: "is_digit d \<Longrightarrow> dig d = ch_zero \<longleftrightarrow> d = 0"
  using uint_dig [of d] by (auto simp: word_uint_eq_iff)

lemma dig_other [simp]:
  "is_digit d \<Longrightarrow> dig d \<noteq> ch_dot" "is_digit d \<Longrightarrow> dig d \<noteq> ch_minus" "is_digit d \<Longrightarrow> dig d \<noteq> ch_plus"
  using uint_dig [of d] by (auto simp: word_uint_eq_iff is_digit_def)

lemma not_DIGIT_dot [simp]: "\<not> DIGIT ch_dot"
  by (simp add: DIGIT_def)

abbreviation digits :: "int list \<Rightarrow> bool" where
  "digits ds \<equiv> (\<forall>d \<in> set ds. is_digit d)"

lemma digits_drop: "digits ds \<Longrightarrow> digits (drop n ds)"
  by (auto dest: in_set_dropD)

definition digval :: "int list \<Rightarrow> int" where
  "digval ds = foldl (\<lambda>a d. a * 10 + d) 0 ds"

lemma foldl_digval: "foldl (\<lambda>a d. a * 10 + d) a ds = a * 10 ^ length ds + digval ds"
proof (induction ds arbitrary: a)
  case (Cons d ds)
  show ?case using Cons.IH [of "a * 10 + d"] Cons.IH [of d] by (simp add: digval_def algebra_simps)
qed (simp add: digval_def)

lemma digval_simps [simp]:
  "digval [] = 0"
  "digval (d # ds) = d * 10 ^ length ds + digval ds"
  using foldl_digval [of d ds] by (simp_all add: digval_def)

lemma digval_append: "digval (xs @ ys) = digval xs * 10 ^ length ys + digval ys"
  by (induction xs) (simp_all add: algebra_simps power_add)

lemma digval_range: "digits ds \<Longrightarrow> 0 \<le> digval ds \<and> digval ds < 10 ^ length ds"
proof (induction ds)
  case (Cons d ds)
  then have "d * 10 ^ length ds \<le> 9 * 10 ^ length ds" by (intro mult_right_mono) (auto simp: is_digit_def)
  moreover have "0 \<le> d * 10 ^ length ds" using Cons.prems by (simp add: is_digit_def)
  moreover have "0 \<le> digval ds" "digval ds < 10 ^ length ds" using Cons by simp_all
  ultimately have "0 \<le> d * 10 ^ length ds + digval ds" "d * 10 ^ length ds + digval ds < 10 * 10 ^ length ds" by linarith+
  then show ?case by simp
qed simp

lemma digval_zeros [simp]: "digval (replicate n 0) = 0"
  by (induction n) simp_all

text \<open>The text of a number: sign, integral digits, and the digits of the fraction after a point if there are any.\<close>

definition frac_text :: "int list \<Rightarrow> mstr" where
  "frac_text fs = (if fs = [] then [] else ch_dot # map dig fs)"

definition dec_text :: "bool \<Rightarrow> int list \<Rightarrow> int list \<Rightarrow> mstr" where
  "dec_text s is fs = (if s then [ch_minus] else []) @ map dig is @ frac_text fs"

lemma frac_text_stop: "c = frac_text fs \<Longrightarrow> c = [] \<or> hd c = ch_dot"
  by (simp add: frac_text_def)

section \<open>Reading digits\<close>

text \<open>The number of zeros at the end of a list of digits, continuing with \<open>i\<close> if there is nothing else.\<close>

fun trail0 :: "int \<Rightarrow> int list \<Rightarrow> int" where
  "trail0 i [] = i"
| "trail0 i (d # ds) = trail0 (if d = 0 then i + 1 else 0) ds"

definition stop_at :: "mstr \<Rightarrow> bool" where
  "stop_at c \<longleftrightarrow> c = [] \<or> \<not> DIGIT (hd c)"

lemma scan_m1_digits:
  assumes "digits ds" and "stop_at c"
  shows "scan_m1 n (map dig ds @ c) m1 i z =
    (n - length ds, map dig (drop n ds) @ c, m1 * 10 ^ length (take n ds) + digval (take n ds), trail0 i (take n ds), z + int (length (take n ds)))"
  using assms(1)
proof (induction ds arbitrary: n m1 i z)
  case Nil
  then show ?case using assms(2) by (cases c) (auto simp: stop_at_def)
next
  case (Cons d ds)
  show ?case
  proof (cases n)
    case 0
    then show ?thesis by simp
  next
    case (Suc m)
    have "scan_m1 n (map dig (d # ds) @ c) m1 i z = scan_m1 m (map dig ds @ c) (m1 * 10 + d) (if d = 0 then i + 1 else 0) (z + 1)"
      using Cons.prems Suc by simp
    then show ?thesis using Cons.IH [of m] Cons.prems Suc by (simp add: algebra_simps)
  qed
qed

lemma scan_m0_digits:
  assumes "digits ds" and "stop_at c"
  shows "scan_m0 n (map dig ds @ c) m0 z =
    (n - length ds, map dig (drop n ds) @ c, m0 * 10 ^ length (take n ds) + digval (take n ds), z + int (length (take n ds)))"
  using assms(1)
proof (induction ds arbitrary: n m0 z)
  case Nil
  then show ?case using assms(2) by (cases c) (auto simp: stop_at_def)
next
  case (Cons d ds)
  show ?case
  proof (cases n)
    case 0
    then show ?thesis by simp
  next
    case (Suc m)
    have "scan_m0 n (map dig (d # ds) @ c) m0 z = scan_m0 m (map dig ds @ c) (m0 * 10 + d) (z + 1)" using Cons.prems Suc by simp
    then show ?thesis using Cons.IH [of m] Cons.prems Suc by (simp add: algebra_simps)
  qed
qed

lemma skip_zeros_replicate: "c = [] \<or> hd c \<noteq> ch_zero \<Longrightarrow> skip_zeros (replicate n ch_zero @ c) k = (c, k + int n)"
proof (induction n arbitrary: k)
  case 0
  then show ?case by (cases c) auto
qed simp

lemma stop_at_simps [simp]: "stop_at []" "stop_at (frac_text fs)"
  by (simp_all add: stop_at_def frac_text_def)

lemma trail0_append: "trail0 i (xs @ ys) = trail0 (trail0 i xs) ys"
  by (induction xs arbitrary: i) simp_all

lemma s2n_first_dot:
  assumes "digits is" "digits fs" "length is < 9" "fs \<noteq> []"
  shows "s2n_first (map dig is @ frac_text fs) False y =
    (9 - length (is @ fs), map dig (drop 9 (is @ fs)), digval (take 9 (is @ fs)), trail0 0 (take 9 (is @ fs)), True, int (length is), int (length is))"
proof -
  have 1: "scan_m1 9 (map dig is @ frac_text fs) 0 0 0 = (9 - length is, frac_text fs, digval is, trail0 0 is, int (length is))"
    using assms by (subst scan_m1_digits) simp_all
  have 2: "take_dot (9 - length is) (frac_text fs) False y (int (length is)) = (map dig fs, True, int (length is))"
    using assms by (simp add: take_dot_def frac_text_def)
  have 3: "scan_m1 (9 - length is) (map dig fs) (digval is) (trail0 0 is) (int (length is)) =
      (9 - length (is @ fs), map dig (drop 9 (is @ fs)), digval (take 9 (is @ fs)), trail0 0 (take 9 (is @ fs)), int (length is) + int (length (take (9 - length is) fs)))"
    using scan_m1_digits [of fs "[]" "9 - length is" "digval is"] assms by (simp add: digval_append trail0_append)
  show ?thesis unfolding s2n_first_def 1 2 3 Let_def prod.case by simp
qed

lemma s2n_first_nodot:
  assumes "digits is" "9 \<le> length is \<or> fs = []"
  shows "s2n_first (map dig is @ frac_text fs) False y =
    (9 - length is, map dig (drop 9 is) @ frac_text fs, digval (take 9 is), trail0 0 (take 9 is), False, y, int (min 9 (length is)))"
proof -
  have 1: "scan_m1 9 (map dig is @ frac_text fs) 0 0 0 = (9 - length is, map dig (drop 9 is) @ frac_text fs, digval (take 9 is), trail0 0 (take 9 is), int (min 9 (length is)))"
    using assms by (subst scan_m1_digits) (simp_all add: min.commute)
  have 2: "take_dot (9 - length is) (map dig (drop 9 is) @ frac_text fs) False y z = (map dig (drop 9 is) @ frac_text fs, False, y)" for z
    using assms by (auto simp: take_dot_def frac_text_def)
  have 3: "scan_m1 (9 - length is) (map dig (drop 9 is) @ frac_text fs) m1 i z = (9 - length is, map dig (drop 9 is) @ frac_text fs, m1, i, z)" for m1 i z
    using assms scan_m1_digits [OF digits_drop [OF assms(1)], of "frac_text fs" "9 - length is" 9 m1 i z]
    by (cases "9 \<le> length is") (simp, auto simp: frac_text_def)
  show ?thesis unfolding s2n_first_def 1 2 3 Let_def prod.case by simp
qed

lemma s2n_first_frac:
  assumes "digits ds"
  shows "s2n_first (map dig ds) True y = (9 - length ds, map dig (drop 9 ds), digval (take 9 ds), trail0 0 (take 9 ds), True, y, int (min 9 (length ds)))"
proof -
  have 1: "scan_m1 9 (map dig ds) 0 0 0 = (9 - length ds, map dig (drop 9 ds), digval (take 9 ds), trail0 0 (take 9 ds), int (min 9 (length ds)))"
    using scan_m1_digits [of ds "[]" 9 0 0 0] assms by (simp add: min.commute)
  have 3: "scan_m1 (9 - length ds) (map dig (drop 9 ds)) m1 i z = (9 - length ds, map dig (drop 9 ds), m1, i, z)" for m1 i z
    using scan_m1_digits [OF digits_drop [OF assms], of "[]" "9 - length ds" 9 m1 i z] by (cases "9 \<le> length ds") simp_all
  show ?thesis unfolding s2n_first_def 1 take_dot_def 3 Let_def prod.case by (simp add: 3)
qed

section \<open>The second word\<close>

definition word0 :: "int list \<Rightarrow> int" where
  "word0 ds = digval (take 9 ds) * 10 ^ (9 - length ds)"

lemma second_dot:
  assumes "digits ds" "length ds \<le> 9"
  shows "\<exists>z' \<ge> z. s2n_second (map dig ds) True y z = Inr ([], True, y, z', word0 ds)"
proof (cases "ds = []")
  case True
  then show ?thesis by (simp add: s2n_second_def word0_def)
next
  case False
  have 1: "scan_m0 9 (map dig ds) 0 z = (9 - length ds, [], digval ds, z + int (length ds))"
    using scan_m0_digits [of ds "[]" 9 0 z] assms by simp
  show ?thesis using False assms by (simp add: s2n_second_def 1 take_dot_def word0_def ten_pwr_nth del: of_nat_diff)
qed

lemma second_point:
  assumes "digits is" "digits fs" "length (is @ fs) \<le> 9" "fs \<noteq> []"
  shows "\<exists>z'. s2n_second (map dig is @ frac_text fs) False y z = Inr ([], True, z + int (length is), z', word0 (is @ fs))"
proof -
  have l: "length is < 9" using assms(3,4) by (cases fs) simp_all
  have 1: "scan_m0 9 (map dig is @ frac_text fs) 0 z = (9 - length is, frac_text fs, digval is, z + int (length is))"
    using scan_m0_digits [of "is" "frac_text fs" 9 0 z] assms by simp
  have 2: "take_dot (9 - length is) (frac_text fs) False y (z + int (length is)) = (map dig fs, True, z + int (length is))"
    using l assms(4) by (simp add: take_dot_def frac_text_def)
  have 3: "scan_m0 (9 - length is) (map dig fs) (digval is) z' = (9 - length (is @ fs), [], digval (is @ fs), z' + int (length fs))" for z'
    using scan_m0_digits [of fs "[]" "9 - length is" "digval is" z'] assms by (simp add: digval_append)
  have "map dig is @ frac_text fs \<noteq> []" using assms(4) by (simp add: frac_text_def)
  then show ?thesis using assms by (simp add: s2n_second_def 1 2 3 word0_def ten_pwr_nth del: of_nat_diff)
qed

lemma map_dig_zeros: "\<forall>d \<in> set ds. d = 0 \<Longrightarrow> map dig ds = replicate (length ds) ch_zero"
  by (induction ds) (auto simp: dig_def)

lemma second_int:
  assumes "digits is" "\<forall>d \<in> set (drop 9 is). d = 0"
  shows "s2n_second (map dig is) False y z = Inr ([], False, y, z + int (length is), word0 is)"
proof (cases "is = []")
  case True
  then show ?thesis by (simp add: s2n_second_def word0_def)
next
  case False
  have 1: "scan_m0 9 (map dig is) 0 z = (9 - length is, map dig (drop 9 is), digval (take 9 is), z + int (min 9 (length is)))"
    using scan_m0_digits [of "is" "[]" 9 0 z] assms by (simp add: min.commute)
  have 2: "take_dot (9 - length is) (map dig (drop 9 is)) False y z' = (map dig (drop 9 is), False, y)" for z'
    by (auto simp: take_dot_def)
  have 3: "scan_m0 (9 - length is) (map dig (drop 9 is)) m0 z' = (9 - length is, map dig (drop 9 is), m0, z')" for m0 z'
    using scan_m0_digits [OF digits_drop [OF assms(1)], of "[]" "9 - length is" 9 m0 z'] by (cases "9 \<le> length is") simp_all
  have 4: "skip_zeros (map dig (drop 9 is)) z' = ([], z' + int (length is - 9))" for z'
    using skip_zeros_replicate [of "[]" "length is - 9" z'] map_dig_zeros [OF assms(2)] by simp
  show ?thesis using False by (simp add: s2n_second_def 1 2 3 4 word0_def min_def ten_pwr_nth)
qed

section \<open>Reading a canonical text\<close>

definition last_ok :: "int list \<Rightarrow> bool" where
  "last_ok fs \<longleftrightarrow> fs = [] \<or> last fs \<noteq> 0"

lemma short_digits:
  assumes "\<forall>d \<in> set (drop 18 D). d = 0" "D \<noteq> []" "last D \<noteq> (0 :: int)"
  shows "length D \<le> 18"
proof (rule ccontr)
  assume "\<not> length D \<le> 18"
  then have "last (drop 18 D) \<in> set (drop 18 D)" by (intro last_in_set) simp
  moreover have "last (drop 18 D) = last D" using \<open>\<not> length D \<le> 18\<close> by (simp add: last_drop)
  ultimately show False using assms by auto
qed

lemma s2n_words:
  assumes "digits is" "digits fs" "is \<noteq> []" "last_ok fs" "\<forall>d \<in> set (drop 18 (is @ fs)). d = 0"
  obtains c dot' y' z' y z where
    "s2n_first (map dig is @ frac_text fs) False 0 = (9 - length (is @ fs), c, digval (take 9 (is @ fs)), trail0 0 (take 9 (is @ fs)), dot', y', z')"
    "s2n_second c dot' y' z' = Inr ([], fs \<noteq> [], y, z, word0 (drop 9 (is @ fs)))" "(if fs \<noteq> [] then y else z) = int (length is)"
proof (cases "fs = []")
  case True
  have "\<forall>d \<in> set (drop 9 (drop 9 is)). d = 0" using assms(5) True by simp
  from second_int [OF digits_drop [OF assms(1)] this] s2n_first_nodot [OF assms(1), of fs 0]
  show ?thesis using True by (intro that) (auto simp: frac_text_def)
next
  case False
  have "length (is @ fs) \<le> 18" using False assms(4,5) by (intro short_digits) (simp_all add: last_ok_def)
  then have l: "length (drop 9 (is @ fs)) \<le> 9" by simp
  have d: "digits (drop 9 (is @ fs))" by (rule digits_drop) (use assms(1,2) in auto)
  show ?thesis
  proof (cases "length is < 9")
    case True
    obtain z where "s2n_second (map dig (drop 9 (is @ fs))) True (int (length is)) (int (length is)) = Inr ([], True, int (length is), z, word0 (drop 9 (is @ fs)))"
      using second_dot [OF d l] by blast
    then show ?thesis using s2n_first_dot [OF assms(1,2) True False, of 0] False by (intro that) auto
  next
    case no: False
    then have e: "drop 9 (is @ fs) = drop 9 is @ fs" "take 9 (is @ fs) = take 9 is" by simp_all
    obtain z where "s2n_second (map dig (drop 9 is) @ frac_text fs) False 0 9 = Inr ([], True, 9 + int (length (drop 9 is)), z, word0 (drop 9 is @ fs))"
      using second_point [OF digits_drop [OF assms(1)] assms(2) l [unfolded e(1)] False] by blast
    then show ?thesis using s2n_first_nodot [OF assms(1), of fs 0] no False unfolding e by (intro that) auto
  qed
qed

lemma skip_signs_text:
  assumes "c = [] \<or> hd c \<noteq> ch_minus \<and> hd c \<noteq> ch_plus"
  shows "skip_signs ((if s then [ch_minus] else []) @ c) 0 = (c, if s then 1 else 0)"
  using assms by (cases c) auto

lemma s2n_eval:
  assumes "str \<noteq> []" "skip_signs str 0 = (c, sign)" "skip_zeros c 0 = (c1, zero)"
    "skip_zeros (if c1 \<noteq> [] \<and> hd c1 = ch_dot then tl c1 else c1) 0 = (c2, y0)"
    "s2n_first c2 (c1 \<noteq> [] \<and> hd c1 = ch_dot) (- y0) = (n, c3, m1, i, dot', y', z')"
    "s2n_second c3 dot' y' z' = Inr ([], dot, y, z, m0)" "z \<noteq> 0 \<or> y \<noteq> 0 \<or> zero \<noteq> 0"
    "\<not> (dot \<and> (last str = ch_zero \<or> last str = ch_dot))"
  shows "s2n str = s2n_store m1 m0 (if dot then y else z) (int n) i sign (1 < sign \<or> zero \<noteq> 0 \<and> length str \<noteq> 1)"
proof -
  have "(0 :: int) = s2n_exp False []" by (simp add: s2n_exp_def)
  then show ?thesis unfolding s2n_def Let_def assms(2) prod.case assms(3) prod.case assms(4) prod.case assms(5) prod.case assms(6) res_bind_simps prod.case
    using assms(1,7,8) by simp
qed

lemma last_text:
  assumes "digits fs" "last_ok fs" "fs \<noteq> []"
  shows "last (dec_text s is fs) \<noteq> ch_zero" "last (dec_text s is fs) \<noteq> ch_dot"
proof -
  have "last (dec_text s is fs) = dig (last fs)" using assms(3) by (simp add: dec_text_def frac_text_def last_map)
  moreover have "is_digit (last fs)" "last fs \<noteq> 0" using assms by (simp_all add: last_ok_def)
  ultimately show "last (dec_text s is fs) \<noteq> ch_zero" "last (dec_text s is fs) \<noteq> ch_dot" by simp_all
qed

lemma s2n_integral:
  assumes "digits is" "digits fs" "is \<noteq> []" "hd is \<noteq> 0" "last_ok fs" "\<forall>d \<in> set (drop 18 (is @ fs)). d = 0"
  shows "s2n (dec_text s is fs) = s2n_store (digval (take 9 (is @ fs))) (word0 (drop 9 (is @ fs))) (int (length is)) (int (9 - length (is @ fs)))
    (trail0 0 (take 9 (is @ fs))) (if s then 1 else 0) False"
proof -
  obtain d ds where d: "is = d # ds" "is_digit d" "d \<noteq> 0" using assms(1,3,4) by (cases "is") auto
  obtain c dot' y' z' y z where w: "s2n_first (map dig is @ frac_text fs) False 0 = (9 - length (is @ fs), c, digval (take 9 (is @ fs)), trail0 0 (take 9 (is @ fs)), dot', y', z')"
    "s2n_second c dot' y' z' = Inr ([], fs \<noteq> [], y, z, word0 (drop 9 (is @ fs)))" "(if fs \<noteq> [] then y else z) = int (length is)"
    by (rule s2n_words [OF assms(1,2,3,5,6)])
  let ?c = "map dig is @ frac_text fs"
  have c: "?c \<noteq> []" "hd ?c = dig d" using d by simp_all
  have 1: "skip_signs (dec_text s is fs) 0 = (?c, if s then 1 else 0)"
    unfolding dec_text_def by (rule skip_signs_text) (use d in simp)
  have 2: "skip_zeros ?c 0 = (?c, 0)" using d by simp
  have 3: "\<not> (?c \<noteq> [] \<and> hd ?c = ch_dot)" using d by simp
  have "s2n (dec_text s is fs) = s2n_store (digval (take 9 (is @ fs))) (word0 (drop 9 (is @ fs))) (if fs \<noteq> [] then y else z) (int (9 - length (is @ fs)))
    (trail0 0 (take 9 (is @ fs))) (if s then 1 else 0) (1 < (if s then 1 else 0 :: int) \<or> 0 \<noteq> (0 :: int) \<and> length (dec_text s is fs) \<noteq> 1)"
  proof (rule s2n_eval [OF _ 1 2])
    show "dec_text s is fs \<noteq> []" using c by (simp add: dec_text_def)
    show "skip_zeros (if ?c \<noteq> [] \<and> hd ?c = ch_dot then tl ?c else ?c) 0 = (?c, 0)" by (simp only: if_not_P [OF 3] 2)
    show "s2n_first ?c (?c \<noteq> [] \<and> hd ?c = ch_dot) (- 0) = (9 - length (is @ fs), c, digval (take 9 (is @ fs)), trail0 0 (take 9 (is @ fs)), dot', y', z')"
      using w(1) by (simp only: 3 [THEN eq_False [THEN iffD2]] minus_zero)
    show "z \<noteq> 0 \<or> y \<noteq> 0 \<or> 0 \<noteq> (0 :: int)" using w(3) d by (auto split: if_splits)
    show "\<not> (fs \<noteq> [] \<and> (last (dec_text s is fs) = ch_zero \<or> last (dec_text s is fs) = ch_dot))" using last_text [OF assms(2,5)] by blast
  qed (rule w(2))
  then show ?thesis unfolding w(3) by simp
qed

text \<open>A text without integral digits: zeros after the point lower the exponent.\<close>

lemma s2n_fraction:
  assumes "digits ds" "ds \<noteq> []" "hd ds \<noteq> 0" "last_ok ds" "length ds \<le> 18"
  shows "s2n (dec_text s [] (replicate n 0 @ ds)) = s2n_store (digval (take 9 ds)) (word0 (drop 9 ds)) (- int n) (int (9 - length ds))
    (trail0 0 (take 9 ds)) (if s then 1 else 0) False"
proof -
  obtain d es where d: "ds = d # es" "is_digit d" "d \<noteq> 0" using assms(1,2,3) by (cases ds) auto
  let ?c = "ch_dot # replicate n ch_zero @ map dig ds"
  have tx: "dec_text s [] (replicate n 0 @ ds) = (if s then [ch_minus] else []) @ ?c"
    using assms(2) by (simp add: dec_text_def frac_text_def dig_def)
  have 1: "skip_signs (dec_text s [] (replicate n 0 @ ds)) 0 = (?c, if s then 1 else 0)" unfolding tx by (rule skip_signs_text) simp
  have 4: "skip_zeros (if ?c \<noteq> [] \<and> hd ?c = ch_dot then tl ?c else ?c) 0 = (map dig ds, int n)"
    using skip_zeros_replicate [of "map dig ds" n 0] d by simp
  have "length (drop 9 ds) \<le> 9" using assms(5) by simp
  from second_dot [OF digits_drop [OF assms(1)] this]
  obtain z where 6: "int (min 9 (length ds)) \<le> z" "s2n_second (map dig (drop 9 ds)) True (- int n) (int (min 9 (length ds))) = Inr ([], True, - int n, z, word0 (drop 9 ds))"
    by blast
  have "s2n (dec_text s [] (replicate n 0 @ ds)) = s2n_store (digval (take 9 ds)) (word0 (drop 9 ds)) (if True then - int n else z) (int (9 - length ds))
    (trail0 0 (take 9 ds)) (if s then 1 else 0) (1 < (if s then 1 else 0 :: int) \<or> 0 \<noteq> (0 :: int) \<and> length (dec_text s [] (replicate n 0 @ ds)) \<noteq> 1)"
  proof (rule s2n_eval [OF _ 1 _ 4 _ 6(2)])
    show "dec_text s [] (replicate n 0 @ ds) \<noteq> []" by (simp add: tx)
    show "skip_zeros ?c 0 = (?c, 0)" by simp
    show "s2n_first (map dig ds) (?c \<noteq> [] \<and> hd ?c = ch_dot) (- int n) =
        (9 - length ds, map dig (drop 9 ds), digval (take 9 ds), trail0 0 (take 9 ds), True, - int n, int (min 9 (length ds)))"
      using s2n_first_frac [OF assms(1)] by simp
    show "z \<noteq> 0 \<or> - int n \<noteq> 0 \<or> 0 \<noteq> (0 :: int)" using 6(1) d by auto
    have "digits (replicate n 0 @ ds)" using assms(1) by (auto simp: is_digit_def)
    from last_text [OF this] show "\<not> (True \<and> (last (dec_text s [] (replicate n 0 @ ds)) = ch_zero \<or> last (dec_text s [] (replicate n 0 @ ds)) = ch_dot))"
      using assms(2,4) by (simp add: last_ok_def)
  qed
  then show ?thesis by simp
qed

section \<open>The number that is stored\<close>

lemma trail0_range: "0 \<le> i \<Longrightarrow> 0 \<le> trail0 i ds \<and> trail0 i ds \<le> i + int (length ds)"
proof (induction ds arbitrary: i)
  case (Cons d ds)
  show ?case
  proof (cases "d = 0")
    case True
    then show ?thesis using Cons.IH [of "i + 1"] Cons.prems by simp
  next
    case False
    then show ?thesis using Cons.IH [of 0] Cons.prems by simp
  qed
qed simp

lemma trail0_dvd: "0 \<le> i \<Longrightarrow> a mod 10 ^ nat i = 0 \<Longrightarrow> (a * 10 ^ length ds + digval ds) mod 10 ^ nat (trail0 i ds) = (0 :: int)"
proof (induction ds arbitrary: i a)
  case (Cons d ds)
  show ?case
  proof (cases "d = 0")
    case True
    obtain q where q: "a = 10 ^ nat i * q" using Cons.prems(2) by (auto simp: mod_eq_0_iff_dvd)
    have "a * 10 mod 10 ^ nat (i + 1) = 0" using Cons.prems(1) by (simp add: q nat_add_distrib)
    then show ?thesis using Cons.IH [of "i + 1" "a * 10"] Cons.prems True by (simp add: mult.assoc)
  next
    case False
    have "a * 10 ^ length (d # ds) + digval (d # ds) = (a * 10 + d) * 10 ^ length ds + digval ds" by (simp add: algebra_simps)
    moreover have "trail0 i (d # ds) = trail0 0 ds" using False by simp
    moreover have "((a * 10 + d) * 10 ^ length ds + digval ds) mod 10 ^ nat (trail0 0 ds) = 0" using Cons.IH [of 0 "a * 10 + d"] by simp
    ultimately show ?thesis by (simp only:)
  qed
qed simp

lemma s2n_store_spec:
  assumes "10 ^ (8 - k) \<le> m1" "m1 < 10 ^ (9 - k)" "k \<le> 8" "0 \<le> i" "i \<le> 9" "m1 mod 10 ^ nat i = 0" "0 \<le> m0" "m0 < MANT_HI" "m0 \<noteq> 0 \<Longrightarrow> k = 0"
    "- 42 \<le> x" "x < 48"
  shows "\<exists>r. s2n_store m1 m0 x (int k) i sign apx = Inr (r, apx) \<and> num_ok r
    \<and> mnum_val r = signed (odd sign) ((m1 * 10 ^ k * MANT_HI + m0) * 10 ^ nat (x + 62))"
proof -
  define j where "j = x + int k - 6"
  have m1: "0 < m1" using assms(1) by (rule less_le_trans [rotated]) simp
  show ?thesis
  proof (cases "m0 = 0 \<and> 6 \<ge> x \<and> 0 \<le> i + j")
    case True
    define r where "r = (if 0 > j then m1 div 10 ^ nat (- j) else m1 * 10 ^ nat j)"
    have st: "s2n_store m1 m0 x (int k) i sign apx = Inr (MV_int (signed (odd sign) r), apx)"
    proof (cases "0 > j")
      case neg: True
      have "rd ten_pwr (- j) = Inr (10 ^ nat (- j))" using neg True assms(5) by (intro rd_ten_pwr) simp_all
      moreover have "m1 sdiv (10 ^ nat (- j)) = m1 div 10 ^ nat (- j)" "m1 sdiv - (10 ^ nat (- j)) = - (m1 div 10 ^ nat (- j))"
        using m1 by (simp_all add: signed_divide_int_def sgn_if)
      ultimately show ?thesis using neg True by (simp add: s2n_store_def j_def [symmetric] Let_def r_def)
    next
      case pos: False
      have "rd ten_pwr j = Inr (10 ^ nat j)" using pos True assms(3) by (intro rd_ten_pwr) (simp_all add: j_def)
      then show ?thesis using pos True by (simp add: s2n_store_def j_def [symmetric] Let_def r_def)
    qed
    have sum: "nat (x + 62) + k + 9 + nat (- j) = 77 + nat j" using assms(10) by (simp add: j_def)
    have dv: "m1 = m1 div 10 ^ nat (- j) * 10 ^ nat (- j)"
    proof -
      have "(10 :: int) ^ nat (- j) dvd 10 ^ nat i" using True by (intro le_imp_power_dvd nat_mono) linarith
      then have "10 ^ nat (- j) dvd m1" using assms(6) by (auto simp: mod_eq_0_iff_dvd intro: dvd_trans)
      then show ?thesis by simp
    qed
    have scaled: "r * 10 ^ nat (- j) = m1 * 10 ^ nat j" using dv by (auto simp: r_def)
    have "r * 10 ^ 77 * 10 ^ nat (- j) = m1 * 10 ^ (77 + nat j)" using scaled by (simp add: power_add mult.commute mult.left_commute)
    also have "\<dots> = m1 * 10 ^ k * MANT_HI * 10 ^ nat (x + 62) * 10 ^ nat (- j)" unfolding sum [symmetric] power_add by simp
    finally have val: "r * 10 ^ 77 = m1 * 10 ^ k * MANT_HI * 10 ^ nat (x + 62)" by simp
    have "r * 10 ^ nat (- j) < 10 ^ (9 - k) * 10 ^ nat j" unfolding scaled using assms(2) by simp
    also have "\<dots> \<le> MANT_HI * 10 ^ nat (- j)"
    proof -
      have "(10 :: int) ^ ((9 - k) + nat j) \<le> 10 ^ (9 + nat (- j))" using True assms(3) unfolding j_def by (intro power_mono_int) arith
      then show ?thesis unfolding power_add by simp
    qed
    finally have "r < MANT_HI" by simp
    moreover have "0 \<le> r" using m1 by (simp add: r_def pos_imp_zdiv_nonneg_iff)
    ultimately have "r < MANT_HI" "0 \<le> r" by simp_all
    then show ?thesis using st val True by auto
  next
    case False
    have "rd ten_pwr (int k) = Inr (10 ^ k)" using assms(3) rd_ten_pwr [of "int k"] by simp
    then have st: "s2n_store m1 m0 x (int k) i sign apx = Inr (MV_nm (odd sign) (x + 62) (m1 * 10 ^ k) m0, apx)"
      unfolding s2n_store_def Let_def j_def [symmetric] if_not_P [OF False] using m1 assms(10,11) by simp
    have "mant_norm (m1 * 10 ^ k) m0"
    proof -
      have "10 ^ (8 - k) * 10 ^ k \<le> m1 * 10 ^ k" "m1 * 10 ^ k < 10 ^ (9 - k) * 10 ^ k" using assms(1,2) by simp_all
      moreover have "8 - k + k = 8" "9 - k + k = 9" using assms(3) by simp_all
      ultimately have "10 ^ 8 \<le> m1 * 10 ^ k" "m1 * 10 ^ k < 10 ^ 9" by (simp_all only: power_add [symmetric])
      then show ?thesis using assms(7,8) by (simp add: mant_norm_def)
    qed
    then show ?thesis using st assms(10,11) by (auto simp: mnum_val_nm simp del: mnum_val.simps(2))
  qed
qed

text \<open>The mantissa words of a list of digits are the first 18 of them, padded with zeros.\<close>

lemma digval_split: "digval D = digval (take n D) * 10 ^ length (drop n D) + digval (drop n D)"
  using digval_append [of "take n D" "drop n D"] by simp

lemma mantissa_words:
  assumes "digits D" "\<forall>d \<in> set (drop 18 D). d = 0"
  shows "(digval (take 9 D) * 10 ^ (9 - length D) * MANT_HI + word0 (drop 9 D)) * 10 ^ (length D - 18) = digval D * 10 ^ (18 - length D)"
proof -
  have z: "digval (drop 18 D) = 0" using digval_zeros [of "length (drop 18 D)"] assms(2) by (metis replicate_eqI)
  consider "length D \<le> 9" | "9 < length D" "length D \<le> 18" | "18 < length D" by linarith
  then show ?thesis
  proof cases
    case 1
    have "18 - length D = (9 - length D) + 9" using 1 by simp
    then have "(10 :: int) ^ (18 - length D) = 10 ^ (9 - length D) * MANT_HI" by (simp only: power_add) simp
    then show ?thesis using 1 by (simp add: word0_def)
  next
    case 2
    have "digval D = digval (take 9 D) * 10 ^ (length D - 9) + digval (drop 9 D)" using digval_split [of D 9] by simp
    moreover have "(10 :: int) ^ 9 = 10 ^ (length D - 9) * 10 ^ (18 - length D)" unfolding power_add [symmetric] using 2 by (intro arg_cong [of _ _ "power 10"]) simp
    moreover have "9 - (length D - 9) = 18 - length D" using 2 by simp
    ultimately show ?thesis using 2 by (simp add: word0_def algebra_simps)
  next
    case 3
    have "digval (take 18 D) = digval (take 9 D) * 10 ^ 9 + digval (take 9 (drop 9 D))"
      using digval_append [of "take 9 D" "take 9 (drop 9 D)"] 3 by (simp add: take_add [of 9 9, simplified])
    moreover have "digval D = digval (take 18 D) * 10 ^ (length D - 18)" using digval_split [of D 18] z by simp
    ultimately show ?thesis using 3 by (simp add: word0_def)
  qed
qed

lemma word_ranges:
  assumes "digits D" "D \<noteq> []" "hd D \<noteq> 0"
  shows "10 ^ (8 - (9 - length D)) \<le> digval (take 9 D)" "digval (take 9 D) < 10 ^ (9 - (9 - length D))" "9 - length D \<le> 8"
    "0 \<le> trail0 0 (take 9 D)" "trail0 0 (take 9 D) \<le> 9" "digval (take 9 D) mod 10 ^ nat (trail0 0 (take 9 D)) = 0"
    "0 \<le> word0 (drop 9 D)" "word0 (drop 9 D) < MANT_HI" "word0 (drop 9 D) \<noteq> 0 \<Longrightarrow> 9 - length D = 0"
proof -
  have t: "digits (take 9 D)" using assms(1) by (auto dest: in_set_takeD)
  obtain d ds where D: "D = d # ds" "1 \<le> d" "digits ds" using assms by (cases D) (auto simp: is_digit_def)
  have l: "length (take 9 D) = 9 - (9 - length D)" by simp
  have "take 9 D = d # take 8 ds" by (simp add: D)
  moreover have "digits (take 8 ds)" using D by (auto dest: in_set_takeD)
  moreover have "1 * 10 ^ length (take 8 ds) \<le> d * (10 :: int) ^ length (take 8 ds)" using D by (intro mult_right_mono) simp_all
  ultimately have "10 ^ length (take 8 ds) \<le> digval (d # take 8 ds)" "take 9 D = d # take 8 ds"
    using digval_range [of "take 8 ds"] unfolding digval_simps by linarith+
  then have "10 ^ length (take 8 ds) \<le> digval (take 9 D)" by (simp only:)
  moreover have "length (take 8 ds) = 8 - (9 - length D)" by (simp add: D)
  ultimately show "10 ^ (8 - (9 - length D)) \<le> digval (take 9 D)" by simp
  show "digval (take 9 D) < 10 ^ (9 - (9 - length D))" using digval_range [OF t] l by metis
  show "9 - length D \<le> 8" using D by simp
  show "0 \<le> trail0 0 (take 9 D)" "trail0 0 (take 9 D) \<le> 9" using trail0_range [of 0 "take 9 D"] by (simp_all add: min_def split: if_splits)
  show "digval (take 9 D) mod 10 ^ nat (trail0 0 (take 9 D)) = 0" using trail0_dvd [of 0 0 "take 9 D"] by simp
  have w: "digits (take 9 (drop 9 D))" using digits_drop [OF assms(1)] by (auto dest: in_set_takeD)
  define n where "n = length (take 9 (drop 9 D))"
  have "9 - length (drop 9 D) = 9 - n" "n \<le> 9" by (simp_all add: n_def)
  then have w0: "word0 (drop 9 D) = digval (take 9 (drop 9 D)) * 10 ^ (9 - n)" by (simp only: word0_def)
  have "digval (take 9 (drop 9 D)) * 10 ^ (9 - n) < 10 ^ n * 10 ^ (9 - n)" using digval_range [OF w] unfolding n_def by simp
  also have "\<dots> = MANT_HI" unfolding power_add [symmetric] using \<open>n \<le> 9\<close> by simp
  finally show "word0 (drop 9 D) < MANT_HI" unfolding w0 .
  show "0 \<le> word0 (drop 9 D)" using digval_range [OF w] by (simp add: w0)
  show "9 - length D = 0" if "word0 (drop 9 D) \<noteq> 0"
  proof (rule ccontr)
    assume "9 - length D \<noteq> 0"
    then show False using that by (simp add: word0_def)
  qed
qed

section \<open>Canonical texts\<close>

text \<open>
  The canonical text of a number that is not zero: no zeros at the start and at the end, at most 18 digits apart from zeros before the point,
  at most 47 digits before the point and 42 zeros after it.
\<close>

definition canon :: "int list \<Rightarrow> int list \<Rightarrow> bool" where
  "canon is fs \<longleftrightarrow> digits is \<and> digits fs \<and> last_ok fs \<and>
     (if is = [] then \<exists>n ds. fs = replicate n 0 @ ds \<and> ds \<noteq> [] \<and> hd ds \<noteq> 0 \<and> length ds \<le> 18 \<and> n \<le> 42
      else hd is \<noteq> 0 \<and> (\<forall>d \<in> set (drop 18 (is @ fs)). d = 0) \<and> length is < 48)"

definition dec_val :: "bool \<Rightarrow> int list \<Rightarrow> int list \<Rightarrow> int" where
  "dec_val s is fs = signed s (digval (is @ fs) * 10 ^ (80 - length fs))"

lemma integral_value:
  assumes "digits is" "digits fs" "is \<noteq> []" "hd is \<noteq> 0" "last_ok fs" "\<forall>d \<in> set (drop 18 (is @ fs)). d = 0"
  shows "(digval (take 9 (is @ fs)) * 10 ^ (9 - length (is @ fs)) * MANT_HI + word0 (drop 9 (is @ fs))) * 10 ^ (length is + 62)
    = digval (is @ fs) * 10 ^ (80 - length fs)"
proof -
  let ?D = "is @ fs"
  define M where "M = digval (take 9 ?D) * 10 ^ (9 - length ?D) * MANT_HI + word0 (drop 9 ?D)"
  have M: "M * 10 ^ (length ?D - 18) = digval ?D * 10 ^ (18 - length ?D)"
    unfolding M_def by (rule mantissa_words) (use assms in auto)
  have "M * 10 ^ (length is + 62) = digval ?D * 10 ^ (80 - length fs)"
  proof (cases "length ?D \<le> 18")
    case True
    have "18 - length ?D + (length is + 62) = 80 - length fs" using True by simp
    then have "digval ?D * 10 ^ (80 - length fs) = digval ?D * 10 ^ (18 - length ?D) * 10 ^ (length is + 62)" by (metis mult.assoc power_add)
    moreover have "M = digval ?D * 10 ^ (18 - length ?D)" using M True by simp
    ultimately show ?thesis by (simp only:)
  next
    case False
    have f: "fs = []"
    proof (rule ccontr)
      assume "fs \<noteq> []"
      then have "length ?D \<le> 18" using assms(5,6) by (intro short_digits) (simp_all add: last_ok_def)
      then show False using False by simp
    qed
    have "length is + 62 = (length ?D - 18) + 80" using False f by simp
    then have "M * 10 ^ (length is + 62) = M * 10 ^ (length ?D - 18) * 10 ^ 80" by (simp only: power_add mult.assoc)
    moreover have "M * 10 ^ (length ?D - 18) = digval ?D" using M False by simp
    ultimately have "M * 10 ^ (length is + 62) = digval ?D * 10 ^ 80" by (simp only:)
    then show ?thesis using f by (simp only: list.size diff_zero)
  qed
  then show ?thesis unfolding M_def .
qed

text \<open>A canonical text is read exactly, without the approximation mark.\<close>

lemma s2n_canon:
  assumes "canon is fs"
  shows "\<exists>r. s2n (dec_text s is fs) = Inr (r, False) \<and> num_ok r \<and> mnum_val r = dec_val s is fs"
proof (cases "is = []")
  case False
  have c: "digits is" "digits fs" "is \<noteq> []" "hd is \<noteq> 0" "last_ok fs" "\<forall>d \<in> set (drop 18 (is @ fs)). d = 0" "length is < 48"
    using assms False by (simp_all add: canon_def)
  let ?D = "is @ fs"
  have D: "digits ?D" "?D \<noteq> []" "hd ?D \<noteq> 0" using c by auto
  obtain r where "s2n_store (digval (take 9 ?D)) (word0 (drop 9 ?D)) (int (length is)) (int (9 - length ?D)) (trail0 0 (take 9 ?D)) (if s then 1 else 0) False = Inr (r, False)"
    "num_ok r" "mnum_val r = signed (odd (if s then 1 else 0 :: int)) ((digval (take 9 ?D) * 10 ^ (9 - length ?D) * MANT_HI + word0 (drop 9 ?D)) * 10 ^ nat (int (length is) + 62))"
    using s2n_store_spec [OF word_ranges [OF D], of "int (length is)" "if s then 1 else 0" False] c(7) by auto
  moreover have "nat (int (length is) + 62) = length is + 62" by simp
  ultimately show ?thesis using s2n_integral [OF c(1-6), of s] integral_value [OF c(1-6)] by (cases s) (simp_all add: dec_val_def)
next
  case True
  then obtain n ds where f: "fs = replicate n 0 @ ds" "ds \<noteq> []" "hd ds \<noteq> 0" "length ds \<le> 18" "n \<le> 42"
    using assms by (auto simp: canon_def)
  have d: "digits ds" "last_ok ds" using assms f by (simp_all add: canon_def last_ok_def)
  obtain r where r: "s2n_store (digval (take 9 ds)) (word0 (drop 9 ds)) (- int n) (int (9 - length ds)) (trail0 0 (take 9 ds)) (if s then 1 else 0) False = Inr (r, False)"
    "num_ok r" "mnum_val r = signed (odd (if s then 1 else 0 :: int)) ((digval (take 9 ds) * 10 ^ (9 - length ds) * MANT_HI + word0 (drop 9 ds)) * 10 ^ nat (- int n + 62))"
    using s2n_store_spec [OF word_ranges [OF d(1) f(2,3)], of "- int n" "if s then 1 else 0" False] f(5) by auto
  have "(digval (take 9 ds) * 10 ^ (9 - length ds) * MANT_HI + word0 (drop 9 ds)) * 10 ^ (length ds - 18) = digval ds * 10 ^ (18 - length ds)"
    by (rule mantissa_words [OF d(1)]) (use f in simp)
  then have m: "digval (take 9 ds) * 10 ^ (9 - length ds) * MANT_HI + word0 (drop 9 ds) = digval ds * 10 ^ (18 - length ds)" using f(4) by simp
  have "(18 - length ds) + nat (- int n + 62) = 80 - length fs" using f by simp
  then have "digval ds * 10 ^ (18 - length ds) * 10 ^ nat (- int n + 62) = digval (is @ fs) * 10 ^ (80 - length fs)"
    using f True by (metis append_Nil digval_append digval_zeros mult.assoc mult_zero_left add_0 power_add)
  then show ?thesis using r s2n_fraction [OF d(1) f(2,3) d(2) f(4), of s n] f(1) True unfolding m by (cases s) (simp_all add: dec_val_def)
qed

section \<open>The text of an integer\<close>

lemma int_digits_spec:
  assumes "0 \<le> m"
  shows "\<exists>ds. (\<forall>cp. int_digits m cp = map dig ds @ cp) \<and> digits ds \<and> digval ds = m \<and> (ds = [] \<or> hd ds \<noteq> 0)"
  using assms
proof (induction "nat m" arbitrary: m rule: less_induct)
  case less
  show ?case
  proof (cases "m = 0")
    case True
    then show ?thesis by (intro exI [of _ "[]"]) (simp add: int_digits.simps)
  next
    case False
    then have m: "0 < m" using less.prems by simp
    then have "nat (m div 10) < nat m" "0 \<le> m div 10" by (simp_all add: pos_imp_zdiv_nonneg_iff)
    then obtain ds where ds: "\<forall>cp. int_digits (m div 10) cp = map dig ds @ cp" "digits ds" "digval ds = m div 10" "ds = [] \<or> hd ds \<noteq> 0"
      using less.hyps [of "m div 10"] by blast
    define d where "d = m - m div 10 * 10"
    have d: "d = m mod 10" by (simp add: d_def minus_div_mult_eq_mod)
    then have "is_digit d" by (simp add: is_digit_def)
    moreover have "digval (ds @ [d]) = m" using ds(3) by (simp add: digval_append d)
    moreover have "hd (ds @ [d]) \<noteq> 0"
    proof (cases "ds = []")
      case True
      then have "d = m" using ds(3) d by simp
      then show ?thesis using True m by simp
    next
      case False
      then show ?thesis using ds(4) by simp
    qed
    moreover have "\<forall>cp. int_digits m cp = map dig (ds @ [d]) @ cp" using ds(1) m by (subst int_digits.simps) (simp add: d_def)
    ultimately show ?thesis using ds(2) by (intro exI [of _ "ds @ [d]"]) simp
  qed
qed

lemma digits_length_le:
  assumes "digits ds" "ds = [] \<or> hd ds \<noteq> 0" "digval ds < 10 ^ n"
  shows "length ds \<le> n"
proof (rule ccontr)
  assume "\<not> length ds \<le> n"
  then obtain d es where d: "ds = d # es" "n \<le> length es" by (cases ds) auto
  have es: "0 \<le> digval es" using digval_range [of es] assms(1) d(1) by simp
  have "1 * 10 ^ length es \<le> d * (10 :: int) ^ length es" using assms(1,2) d by (intro mult_right_mono) (auto simp: is_digit_def)
  then have "10 ^ length es \<le> digval ds" using es unfolding d(1) digval_simps by linarith
  moreover have "(10 :: int) ^ n \<le> 10 ^ length es" using d(2) by (rule power_mono_int)
  ultimately show False using assms(3) by linarith
qed

lemma frac_digits:
  assumes "0 < f" "f < 1000"
  obtains fs where "(case frac_skip 0 f 0 of (n0, m1, tmp) \<Rightarrow> frac_rest (Suc n0) m1 [dig tmp]) = map dig fs"
    "digits fs" "fs \<noteq> []" "last fs \<noteq> 0" "length fs \<le> 3" "digval fs * 10 ^ (3 - length fs) = f"
proof -
  define c b a where "c = f mod 10" and "b = f div 10 mod 10" and "a = f div 10 div 10"
  have f: "f = 100 * a + 10 * b + c" using div_mult_mod_eq [of f 10] div_mult_mod_eq [of "f div 10" 10] unfolding a_def b_def c_def by linarith
  have abc: "is_digit a" "is_digit b" "is_digit c" using assms by (auto simp: a_def b_def c_def is_digit_def)
  have e: "f - f div 10 * 10 = c" "f div 10 - f div 10 div 10 * 10 = b" by (simp_all add: b_def c_def minus_div_mult_eq_mod)
  have e3: "a div 10 = 0" using abc by (simp add: is_digit_def)
  show ?thesis
  proof (cases "c = 0")
    case False
    then have "frac_skip 0 f 0 = (0, f div 10, c)" using e by (subst frac_skip.simps) simp
    moreover have "frac_rest 1 (f div 10) [dig c] = [dig a, dig b, dig c]"
      using e(2) e3 by (simp add: frac_rest.simps a_def [symmetric])
    ultimately have "(case frac_skip 0 f 0 of (n0, m1, tmp) \<Rightarrow> frac_rest (Suc n0) m1 [dig tmp]) = map dig [a, b, c]" by simp
    then show ?thesis using abc False f [symmetric] by (intro that [of "[a, b, c]"]) simp_all
  next
    case c0: True
    show ?thesis
    proof (cases "b = 0")
      case False
      then have "frac_skip 0 f 0 = (1, a, b)" using e c0 by (subst frac_skip.simps, subst frac_skip.simps) (simp add: a_def)
      then show ?thesis using abc False e3 f c0 by (intro that [of "[a, b]"]) (simp_all add: frac_rest.simps)
    next
      case True
      then have "a \<noteq> 0" using f c0 assms by auto
      then have "frac_skip 0 f 0 = (2, 0, a)" using e c0 True e3
        by (subst frac_skip.simps, subst frac_skip.simps, subst frac_skip.simps) (simp add: a_def [symmetric])
      then show ?thesis using abc \<open>a \<noteq> 0\<close> f c0 True by (intro that [of "[a]"]) (simp_all add: frac_rest.simps)
    qed
  qed
qed

lemma leading_zeros:
  assumes "fs \<noteq> []" "last fs \<noteq> (0 :: int)"
  obtains n ds where "fs = replicate n 0 @ ds" "ds \<noteq> []" "hd ds \<noteq> 0"
proof -
  let ?ds = "dropWhile (\<lambda>d. d = 0) fs"
  have "last fs \<in> set fs" using assms(1) by simp
  then have ne: "?ds \<noteq> []" using assms(2) by (auto simp: dropWhile_eq_Nil_conv)
  moreover have "hd ?ds \<noteq> 0" using hd_dropWhile [OF ne] .
  moreover have "takeWhile (\<lambda>d. d = 0) fs = replicate (length (takeWhile (\<lambda>d. d = 0) fs)) 0" by (intro replicate_eqI [symmetric, THEN sym]) (auto dest: set_takeWhileD)
  then have "fs = replicate (length (takeWhile (\<lambda>d. d = 0) fs)) 0 @ ?ds" by (metis takeWhile_dropWhile_id)
  ultimately show ?thesis by (intro that)
qed

lemma n2s_int_canon:
  assumes "m \<noteq> 0" "- MANT_HI < m" "m < MANT_HI"
  shows "\<exists>s is fs. n2s_int m = dec_text s is fs \<and> canon is fs \<and> dec_val s is fs = m * 10 ^ 77"
proof -
  define a where "a = \<bar>m\<bar>"
  have a: "0 < a" "a < MANT_HI" "(if m < 0 then - m else m) = a" using assms by (auto simp: a_def)
  define I f where "I = a div 1000" and "f = a - a div 1000 * 1000"
  have f: "0 \<le> f" "f < 1000" "a = I * 1000 + f" by (simp_all add: f_def I_def minus_div_mult_eq_mod)
  have I: "0 \<le> I" "I < 10 ^ 6" using a by (auto simp: I_def pos_imp_zdiv_nonneg_iff intro!: int_div_less)
  obtain "is" where i: "\<forall>cp. int_digits I cp = map dig is @ cp" "digits is" "digval is = I" "is = [] \<or> hd is \<noteq> 0"
    using int_digits_spec [OF I(1)] by blast
  have li: "length is \<le> 6" using digits_length_le [OF i(2,4)] i(3) I(2) by simp
  obtain fs where fr: "(if f > 0 then (case frac_skip 0 f 0 of (n0, m1, tmp) \<Rightarrow> ch_dot # frac_rest (Suc n0) m1 [dig tmp]) else []) = frac_text fs"
    "digits fs" "last_ok fs" "length fs \<le> 3" "digval fs * 10 ^ (3 - length fs) = f"
  proof (cases "f > 0")
    case True
    then obtain fs where "(case frac_skip 0 f 0 of (n0, m1, tmp) \<Rightarrow> frac_rest (Suc n0) m1 [dig tmp]) = map dig fs"
      "digits fs" "fs \<noteq> []" "last fs \<noteq> 0" "length fs \<le> 3" "digval fs * 10 ^ (3 - length fs) = f" using f(2) by (rule frac_digits)
    then show ?thesis using True by (intro that [of fs]) (auto simp: frac_text_def last_ok_def split: prod.splits)
  next
    case False
    then show ?thesis using f(1) by (intro that [of "[]"]) (simp_all add: frac_text_def last_ok_def)
  qed
  have "n2s_int m = dec_text (m < 0) is fs"
    unfolding n2s_int_def Let_def a(3) I_def [symmetric] dec_text_def using i(1) fr(1) unfolding I_def f_def by simp
  moreover have "canon is fs"
  proof (cases "is = []")
    case True
    then have "f > 0" using i(3) a(1) f by simp
    then have "fs \<noteq> []" using fr(5) by auto
    then obtain n ds where "fs = replicate n 0 @ ds" "ds \<noteq> []" "hd ds \<noteq> 0" using fr(3) leading_zeros by (auto simp: last_ok_def)
    moreover from this fr(4) have "length ds \<le> 18" "n \<le> 42" by simp_all
    ultimately show ?thesis using True fr(2,3) by (auto simp: canon_def)
  next
    case False
    then show ?thesis using i(2,4) fr(2,3,4) li by (simp add: canon_def)
  qed
  moreover have "dec_val (m < 0) is fs = m * 10 ^ 77"
  proof -
    have "80 - length fs = (3 - length fs) + 77" using fr(4) by simp
    then have "digval (is @ fs) * 10 ^ (80 - length fs) = (I * 10 ^ length fs * 10 ^ (3 - length fs) + digval fs * 10 ^ (3 - length fs)) * 10 ^ 77"
      by (simp only: digval_append i(3) power_add mult.assoc distrib_right)
    also have "(10 :: int) ^ length fs * 10 ^ (3 - length fs) = 1000" unfolding power_add [symmetric] using fr(4) by simp
    then have "I * 10 ^ length fs * 10 ^ (3 - length fs) = I * 1000" by (simp only: mult.assoc)
    finally have "digval (is @ fs) * 10 ^ (80 - length fs) = a * 10 ^ 77" using fr(5) f(3) by simp
    then show ?thesis by (simp add: dec_val_def a_def)
  qed
  ultimately show ?thesis by blast
qed

section \<open>The text of a decimal number\<close>

text \<open>The first \<open>k\<close> digits of a mantissa word.\<close>

fun mdigs :: "nat \<Rightarrow> int \<Rightarrow> int list" where
  "mdigs 0 m = []"
| "mdigs (Suc k) m = m div MANT_LO # mdigs k ((m - m div MANT_LO * MANT_LO) * 10)"

lemma length_mdigs [simp]: "length (mdigs k m) = k"
  by (induction k arbitrary: m) simp_all

lemma mdigs_step:
  assumes "0 \<le> m" "m < MANT_HI" "m mod 10 ^ (8 - k) = 0" "k \<le> 8"
  defines "m' \<equiv> (m - m div MANT_LO * MANT_LO) * 10"
  shows "is_digit (m div MANT_LO)" "0 \<le> m'" "m' < MANT_HI" "m' mod 10 ^ (9 - k) = 0" "m = m div MANT_LO * MANT_LO + m' div 10" "m' = m' div 10 * 10"
proof -
  have r: "m - m div MANT_LO * MANT_LO = m mod MANT_LO" by (simp add: minus_div_mult_eq_mod)
  have m': "m' = m mod MANT_LO * 10" by (simp add: m'_def r)
  show "is_digit (m div MANT_LO)" using assms(1,2) by (auto simp: is_digit_def pos_imp_zdiv_nonneg_iff intro: int_div_less)
  show "0 \<le> m'" "m' < MANT_HI" "m = m div MANT_LO * MANT_LO + m' div 10" "m' = m' div 10 * 10" by (simp_all add: m')
  have "(10 :: int) ^ (8 - k) dvd 10 ^ 8" by (intro le_imp_power_dvd) simp
  then have "10 ^ (8 - k) dvd m mod MANT_LO" using assms(3) by (intro dvd_mod) (simp_all add: mod_eq_0_iff_dvd)
  then have "10 * 10 ^ (8 - k) dvd m'" unfolding m' by (simp add: mult.commute)
  moreover have "9 - k = Suc (8 - k)" using assms(4) by simp
  ultimately show "m' mod 10 ^ (9 - k) = 0" by (simp add: mod_eq_0_iff_dvd)
qed

lemma mdigs_spec:
  assumes "0 \<le> m" "m < MANT_HI" "m mod 10 ^ (9 - k) = 0" "k \<le> 9"
  shows "digits (mdigs k m)" and "digval (mdigs k m) * 10 ^ (9 - k) = m"
  using assms
proof (induction k arbitrary: m)
  case 0
  {
    case 1
    then show ?case by simp
  next
    case 2
    then have "m mod MANT_HI = 0" by simp
    then show ?case using 2 by simp
  }
next
  case (Suc k)
  {
    case 1
    define m' where "m' = (m - m div MANT_LO * MANT_LO) * 10"
    have k: "m mod 10 ^ (8 - k) = 0" "k \<le> 8" using 1 by simp_all
    note s = mdigs_step [OF 1(1,2) k, folded m'_def]
    have "digits (mdigs k m')" by (rule Suc.IH(1)) (use s k in simp_all)
    then show ?case using s(1) unfolding mdigs.simps m'_def [symmetric] by simp
  next
    case 2
    define m' where "m' = (m - m div MANT_LO * MANT_LO) * 10"
    have k: "m mod 10 ^ (8 - k) = 0" "k \<le> 8" using 2 by simp_all
    have s: "0 \<le> m'" "m' < MANT_HI" "m' mod 10 ^ (9 - k) = 0" "m = m div MANT_LO * MANT_LO + m' div 10" "m' = m' div 10 * 10"
      unfolding m'_def by (fact mdigs_step [OF 2(1,2) k])+
    have IH: "digval (mdigs k m') * 10 ^ (9 - k) = m'" by (rule Suc.IH(2)) (use s k in simp_all)
    have p: "9 - k = Suc (8 - k)" "k + (8 - k) = 8" using k by simp_all
    have "digval (mdigs k m') * 10 ^ (8 - k) * 10 = m' div 10 * 10" using IH s(5) unfolding p(1) by simp
    then have "digval (mdigs k m') * 10 ^ (8 - k) = m' div 10" by simp
    moreover have "(10 :: int) ^ k * 10 ^ (8 - k) = MANT_LO" unfolding power_add [symmetric] p(2) by simp
    ultimately have "(m div MANT_LO * 10 ^ k + digval (mdigs k m')) * 10 ^ (8 - k) = m div MANT_LO * MANT_LO + m' div 10"
      by (simp only: distrib_right mult.assoc)
    also have "\<dots> = m" by (rule s(4) [symmetric])
    finally show ?case unfolding mdigs.simps m'_def [symmetric] digval_simps length_mdigs by simp
  }
qed

lemma digval_zero_iff: "digits ds \<Longrightarrow> digval ds = 0 \<longleftrightarrow> (\<forall>d \<in> set ds. d = 0)"
proof (induction ds)
  case (Cons d ds)
  have "0 \<le> d * 10 ^ length ds" "0 \<le> digval ds" using Cons.prems digval_range [of ds] by (simp_all add: is_digit_def)
  then have "digval (d # ds) = 0 \<longleftrightarrow> d * 10 ^ length ds = 0 \<and> digval ds = 0" unfolding digval_simps by linarith
  then show ?case using Cons by simp
qed simp

text \<open>The inner loop of \<open>n2s\<close> on a list of digits; \<open>more\<close> says that the second word is not zero.\<close>

fun place :: "int \<Rightarrow> int list \<Rightarrow> bool \<Rightarrow> int \<times> mstr" where
  "place ex [] more = (ex, [])"
| "place ex (d # ds) more =
     (if ex \<le> 0 \<and> \<not> more \<and> (\<forall>x \<in> set (d # ds). x = 0) then (ex - 1, [])
      else (case place (ex - 1) ds more of (ex', cp) \<Rightarrow> (ex', (if ex = 0 then [ch_dot] else []) @ dig d # cp)))"

lemma n2s_inner_place:
  assumes "0 \<le> m1" "m1 < MANT_HI" "m1 mod 10 ^ (9 - k) = 0" "k \<le> 9"
  shows "n2s_inner (9 - k) ex m1 m0 = place ex (mdigs k m1) (m0 \<noteq> 0)"
  using assms
proof (induction k arbitrary: ex m1)
  case 0
  then show ?case by (simp add: n2s_inner.simps)
next
  case (Suc k)
  then have k: "m1 mod 10 ^ (8 - k) = 0" "k \<le> 8" by simp_all
  note s = mdigs_step [OF Suc.prems(1,2) k]
  have "m1 = 0 \<longleftrightarrow> (\<forall>x \<in> set (mdigs (Suc k) m1). x = 0)"
    using mdigs_spec [OF Suc.prems] digval_zero_iff [of "mdigs (Suc k) m1"] by auto
  moreover have "(ex = 0 \<or> ex - 1 < 0) = (ex \<le> 0)" by auto
  moreover have "9 - Suc k < 9" "Suc (9 - Suc k) = 9 - k" using k by simp_all
  ultimately show ?case using Suc.IH [OF s(2-4), of "ex - 1"] k
    by (subst n2s_inner.simps) (simp add: Let_def conj_commute)
qed

lemma place_append:
  assumes "\<exists>y \<in> set ys. y \<noteq> 0"
  shows "place ex (xs @ ys) False = (case place ex xs True of (e1, c1) \<Rightarrow> (case place e1 ys False of (e2, c2) \<Rightarrow> (e2, c1 @ c2)))"
proof (induction xs arbitrary: ex)
  case (Cons x xs)
  show ?case using assms by (auto simp: Cons.IH split: prod.splits)
qed (simp split: prod.splits)

definition mant_digits :: "int \<Rightarrow> int \<Rightarrow> int list" where
  "mant_digits m1 m0 = mdigs 9 m1 @ (if m0 = 0 then [] else mdigs 9 m0)"

lemma n2s_outer_place:
  assumes "mant_norm m1 m0"
  shows "n2s_outer ex m1 m0 = place ex (mant_digits m1 m0) False"
proof -
  have m: "0 < m1" "m1 < MANT_HI" "0 \<le> m0" "m0 < MANT_HI" using assms by (simp_all add: mant_norm_def)
  have 1: "n2s_inner 0 ex m1 m0 = place ex (mdigs 9 m1) (m0 \<noteq> 0)" using n2s_inner_place [of m1 9 ex m0] m by simp
  show ?thesis
  proof (cases "m0 = 0")
    case True
    then show ?thesis using 1 m by (subst n2s_outer.simps, subst n2s_outer.simps) (simp add: mant_digits_def split: prod.splits)
  next
    case False
    have 2: "n2s_outer e m0 0 = place e (mdigs 9 m0) False" for e
      using n2s_inner_place [of m0 9 e 0] m False by (subst n2s_outer.simps, subst n2s_outer.simps) (simp split: prod.splits)
    have "\<exists>y \<in> set (mdigs 9 m0). y \<noteq> 0"
      using mdigs_spec [of m0 9] digval_zero_iff [of "mdigs 9 m0"] m False by auto
    then show ?thesis using 1 2 False m place_append by (subst n2s_outer.simps) (simp add: mant_digits_def split: prod.splits)
  qed
qed

text \<open>A list of digits without the zeros at its end.\<close>

fun strip0 :: "int list \<Rightarrow> int list" where
  "strip0 [] = []"
| "strip0 (d # ds) = (if d = 0 \<and> strip0 ds = [] then [] else d # strip0 ds)"

lemma strip0_Nil: "strip0 ds = [] \<longleftrightarrow> (\<forall>d \<in> set ds. d = 0)"
  by (induction ds) auto

lemma strip0_last: "last_ok (strip0 ds)"
  by (induction ds) (auto simp: last_ok_def)

lemma strip0_zeros: "ds = strip0 ds @ replicate (length ds - length (strip0 ds)) 0 \<and> length (strip0 ds) \<le> length ds"
  by (induction ds) (auto simp: Suc_diff_le)

lemma strip0_digits: "digits ds \<Longrightarrow> digits (strip0 ds)"
  by (induction ds) auto

lemma place_frac: "ex < 0 \<Longrightarrow> \<exists>e'. place ex ds False = (e', map dig (strip0 ds)) \<and> e' < 0"
proof (induction ds arbitrary: ex)
  case (Cons d ds)
  obtain e' where "place (ex - 1) ds False = (e', map dig (strip0 ds))" "e' < 0" using Cons.IH [of "ex - 1"] Cons.prems by auto
  then show ?case using Cons.prems strip0_Nil [of ds] by auto
qed simp

lemma place_int:
  "(case place (int n) ds False of (ex, cp) \<Rightarrow> cp @ replicate (nat ex) ch_zero)
    = map dig (take n ds) @ replicate (n - length ds) ch_zero @ frac_text (strip0 (drop n ds))"
proof (induction ds arbitrary: n)
  case Nil
  then show ?case by (simp add: frac_text_def)
next
  case (Cons d ds)
  show ?case
  proof (cases n)
    case 0
    obtain e' where "place (- 1) ds False = (e', map dig (strip0 ds))" "e' < 0" using place_frac [of "- 1" ds] by auto
    then show ?thesis using 0 strip0_Nil [of "d # ds"] by (auto simp: frac_text_def)
  next
    case (Suc k)
    then show ?thesis using Cons.IH [of k] by (auto split: prod.splits)
  qed
qed

lemma mant_digits_spec:
  assumes "mant_norm m1 m0"
  shows "digits (mant_digits m1 m0)" "mant_digits m1 m0 \<noteq> []" "hd (mant_digits m1 m0) \<noteq> 0" "length (mant_digits m1 m0) \<le> 18"
    "digval (mant_digits m1 m0) * 10 ^ (18 - length (mant_digits m1 m0)) = mant m1 m0"
proof -
  have m: "MANT_LO \<le> m1" "m1 < MANT_HI" "0 \<le> m0" "m0 < MANT_HI" using assms by (simp_all add: mant_norm_def)
  have d1: "digits (mdigs 9 m1)" "digval (mdigs 9 m1) = m1" using mdigs_spec [of m1 9] m by simp_all
  have d0: "digits (mdigs 9 m0)" "digval (mdigs 9 m0) = m0" using mdigs_spec [of m0 9] m by simp_all
  show "digits (mant_digits m1 m0)" "length (mant_digits m1 m0) \<le> 18" using d1 d0 by (auto simp: mant_digits_def)
  have "MANT_LO div MANT_LO \<le> m1 div MANT_LO" using m by (intro zdiv_mono1) simp_all
  moreover have "mdigs 9 m1 = m1 div MANT_LO # mdigs 8 ((m1 - m1 div MANT_LO * MANT_LO) * 10)" using mdigs.simps(2) [of 8 m1] by (simp del: mdigs.simps)
  ultimately show "mant_digits m1 m0 \<noteq> []" "hd (mant_digits m1 m0) \<noteq> 0" by (auto simp: mant_digits_def)
  show "digval (mant_digits m1 m0) * 10 ^ (18 - length (mant_digits m1 m0)) = mant m1 m0"
    using d1 d0 by (simp add: mant_digits_def digval_append)
qed

lemma strip0_value:
  assumes "digits D" "length D \<le> 18"
  shows "digval D * 10 ^ (18 - length D) = digval (strip0 D) * 10 ^ (18 - length (strip0 D))"
proof -
  define r where "r = length D - length (strip0 D)"
  have D: "D = strip0 D @ replicate r 0" "length (strip0 D) \<le> length D" using strip0_zeros [of D] by (simp_all add: r_def)
  have "digval D = digval (strip0 D) * 10 ^ r" using arg_cong [OF D(1), of digval] by (simp add: digval_append)
  moreover have "r + (18 - length D) = 18 - length (strip0 D)" using D(2) assms(2) by (simp add: r_def)
  ultimately show ?thesis by (metis mult.assoc power_add)
qed

text \<open>The digits of a mantissa behind the point, \<open>n\<close> places down.\<close>

lemma fraction_canon:
  assumes "digits D" "D \<noteq> []" "hd D \<noteq> 0" "length D \<le> 18" "n \<le> 42"
  defines "fs \<equiv> replicate n 0 @ strip0 D"
  shows "canon [] fs" "dec_val s [] fs = signed s (digval D * 10 ^ (18 - length D) * 10 ^ (62 - n))" "fs \<noteq> []"
proof -
  have ne: "strip0 D \<noteq> []" "hd (strip0 D) \<noteq> 0" using assms(2,3) by (cases D; simp)+
  have l: "length (strip0 D) \<le> 18" using strip0_zeros [of D] assms(4) by auto
  have "digits fs" using strip0_digits [OF assms(1)] by (auto simp: is_digit_def fs_def)
  moreover have "last_ok fs" using ne strip0_last [of D] by (simp add: last_ok_def fs_def)
  ultimately show "canon [] fs" using ne l assms(5) by (auto simp: canon_def fs_def)
  show "fs \<noteq> []" using ne by (simp add: fs_def)
  have "18 - length (strip0 D) + (62 - n) = 80 - length fs" using l assms(5) by (simp add: fs_def)
  then have "digval (strip0 D) * 10 ^ (18 - length (strip0 D)) * 10 ^ (62 - n) = digval (strip0 D) * 10 ^ (80 - length fs)"
    by (metis mult.assoc power_add)
  then show "dec_val s [] fs = signed s (digval D * 10 ^ (18 - length D) * 10 ^ (62 - n))"
    using strip0_value [OF assms(1,4)] by (simp only: dec_val_def fs_def digval_append digval_zeros append_Nil mult_zero_left add_0_left)
qed

text \<open>The digits with \<open>n > 0\<close> of them before the point.\<close>

lemma integral_canon:
  assumes "digits D" "D \<noteq> []" "hd D \<noteq> 0" "length D \<le> 18" "0 < n" "n < 48"
  defines "is \<equiv> take n D @ replicate (n - length D) 0" and "fs \<equiv> strip0 (drop n D)"
  shows "canon is fs" "dec_val s is fs = signed s (digval D * 10 ^ (18 - length D) * 10 ^ (n + 62))"
proof -
  define r where "r = length (drop n D) - length fs"
  have f: "drop n D = fs @ replicate r 0" "length fs \<le> length (drop n D)" using strip0_zeros [of "drop n D"] by (simp_all add: r_def fs_def)
  have "digits (take n D)" using assms(1) by (auto dest: in_set_takeD)
  then have dg: "digits is" "digits fs" using strip0_digits [OF digits_drop [OF assms(1)]]
    by (simp_all add: is_def fs_def is_digit_def ball_Un set_replicate_conv_if)
  have "hd is \<noteq> 0" "is \<noteq> []" "length is = n" using assms(2,3,5) by (cases D; cases n; auto simp: is_def)+
  moreover have "\<forall>d \<in> set (drop 18 (is @ fs)). d = 0"
  proof (cases "length D \<le> n")
    case True
    then show ?thesis using assms(4) by (auto simp: is_def fs_def dest: in_set_dropD)
  next
    case False
    then have "length (is @ fs) \<le> 18" using assms(4) f(2) by (simp add: is_def)
    then show ?thesis by simp
  qed
  ultimately show "canon is fs" using dg strip0_last [of "drop n D"] assms(6) by (simp add: canon_def fs_def)
  have "digval (is @ fs) * 10 ^ (80 - length fs) = digval D * 10 ^ (18 - length D) * 10 ^ (n + 62)"
  proof (cases "length D \<le> n")
    case True
    then have "digval (is @ fs) = digval D * 10 ^ (n - length D)" "length fs = 0" by (simp_all add: is_def fs_def digval_append)
    moreover have "n - length D + 80 = 18 - length D + (n + 62)" using True assms(4) by simp
    ultimately show ?thesis by (metis diff_zero mult.assoc power_add)
  next
    case False
    then have "D = (is @ fs) @ replicate r 0" using f(1) append_take_drop_id [of n D] by (simp add: is_def)
    then have "digval D = digval (is @ fs) * 10 ^ r" by (metis digval_append digval_zeros length_replicate add_0_right)
    moreover have "r + (18 - length D) + (n + 62) = 80 - length fs" using f(2) False assms(4) by (simp add: r_def)
    ultimately show ?thesis by (metis mult.assoc power_add)
  qed
  then show "dec_val s is fs = signed s (digval D * 10 ^ (18 - length D) * 10 ^ (n + 62))" by (simp add: dec_val_def)
qed

lemma n2s_flt_canon:
  assumes "mant_norm m1 m0" "EXPLO \<le> e" "e < EXPHI"
  shows "\<exists>is fs. n2s_flt s e m1 m0 = dec_text s is fs \<and> canon is fs \<and> dec_val s is fs = signed s (mant m1 m0 * 10 ^ nat e)"
proof -
  define D where "D = mant_digits m1 m0"
  note D = mant_digits_spec [OF assms(1), folded D_def]
  have out: "n2s_outer ex m1 m0 = place ex D False" for ex using n2s_outer_place [OF assms(1)] by (simp add: D_def)
  consider "e < 62" | "e = 62" | "62 < e" by linarith
  then show ?thesis
  proof cases
    case 1
    define n where "n = nat (62 - e)"
    obtain e' where p: "place (e - 62) D False = (e', map dig (strip0 D))" "e' < 0" using place_frac [of "e - 62" D] 1 by auto
    have n: "n \<le> 42" "nat e = 62 - n" using assms(2) 1 by (auto simp: n_def)
    note c = fraction_canon [OF D(1-4) n(1)]
    have "n2s_flt s e m1 m0 = dec_text s [] (replicate n 0 @ strip0 D)"
      using 1 p c(3) by (simp add: n2s_flt_def Let_def out dec_text_def frac_text_def n_def dig_def)
    moreover note c(1)
    moreover have "dec_val s [] (replicate n 0 @ strip0 D) = signed s (mant m1 m0 * 10 ^ nat e)" unfolding c(2) D(5) n(2) ..
    ultimately show ?thesis by blast
  next
    case 2
    note c = fraction_canon [OF D(1-4), of 0, unfolded replicate_0 append_Nil diff_zero]
    have "n2s_flt s e m1 m0 = dec_text s [] (strip0 D)"
      using 2 place_int [of 0 D] by (simp add: n2s_flt_def Let_def out dec_text_def)
    moreover have "canon [] (strip0 D)" by (rule c(1)) simp
    moreover have "dec_val s [] (strip0 D) = signed s (mant m1 m0 * 10 ^ nat e)" using c(2) [of s] D(5) 2 by simp
    ultimately show ?thesis by blast
  next
    case 3
    define n where "n = nat (e - 62)"
    have n: "e - 62 = int n" "0 < n" "n < 48" "nat e = n + 62" using 3 assms by (simp_all add: n_def)
    note c = integral_canon [OF D(1-4) n(2,3)]
    have "n2s_flt s e m1 m0 = dec_text s (take n D @ replicate (n - length D) 0) (strip0 (drop n D))"
      using place_int [of n D] n(1) by (simp add: n2s_flt_def Let_def out dec_text_def dig_def)
    moreover note c(1)
    moreover have "dec_val s (take n D @ replicate (n - length D) 0) (strip0 (drop n D)) = signed s (mant m1 m0 * 10 ^ nat e)" unfolding c(2) D(5) n(4) ..
    ultimately show ?thesis by blast
  qed
qed

end
