(* ===== verification/Num_Str_Props.thy ===== *)
theory Num_Str_Props
  imports Num_Str_Canon
begin

text \<open>
  The contracts of the conversions: what \<open>n2s\<close> writes is canonical, \<open>s2n\<close> reads it back, \<open>val_iscan\<close> decides which strings are canonical, and
  \<open>s2n\<close> marks every other string as approximate.
\<close>

section \<open>The text of a number\<close>

lemma n2s_canon:
  assumes "num_ok u"
  shows "if mnum_val u = 0 then n2s u = [ch_zero]
    else \<exists>s is fs. n2s u = dec_text s is fs \<and> canon is fs \<and> dec_val s is fs = mnum_val u"
proof (cases u)
  case (MV_int m)
  then show ?thesis using assms n2s_int_canon [of m] by (auto simp: n2s_def)
next
  case (MV_nm s e m1 m0)
  have m: "mant_norm m1 m0" "EXPLO \<le> e" "e < EXPHI" using assms MV_nm by simp_all
  have v: "mnum_val u = signed s (mant m1 m0 * 10 ^ nat e)" unfolding MV_nm by (rule mnum_val_nm)
  have "0 < mant m1 m0" "m1 \<noteq> 0" using m(1) by (simp_all add: mant_norm_def)
  then have "mnum_val u \<noteq> 0" "n2s u = n2s_flt s e m1 m0" using v MV_nm by (simp_all add: n2s_def)
  then show ?thesis using n2s_flt_canon [OF m, of s] unfolding v by (metis (no_types))
qed

lemma s2n_zero: "s2n [ch_zero] = Inr (MV_int 0, False)"
  by code_simp

lemma n2s_read:
  assumes "num_ok u"
  shows "\<exists>r. s2n (n2s u) = Inr (r, False) \<and> num_ok r \<and> mnum_val r = mnum_val u"
  using n2s_canon [OF assms] s2n_canon by (auto simp: s2n_zero split: if_splits) metis

lemma canon_length:
  assumes "canon is fs"
  shows "length (dec_text s is fs) \<le> 62"
proof (cases "is = [] \<or> fs = []")
  case True
  then show ?thesis using assms by (cases "is = []") (auto simp: canon_def dec_text_def frac_text_def)
next
  case False
  then have "length (is @ fs) \<le> 18" using assms by (intro short_digits) (auto simp: canon_def last_ok_def)
  then show ?thesis by (simp add: dec_text_def frac_text_def)
qed

section \<open>Canonical texts are determined by their value\<close>

lemma digits_eq:
  assumes "digits xs" "digits ys" "length xs = length ys" "digval xs = digval ys"
  shows "xs = ys"
  using assms
proof (induction xs ys rule: list_induct2')
  case (4 x xs y ys)
  have r: "0 \<le> digval xs" "digval xs < 10 ^ length xs" "0 \<le> digval ys" "digval ys < 10 ^ length xs"
    using 4(2-4) digval_range [of xs] digval_range [of ys] by auto
  have e: "digval xs + x * 10 ^ length xs = digval ys + y * 10 ^ length xs" using 4(4,5) by simp
  have "(digval xs + x * 10 ^ length xs) div 10 ^ length xs = x" "(digval ys + y * 10 ^ length xs) div 10 ^ length xs = y"
    using r by simp_all
  then have "x = y" using e by simp
  then show ?case using 4 e by simp
qed simp_all

lemma digval_lead:
  assumes "digits ds" "ds \<noteq> []" "hd ds \<noteq> 0"
  shows "10 ^ (length ds - 1) \<le> digval ds"
proof (cases ds)
  case (Cons d es)
  have "1 * 10 ^ length es \<le> d * 10 ^ length es" using assms Cons by (intro mult_right_mono) (auto simp: is_digit_def)
  moreover have "0 \<le> digval es" using assms Cons digval_range [of es] by simp
  ultimately have "10 ^ length es \<le> d * 10 ^ length es + digval es" unfolding mult_1 by linarith
  then show ?thesis using Cons by simp
qed (use assms in simp)

lemma lead_length:
  assumes "digits xs" "digits ys" "xs \<noteq> []" "hd xs \<noteq> 0" "digval xs = digval ys"
  shows "length xs \<le> length ys"
proof -
  have "(10 :: int) ^ (length xs - 1) < 10 ^ length ys" using digval_lead [OF assms(1,3,4)] digval_range [OF assms(2)] assms(5) by linarith
  then have "length xs - 1 < length ys" by (simp add: power_strict_increasing_iff)
  then show ?thesis by simp
qed

lemma last_digit:
  assumes "digits ds" "ds \<noteq> []"
  shows "digval ds mod 10 = last ds"
proof -
  have "digval ds = digval (butlast ds) * 10 + last ds" using digval_append [of "butlast ds" "[last ds]"] assms(2) by simp
  moreover have "is_digit (last ds)" using assms by simp
  ultimately show ?thesis by (simp add: is_digit_def)
qed

text \<open>The fractions of equal values have the same number of digits.\<close>

lemma frac_length:
  assumes "digits is" "digits fs" "digits is'" "digits fs'" "last_ok fs'" "length fs < length fs'" "length fs' \<le> 80"
    and e: "digval (is @ fs) * 10 ^ (80 - length fs) = digval (is' @ fs') * 10 ^ (80 - length fs')"
  shows False
proof -
  have d: "80 - length fs = length fs' - length fs - 1 + 1 + (80 - length fs')" using assms(6,7) by simp
  have "digval (is @ fs) * 10 ^ (length fs' - length fs - 1) * 10 * 10 ^ (80 - length fs') = digval (is' @ fs') * 10 ^ (80 - length fs')"
    using e unfolding d power_add by (simp only: mult.assoc power_one_right)
  then have "digval (is' @ fs') = digval (is @ fs) * 10 ^ (length fs' - length fs - 1) * 10" by simp
  then have "digval (is' @ fs') mod 10 = 0" by simp
  moreover have "digval (is' @ fs') mod 10 = last (is' @ fs')" using assms(3,4,6) by (intro last_digit) auto
  moreover have "last (is' @ fs') = last fs'" "fs' \<noteq> []" using assms(6) by (auto simp: last_append)
  ultimately show False using assms(5) by (simp add: last_ok_def)
qed

lemma canon_facts:
  assumes "canon is fs"
  shows "digits is" "digits fs" "last_ok fs" "is \<noteq> [] \<Longrightarrow> hd is \<noteq> 0" "length fs \<le> 80" "0 < digval (is @ fs)" "is = [] \<Longrightarrow> fs \<noteq> []"
proof -
  show c: "digits is" "digits fs" "last_ok fs" "is \<noteq> [] \<Longrightarrow> hd is \<noteq> 0" "is = [] \<Longrightarrow> fs \<noteq> []" using assms by (auto simp: canon_def split: if_splits)
  have "length (dec_text False is fs) \<le> 62" by (rule canon_length [OF assms])
  then show "length fs \<le> 80" by (cases "fs = []") (simp_all add: dec_text_def frac_text_def)
  have "\<exists>d \<in> set (is @ fs). d \<noteq> 0"
  proof (cases "is = []")
    case True
    then have "last fs \<in> set fs" "last fs \<noteq> 0" using c(3,5) by (simp_all add: last_ok_def)
    then show ?thesis by auto
  next
    case False
    then show ?thesis using c(4) by (auto intro: bexI [of _ "hd is"])
  qed
  then have "digval (is @ fs) \<noteq> 0" using c(1,2) digval_zero_iff [of "is @ fs"] by auto
  moreover have "0 \<le> digval (is @ fs)" using c(1,2) digval_range [of "is @ fs"] by auto
  ultimately show "0 < digval (is @ fs)" by simp
qed

text \<open>
  C35: The text of a number is not empty and fits into the \<open>MAX_NUM_SIZE\<close> bytes that \<open>n2s\<close> reserves for it in the string pool.
\<close>

theorem n2s_length:
  assumes "num_ok u"
  shows "n2s u \<noteq> [] \<and> length (n2s u) < MAX_NUM_SIZE"
proof (cases "mnum_val u = 0")
  case True
  then show ?thesis using n2s_canon [OF assms] by (simp add: MAX_NUM_SIZE_def)
next
  case False
  then obtain s ds fs where t: "n2s u = dec_text s ds fs" "canon ds fs" using n2s_canon [OF assms] by auto
  then have "ds \<noteq> [] \<or> fs \<noteq> []" using canon_facts(7) by blast
  then show ?thesis using t canon_length [OF t(2), of s] by (auto simp: MAX_NUM_SIZE_def dec_text_def frac_text_def)
qed

lemma canon_unique:
  assumes c: "canon is fs" "canon is' fs'" and e: "dec_val s is fs = dec_val s' is' fs'"
  shows "dec_text s is fs = dec_text s' is' fs'"
proof -
  note f = canon_facts [OF c(1)] canon_facts [OF c(2)]
  have p: "0 < digval (is @ fs) * 10 ^ (80 - length fs)" "0 < digval (is' @ fs') * 10 ^ (80 - length fs')" using f(6,13) by simp_all
  have s: "s = s'" and v: "digval (is @ fs) * 10 ^ (80 - length fs) = digval (is' @ fs') * 10 ^ (80 - length fs')"
    using e p by (auto simp: dec_val_def split: if_splits)
  have l: "length fs = length fs'"
    using frac_length [OF f(1,2,8-10) _ f(12) v] frac_length [OF f(8,9,1-3) _ f(5) v [symmetric]] by (meson linorder_neqE_nat)
  then have d: "digval (is @ fs) = digval (is' @ fs')" using v by simp
  have "length (is @ fs) \<le> length (is' @ fs')" if "is \<noteq> []" using f that d by (intro lead_length) auto
  moreover have "length (is' @ fs') \<le> length (is @ fs)" if "is' \<noteq> []" using f that d by (intro lead_length) auto
  ultimately have "length is = length is'" using l by (cases "is = []"; cases "is' = []") auto
  then have "is @ fs = is' @ fs'" using f l d by (intro digits_eq) auto
  then show ?thesis using s l by simp
qed

theorem n2s_length_witness:
  "n2s (MV_nm True 20 123456789 123456789) \<noteq> [] \<and> length (n2s (MV_nm True 20 123456789 123456789)) < MAX_NUM_SIZE
   \<and> length (n2s (MV_nm True 20 123456789 123456789)) = 62"
proof -
  have "num_ok (MV_nm True 20 123456789 123456789)" by (simp add: mant_norm_def)
  from n2s_length [OF this] have "n2s (MV_nm True 20 123456789 123456789) \<noteq> [] \<and> length (n2s (MV_nm True 20 123456789 123456789)) < MAX_NUM_SIZE" .
  moreover have "length (n2s (MV_nm True 20 123456789 123456789)) = 62" by code_simp
  ultimately show ?thesis by simp
qed

section \<open>The test for canonical strings\<close>

lemma dig_digit_val:
  assumes "DIGIT b"
  shows "dig (digit_val b) = b" "is_digit (digit_val b)"
  using assms by (simp_all add: DIGIT_def dig_def digit_val_def is_digit_def)

lemma split_digits: "\<exists>ds c'. c = map dig ds @ c' \<and> digits ds \<and> stop_at c'"
proof (induction c)
  case Nil
  show ?case by (rule exI [of _ "[]"]) simp
next
  case (Cons b c)
  show ?case
  proof (cases "DIGIT b")
    case True
    obtain ds c' where "c = map dig ds @ c'" "digits ds" "stop_at c'" using Cons.IH by blast
    then have "b # c = map dig (digit_val b # ds) @ c' \<and> digits (digit_val b # ds) \<and> stop_at c'" using dig_digit_val [OF True] by simp
    then show ?thesis by blast
  next
    case False
    then have "b # c = map dig [] @ (b # c) \<and> digits [] \<and> stop_at (b # c)" by (simp add: stop_at_def)
    then show ?thesis by blast
  qed
qed

lemma split_zeros: "\<exists>n c'. c = replicate n ch_zero @ c' \<and> (c' = [] \<or> hd c' \<noteq> ch_zero)"
proof (induction c)
  case (Cons b c)
  show ?case
  proof (cases "b = ch_zero")
    case True
    then obtain n c' where "b # c = replicate (Suc n) ch_zero @ c' \<and> (c' = [] \<or> hd c' \<noteq> ch_zero)" using Cons.IH by auto
    then show ?thesis by blast
  qed (auto intro: exI [of _ 0])
qed simp

lemma can_digits_eval:
  assumes "digits ds" "stop_at c"
  shows "can_digits (map dig ds @ c) z n = (c, trail0 z ds, n + int (length ds))"
  using assms(1)
proof (induction ds arbitrary: z n)
  case Nil
  then show ?case using assms(2) by (cases c) (auto simp: stop_at_def)
qed simp

lemma trail0_strip:
  "trail0 i ds = (if strip0 ds = [] then i + int (length ds) else int (length ds) - int (length (strip0 ds)))"
  by (induction ds arbitrary: i) auto

lemma strip0_short: "length (strip0 ds) \<le> n \<longleftrightarrow> (\<forall>d \<in> set (drop n ds). d = 0)"
proof (induction ds arbitrary: n)
  case (Cons d ds)
  then show ?case using strip0_Nil [of ds] by (cases n) auto
qed simp

lemma strip0_hd: "ds \<noteq> [] \<Longrightarrow> hd ds \<noteq> 0 \<Longrightarrow> strip0 ds \<noteq> []"
  by (cases ds) auto

lemma significant:
  assumes "ds \<noteq> []" "hd ds \<noteq> 0"
  shows "int (length ds) - trail0 0 ds = int (length (strip0 ds))"
  using strip0_hd [OF assms] by (simp add: trail0_strip)

abbreviation (input) sign_text :: "bool \<Rightarrow> mstr" where
  "sign_text s \<equiv> (if s then [ch_minus] else [])"

lemma hd_digits: "digits ds \<Longrightarrow> ds \<noteq> [] \<Longrightarrow> hd (map dig ds @ c) = dig (hd ds) \<and> is_digit (hd ds)"
  by (cases ds) auto

lemma iscan_integral:
  assumes "digits ds" "ds \<noteq> []" "hd ds \<noteq> 0" "stop_at c" "\<not> (c \<noteq> [] \<and> hd c = ch_dot)"
  shows "val_iscan (sign_text s @ map dig ds @ c) \<longleftrightarrow> c = [] \<and> length (strip0 ds) \<le> 18 \<and> length ds < 48"
proof -
  let ?c = "map dig ds @ c"
  have h: "hd ?c = dig (hd ds)" "is_digit (hd ds)" "?c \<noteq> []" using hd_digits [OF assms(1,2), of c] assms(2) by auto
  have "val_iscan (sign_text s @ ?c) = can_end (sign_text s @ ?c) c False (int (length ds) - trail0 0 ds) (int (length ds))"
    using h assms(2,3,5) by (cases s) (auto simp: val_iscan_def Let_def can_digits_eval [OF assms(1,4)])
  then show ?thesis unfolding significant [OF assms(2,3)] by (auto simp: can_end_def Let_def)
qed

lemma iscan_point:
  assumes "digits ds" "ds \<noteq> []" "hd ds \<noteq> 0" "digits fs" "stop_at c"
  shows "val_iscan (sign_text s @ map dig ds @ ch_dot # map dig fs @ c) \<longleftrightarrow>
    c = [] \<and> fs \<noteq> [] \<and> last fs \<noteq> 0 \<and> length (strip0 (ds @ fs)) \<le> 18 \<and> length ds < 48"
proof -
  let ?c = "map dig ds @ ch_dot # map dig fs @ c"
  have h: "hd ?c = dig (hd ds)" "is_digit (hd ds)" "?c \<noteq> []" using hd_digits [OF assms(1,2), of "ch_dot # map dig fs @ c"] assms(2) by auto
  have st: "stop_at (ch_dot # map dig fs @ c)" by (simp add: stop_at_def)
  have "val_iscan (sign_text s @ ?c) = can_end (sign_text s @ ?c) c True (int (length (ds @ fs)) - trail0 0 (ds @ fs)) (int (length ds))"
    using h assms(3) by (cases s) (simp_all add: val_iscan_def Let_def can_digits_eval [OF assms(1) st] can_digits_eval [OF assms(4,5)] trail0_append)
  moreover have "int (length (ds @ fs)) - trail0 0 (ds @ fs) = int (length (strip0 (ds @ fs)))" using assms(2,3) by (intro significant) auto
  moreover have "fs \<noteq> [] \<Longrightarrow> is_digit (last fs)" using assms(4) by simp
  ultimately show ?thesis by (auto simp: can_end_def Let_def last_append last_map)
qed

lemma iscan_fraction:
  assumes "digits ds" "ds = [] \<or> hd ds \<noteq> 0" "stop_at c"
  shows "val_iscan (sign_text s @ ch_dot # replicate n ch_zero @ map dig ds @ c) \<longleftrightarrow>
    c = [] \<and> ds \<noteq> [] \<and> last ds \<noteq> 0 \<and> length ds \<le> 18 \<and> n \<le> 42"
proof -
  let ?c = "ch_dot # replicate n ch_zero @ map dig ds @ c"
  have "map dig ds @ c = [] \<or> hd (map dig ds @ c) \<noteq> ch_zero"
    using assms hd_digits [OF assms(1), of c] by (cases "ds = []") (auto simp: stop_at_def DIGIT_def)
  then have z: "skip_zeros (replicate n ch_zero @ map dig ds @ c) 0 = (map dig ds @ c, int n)" by (simp add: skip_zeros_replicate)
  have "val_iscan (sign_text s @ ?c) = can_end (sign_text s @ ?c) c True (int (length ds)) (- int n)"
    by (cases s) (simp_all add: val_iscan_def Let_def z can_digits_eval [OF assms(1,3)])
  moreover have "ds \<noteq> [] \<Longrightarrow> is_digit (last ds)" using assms(1) by simp
  moreover have "last (ch_dot # replicate n ch_zero) \<in> {ch_dot, ch_zero}" by (cases n) auto
  ultimately show ?thesis by (cases "ds = []") (auto simp: can_end_def Let_def last_append last_map)
qed

lemma iscan_other:
  assumes "c = [] \<or> hd c \<noteq> ch_dot \<and> \<not> (DIGIT (hd c) \<and> hd c \<noteq> ch_zero)" "c = [] \<or> s \<or> hd c \<noteq> ch_minus" "sign_text s @ c \<noteq> [ch_zero]"
  shows "\<not> val_iscan (sign_text s @ c)"
  using assms by (cases s; cases c) (auto simp: val_iscan_def Let_def)

text \<open>The shapes of a string that matter to the test.\<close>

lemma string_shapes:
  obtains (other) s c where "str = sign_text s @ c" "c = [] \<or> hd c \<noteq> ch_dot \<and> \<not> (DIGIT (hd c) \<and> hd c \<noteq> ch_zero)" "c = [] \<or> s \<or> hd c \<noteq> ch_minus"
  | (integral) s ds c where "str = sign_text s @ map dig ds @ c" "digits ds" "ds \<noteq> []" "hd ds \<noteq> 0" "stop_at c" "\<not> (c \<noteq> [] \<and> hd c = ch_dot)"
  | (point) s ds fs c where "str = sign_text s @ map dig ds @ ch_dot # map dig fs @ c" "digits ds" "ds \<noteq> []" "hd ds \<noteq> 0" "digits fs" "stop_at c"
  | (fraction) s n ds c where "str = sign_text s @ ch_dot # replicate n ch_zero @ map dig ds @ c" "digits ds" "ds = [] \<or> hd ds \<noteq> 0" "stop_at c"
proof -
  define s where "s = (str \<noteq> [] \<and> hd str = ch_minus)"
  define c where "c = (if s then tl str else str)"
  have str: "str = sign_text s @ c" "c = [] \<or> s \<or> hd c \<noteq> ch_minus" by (cases str; auto simp: s_def c_def)+
  consider "c = [] \<or> hd c \<noteq> ch_dot \<and> \<not> (DIGIT (hd c) \<and> hd c \<noteq> ch_zero)" | "c \<noteq> []" "DIGIT (hd c)" "hd c \<noteq> ch_zero" | b where "c = ch_dot # b"
    by (cases c) auto
  then show ?thesis
  proof cases
    case 1
    then show ?thesis using str by (intro other)
  next
    case 2
    obtain ds c' where d: "c = map dig ds @ c'" "digits ds" "stop_at c'" using split_digits by blast
    have n: "ds \<noteq> []" using 2 d by (auto simp: stop_at_def)
    moreover have "hd ds \<noteq> 0" using 2(3) hd_digits [OF d(2) n, of c'] d(1) by auto
    moreover obtain fs c'' where "tl c' = map dig fs @ c''" "digits fs" "stop_at c''" using split_digits by blast
    ultimately show ?thesis using str d integral [of s ds c'] point [of s ds fs c''] by (cases c') auto
  next
    case 3
    obtain n b' where b: "b = replicate n ch_zero @ b'" "b' = [] \<or> hd b' \<noteq> ch_zero" using split_zeros by blast
    obtain ds c' where d: "b' = map dig ds @ c'" "digits ds" "stop_at c'" using split_digits by blast
    have "ds = [] \<or> hd ds \<noteq> 0" using b(2) d(1) hd_digits [OF d(2), of c'] by (cases "ds = []") auto
    then show ?thesis using str 3 b d by (intro fraction) auto
  qed
qed

lemma canon_cases:
  "canon ds fs \<longleftrightarrow> digits ds \<and> digits fs \<and> last_ok fs \<and>
     (if ds = [] then \<exists>n es. fs = replicate n 0 @ es \<and> es \<noteq> [] \<and> hd es \<noteq> 0 \<and> length es \<le> 18 \<and> n \<le> 42
      else hd ds \<noteq> 0 \<and> length (strip0 (ds @ fs)) \<le> 18 \<and> length ds < 48)"
  by (simp add: canon_def strip0_short)

lemma canon_replicate:
  assumes "digits es" "es \<noteq> []" "hd es \<noteq> 0" "last es \<noteq> 0" "length es \<le> 18" "n \<le> 42"
  shows "canon [] (replicate n 0 @ es)"
  using assms by (auto simp: canon_def last_ok_def is_digit_def)

lemma val_iscan_text:
  assumes "canon ds fs"
  shows "val_iscan (dec_text s ds fs)"
proof (cases "ds = []")
  case True
  obtain n es where f: "fs = replicate n 0 @ es" "es \<noteq> []" "hd es \<noteq> 0" "length es \<le> 18" "n \<le> 42" using assms True by (auto simp: canon_def)
  have "digits es" "last es \<noteq> 0" using assms f by (auto simp: canon_def last_ok_def)
  then show ?thesis using iscan_fraction [of es "[]" s n] f True by (simp add: dec_text_def frac_text_def dig_def)
next
  case False
  note c = assms [unfolded canon_cases, unfolded if_not_P [OF False]]
  then show ?thesis using iscan_integral [of ds "[]" s] iscan_point [of ds fs "[]" s] False
    by (cases "fs = []") (auto simp: dec_text_def frac_text_def last_ok_def)
qed

lemma val_iscan_iff:
  "val_iscan str \<longleftrightarrow> str = [ch_zero] \<or> (\<exists>s ds fs. str = dec_text s ds fs \<and> canon ds fs)"
proof
  assume *: "val_iscan str"
  show "str = [ch_zero] \<or> (\<exists>s ds fs. str = dec_text s ds fs \<and> canon ds fs)"
  proof (cases str rule: string_shapes)
    case (other s c)
    then show ?thesis using * iscan_other by blast
  next
    case (integral s ds c)
    then have "c = []" "canon ds []" using * iscan_integral [OF integral(2-6), of s] by (auto simp: canon_cases last_ok_def)
    then have "str = dec_text s ds []" "canon ds []" using integral(1) by (simp_all add: dec_text_def frac_text_def)
    then show ?thesis by blast
  next
    case (point s ds fs c)
    then have "c = []" "fs \<noteq> []" "canon ds fs" using * iscan_point [OF point(2-6), of s] by (auto simp: canon_cases last_ok_def)
    then have "str = dec_text s ds fs" "canon ds fs" using point(1) by (simp_all add: dec_text_def frac_text_def)
    then show ?thesis by blast
  next
    case (fraction s n ds c)
    then have "c = []" "ds \<noteq> []" "canon [] (replicate n 0 @ ds)" using * iscan_fraction [OF fraction(2-4), of s n] canon_replicate [of ds n] by auto
    then have "str = dec_text s [] (replicate n 0 @ ds)" "canon [] (replicate n 0 @ ds)" using fraction(1) by (simp_all add: dec_text_def frac_text_def dig_def)
    then show ?thesis by blast
  qed
next
  assume "str = [ch_zero] \<or> (\<exists>s ds fs. str = dec_text s ds fs \<and> canon ds fs)"
  moreover have "val_iscan [ch_zero]" by (simp add: val_iscan_def)
  ultimately show "val_iscan str" using val_iscan_text by blast
qed

text \<open>A canonical string is the text of the number it is read as.\<close>

lemma canonical_read:
  assumes "val_iscan str"
  shows "\<exists>u. s2n str = Inr (u, False) \<and> num_ok u \<and> n2s u = str"
proof (cases "str = [ch_zero]")
  case True
  then show ?thesis by (auto simp: s2n_zero n2s_def)
next
  case False
  then obtain s ds fs where t: "str = dec_text s ds fs" "canon ds fs" using assms val_iscan_iff by blast
  then obtain u where u: "s2n str = Inr (u, False)" "num_ok u" "mnum_val u = dec_val s ds fs" using s2n_canon by blast
  then have "mnum_val u \<noteq> 0" using canon_facts(6) [OF t(2)] by (simp add: dec_val_def)
  then obtain s' ds' fs' where "n2s u = dec_text s' ds' fs'" "canon ds' fs'" "dec_val s' ds' fs' = mnum_val u" using n2s_canon [OF u(2)] by auto
  then show ?thesis using u t canon_unique by metis
qed

text \<open>
  C32: Writing a number and reading the text returns a number of the same value, without the approximation mark, and its text is the same again.
\<close>

theorem n2s_s2n:
  assumes "num_ok u"
  shows "\<exists>r. s2n (n2s u) = Inr (r, False) \<and> num_ok r \<and> mnum_val r = mnum_val u \<and> n2s r = n2s u"
proof -
  obtain r where r: "s2n (n2s u) = Inr (r, False)" "num_ok r" "mnum_val r = mnum_val u" using n2s_read [OF assms] by blast
  have "val_iscan (n2s u)" using n2s_canon [OF assms] by (auto simp: val_iscan_iff split: if_splits)
  then show ?thesis using r canonical_read by fastforce
qed

theorem n2s_s2n_witness:
  "(\<exists>r. s2n (n2s (MV_nm True 60 120000000 0)) = Inr (r, False) \<and> num_ok r \<and> mnum_val r = mnum_val (MV_nm True 60 120000000 0)
      \<and> n2s r = n2s (MV_nm True 60 120000000 0))
   \<and> n2s (MV_nm True 60 120000000 0) = [45, 46, 48, 48, 49, 50]"
proof (rule conjI)
  show "\<exists>r. s2n (n2s (MV_nm True 60 120000000 0)) = Inr (r, False) \<and> num_ok r \<and> mnum_val r = mnum_val (MV_nm True 60 120000000 0)
      \<and> n2s r = n2s (MV_nm True 60 120000000 0)"
    by (rule n2s_s2n) (simp add: mant_norm_def)
  show "n2s (MV_nm True 60 120000000 0) = [45, 46, 48, 48, 49, 50]" by code_simp
qed

text \<open>
  C33: \<open>val_iscan\<close> accepts exactly the texts that \<open>n2s\<close> writes: a string is a canonical number if and only if some number has it as its text.
\<close>

theorem val_iscan_n2s: "val_iscan str \<longleftrightarrow> (\<exists>u. num_ok u \<and> n2s u = str)"
proof
  assume "\<exists>u. num_ok u \<and> n2s u = str"
  then obtain u where "num_ok u" "n2s u = str" by blast
  then show "val_iscan str" using n2s_canon [of u] by (auto simp: val_iscan_iff split: if_splits)
qed (use canonical_read in blast)

end
