(* ===== verification/Num_Str_Any.thy ===== *)
theory Num_Str_Any
  imports Num_Str_Props
begin

text \<open>
  Reading an arbitrary string: \<open>s2n\<close> returns a well-formed number or the overflow error whatever the string holds, and leaves the number without
  the approximation mark exactly for the canonical strings.
\<close>

section \<open>The loops on any string\<close>

lemma skip_signs_any:
  assumes "skip_signs str k = (c, sg)"
  shows "k \<le> sg \<and> (c = [] \<or> hd c \<noteq> ch_minus \<and> hd c \<noteq> ch_plus) \<and> (sg = k \<longrightarrow> str = c) \<and> (sg = k + 1 \<longrightarrow> str = ch_minus # c)"
  using assms
proof (induction str k rule: skip_signs.induct)
  case (2 b str k)
  then show ?case by (auto split: if_splits)
qed auto

lemma skip_zeros_any:
  assumes "skip_zeros c k = (c', k')"
  obtains n where "c = replicate n ch_zero @ c'" "k' = k + int n" "c' = [] \<or> hd c' \<noteq> ch_zero"
proof -
  obtain n d where "c = replicate n ch_zero @ d" "d = [] \<or> hd d \<noteq> ch_zero" using split_zeros by blast
  then show ?thesis using assms that [of n] by (auto simp: skip_zeros_replicate)
qed

lemma scan_m1_any:
  assumes "scan_m1 n c m1 i z = (n', c', m1', i', z')"
  obtains A where "digits A" "c = map dig A @ c'" "length A \<le> n" "n' = n - length A" "m1' = m1 * 10 ^ length A + digval A" "i' = trail0 i A"
    "z' = z + int (length A)" "n' = 0 \<or> stop_at c'"
proof -
  obtain D d where d: "c = map dig D @ d" "digits D" "stop_at d" using split_digits by blast
  have "digits (take n D)" using d(2) by (auto dest: in_set_takeD)
  moreover have "map dig D @ d = map dig (take n D) @ map dig (drop n D) @ d" by (simp flip: map_append append_assoc)
  ultimately show ?thesis using assms that [of "take n D"] d scan_m1_digits [OF d(2,3), of n m1 i z] by (cases "length D \<le> n") auto
qed

lemma scan_m0_any:
  assumes "scan_m0 n c m0 z = (n', c', m0', z')"
  obtains A where "digits A" "c = map dig A @ c'" "length A \<le> n" "n' = n - length A" "m0' = m0 * 10 ^ length A + digval A"
    "z' = z + int (length A)" "n' = 0 \<or> stop_at c'"
proof -
  obtain D d where d: "c = map dig D @ d" "digits D" "stop_at d" using split_digits by blast
  have "digits (take n D)" using d(2) by (auto dest: in_set_takeD)
  moreover have "map dig D @ d = map dig (take n D) @ map dig (drop n D) @ d" by (simp flip: map_append append_assoc)
  ultimately show ?thesis using assms that [of "take n D"] d scan_m0_digits [OF d(2,3), of n m0 z] by (cases "length D \<le> n") auto
qed

lemma scan_idle:
  assumes "n = 0 \<or> stop_at c"
  shows "scan_m1 n c m1 i z = (n, c, m1, i, z)" "scan_m0 n c m0 z = (n, c, m0, z)"
  using assms by (cases c; auto simp: stop_at_def)+

lemma take_dot_cases:
  obtains (no) "take_dot n c dot y z = (c, dot, y)" | (dot) b where "take_dot n c dot y z = (b, True, z)" "c = ch_dot # b" "\<not> dot"
proof (cases "n > 0 \<and> c \<noteq> [] \<and> hd c = ch_dot \<and> \<not> dot")
  case True
  then show ?thesis using dot [of "tl c"] by (cases c) (auto simp: take_dot_def)
next
  case False
  then show ?thesis by (intro no) (simp add: take_dot_def)
qed

text \<open>The digits \<open>A\<close> before and \<open>B\<close> after the point that a word takes from \<open>c\<close>, leaving \<open>c'\<close>.\<close>

definition word_read :: "bool \<Rightarrow> bool \<Rightarrow> mstr \<Rightarrow> int list \<Rightarrow> int list \<Rightarrow> mstr \<Rightarrow> bool" where
  "word_read dot dot' c A B c' \<longleftrightarrow> digits A \<and> digits B \<and> length (A @ B) \<le> 9 \<and>
     (if dot' = dot then B = [] \<and> c = map dig A @ c' else dot' \<and> c = map dig A @ ch_dot # map dig B @ c')"

lemma s2n_first_any:
  assumes "s2n_first c dot y = (n, c', m1, i, dot', y', z)"
  obtains A B where "word_read dot dot' c A B c'" "n = 9 - length (A @ B)" "m1 = digval (A @ B)" "i = trail0 0 (A @ B)" "z = int (length A)"
    "y' = (if dot' = dot then y else int (length A))"
proof -
  obtain n1 c1 k1 i1 z1 where s1: "scan_m1 9 c 0 0 0 = (n1, c1, k1, i1, z1)" by (metis prod_cases5)
  from scan_m1_any [OF s1] obtain A where A: "digits A" "c = map dig A @ c1" "length A \<le> 9" "n1 = 9 - length A" "k1 = digval A" "i1 = trail0 0 A"
      "z1 = int (length A)" "n1 = 0 \<or> stop_at c1" by auto
  show ?thesis
  proof (cases rule: take_dot_cases [of n1 c1 dot y z1])
    case no
    then have "(n, c', m1, i, dot', y', z) = (n1, c1, k1, i1, dot, y, z1)"
      using assms by (simp add: s2n_first_def s1 scan_idle [OF A(8)])
    then show ?thesis using A by (intro that [of A "[]"]) (auto simp: word_read_def)
  next
    case (dot b)
    obtain n2 c2 k2 i2 z2 where s2: "scan_m1 n1 b k1 i1 z1 = (n2, c2, k2, i2, z2)" by (metis prod_cases5)
    from scan_m1_any [OF s2] obtain B where B: "digits B" "b = map dig B @ c2" "length B \<le> n1" "n2 = n1 - length B" "k2 = k1 * 10 ^ length B + digval B" "i2 = trail0 i1 B" by metis
    have "(n, c', m1, i, dot', y', z) = (n2, c2, k2, i2, True, z1, z1)" using assms dot by (simp add: s2n_first_def s1 s2)
    then show ?thesis using A B dot by (intro that [of A B]) (auto simp: word_read_def digval_append trail0_append)
  qed
qed

lemma s2n_second_any:
  obtains A B k c' dot' z' where "s2n_second c dot y z = Inr (c', dot', if dot' = dot then y else z + int (length A), z', word0 (A @ B))"
    "word_read dot dot' c A B (replicate k ch_zero @ c')" "z' = z + int (length A) + int k"
proof (cases "c = []")
  case True
  then show ?thesis by (intro that [of "[]" dot "[]" z "[]" 0]) (simp_all add: s2n_second_def word0_def word_read_def)
next
  case False
  obtain n1 c1 k1 z1 where s1: "scan_m0 9 c 0 z = (n1, c1, k1, z1)" by (metis prod_cases4)
  from scan_m0_any [OF s1] obtain A where A: "digits A" "c = map dig A @ c1" "length A \<le> 9" "n1 = 9 - length A" "k1 = digval A"
      "z1 = z + int (length A)" "n1 = 0 \<or> stop_at c1" by auto
  have p: "rd ten_pwr (int n) = Inr (10 ^ n)" if "n \<le> 9" for n using rd_ten_pwr [of "int n"] that by simp
  show ?thesis
  proof (cases rule: take_dot_cases [of n1 c1 dot y z1])
    case no
    obtain c3 z3 where s3: "skip_zeros c1 z1 = (c3, z3)" by fastforce
    from skip_zeros_any [OF s3] obtain k where k: "c1 = replicate k ch_zero @ c3" "z3 = z1 + int k" by blast
    have "rd ten_pwr (int n1) = Inr (10 ^ n1)" using A(4) by (intro p) simp
    then have "s2n_second c dot y z = Inr (c3, dot, y, z3, k1 * 10 ^ n1)" using False no s3 by (simp add: s2n_second_def s1 scan_idle [OF A(7)])
    then show ?thesis using A k by (intro that [of c3 dot A z3 "[]" k]) (simp_all add: word0_def word_read_def)
  next
    case (dot b)
    obtain n2 c2 k2 z2 where s2: "scan_m0 n1 b k1 z1 = (n2, c2, k2, z2)" by (metis prod_cases4)
    from scan_m0_any [OF s2] obtain B where B: "digits B" "b = map dig B @ c2" "length B \<le> n1" "n2 = n1 - length B" "k2 = k1 * 10 ^ length B + digval B" by metis
    obtain c3 z3 where s3: "skip_zeros c2 z1 = (c3, z3)" by fastforce
    from skip_zeros_any [OF s3] obtain k where k: "c2 = replicate k ch_zero @ c3" "z3 = z1 + int k" by blast
    have "rd ten_pwr (int n2) = Inr (10 ^ n2)" using A(4) B(4) by (intro p) simp
    then have "s2n_second c dot y z = Inr (c3, True, z1, z3, k2 * 10 ^ n2)" using False dot s3 by (simp add: s2n_second_def s1 s2)
    then show ?thesis using A B k dot by (intro that [of c3 True A z3 B k]) (simp_all add: word0_def word_read_def digval_append)
  qed
qed

section \<open>Storing the number\<close>

lemma s2n_store_any:
  assumes "0 \<le> m1" "m1 < 10 ^ (9 - k)" "m1 = 0 \<or> 10 ^ (8 - k) \<le> m1" "k \<le> 9" "0 \<le> i" "i \<le> 9" "0 \<le> m0" "m0 < MANT_HI"
  obtains (overflow) "s2n_store m1 m0 x (int k) i sign apx = Inl ERR_NUMOFLOW" "48 \<le> x"
  | (underflow) "s2n_store m1 m0 x (int k) i sign apx = Inr (MV_int 0, True)"
  | (number) u where "s2n_store m1 m0 x (int k) i sign apx = Inr (u, apx)" "num_ok u" "- 42 \<le> x" "x < 48"
proof (cases "m0 = 0 \<and> 6 \<ge> x \<and> 0 \<le> i + (x + int k - 6)")
  case True
  define j where "j = x + int k - 6"
  define neg where "neg = odd sign"
  have m: "m1 < MANT_HI" using assms(2) power_mono_int [of "9 - k" 9] by simp
  have j: "j \<le> int k" "- j \<le> 9" "- 42 \<le> x" "x < 48" using True assms(4-6) by (auto simp: j_def)
  show ?thesis
  proof (cases "j < 0")
    case less: True
    then have r: "rd ten_pwr (- j) = Inr (10 ^ nat (- j))" using j by (intro rd_ten_pwr) simp_all
    have q: "0 \<le> m1 div 10 ^ nat (- j)" "m1 div 10 ^ nat (- j) \<le> m1" using assms(1) by (simp_all add: pos_imp_zdiv_nonneg_iff int_div_le_self)
    have d: "m1 sdiv (10 ^ nat (- j)) = m1 div 10 ^ nat (- j)" "m1 sdiv - (10 ^ nat (- j)) = - (m1 div 10 ^ nat (- j))"
      using assms(1) by (auto simp: signed_divide_int_def sgn_if)
    have "s2n_store m1 m0 x (int k) i sign apx = Inr (MV_int (if neg then - (m1 div 10 ^ nat (- j)) else m1 div 10 ^ nat (- j)), apx)"
      using True less r d by (simp add: s2n_store_def Let_def j_def [symmetric] neg_def)
    then show ?thesis using q m j by (intro number) auto
  next
    case False
    then have r: "rd ten_pwr j = Inr (10 ^ nat j)" using j assms(4) by (intro rd_ten_pwr) simp_all
    have "m1 * 10 ^ nat j < 10 ^ (9 - k) * 10 ^ nat j" using assms(2) by simp
    also have "\<dots> \<le> 10 ^ 9" unfolding power_add [symmetric] using j assms(4) False by (intro power_mono_int) arith
    finally have q: "m1 * 10 ^ nat j < MANT_HI" "0 \<le> m1 * 10 ^ nat j" using assms(1) by simp_all
    have "s2n_store m1 m0 x (int k) i sign apx = Inr (MV_int (if neg then - (m1 * 10 ^ nat j) else m1 * 10 ^ nat j), apx)"
      using True False r by (simp add: s2n_store_def Let_def j_def [symmetric] neg_def)
    then show ?thesis using q j by (intro number) auto
  qed
next
  case False
  have r: "rd ten_pwr (int k) = Inr (10 ^ k)" using assms(4) rd_ten_pwr [of "int k"] by simp
  have st: "s2n_store m1 m0 x (int k) i sign apx =
    (if EXPLO > x + MV_XBIAS \<or> m1 * 10 ^ k = 0 then Inr (MV_int 0, True) else if EXPHI \<le> x + MV_XBIAS then Inl ERR_NUMOFLOW
     else Inr (MV_nm (odd sign) (x + MV_XBIAS) (m1 * 10 ^ k) m0, apx))"
    unfolding s2n_store_def Let_def if_not_P [OF False] r by simp
  show ?thesis
  proof (cases "m1 = 0")
    case True
    then show ?thesis using st by (intro underflow) simp
  next
    case nz: False
    then have k: "k \<le> 8" using assms(1-4) by (cases "k = 9") auto
    have "10 ^ (8 - k) * 10 ^ k \<le> m1 * 10 ^ k" "m1 * 10 ^ k < 10 ^ (9 - k) * 10 ^ k" using assms(2,3) nz by simp_all
    moreover have "8 - k + k = 8" "9 - k + k = 9" using k by simp_all
    ultimately have "10 ^ 8 \<le> m1 * 10 ^ k" "m1 * 10 ^ k < 10 ^ 9" by (simp_all only: power_add [symmetric])
    then have "mant_norm (m1 * 10 ^ k) m0" using assms(7,8) by (simp add: mant_norm_def)
    then show ?thesis using st nz overflow underflow number by (auto split: if_splits)
  qed
qed

section \<open>Strings read without rest\<close>

lemma zeros_dig: "replicate k ch_zero = map dig (replicate k 0)"
  by (simp add: dig_def)

lemma hd_dig_nonzero:
  assumes "digits D" "D \<noteq> []" "hd (map dig D @ c) \<noteq> ch_zero"
  shows "hd D \<noteq> 0"
  using hd_digits [OF assms(1,2), of c] assms(3) by auto

lemma last_zeros: "0 < k \<Longrightarrow> last (xs @ replicate k ch_zero) = ch_zero"
  by (cases k) (simp_all add: last_append)

text \<open>The string without its sign, \<open>c\<close>, starts with a point.\<close>

lemma exact_fraction:
  assumes "str = sign_text s @ ch_dot # replicate n ch_zero @ map dig D @ replicate k ch_zero" "digits D" "length D \<le> 18" "n \<le> 42"
    "map dig D @ replicate k ch_zero = [] \<or> hd (map dig D @ replicate k ch_zero) \<noteq> ch_zero" "last str \<noteq> ch_zero" "last str \<noteq> ch_dot"
  shows "val_iscan str"
proof -
  have "k = 0" using assms(1,6) last_zeros [of k "sign_text s @ ch_dot # replicate n ch_zero @ map dig D"] by (cases "k = 0") simp_all
  moreover have "D \<noteq> []"
  proof
    assume "D = []"
    then have "last str \<in> {ch_zero, ch_dot}" using assms(1) \<open>k = 0\<close> by (cases n) (auto simp: last_append)
    then show False using assms(6,7) by simp
  qed
  moreover from this have "hd D \<noteq> 0" using assms(2,5) hd_dig_nonzero [of D] by auto
  moreover have "last str = dig (last D)" "is_digit (last D)" using assms(1,2) \<open>k = 0\<close> \<open>D \<noteq> []\<close> by (simp_all add: last_append last_map)
  ultimately show ?thesis using iscan_fraction [of D "[]" s n] assms by simp
qed

lemma exact_point:
  assumes "str = sign_text s @ map dig D @ ch_dot # map dig F @ replicate k ch_zero" "digits D" "digits F" "length (D @ F) \<le> 18" "length D < 48"
    "hd (map dig D @ ch_dot # map dig F @ replicate k ch_zero) \<noteq> ch_zero" "D \<noteq> []" "last str \<noteq> ch_zero" "last str \<noteq> ch_dot"
  shows "val_iscan str"
proof -
  have "k = 0" using assms(1,8) last_zeros [of k "sign_text s @ map dig D @ ch_dot # map dig F"] by (cases "k = 0") simp_all
  moreover from this have "F \<noteq> []" using assms(1,9) by (auto simp: last_append)
  moreover have "hd D \<noteq> 0" by (rule hd_dig_nonzero [OF assms(2,7,6)])
  moreover have "last str = dig (last F)" "is_digit (last F)" using assms(1,3) \<open>k = 0\<close> \<open>F \<noteq> []\<close> by (simp_all add: last_append last_map)
  moreover have "length (strip0 (D @ F)) \<le> 18" using strip0_zeros [of "D @ F"] assms(4) by linarith
  ultimately show ?thesis using iscan_point [of D F "[]" s] assms by simp
qed

lemma exact_integral:
  assumes "str = sign_text s @ map dig D @ replicate k ch_zero" "digits D" "length D \<le> 18" "length D + k < 48"
    "hd (map dig D @ replicate k ch_zero) \<noteq> ch_zero" "length D + k \<noteq> 0"
  shows "val_iscan str"
proof -
  let ?D = "D @ replicate k 0"
  have t: "map dig D @ replicate k ch_zero = map dig ?D @ []" by (simp add: zeros_dig)
  have d: "digits ?D" "?D \<noteq> []" using assms(2,6) by (auto simp: is_digit_def)
  moreover have "hd ?D \<noteq> 0" by (rule hd_dig_nonzero [OF d, of "[]"]) (use assms(5) t in simp)
  moreover have "length (strip0 ?D) \<le> 18" unfolding strip0_short using assms(3) by (auto dest: in_set_dropD)
  ultimately show ?thesis using iscan_integral [of ?D "[]" s] assms(1,4) t by simp
qed

text \<open>\<open>c\<close> is the string after its sign, \<open>b\<close> what follows an initial point and its \<open>y0\<close> zeros; two words are read and zeros follow them.\<close>

lemma exact_shape:
  assumes str: "str = sign_text s @ c" and c: "c = [] \<or> hd c \<noteq> ch_zero"
    and b: "(if dot0 then tl c else c) = replicate y0 ch_zero @ b" "b = [] \<or> hd b \<noteq> ch_zero" and dot0: "dot0 = (c \<noteq> [] \<and> hd c = ch_dot)"
    and w: "word_read dot0 dot1 b A B c1" "word_read dot1 dot c1 A' B' (replicate k ch_zero)"
    and l: "\<not> (dot \<and> (last str = ch_zero \<or> last str = ch_dot))"
    and y: "y1 = (if dot1 = dot0 then - int y0 else int (length A))" "y = (if dot = dot1 then y1 else int (length A) + int (length A'))"
    and z: "z = int (length A) + int (length A') + int k" "z \<noteq> 0 \<or> y \<noteq> 0"
    and x: "- 42 \<le> (if dot then y else z)" "(if dot then y else z) < 48"
  shows "val_iscan str"
proof (cases dot0)
  case True
  then have d: "dot1" "dot" using w by (auto simp: word_read_def split: if_splits)
  have cc: "c = ch_dot # replicate y0 ch_zero @ b" using True dot0 b(1) by (cases c) auto
  have "b = map dig (A @ A') @ replicate k ch_zero" "digits (A @ A')" "length (A @ A') \<le> 18" using w True d by (auto simp: word_read_def)
  then show ?thesis using str cc b(2) l d y x True by (intro exact_fraction [of str s y0 "A @ A'" k]) auto
next
  case False
  have y0: "y0 = 0" "c = b" using False b(1) c by (cases y0; auto)+
  have nd: "b = [] \<or> hd b \<noteq> ch_dot" using dot0 False y0 by auto
  consider "\<not> dot" | "dot1" "dot" | "\<not> dot1" "dot" by blast
  then show ?thesis
  proof cases
    case 1
    then have "\<not> dot1" using w by (auto simp: word_read_def split: if_splits)
    then have t: "b = map dig (A @ A') @ replicate k ch_zero" "digits (A @ A')" "length (A @ A') \<le> 18" using w False 1 by (auto simp: word_read_def)
    have n: "length (A @ A') + k \<noteq> 0" using z y y0 1 \<open>\<not> dot1\<close> False by auto
    then have "hd (map dig (A @ A') @ replicate k ch_zero) \<noteq> ch_zero" using b(2) t(1) by auto
    then show ?thesis using str y0 t n x(2) z(1) 1 by (intro exact_integral [of str s "A @ A'" k]) auto
  next
    case 2
    then have t: "b = map dig A @ ch_dot # map dig (B @ A') @ replicate k ch_zero" "digits A" "digits (B @ A')" "length (A @ B @ A') \<le> 18"
      using w False by (auto simp: word_read_def)
    moreover have "A \<noteq> []" using nd t(1) by auto
    moreover have "hd (map dig A @ ch_dot # map dig (B @ A') @ replicate k ch_zero) \<noteq> ch_zero" using b(2) t(1) by auto
    ultimately show ?thesis using str y0 l 2 by (intro exact_point [of str s A "B @ A'" k]) auto
  next
    case 3
    then have t: "b = map dig (A @ A') @ ch_dot # map dig B' @ replicate k ch_zero" "digits (A @ A')" "digits B'" "length ((A @ A') @ B') \<le> 18"
      using w False by (auto simp: word_read_def)
    moreover have "A @ A' \<noteq> []" using nd t(1) by auto
    moreover have "hd (map dig (A @ A') @ ch_dot # map dig B' @ replicate k ch_zero) \<noteq> ch_zero" using b(2) t(1) by auto
    ultimately show ?thesis using str y0 l 3 by (intro exact_point [of str s "A @ A'" B' k]) auto
  qed
qed

section \<open>Any string\<close>

text \<open>The first word of a number starts with a digit that is not zero.\<close>

lemma lead_digit:
  assumes "word_read dot0 dot1 b A B c1" "b = [] \<or> hd b \<noteq> ch_zero" "\<not> dot0 \<longrightarrow> b = [] \<or> hd b \<noteq> ch_dot"
  shows "A @ B = [] \<or> hd (A @ B) \<noteq> 0"
proof (cases "A = []")
  case True
  then show ?thesis using assms by (auto simp: word_read_def split: if_splits)
next
  case False
  then have "hd A \<noteq> 0" using assms(1,2) hd_dig_nonzero [of A] by (fastforce simp: word_read_def split: if_splits)
  then show ?thesis using False by simp
qed

lemma first_word:
  assumes "digits W" "length W \<le> 9" "W = [] \<or> hd W \<noteq> 0"
  shows "0 \<le> digval W" "digval W < 10 ^ (9 - (9 - length W))" "digval W = 0 \<or> 10 ^ (8 - (9 - length W)) \<le> digval W"
    "0 \<le> trail0 0 W" "trail0 0 W \<le> 9"
proof -
  show "0 \<le> digval W" "digval W < 10 ^ (9 - (9 - length W))" using digval_range [OF assms(1)] assms(2) by simp_all
  have "8 - (9 - length W) = length W - 1" if "W \<noteq> []" using that assms(2) by (cases W) simp_all
  then show "digval W = 0 \<or> 10 ^ (8 - (9 - length W)) \<le> digval W" using digval_lead [OF assms(1)] assms(3) by (cases "W = []") simp_all
  show "0 \<le> trail0 0 W" "trail0 0 W \<le> 9" using trail0_range [of 0 W] assms(2) by simp_all
qed

lemma word0_range:
  assumes "digits W" "length W \<le> 9"
  shows "0 \<le> word0 W" "word0 W < MANT_HI"
proof -
  have "digval W * 10 ^ (9 - length W) < 10 ^ length W * 10 ^ (9 - length W)" using digval_range [OF assms(1)] by simp
  also have "\<dots> = MANT_HI" unfolding power_add [symmetric] using assms(2) by simp
  finally show "word0 W < MANT_HI" using assms(2) by (simp add: word0_def)
  show "0 \<le> word0 W" using digval_range [OF assms(1)] assms(2) by (simp add: word0_def)
qed

text \<open>A string either has no digits or is stored from two words; without the approximation mark it is canonical as soon as it is in range.\<close>

lemma s2n_any:
  assumes "str \<noteq> []"
  obtains (empty) "s2n str = Inr (MV_int 0, True)"
  | (stored) W W' x sign apx where
    "s2n str = s2n_store (digval W) (word0 W') x (int (9 - length W)) (trail0 0 W) sign apx"
    "digits W" "length W \<le> 9" "W = [] \<or> hd W \<noteq> 0" "digits W'" "length W' \<le> 9" "\<not> apx \<Longrightarrow> - 42 \<le> x \<Longrightarrow> x < 48 \<Longrightarrow> val_iscan str"
proof -
  obtain c sign where sg: "skip_signs str 0 = (c, sign)" by fastforce
  obtain c0 zero where z: "skip_zeros c 0 = (c0, zero)" by fastforce
  define dot0 where "dot0 = (c0 \<noteq> [] \<and> hd c0 = ch_dot)"
  obtain b y0' where b: "skip_zeros (if dot0 then tl c0 else c0) 0 = (b, y0')" by fastforce
  obtain n c1 m1 i dot1 y1 z1 where f: "s2n_first b dot0 (- y0') = (n, c1, m1, i, dot1, y1, z1)" by (metis prod_cases7)
  from s2n_first_any [OF f] obtain A B where 1: "word_read dot0 dot1 b A B c1" "n = 9 - length (A @ B)" "m1 = digval (A @ B)" "i = trail0 0 (A @ B)"
    "z1 = int (length A)" "y1 = (if dot1 = dot0 then - y0' else int (length A))" by metis
  obtain A' B' k c2 dot z2 where 2: "s2n_second c1 dot1 y1 z1 = Inr (c2, dot, if dot = dot1 then y1 else z1 + int (length A'), z2, word0 (A' @ B'))"
    "word_read dot1 dot c1 A' B' (replicate k ch_zero @ c2)" "z2 = z1 + int (length A') + int k" by (rule s2n_second_any [of c1 dot1 y1 z1])
  define y where "y = (if dot = dot1 then y1 else z1 + int (length A'))"
  obtain c3 z3 where sk: "skip_digits dot dot c2 z2 = (c3, z3)" by fastforce
  define apx where "apx = (c2 \<noteq> [] \<or> dot \<and> (last str = ch_zero \<or> last str = ch_dot) \<or> 1 < sign \<or> zero \<noteq> 0 \<and> length str \<noteq> 1)"
  define digit where "digit = (z3 \<noteq> 0 \<or> y \<noteq> 0 \<or> zero \<noteq> 0)"
  define x where "x = s2n_exp (c3 \<noteq> [] \<and> hd c3 = ch_E \<and> digit) c3 + (if dot then y else z3)"
  have ev: "s2n str = (if digit then s2n_store m1 (word0 (A' @ B')) x (int n) i sign apx else Inr (MV_int 0, True))"
    unfolding s2n_def Let_def if_not_P [OF assms] sg prod.case z dot0_def [symmetric] b f 2(1) res_bind_simps y_def [symmetric] sk digit_def [symmetric] x_def apx_def
    by (simp add: disj_assoc)
  from skip_zeros_any [OF z] obtain nz where nz: "c = replicate nz ch_zero @ c0" "zero = int nz" "c0 = [] \<or> hd c0 \<noteq> ch_zero" by auto
  from skip_zeros_any [OF b] obtain y0 where y0: "(if dot0 then tl c0 else c0) = replicate y0 ch_zero @ b" "y0' = int y0" "b = [] \<or> hd b \<noteq> ch_zero" by auto
  have lead: "A @ B = [] \<or> hd (A @ B) \<noteq> 0"
  proof (rule lead_digit [OF 1(1) y0(3)], rule impI)
    assume "\<not> dot0"
    then show "b = [] \<or> hd b \<noteq> ch_dot" using y0(1) nz(3) by (cases y0) (auto simp: dot0_def)
  qed
  have exact: "val_iscan str" if "\<not> apx" "- 42 \<le> x" "x < 48" digit
  proof (cases "nz = 0")
    case False
    then have "length str = 1" using that(1) nz(2) by (simp add: apx_def)
    moreover have "length c \<noteq> 0" using nz(1) False by simp
    ultimately have "str = c \<and> c = [ch_zero]" using skip_signs_any [OF sg] that(1) nz(1) False
      by (cases nz) (auto simp: apx_def length_Suc_conv)
    then show ?thesis by (simp add: val_iscan_def)
  next
    case True
    have c2: "c2 = []" "c3 = []" "z3 = z2" using that(1) sk by (simp_all add: apx_def)
    have "sign = 0 \<or> sign = 1" using that(1) skip_signs_any [OF sg] by (auto simp: apx_def)
    then have str: "str = sign_text (sign = 1) @ c0" using skip_signs_any [OF sg] nz(1) True by auto
    have xe: "x = (if dot then y else z2)" using c2 by (simp add: x_def s2n_exp_def)
    show ?thesis
    proof (rule exact_shape [OF str nz(3) y0(1,3) dot0_def 1(1), of dot A' B' k y1 y z2])
      show "word_read dot1 dot c1 A' B' (replicate k ch_zero)" using 2(2) c2(1) by simp
      show "\<not> (dot \<and> (last str = ch_zero \<or> last str = ch_dot))" using that(1) by (auto simp: apx_def)
      show "z2 \<noteq> 0 \<or> y \<noteq> 0" using that(4) c2 True nz(2) by (simp add: digit_def)
      show "- 42 \<le> (if dot then y else z2)" "(if dot then y else z2) < 48" using that(2,3) unfolding xe by simp_all
    qed (use 1 2 y0 in \<open>simp_all add: y_def\<close>)
  qed
  show ?thesis
  proof (cases digit)
    case True
    have "digits (A @ B)" "length (A @ B) \<le> 9" "digits (A' @ B')" "length (A' @ B') \<le> 9" using 1(1) 2(2) by (auto simp: word_read_def)
    moreover have "s2n str = s2n_store (digval (A @ B)) (word0 (A' @ B')) x (int (9 - length (A @ B))) (trail0 0 (A @ B)) sign apx"
      using ev True 1(2-4) by simp
    ultimately show ?thesis using stored lead exact True by blast
  qed (use ev empty in simp)
qed

lemma s2n_number:
  "case s2n str of Inl e \<Rightarrow> e = ERR_NUMOFLOW | Inr (u, apx) \<Rightarrow> num_ok u"
proof (cases "str = []")
  case True
  then show ?thesis by (simp add: s2n_def)
next
  case False
  then show ?thesis
  proof (cases str rule: s2n_any)
    case (stored W W' x sign apx)
    show ?thesis
      by (cases rule: s2n_store_any [OF first_word(1-3) [OF stored(2-4)] _ first_word(4,5) [OF stored(2-4)] word0_range [OF stored(5,6)], of x sign apx])
        (simp_all add: stored(1))
  qed (simp_all add: False)
qed

text \<open>
  C34: \<open>s2n\<close> leaves \<open>MV_NUM_APPROX\<close> unset exactly for the strings \<open>val_iscan\<close> accepts, so that both ways of \<open>MV_IS_CANONICAL\<close>, the mark of a string
  already converted and the test of one that is not, agree.
\<close>

theorem s2n_exact: "(\<exists>u. s2n str = Inr (u, False)) \<longleftrightarrow> val_iscan str"
proof
  assume "\<exists>u. s2n str = Inr (u, False)"
  then obtain u where u: "s2n str = Inr (u, False)" by blast
  then have "str \<noteq> []" by (auto simp: s2n_def)
  then show "val_iscan str"
  proof (cases str rule: s2n_any)
    case (stored W W' x sign apx)
    show ?thesis
      by (cases rule: s2n_store_any [OF first_word(1-3) [OF stored(2-4)] _ first_word(4,5) [OF stored(2-4)] word0_range [OF stored(5,6)], of x sign apx])
        (use stored u in auto)
  qed (use u in simp)
qed (use canonical_read in blast)

end
