(* ===== verification/Op_Arith.thy ===== *)
theory Op_Arith
  imports Op_Muldiv Num_Str_Any
begin

text \<open>
  The arithmetic operators on values of any kind: \<open>op_add\<close>, \<open>op_sub\<close>, \<open>op_mul\<close>, \<open>op_div\<close> and \<open>op_idiv\<close> with the conversion of their operands by
  \<open>MV_FORCE_NUM\<close> (\<open>sr_port/mdef.h\<close>), undefined values and \<open>$ZYSQLNULL\<close> included.
\<close>

section \<open>Operands\<close>

definition MV_FORCE_DEFINED :: "bool \<Rightarrow> mval \<Rightarrow> mval res" where
  "MV_FORCE_DEFINED undef_inhibit v = (if v = MV_undef then (if undef_inhibit then Inr (MV_str []) else Inl ERR_LVUNDEF) else Inr v)"

definition MV_FORCE_NUM :: "bool \<Rightarrow> mval \<Rightarrow> mnum res" where
  "MV_FORCE_NUM undef_inhibit v =
     res_bind (MV_FORCE_DEFINED undef_inhibit v) (\<lambda>v. case v of
         MV_num u \<Rightarrow> Inr u
       | MV_str str \<Rightarrow> res_bind (s2n str) (\<lambda>(u, apx). Inr u)
       | MV_sqlnull \<Rightarrow> Inl ERR_ZYSQLNULLNOTVALID
       | MV_undef \<Rightarrow> Inl AssertFailed)"

text \<open>What the operators do before they compute with numbers.\<close>

definition arith_operands :: "(mnum \<Rightarrow> mnum \<Rightarrow> mnum res) \<Rightarrow> bool \<Rightarrow> mval \<Rightarrow> mval \<Rightarrow> mval res" where
  "arith_operands f undef_inhibit u v =
     (if u = MV_sqlnull \<or> v = MV_sqlnull
      then res_bind (MV_FORCE_DEFINED undef_inhibit u) (\<lambda>_. res_bind (MV_FORCE_DEFINED undef_inhibit v) (\<lambda>_. Inr MV_sqlnull))
      else
        res_bind (MV_FORCE_NUM undef_inhibit u) (\<lambda>u.
        res_bind (MV_FORCE_NUM undef_inhibit v) (\<lambda>v.
        res_bind (f u v) (\<lambda>r. Inr (MV_num r)))))"

definition op_add :: "bool \<Rightarrow> mval \<Rightarrow> mval \<Rightarrow> mval res" where
  "op_add = arith_operands op_add_num"

definition op_sub :: "bool \<Rightarrow> mval \<Rightarrow> mval \<Rightarrow> mval res" where
  "op_sub = arith_operands op_sub_num"

definition op_mul :: "bool \<Rightarrow> mval \<Rightarrow> mval \<Rightarrow> mval res" where
  "op_mul = arith_operands op_mul_num"

definition op_div :: "bool \<Rightarrow> mval \<Rightarrow> mval \<Rightarrow> mval res" where
  "op_div = arith_operands op_div_num"

definition op_idiv :: "bool \<Rightarrow> mval \<Rightarrow> mval \<Rightarrow> mval res" where
  "op_idiv = arith_operands op_idiv_num"

section \<open>Results\<close>

text \<open>A value whose number, if it has one, is well-formed.\<close>

fun mval_ok :: "mval \<Rightarrow> bool" where
  "mval_ok (MV_num u) \<longleftrightarrow> num_ok u"
| "mval_ok v \<longleftrightarrow> True"

text \<open>What an operation on numbers returns, for whether it divides by zero and whether its result is out of range.\<close>

definition num_result :: "bool \<Rightarrow> bool \<Rightarrow> mnum res \<Rightarrow> bool" where
  "num_result zero ovf res \<longleftrightarrow>
     (if zero then res = Inl ERR_DIVZERO else if ovf then res = Inl ERR_NUMOFLOW else \<exists>r. res = Inr r \<and> num_ok r)"

lemma num_result_quot: "quot_result s N D res \<Longrightarrow> num_result False (10 ^ 127 * D \<le> N) res"
  by (auto simp: quot_result_def num_result_def split: if_splits)

lemma num_result_idiv: "idiv_result s I res \<Longrightarrow> num_result False (10 ^ 47 \<le> I) res"
  by (auto simp: idiv_result_def num_result_def split: if_splits)

lemma num_result_sum: "sum_result T E res \<Longrightarrow> num_result False (10 ^ 127 \<le> \<bar>T\<bar>) res"
  by (auto simp: sum_result_def num_result_def split: if_splits)

text \<open>Every number but zero has a leading digit.\<close>

lemma leading_place:
  assumes "num_ok u" "mnum_val u \<noteq> 0"
  shows "\<exists>E. 10 ^ (17 + E) \<le> \<bar>mnum_val u\<bar> \<and> \<bar>mnum_val u\<bar> < 10 ^ (18 + E)"
proof -
  obtain s e m1 m0 where u: "mant_norm m1 m0" "mnum_val u = signed s (mant m1 m0 * 10 ^ nat e)" using unpack_spec [OF assms(1)] assms(2) by auto
  have m: "10 ^ 17 \<le> mant m1 m0" "mant m1 m0 < 10 ^ 18" using u(1) by (auto simp: mant_norm_def)
  have "\<bar>mnum_val u\<bar> = mant m1 m0 * 10 ^ nat e" unfolding u(2) using m(1) by (cases s) (simp_all add: abs_mult)
  moreover have "10 ^ 17 * 10 ^ nat e \<le> mant m1 m0 * 10 ^ nat e" "mant m1 m0 * 10 ^ nat e < 10 ^ 18 * 10 ^ nat e"
    using m by (simp_all only: mult_le_cancel_right_pos mult_less_cancel_right_pos zero_less_power zero_less_numeral)
  ultimately show ?thesis unfolding power_add [symmetric] by metis
qed

lemma add_mvals_type:
  assumes "num_ok u" "num_ok v"
  shows "num_result False (10 ^ 127 \<le> \<bar>mnum_val u + signed sub (mnum_val v)\<bar>) (add_mvals u v sub)"
proof (cases "mnum_val u = 0 \<and> mnum_val v = 0")
  case True
  then have "u = MV_int 0" "v = MV_int 0" using assms num_ok_zero by blast+
  then show ?thesis by (simp add: add_mvals_def num_result_def)
next
  case False
  have "\<exists>E. 10 ^ (17 + E) \<le> max \<bar>mnum_val u\<bar> \<bar>mnum_val v\<bar> \<and> max \<bar>mnum_val u\<bar> \<bar>mnum_val v\<bar> < 10 ^ (18 + E)"
  proof (cases "\<bar>mnum_val v\<bar> \<le> \<bar>mnum_val u\<bar>")
    case True
    then have "mnum_val u \<noteq> 0" "max \<bar>mnum_val u\<bar> \<bar>mnum_val v\<bar> = \<bar>mnum_val u\<bar>" using False by auto
    then show ?thesis using leading_place [OF assms(1)] by simp
  next
    case le: False
    then have "mnum_val v \<noteq> 0" "max \<bar>mnum_val u\<bar> \<bar>mnum_val v\<bar> = \<bar>mnum_val v\<bar>" by auto
    then show ?thesis using leading_place [OF assms(2)] by simp
  qed
  then show ?thesis using add_mvals_spec [OF assms] num_result_sum by blast
qed

lemma op_add_num_type:
  assumes "num_ok u" "num_ok v"
  shows "num_result False (10 ^ 127 \<le> \<bar>mnum_val u + mnum_val v\<bar>) (op_add_num u v)"
    and "num_result False (10 ^ 127 \<le> \<bar>mnum_val u - mnum_val v\<bar>) (op_sub_num u v)"
proof -
  have i: "num_result False (10 ^ 127 \<le> \<bar>mnum_val u + mnum_val v\<bar>) (Inr (int_result (a + b)))"
    "num_result False (10 ^ 127 \<le> \<bar>mnum_val u - mnum_val v\<bar>) (Inr (int_result (a - b)))" if "u = MV_int a" "v = MV_int b" for a b
  proof -
    have "num_ok (int_result (a + b)) \<and> mnum_val (int_result (a + b)) = mnum_val u + mnum_val v"
      "num_ok (int_result (a - b)) \<and> mnum_val (int_result (a - b)) = mnum_val u - mnum_val v"
      using int_result_exact [of "a + b"] int_result_exact [of "a - b"] assms that by (auto simp: distrib_right left_diff_distrib)
    then show "num_result False (10 ^ 127 \<le> \<bar>mnum_val u + mnum_val v\<bar>) (Inr (int_result (a + b)))"
      "num_result False (10 ^ 127 \<le> \<bar>mnum_val u - mnum_val v\<bar>) (Inr (int_result (a - b)))"
      using num_ok_less [of "int_result (a + b)"] num_ok_less [of "int_result (a - b)"] unfolding num_result_def by (metis not_le sum.inject(2))+
  qed
  show "num_result False (10 ^ 127 \<le> \<bar>mnum_val u + mnum_val v\<bar>) (op_add_num u v)"
    "num_result False (10 ^ 127 \<le> \<bar>mnum_val u - mnum_val v\<bar>) (op_sub_num u v)"
    using i add_mvals_type [OF assms, of False] add_mvals_type [OF assms, of True]
    by (auto simp: op_add_num_def op_sub_num_def simp del: mnum_val.simps split: mnum.splits)
qed

lemma op_mul_num_type:
  assumes "num_ok u" "num_ok v"
  shows "num_result False (10 ^ 127 * 10 ^ 80 \<le> \<bar>mnum_val u\<bar> * \<bar>mnum_val v\<bar>) (op_mul_num u v)"
proof (cases "case (u, v) of (MV_int a, MV_int b) \<Rightarrow> eb_int_mul a b | _ \<Rightarrow> None")
  case None
  then show ?thesis using num_result_quot [OF mul_flt_spec [OF assms]] by (simp add: op_mul_num_def)
next
  case (Some m)
  then obtain a b where uv: "u = MV_int a" "v = MV_int b" "eb_int_mul a b = Some m" by (cases u; cases v) auto
  then show ?thesis using num_result_quot [OF mul_int_spec] assms by (simp add: op_mul_num_def)
qed

lemma op_div_num_type:
  assumes "num_ok u" "num_ok v"
  shows "num_result (mnum_val v = 0) (10 ^ 127 * \<bar>mnum_val v\<bar> \<le> \<bar>mnum_val u\<bar> * 10 ^ 80) (op_div_num u v)"
proof (cases "v = MV_int 0")
  case True
  then show ?thesis by (simp add: op_div_num_def num_result_def)
next
  case False
  then have v: "mnum_val v \<noteq> 0" using assms(2) num_ok_zero by blast
  show ?thesis
  proof (cases "case (u, v) of (MV_int a, MV_int b) \<Rightarrow> eb_mvint_div a b | _ \<Rightarrow> None")
    case None
    then show ?thesis using num_result_quot [OF div_flt_spec [OF assms v]] False v by (simp add: op_div_num_def)
  next
    case (Some m)
    then obtain a b where uv: "u = MV_int a" "v = MV_int b" "eb_mvint_div a b = Some m" by (cases u; cases v) auto
    have r: "\<bar>a\<bar> < 10 ^ 9" "\<bar>b\<bar> < 10 ^ 9" "b \<noteq> 0" using assms(1,2) uv False by auto
    have "\<bar>m\<bar> < 10 ^ 9"
    proof (cases "\<bar>a\<bar> * 1000 mod \<bar>b\<bar> = 1 \<and> 998000000 \<le> \<bar>b\<bar>")
      case True
      have "\<bar>a\<bar> * 1000 div \<bar>b\<bar> \<le> \<bar>a\<bar> * 1000 div 998000000" using True by (intro zdiv_mono2) auto
      also have "\<dots> < 10 ^ 9" using r(1) by (intro int_div_less) auto
      finally show ?thesis using eb_mvint_div_spec [OF r] uv(3) by (auto simp: pos_imp_zdiv_nonneg_iff r(3) split: if_splits)
    next
      case no: False
      then show ?thesis using eb_mvint_div_spec [OF r] uv(3) by (auto simp: pos_imp_zdiv_nonneg_iff r(3) split: if_splits)
    qed
    then have "op_div_num u v = Inr (MV_int m)" "num_ok (MV_int m)" using uv False by (auto simp: op_div_num_def)
    moreover have "\<not> 10 ^ 127 * \<bar>mnum_val v\<bar> \<le> \<bar>mnum_val u\<bar> * 10 ^ 80" using r by (simp add: uv(1,2) abs_mult)
    ultimately show ?thesis using v by (auto simp: num_result_def)
  qed
qed

lemma op_idiv_num_type:
  assumes "num_ok u" "num_ok v"
  shows "num_result (mnum_val v = 0) (10 ^ 47 \<le> \<bar>mnum_val u\<bar> div \<bar>mnum_val v\<bar>) (op_idiv_num u v)"
proof (cases "v = MV_int 0")
  case True
  then show ?thesis by (simp add: op_idiv_num_def num_result_def)
next
  case False
  then have v: "mnum_val v \<noteq> 0" using assms(2) num_ok_zero by blast
  show ?thesis
  proof (cases "case (u, v) of (MV_int a, MV_int b) \<Rightarrow> eb_int_div a b | _ \<Rightarrow> None")
    case None
    then show ?thesis using num_result_idiv [OF idiv_flt_spec [OF assms v]] False v by (simp add: op_idiv_num_def)
  next
    case (Some m)
    then obtain a b where uv: "u = MV_int a" "v = MV_int b" "eb_int_div a b = Some m" by (cases u; cases v) auto
    then have "b \<noteq> 0" "num_ok (MV_int a)" "num_ok (MV_int b)" using assms False by auto
    then have "num_result False (10 ^ 47 \<le> \<bar>mnum_val u\<bar> div \<bar>mnum_val v\<bar>) (Inr (MV_int m))"
      using num_result_idiv [OF idiv_int_spec, of a b m] uv by simp
    then show ?thesis using uv False v by (simp add: op_idiv_num_def del: mnum_val.simps)
  qed
qed

section \<open>The operators\<close>

text \<open>
  The number that an operand stands for, and the error of an operand without one: an undefined value, or a string whose number is out of
  range.
\<close>

definition operand_number :: "bool \<Rightarrow> mval \<Rightarrow> mnum \<Rightarrow> bool" where
  "operand_number undef_inhibit v n \<longleftrightarrow> num_ok n \<and> (v = MV_num n \<or>
     (\<exists>str apx. (v = MV_str str \<or> v = MV_undef \<and> undef_inhibit \<and> str = []) \<and> s2n str = Inr (n, apx)))"

definition operand_error :: "bool \<Rightarrow> mval \<Rightarrow> ydb_err \<Rightarrow> bool" where
  "operand_error undef_inhibit v e \<longleftrightarrow> v = MV_undef \<and> \<not> undef_inhibit \<and> e = ERR_LVUNDEF
     \<or> (\<exists>str. v = MV_str str \<and> s2n str = Inl e \<and> e = ERR_NUMOFLOW)"

lemma force_num_cases:
  assumes "mval_ok v" "v \<noteq> MV_sqlnull"
  obtains (error) e where "MV_FORCE_NUM undef_inhibit v = Inl e" "operand_error undef_inhibit v e"
  | (number) n where "MV_FORCE_NUM undef_inhibit v = Inr n" "operand_number undef_inhibit v n" "num_ok n"
proof (cases v)
  case (MV_num n)
  then show ?thesis using that(2) [of n] assms(1) by (simp add: MV_FORCE_NUM_def MV_FORCE_DEFINED_def operand_number_def)
next
  case (MV_str str)
  then show ?thesis using that s2n_number [of str]
    by (cases "s2n str") (auto simp: MV_FORCE_NUM_def MV_FORCE_DEFINED_def operand_number_def operand_error_def)
next
  case MV_undef
  have "s2n [] = Inr (MV_int 0, snd (case s2n [] of Inr x \<Rightarrow> x))" by code_simp
  then show ?thesis using that(1) [of ERR_LVUNDEF] that(2) [of "MV_int 0"] MV_undef
    by (cases undef_inhibit) (auto simp: MV_FORCE_NUM_def MV_FORCE_DEFINED_def operand_number_def operand_error_def res_bind_def split: sum.splits)
qed (use assms in simp)

text \<open>
  The result of an operator. With a null operand it is the null value, unless the other operand is undefined, whatever its number is.
  Otherwise the first operand without a number decides the error, and for two numbers the divisor and the range of the result do.
\<close>

definition op_result :: "(int \<Rightarrow> bool) \<Rightarrow> (int \<Rightarrow> int \<Rightarrow> bool) \<Rightarrow> bool \<Rightarrow> mval \<Rightarrow> mval \<Rightarrow> mval res \<Rightarrow> bool" where
  "op_result zero ovf undef_inhibit u v res \<longleftrightarrow>
     (if u = MV_sqlnull \<or> v = MV_sqlnull
      then res = (if (u = MV_undef \<or> v = MV_undef) \<and> \<not> undef_inhibit then Inl ERR_LVUNDEF else Inr MV_sqlnull)
      else (\<exists>e. operand_error undef_inhibit u e \<and> res = Inl e)
        \<or> (\<exists>a e. operand_number undef_inhibit u a \<and> operand_error undef_inhibit v e \<and> res = Inl e)
        \<or> (\<exists>a b. operand_number undef_inhibit u a \<and> operand_number undef_inhibit v b
            \<and> (if zero (mnum_val b) then res = Inl ERR_DIVZERO
               else if ovf (mnum_val a) (mnum_val b) then res = Inl ERR_NUMOFLOW
               else \<exists>n. res = Inr (MV_num n) \<and> num_ok n)))"

text \<open>What the operators rely on: which errors the operation on numbers has, and that it returns a well-formed number otherwise.\<close>

locale number_operator =
  fixes f :: "mnum \<Rightarrow> mnum \<Rightarrow> mnum res" and zero :: "int \<Rightarrow> bool" and ovf :: "int \<Rightarrow> int \<Rightarrow> bool"
  assumes closed: "num_ok u \<Longrightarrow> num_ok v \<Longrightarrow> num_result (zero (mnum_val v)) (ovf (mnum_val u) (mnum_val v)) (f u v)"
begin

lemma operands_type:
  assumes u: "mval_ok u" and v: "mval_ok v"
  shows "op_result zero ovf undef_inhibit u v (arith_operands f undef_inhibit u v)"
proof (cases "u = MV_sqlnull \<or> v = MV_sqlnull")
  case True
  then show ?thesis by (auto simp: arith_operands_def op_result_def MV_FORCE_DEFINED_def res_bind_def)
next
  case False
  note nn = if_not_P [OF False]
  from False u have "u \<noteq> MV_sqlnull" by simp
  with u show ?thesis
  proof (cases rule: force_num_cases [where undef_inhibit = undef_inhibit])
    case (error e)
    then show ?thesis unfolding op_result_def arith_operands_def nn by auto
  next
    case a: (number a)
    from False v have "v \<noteq> MV_sqlnull" by simp
    with v show ?thesis
    proof (cases rule: force_num_cases [where undef_inhibit = undef_inhibit])
      case (error e)
      then show ?thesis using a unfolding op_result_def arith_operands_def nn by auto
    next
      case b: (number b)
      have eq: "arith_operands f undef_inhibit u v = res_bind (f a b) (\<lambda>r. Inr (MV_num r))"
        unfolding arith_operands_def nn using a(1) b(1) by simp
      have res: "if zero (mnum_val b) then res_bind (f a b) (\<lambda>r. Inr (MV_num r)) = Inl ERR_DIVZERO
          else if ovf (mnum_val a) (mnum_val b) then res_bind (f a b) (\<lambda>r. Inr (MV_num r)) = Inl ERR_NUMOFLOW
          else \<exists>n. res_bind (f a b) (\<lambda>r. Inr (MV_num r)) = Inr (MV_num n) \<and> num_ok n"
        using closed [OF a(3) b(3)] by (auto simp: num_result_def split: if_splits)
      show ?thesis unfolding op_result_def nn eq by (intro disjI2 exI [of _ a] exI [of _ b] conjI a(2) b(2) res)
    qed
  qed
qed

text \<open>A canonical string stands for the number whose text it is.\<close>

lemma operands_canonical:
  assumes "val_iscan a" "val_iscan b"
  shows "\<exists>u v. num_ok u \<and> num_ok v \<and> n2s u = a \<and> n2s v = b
    \<and> arith_operands f undef_inhibit (MV_str a) (MV_str b) = arith_operands f undef_inhibit (MV_num u) (MV_num v)"
proof -
  obtain u v where "s2n a = Inr (u, False)" "num_ok u" "n2s u = a" "s2n b = Inr (v, False)" "num_ok v" "n2s v = b"
    using canonical_read [OF assms(1)] canonical_read [OF assms(2)] by blast
  moreover from this have "arith_operands f undef_inhibit (MV_str a) (MV_str b) = arith_operands f undef_inhibit (MV_num u) (MV_num v)"
    by (simp add: arith_operands_def MV_FORCE_NUM_def MV_FORCE_DEFINED_def)
  ultimately show ?thesis by blast
qed

end

text \<open>The ranges, in units of \<open>10 ^ -80\<close>; a result is out of range from \<open>10 ^ 47\<close> on.\<close>

definition no_zero :: "int \<Rightarrow> bool" where "no_zero y \<longleftrightarrow> False"

definition is_zero :: "int \<Rightarrow> bool" where "is_zero y \<longleftrightarrow> y = 0"

definition add_ovf :: "int \<Rightarrow> int \<Rightarrow> bool" where "add_ovf x y \<longleftrightarrow> 10 ^ 127 \<le> \<bar>x + y\<bar>"

definition sub_ovf :: "int \<Rightarrow> int \<Rightarrow> bool" where "sub_ovf x y \<longleftrightarrow> 10 ^ 127 \<le> \<bar>x - y\<bar>"

definition mul_ovf :: "int \<Rightarrow> int \<Rightarrow> bool" where "mul_ovf x y \<longleftrightarrow> 10 ^ 127 * 10 ^ 80 \<le> \<bar>x\<bar> * \<bar>y\<bar>"

definition div_ovf :: "int \<Rightarrow> int \<Rightarrow> bool" where "div_ovf x y \<longleftrightarrow> 10 ^ 127 * \<bar>y\<bar> \<le> \<bar>x\<bar> * 10 ^ 80"

definition idiv_ovf :: "int \<Rightarrow> int \<Rightarrow> bool" where "idiv_ovf x y \<longleftrightarrow> 10 ^ 47 \<le> \<bar>x\<bar> div \<bar>y\<bar>"

interpretation add: number_operator op_add_num no_zero add_ovf
  by unfold_locales (simp only: no_zero_def add_ovf_def op_add_num_type)

interpretation sub: number_operator op_sub_num no_zero sub_ovf
  by unfold_locales (simp only: no_zero_def sub_ovf_def op_add_num_type)

interpretation mul: number_operator op_mul_num no_zero mul_ovf
  by unfold_locales (simp only: no_zero_def mul_ovf_def op_mul_num_type)

interpretation quotient: number_operator op_div_num is_zero div_ovf
  by unfold_locales (simp only: is_zero_def div_ovf_def op_div_num_type)

interpretation idiv: number_operator op_idiv_num is_zero idiv_ovf
  by unfold_locales (simp only: is_zero_def idiv_ovf_def op_idiv_num_type)

text \<open>
  C31: The operators on operands of any kind, with arbitrary strings among them. If an operand is \<open>$ZYSQLNULL\<close>, the result is \<open>$ZYSQLNULL\<close>, or the
  error \<open>LVUNDEF\<close> if the other one is undefined and that is an error, and nothing else, a zero divisor included. Otherwise the result is the
  error of the first operand that has no number (\<open>LVUNDEF\<close> if it is undefined, \<open>NUMOFLOW\<close> for a string with a number out of range), and for
  two numbers \<open>DIVZERO\<close> exactly for a division by zero, \<open>NUMOFLOW\<close> exactly if the exact result is out of range, and else a
  well-formed number. No table is read outside of its bounds, no machine division by zero happens, all loops end.
\<close>

theorem arith_operators_type:
  assumes "mval_ok u" and "mval_ok v"
  shows "op_result no_zero add_ovf undef_inhibit u v (op_add undef_inhibit u v)
    \<and> op_result no_zero sub_ovf undef_inhibit u v (op_sub undef_inhibit u v)
    \<and> op_result no_zero mul_ovf undef_inhibit u v (op_mul undef_inhibit u v)
    \<and> op_result is_zero div_ovf undef_inhibit u v (op_div undef_inhibit u v)
    \<and> op_result is_zero idiv_ovf undef_inhibit u v (op_idiv undef_inhibit u v)"
  unfolding op_add_def op_sub_def op_mul_def op_div_def op_idiv_def
  by (intro conjI add.operands_type sub.operands_type mul.operands_type quotient.operands_type idiv.operands_type assms)

theorem arith_operators_type_witness:
  "op_div False MV_sqlnull (MV_num (MV_int 0)) = Inr MV_sqlnull
   \<and> op_result no_zero add_ovf False (MV_str [49, 69, 50]) (MV_num (MV_int 500)) (op_add False (MV_str [49, 69, 50]) (MV_num (MV_int 500)))
   \<and> op_add False (MV_str [49, 69, 50]) (MV_num (MV_int 500)) = Inr (MV_num (MV_int 100500))"
proof (intro conjI)
  show "op_div False MV_sqlnull (MV_num (MV_int 0)) = Inr MV_sqlnull"
    using arith_operators_type [of MV_sqlnull "MV_num (MV_int 0)" False] by (simp add: op_result_def)
  show "op_result no_zero add_ovf False (MV_str [49, 69, 50]) (MV_num (MV_int 500)) (op_add False (MV_str [49, 69, 50]) (MV_num (MV_int 500)))"
    using arith_operators_type [of "MV_str [49, 69, 50]" "MV_num (MV_int 500)" False] by simp
  show "op_add False (MV_str [49, 69, 50]) (MV_num (MV_int 500)) = Inr (MV_num (MV_int 100500))" by code_simp
qed

end
