(* ===== verification/Lv_Key.thy ===== *)
theory Lv_Key
  imports Mval "HOL-Library.List_Lexorder" "HOL-Library.Product_Lexorder"
begin

text \<open>
  Nodes of a local variable tree and the comparison of subscripts (\<open>lv_tree.h\<close>, the comparison macros and
  functions of \<open>lv_tree.c\<close>). The abstract view of a subscript is its rank: numbers before strings
  before \<open>$ZYSQLNULL\<close>, numbers by value, strings bytewise. Every comparison is shown to have the sign of the
  comparison of ranks.
\<close>

section \<open>Nodes\<close>

type_synonym addr = nat

abbreviation (input) NULL :: addr where "NULL \<equiv> 0"

text \<open>
  The balance factors and descent directions; \<open>TREE_DESCEND_LEFT\<close> is \<open>TREE_LEFT_HEAVY\<close> and \<open>TREE_DESCEND_RIGHT\<close>
  is \<open>TREE_RIGHT_HEAVY\<close>, as in the header.
\<close>

datatype tree_bal = TREE_LEFT_HEAVY | TREE_RIGHT_HEAVY | TREE_BALANCED

abbreviation (input) TREE_DESCEND_LEFT :: tree_bal where "TREE_DESCEND_LEFT \<equiv> TREE_LEFT_HEAVY"
abbreviation (input) TREE_DESCEND_RIGHT :: tree_bal where "TREE_DESCEND_RIGHT \<equiv> TREE_RIGHT_HEAVY"

fun tree_balance_invert :: "tree_bal \<Rightarrow> tree_bal" where
  "tree_balance_invert TREE_LEFT_HEAVY = TREE_RIGHT_HEAVY"
| "tree_balance_invert TREE_RIGHT_HEAVY = TREE_LEFT_HEAVY"
| "tree_balance_invert TREE_BALANCED = TREE_BALANCED"

text \<open>
  The fields of \<open>lvTreeNodeNum\<close> in which the float form of an integer key is stored by the first comparison that needs it;
  \<open>key_iconv\<close> says that it is there. In a slot that is used again they hold what its former use left behind: an insertion does not
  initialise all of them.
\<close>

record flt_key =
  key_sgn :: bool
  key_e :: int
  key_m1 :: int
  key_iconv :: bool

text \<open>
  A node slot. \<open>nd_key\<close> stands for \<open>key_mvtype\<close> with the key: \<open>key_m0\<close> of an integer, \<open>key_sgn\<close>, \<open>key_e\<close>, \<open>key_m1\<close> and \<open>key_m0\<close> of another
  number, \<open>key_addr\<close> and \<open>key_len\<close> of a string.
\<close>

record lvTreeNode =
  nd_v :: mval
  sbs_child :: addr
  nd_key :: mval
  nd_flt :: flt_key
  balance :: tree_bal
  descent_dir :: tree_bal
  avl_left :: addr
  avl_right :: addr
  avl_parent :: addr

section \<open>Comparisons\<close>

text \<open>
  The float form of the integer key \<open>key_m0\<close>: sign, exponent and high mantissa. For the integer 0 only the exponent is set and the sign and
  the mantissa stay as they are in the slot.
\<close>

definition lvAvlTreeNodeFltConv :: "int \<Rightarrow> flt_key \<Rightarrow> flt_key res" where
  "lvAvlTreeNodeFltConv key_m0 fltNode =
     (if key_m0 \<noteq> 0 then
        let sgn = \<not> 0 < key_m0;
            int_m1 = (if sgn then - key_m0 else key_m0)
        in res_bind (pwr_loop int_m1 0) (\<lambda>int_exp.
           res_bind (rd ten_pwr (9 - int int_exp)) (\<lambda>p.
           Inr \<lparr>key_sgn = sgn, key_e = int int_exp + EXP_INT_UNDERF, key_m1 = int_m1 * p, key_iconv = True\<rparr>))
      else Inr (fltNode\<lparr>key_e := 0, key_iconv := True\<rparr>))"

text \<open>The common tail of the numeric comparisons; the differences are returned with their magnitude.\<close>

definition flt_key_cmp :: "bool \<Rightarrow> int \<Rightarrow> int \<Rightarrow> int \<Rightarrow> bool \<Rightarrow> int \<Rightarrow> int \<Rightarrow> int \<Rightarrow> int" where
  "flt_key_cmp a_sg a_e a_m1 a_m0 b_sg b_e b_m1 b_m0 =
     (let a_sgn = (if a_sg then -1 else 1);
          b_sgn = (if b_sg then -1 else 1)
      in if a_sgn \<noteq> b_sgn then a_sgn
         else let exp_diff = a_e - b_e in
           if exp_diff \<noteq> 0 then exp_diff * a_sgn
           else let m1_diff = a_m1 - b_m1 in
             if m1_diff \<noteq> 0 then m1_diff * a_sgn
             else if a_m1 = 0 then 0
             else let m0_diff = a_m0 - b_m0 in
               if m0_diff \<noteq> 0 then m0_diff * a_sgn else 0)"

text \<open>A comparison returns the difference and the node with its float form.\<close>

definition lv_avl_tree_intkey_cmp :: "int \<Rightarrow> lvTreeNode \<Rightarrow> (int \<times> lvTreeNode) res" where
  "lv_avl_tree_intkey_cmp aSubscr_m1 bNode =
     (case nd_key bNode of
        MV_num (MV_int key_m0) \<Rightarrow> Inr (aSubscr_m1 - key_m0, bNode)
      | MV_num (MV_nm b_sgn b_e b_m1 b_m0) \<Rightarrow>
          res_bind (promote aSubscr_m1) (\<lambda>a.
            Inr (flt_key_cmp (mf_sgn a) (mf_e a) (mf_m1 a) (mf_m0 a) b_sgn b_e b_m1 b_m0, bNode))
      | _ \<Rightarrow> Inr (-1, bNode))"

definition lv_avl_tree_numkey_cmp :: "bool \<Rightarrow> int \<Rightarrow> int \<Rightarrow> int \<Rightarrow> lvTreeNode \<Rightarrow> (int \<times> lvTreeNode) res" where
  "lv_avl_tree_numkey_cmp a_sgn a_e a_m1 a_m0 bNode =
     (case nd_key bNode of
        MV_num (MV_int key_m0) \<Rightarrow>
          res_bind (if \<not> key_iconv (nd_flt bNode)
                    then res_bind (lvAvlTreeNodeFltConv key_m0 (nd_flt bNode)) (\<lambda>f. Inr (bNode\<lparr>nd_flt := f\<rparr>))
                    else Inr bNode) (\<lambda>bNode.
            let b = nd_flt bNode
            in Inr (flt_key_cmp a_sgn a_e a_m1 a_m0 (key_sgn b) (key_e b) (key_m1 b) 0, bNode))
      | MV_num (MV_nm b_sgn b_e b_m1 b_m0) \<Rightarrow>
          Inr (flt_key_cmp a_sgn a_e a_m1 a_m0 b_sgn b_e b_m1 b_m0, bNode)
      | _ \<Rightarrow> Inr (-1, bNode))"

text \<open>\<open>memcmp\<close> over the first \<open>n\<close> bytes, as the difference of the first two bytes that differ.\<close>

fun memcmp :: "mstr \<Rightarrow> mstr \<Rightarrow> nat \<Rightarrow> int" where
  "memcmp (a # as) (b # bs) (Suc n) = (if a = b then memcmp as bs n else uint a - uint b)"
| "memcmp _ _ _ = 0"

definition memvcmp :: "mstr \<Rightarrow> mstr \<Rightarrow> int" where
  "memvcmp a b =
     (let minLen = (if length a < length b then length a else if length a > length b then length b else length a);
          retVal = (if length a < length b then -1 else if length a > length b then 1 else 0);
          retVal2 = memcmp a b minLen
      in if retVal2 = 0 then retVal else retVal2)"

definition lv_avl_tree_strkey_cmp :: "mval \<Rightarrow> lvTreeNode \<Rightarrow> (int \<times> lvTreeNode) res" where
  "lv_avl_tree_strkey_cmp aSubscr bNode =
     (case nd_key bNode of
        MV_num _ \<Rightarrow> Inr (1, bNode)
      | MV_sqlnull \<Rightarrow> Inr (if aSubscr = MV_sqlnull then 0 else -1, bNode)
      | MV_str b \<Rightarrow> (case aSubscr of MV_str a \<Rightarrow> Inr (memvcmp a b, bNode) | _ \<Rightarrow> Inr (1, bNode))
      | MV_undef \<Rightarrow> Inl OutOfBounds)"

fun lvAvlTreeKeySubscrCmp :: "mval \<Rightarrow> lvTreeNode \<Rightarrow> (int \<times> lvTreeNode) res" where
  "lvAvlTreeKeySubscrCmp (MV_num (MV_int m1)) bNode = lv_avl_tree_intkey_cmp m1 bNode"
| "lvAvlTreeKeySubscrCmp (MV_num (MV_nm s e m1 m0)) bNode = lv_avl_tree_numkey_cmp s e m1 m0 bNode"
| "lvAvlTreeKeySubscrCmp aSubscr bNode = lv_avl_tree_strkey_cmp aSubscr bNode"

section \<open>Ranks\<close>

type_synonym krank = "nat \<times> int \<times> byte list"

fun krank :: "mval \<Rightarrow> krank" where
  "krank (MV_num n) = (0, mnum_val n, [])"
| "krank (MV_str s) = (1, 0, s)"
| "krank MV_sqlnull = (2, 0, [])"
| "krank MV_undef = (3, 0, [])"

fun key_ok :: "mval \<Rightarrow> bool" where
  "key_ok (MV_num (MV_int m)) = mnum_ok (MV_int m)"
| "key_ok (MV_num (MV_nm s e m1 m0)) = (mnum_ok (MV_nm s e m1 m0) \<and> e \<noteq> 0)"
| "key_ok (MV_str s) = True"
| "key_ok MV_sqlnull = True"
| "key_ok MV_undef = False"

text \<open>If \<open>key_iconv\<close> is set, the float form of an integer key is stored.\<close>

fun flt_ok :: "mval \<Rightarrow> flt_key \<Rightarrow> bool" where
  "flt_ok (MV_num (MV_int m)) f \<longleftrightarrow>
     (key_iconv f \<longrightarrow> (if m = 0 then key_e f = 0 else promote m = Inr (MV_nm (key_sgn f) (key_e f) (key_m1 f) 0)))"
| "flt_ok _ f \<longleftrightarrow> True"

definition node_ok :: "lvTreeNode \<Rightarrow> bool" where
  "node_ok n \<longleftrightarrow> key_ok (nd_key n) \<and> flt_ok (nd_key n) (nd_flt n)"

lemma flt_key_cmp_sgn:
  "sgn (flt_key_cmp as ae a1 a0 bs be b1 b0) = numcmp_flt (MV_nm as ae a1 a0) (MV_nm bs be b1 b0)"
  by (auto simp: flt_key_cmp_def numcmp_flt_def Let_def sgn_if)

lemma flt_key_cmp_junk:
  "a_e > 0 \<Longrightarrow> sgn (flt_key_cmp s a_e m1 m0 js 0 jm 0) = (if s then -1 else 1)"
  by (auto simp: flt_key_cmp_def Let_def sgn_if)

lemma FltConv_promote:
  assumes "m \<noteq> 0" and "promote m = Inr (MV_nm s e m1 0)"
  shows "lvAvlTreeNodeFltConv m f = Inr \<lparr>key_sgn = s, key_e = e, key_m1 = m1, key_iconv = True\<rparr>"
proof -
  have "(\<not> 0 < m) = (m < 0)" using assms(1) by auto
  then show ?thesis using assms unfolding lvAvlTreeNodeFltConv_def promote_def Let_def
    by (cases "pwr_loop (if m < 0 then - m else m) 0") (auto simp: res_bind_def add.commute split: sum.splits)
qed

text \<open>After the conversion, or with the form that is stored, the comparison reads the float form of the key.\<close>

lemma numkey_cmp_int:
  assumes "node_ok n" and "nd_key n = MV_num (MV_int k)"
  shows "\<exists>f. lv_avl_tree_numkey_cmp s e m1 m0 n = Inr (flt_key_cmp s e m1 m0 (key_sgn f) (key_e f) (key_m1 f) 0, n\<lparr>nd_flt := f\<rparr>)
    \<and> key_iconv f \<and> flt_ok (nd_key n) f"
proof (cases "key_iconv (nd_flt n)")
  case True
  then show ?thesis using assms
    by (intro exI [of _ "nd_flt n"]) (simp add: lv_avl_tree_numkey_cmp_def node_ok_def Let_def)
next
  case False
  have k: "mnum_ok (MV_int k)" using assms by (simp add: node_ok_def)
  obtain f where f: "lvAvlTreeNodeFltConv k (nd_flt n) = Inr f" "key_iconv f" "flt_ok (nd_key n) f"
  proof (cases "k = 0")
    case True
    then show ?thesis using that [of "(nd_flt n)\<lparr>key_e := 0, key_iconv := True\<rparr>"] assms(2) by (simp add: lvAvlTreeNodeFltConv_def)
  next
    case nz: False
    obtain s' e' m1' where "promote k = Inr (MV_nm s' e' m1' 0)" using promote_spec [of k] k by auto
    then show ?thesis
      using that [of "\<lparr>key_sgn = s', key_e = e', key_m1 = m1', key_iconv = True\<rparr>"] FltConv_promote [OF nz, of s' e' m1'] nz assms(2)
      by simp
  qed
  then show ?thesis using False assms(2) by (intro exI [of _ f]) (simp add: lv_avl_tree_numkey_cmp_def)
qed

lemma memcmp_memvcmp_sgn:
  "sgn (memvcmp a b) = (if a < b then -1 else if a = b then 0 else 1)"
proof (induction a arbitrary: b)
  case Nil
  then show ?case by (cases b) (simp_all add: memvcmp_def)
next
  case (Cons x a)
  show ?case
  proof (cases b)
    case Nil
    then show ?thesis by (simp add: memvcmp_def)
  next
    case (Cons y b')
    have "memvcmp (x # a) (y # b') = (if x = y then memvcmp a b' else uint x - uint y)"
      by (auto simp: memvcmp_def Let_def word_uint_eq_iff)
    moreover have "sgn (uint x - uint y) = (if x < y then -1 else 1)" if "x \<noteq> y"
      using that by (auto simp: word_less_def word_uint_eq_iff sgn_if)
    ultimately show ?thesis
      using Cons.IH [of b'] Cons by (cases "x = y") simp_all
  qed
qed

text \<open>The sign of a comparison result against the order of ranks.\<close>

definition cmp_agrees :: "int \<Rightarrow> krank \<Rightarrow> krank \<Rightarrow> bool" where
  "cmp_agrees c a b \<longleftrightarrow> (c < 0 \<longleftrightarrow> a < b) \<and> (c = 0 \<longleftrightarrow> a = b) \<and> (c > 0 \<longleftrightarrow> a > b)"

lemma cmp_agrees_num:
  "sgn c = sgn (mnum_val a - mnum_val b) \<Longrightarrow> cmp_agrees c (krank (MV_num a)) (krank (MV_num b))"
  by (auto simp: cmp_agrees_def sgn_if split: if_splits)

lemma numkey_cmp_rank:
  assumes "key_ok (MV_num (MV_nm s e m1 m0))" and "node_ok n" and "nd_key n = MV_num (MV_int k)"
  shows "\<exists>c f. lvAvlTreeKeySubscrCmp (MV_num (MV_nm s e m1 m0)) n = Inr (c, n\<lparr>nd_flt := f\<rparr>) \<and> flt_ok (nd_key n) f
    \<and> cmp_agrees c (krank (MV_num (MV_nm s e m1 m0))) (krank (nd_key n))"
proof -
  let ?x = "MV_nm s e m1 m0" and ?y = "MV_int k"
  have xo: "mnum_ok ?x" "0 < e" "MANT_LO \<le> m1" "0 \<le> m0" using assms(1) by auto
  obtain f where f: "lv_avl_tree_numkey_cmp s e m1 m0 n
      = Inr (flt_key_cmp s e m1 m0 (key_sgn f) (key_e f) (key_m1 f) 0, n\<lparr>nd_flt := f\<rparr>)"
    "key_iconv f" "flt_ok (nd_key n) f"
    using numkey_cmp_int [OF assms(2,3), of s e m1 m0] by blast
  have "sgn (flt_key_cmp s e m1 m0 (key_sgn f) (key_e f) (key_m1 f) 0) = sgn (mnum_val ?x - mnum_val ?y)"
  proof (cases "k = 0")
    case True
    have "sgn (m1 * MANT_HI + m0) = 1" using xo by (auto simp: sgn_if)
    then have "sgn (mnum_val ?x - mnum_val ?y) = (if s then -1 else 1)"
      using True xo(2) unfolding mnum_val.simps mult.assoc by (simp add: sgn_mult)
    moreover have "key_e f = 0" using f(2,3) assms(3) True by simp
    ultimately show ?thesis using flt_key_cmp_junk [OF xo(2)] by simp
  next
    case False
    have k: "mnum_ok ?y" using assms(2,3) by (simp add: node_ok_def)
    obtain s' e' m1' where p: "promote k = Inr (MV_nm s' e' m1' 0)" "mnum_ok (MV_nm s' e' m1' 0)"
      "mnum_val (MV_nm s' e' m1' 0) = mnum_val ?y"
      using promote_spec [of k] k by auto
    have "key_sgn f = s'" "key_e f = e'" "key_m1 f = m1'" using f(2,3) assms(3) False p(1) by simp_all
    then show ?thesis
      using numcmp_flt_val [OF xo(1) p(2) refl refl] p(3) by (simp add: flt_key_cmp_sgn del: mnum_val.simps)
  qed
  then show ?thesis using f(1,3) assms(3) cmp_agrees_num by (auto simp del: krank.simps)
qed

lemma other_cmp_rank:
  assumes "key_ok a" and "key_ok (nd_key n)"
    and "\<nexists>s e m1 m0 k. a = MV_num (MV_nm s e m1 m0) \<and> nd_key n = MV_num (MV_int k)"
  shows "\<exists>c. lvAvlTreeKeySubscrCmp a n = Inr (c, n) \<and> cmp_agrees c (krank a) (krank (nd_key n))"
proof (cases a)
  case MV_undef
  then show ?thesis using assms by simp
next
  case a: (MV_num x)
  show ?thesis
  proof (cases "nd_key n")
    case b: (MV_num y)
    show ?thesis
    proof (cases x)
      case x: (MV_int m)
      show ?thesis
      proof (cases y)
        case (MV_int k)
        then show ?thesis
          using a b x by (auto simp: lv_avl_tree_intkey_cmp_def cmp_agrees_def)
      next
        case y: (MV_nm s e m1 m0)
        obtain s' e' m1' where p: "promote m = Inr (MV_nm s' e' m1' 0)" "mnum_ok (MV_nm s' e' m1' 0)"
          "mnum_val (MV_nm s' e' m1' 0) = mnum_val (MV_int m)"
          using promote_spec [of m] assms(1) a x by auto
        have "sgn (flt_key_cmp s' e' m1' 0 s e m1 m0) = sgn (mnum_val x - mnum_val y)"
          using numcmp_flt_val [OF p(2) _ refl refl, of s e m1 m0] assms(2) b y p(3) x
          by (simp add: flt_key_cmp_sgn del: mnum_val.simps mnum_ok.simps)
        then show ?thesis
          using p(1) a b x y cmp_agrees_num by (simp add: lv_avl_tree_intkey_cmp_def del: krank.simps)
      qed
    next
      case x: (MV_nm s e m1 m0)
      then have xo: "mnum_ok (MV_nm s e m1 m0)" "0 < e" "MANT_LO \<le> m1" "0 \<le> m0"
        using assms(1) a by auto
      show ?thesis
      proof (cases y)
        case (MV_int k)
        then show ?thesis using assms(3) a b x by blast
      next
        case y: (MV_nm s' e' m1' m0')
        have "sgn (flt_key_cmp s e m1 m0 s' e' m1' m0') = sgn (mnum_val x - mnum_val y)"
          using numcmp_flt_val [OF xo(1) _ refl refl, of s' e' m1' m0'] assms(2) b x y
          by (simp add: flt_key_cmp_sgn del: mnum_val.simps mnum_ok.simps)
        then show ?thesis
          using a b x y cmp_agrees_num by (simp add: lv_avl_tree_numkey_cmp_def del: krank.simps)
      qed
    qed
  qed (cases x; use assms a in \<open>auto simp: lv_avl_tree_intkey_cmp_def lv_avl_tree_numkey_cmp_def cmp_agrees_def\<close>)+
next
  case a: (MV_str s)
  show ?thesis
  proof (cases "nd_key n")
    case (MV_str t)
    then show ?thesis
      using a memcmp_memvcmp_sgn [of s t]
      by (auto simp: lv_avl_tree_strkey_cmp_def cmp_agrees_def sgn_if split: if_splits)
  qed (use assms a in \<open>auto simp: lv_avl_tree_strkey_cmp_def cmp_agrees_def\<close>)
next
  case MV_sqlnull
  then show ?thesis
    using assms by (cases "nd_key n") (auto simp: lv_avl_tree_strkey_cmp_def cmp_agrees_def)
qed

lemma lvAvlTreeKeySubscrCmp_rank:
  assumes "key_ok a" and "node_ok n"
  shows "\<exists>c f. lvAvlTreeKeySubscrCmp a n = Inr (c, n\<lparr>nd_flt := f\<rparr>) \<and> flt_ok (nd_key n) f \<and> cmp_agrees c (krank a) (krank (nd_key n))"
proof -
  have n: "key_ok (nd_key n)" "flt_ok (nd_key n) (nd_flt n)" "n\<lparr>nd_flt := nd_flt n\<rparr> = n" using assms(2) by (simp_all add: node_ok_def)
  show ?thesis
  proof (cases "\<exists>s e m1 m0 k. a = MV_num (MV_nm s e m1 m0) \<and> nd_key n = MV_num (MV_int k)")
    case True
    then show ?thesis using numkey_cmp_rank assms by blast
  next
    case False
    obtain c where "lvAvlTreeKeySubscrCmp a n = Inr (c, n)" "cmp_agrees c (krank a) (krank (nd_key n))"
      using other_cmp_rank [OF assms(1) n(1) False] by blast
    then show ?thesis using n by (intro exI [of _ c] exI [of _ "nd_flt n"]) simp
  qed
qed

section \<open>Collation\<close>

text \<open>The rank of a key in the collation order: under standard null collation the null string comes first.\<close>

definition crank :: "bool \<Rightarrow> mval \<Rightarrow> krank" where
  "crank std key = (if std \<and> key = MV_str [] then (0, 0, []) else (case krank key of (c, v, s) \<Rightarrow> (Suc c, v, s)))"

lemma crank_less:
  "crank std a < crank std b \<longleftrightarrow> (if std \<and> b = MV_str [] then False else if std \<and> a = MV_str [] then True
     else krank a < krank b)"
  by (cases "krank a"; cases "krank b") (auto simp: crank_def less_prod_def)

end
