(* ===== verification/Lv_Tree.thy ===== *)
theory Lv_Tree
  imports Lv_Key
begin

text \<open>
  The AVL trees of local variable subscripts (\<open>lv_tree.c\<close>), on an explicit store of nodes. The functions
  return an option: \<open>None\<close> stands for a run without a result, because it follows the null pointer or because a
  loop does not end, so that a result \<open>Some\<close> is a statement of termination and of pointer safety. The
  three lookup functions of the source differ only in the comparison macro and share one definition here that takes
  the comparison as an argument. A slot obtained from \<open>lvtreenode_getslot\<close> is an argument of the insertion.
\<close>

section \<open>Store and tree\<close>

type_synonym heap = "addr \<Rightarrow> lvTreeNode"

record lvTree =
  avl_height :: nat
  avl_root :: addr
  lastNodeLookedUp :: addr
  lastNodeMin :: addr
  lastNodeMax :: addr

definition set_left :: "heap \<Rightarrow> addr \<Rightarrow> addr \<Rightarrow> heap" where
  "set_left h a x = h(a := (h a)\<lparr>avl_left := x\<rparr>)"

definition set_right :: "heap \<Rightarrow> addr \<Rightarrow> addr \<Rightarrow> heap" where
  "set_right h a x = h(a := (h a)\<lparr>avl_right := x\<rparr>)"

definition set_parent :: "heap \<Rightarrow> addr \<Rightarrow> addr \<Rightarrow> heap" where
  "set_parent h a x = h(a := (h a)\<lparr>avl_parent := x\<rparr>)"

definition set_bal :: "heap \<Rightarrow> addr \<Rightarrow> tree_bal \<Rightarrow> heap" where
  "set_bal h a x = h(a := (h a)\<lparr>balance := x\<rparr>)"

definition set_dir :: "heap \<Rightarrow> addr \<Rightarrow> tree_bal \<Rightarrow> heap" where
  "set_dir h a x = h(a := (h a)\<lparr>descent_dir := x\<rparr>)"

text \<open>\<open>if (NULL != a) a->avl_parent = x\<close>\<close>

definition set_parent_if :: "heap \<Rightarrow> addr \<Rightarrow> addr \<Rightarrow> heap" where
  "set_parent_if h a x = (if a \<noteq> NULL then set_parent h a x else h)"

text \<open>The child of \<open>p\<close> on the side of its \<open>descent_dir\<close> becomes \<open>x\<close>.\<close>

definition set_child_dir :: "heap \<Rightarrow> addr \<Rightarrow> addr \<Rightarrow> heap" where
  "set_child_dir h p x =
     (if descent_dir (h p) = TREE_DESCEND_LEFT then set_left h p x else set_right h p x)"

definition lv_tree_create :: lvTree where
  "lv_tree_create =
     \<lparr>avl_height = 0, avl_root = NULL, lastNodeLookedUp = NULL, lastNodeMin = NULL, lastNodeMax = NULL\<rparr>"

section \<open>Traversal\<close>

partial_function (option) left_most :: "heap \<Rightarrow> addr \<Rightarrow> addr option" where
  "left_most h avl_first =
     (if avl_left (h avl_first) \<noteq> NULL then left_most h (avl_left (h avl_first)) else Some avl_first)"

partial_function (option) right_most :: "heap \<Rightarrow> addr \<Rightarrow> addr option" where
  "right_most h avl_last =
     (if avl_right (h avl_last) \<noteq> NULL then right_most h (avl_right (h avl_last)) else Some avl_last)"

definition lvAvlTreeFirst :: "heap \<Rightarrow> lvTree \<Rightarrow> addr option" where
  "lvAvlTreeFirst h lvt = (if avl_root lvt = NULL then Some NULL else left_most h (avl_root lvt))"

definition lvAvlTreeLast :: "heap \<Rightarrow> lvTree \<Rightarrow> addr option" where
  "lvAvlTreeLast h lvt = (if avl_root lvt = NULL then Some NULL else right_most h (avl_root lvt))"

text \<open>The climb to the first ancestor that is reached from its right (left) child.\<close>

partial_function (option) prev_climb :: "heap \<Rightarrow> addr \<Rightarrow> addr \<Rightarrow> addr option" where
  "prev_climb h tmp parent =
     (if parent = NULL then Some NULL
      else if avl_right (h parent) = tmp then Some parent
      else prev_climb h parent (avl_parent (h parent)))"

partial_function (option) next_climb :: "heap \<Rightarrow> addr \<Rightarrow> addr \<Rightarrow> addr option" where
  "next_climb h tmp parent =
     (if parent = NULL then Some NULL
      else if avl_left (h parent) = tmp then Some parent
      else next_climb h parent (avl_parent (h parent)))"

definition lvAvlTreePrev :: "heap \<Rightarrow> addr \<Rightarrow> addr option" where
  "lvAvlTreePrev h node =
     (if node = NULL then None
      else if avl_left (h node) \<noteq> NULL then right_most h (avl_left (h node))
      else prev_climb h node (avl_parent (h node)))"

definition lvAvlTreeNext :: "heap \<Rightarrow> addr \<Rightarrow> addr option" where
  "lvAvlTreeNext h node =
     (if node = NULL then None
      else if avl_right (h node) \<noteq> NULL then left_most h (avl_right (h node))
      else next_climb h node (avl_parent (h node)))"

partial_function (option) post_down :: "heap \<Rightarrow> addr \<Rightarrow> addr option" where
  "post_down h first =
     (if avl_left (h first) \<noteq> NULL then post_down h (avl_left (h first))
      else if avl_right (h first) \<noteq> NULL then post_down h (avl_right (h first))
      else Some first)"

definition lvAvlTreeFirstPostOrder :: "heap \<Rightarrow> lvTree \<Rightarrow> addr option" where
  "lvAvlTreeFirstPostOrder h lvt = (if avl_root lvt = NULL then Some NULL else post_down h (avl_root lvt))"

definition lvAvlTreeNextPostOrder :: "heap \<Rightarrow> addr \<Rightarrow> addr option" where
  "lvAvlTreeNextPostOrder h node =
     (if node = NULL then None
      else let parent = avl_parent (h node) in
        if parent = NULL then Some NULL
        else if node = avl_right (h parent) then Some parent
        else let next = avl_right (h parent) in
          if next = NULL then Some parent else post_down h next)"

section \<open>Lookup\<close>

definition res_opt :: "'a res \<Rightarrow> 'a option" where
  "res_opt r = (case r of Inl e \<Rightarrow> None | Inr x \<Rightarrow> Some x)"

text \<open>What the clue of the last lookup tells about a key.\<close>

datatype clue_out = Clue_found addr | Clue_absent addr tree_bal | Clue_no_help

definition lookup_clue :: "(lvTreeNode \<Rightarrow> (int \<times> lvTreeNode) res) \<Rightarrow> heap \<Rightarrow> lvTree \<Rightarrow> (clue_out \<times> heap) option" where
  "lookup_clue cmp h lvt =
     (let tmpNode = lastNodeLookedUp lvt in
      if tmpNode = NULL then Some (Clue_no_help, h)
      else Option.bind (res_opt (cmp (h tmpNode))) (\<lambda>(c, n).
        let h = h(tmpNode := n) in
        if c = 0 then Some (Clue_found tmpNode, h)
        else if 0 < c then
          if avl_right (h tmpNode) = NULL then
            let maxNode = lastNodeMax lvt in
            if maxNode \<noteq> NULL
            then Option.bind (res_opt (cmp (h maxNode))) (\<lambda>(c, n).
              let h = h(maxNode := n) in
              if c = 0 then Some (Clue_found maxNode, h)
              else if 0 > c then Some (Clue_absent tmpNode TREE_DESCEND_RIGHT, h)
              else Some (Clue_no_help, h))
            else Some (Clue_absent tmpNode TREE_DESCEND_RIGHT, h)
          else Some (Clue_no_help, h)
        else if avl_left (h tmpNode) = NULL then
          let minNode = lastNodeMin lvt in
          if minNode \<noteq> NULL
          then Option.bind (res_opt (cmp (h minNode))) (\<lambda>(c, n).
            let h = h(minNode := n) in
            if c = 0 then Some (Clue_found minNode, h)
            else if 0 < c then Some (Clue_absent tmpNode TREE_DESCEND_LEFT, h)
            else Some (Clue_no_help, h))
          else Some (Clue_absent tmpNode TREE_DESCEND_LEFT, h)
        else Some (Clue_no_help, h)))"

text \<open>
  The traversal from the root. It returns the node, the parent, the store with the descent directions and the float forms that it
  wrote, and the new clue.
\<close>

partial_function (option) lookup_walk ::
  "(lvTreeNode \<Rightarrow> (int \<times> lvTreeNode) res) \<Rightarrow> heap \<Rightarrow> addr \<Rightarrow> addr \<Rightarrow> addr \<Rightarrow> addr \<Rightarrow>
     (addr \<times> addr \<times> heap \<times> addr \<times> addr \<times> addr) option" where
  "lookup_walk cmp h parent node lastMin lastMax =
     Option.bind (res_opt (cmp (h node))) (\<lambda>(c, n).
       let h = h(node := n) in
       if c = 0 then Some (node, parent, h, node, lastMin, lastMax)
       else if c < 0 then
         if avl_left (h node) = NULL
         then Some (NULL, node, set_dir h node TREE_DESCEND_LEFT, node, lastMin, lastMax)
         else lookup_walk cmp (set_dir h node TREE_DESCEND_LEFT) node (avl_left (h node)) lastMin node
       else
         if avl_right (h node) = NULL
         then Some (NULL, node, set_dir h node TREE_DESCEND_RIGHT, node, lastMin, lastMax)
         else lookup_walk cmp (set_dir h node TREE_DESCEND_RIGHT) node (avl_right (h node)) node lastMax)"

text \<open>
  A lookup returns the node (or the null pointer), the value stored into \<open>*lookupParent\<close> if any, the store and
  the tree with its clue.
\<close>

type_synonym lookup_result = "addr \<times> addr option \<times> heap \<times> lvTree"

definition lookup_with :: "(lvTreeNode \<Rightarrow> (int \<times> lvTreeNode) res) \<Rightarrow> heap \<Rightarrow> lvTree \<Rightarrow> lookup_result option" where
  "lookup_with cmp h lvt =
     Option.bind (lookup_clue cmp h lvt) (\<lambda>(clue, h).
       case clue of
         Clue_found node \<Rightarrow> Some (node, None, h, lvt)
       | Clue_absent parent dir \<Rightarrow> Some (NULL, Some parent, set_dir h parent dir, lvt)
       | Clue_no_help \<Rightarrow>
           if avl_root lvt = NULL then Some (NULL, Some NULL, h, lvt)
           else Option.bind (lookup_walk cmp h (avl_root lvt) (avl_root lvt) NULL NULL)
             (\<lambda>(node, parent, h', looked, lastMin, lastMax).
                Some (node, Some parent, h',
                  lvt\<lparr>lastNodeLookedUp := looked, lastNodeMin := lastMin, lastNodeMax := lastMax\<rparr>)))"

definition lvAvlTreeLookupInt :: "heap \<Rightarrow> lvTree \<Rightarrow> int \<Rightarrow> lookup_result option" where
  "lvAvlTreeLookupInt h lvt m1 = lookup_with (lv_avl_tree_intkey_cmp m1) h lvt"

definition lvAvlTreeLookupNum ::
  "heap \<Rightarrow> lvTree \<Rightarrow> bool \<Rightarrow> int \<Rightarrow> int \<Rightarrow> int \<Rightarrow> lookup_result option" where
  "lvAvlTreeLookupNum h lvt s e m1 m0 = lookup_with (lv_avl_tree_numkey_cmp s e m1 m0) h lvt"

definition lvAvlTreeLookupStr :: "heap \<Rightarrow> lvTree \<Rightarrow> mval \<Rightarrow> lookup_result option" where
  "lvAvlTreeLookupStr h lvt key = lookup_with (lv_avl_tree_strkey_cmp key) h lvt"

fun lvAvlTreeLookup :: "heap \<Rightarrow> lvTree \<Rightarrow> mval \<Rightarrow> lookup_result option" where
  "lvAvlTreeLookup h lvt (MV_num (MV_int m1)) = lvAvlTreeLookupInt h lvt m1"
| "lvAvlTreeLookup h lvt (MV_num (MV_nm s e m1 m0)) = lvAvlTreeLookupNum h lvt s e m1 m0"
| "lvAvlTreeLookup h lvt key = lvAvlTreeLookupStr h lvt key"

text \<open>The nodes immediately before and after a key.\<close>

definition lvAvlTreeKeyPrev :: "heap \<Rightarrow> lvTree \<Rightarrow> mval \<Rightarrow> (addr \<times> heap \<times> lvTree) option" where
  "lvAvlTreeKeyPrev h lvt key =
     Option.bind (lvAvlTreeLookup h lvt key) (\<lambda>(node, lookupParent, h, lvt).
       if node \<noteq> NULL then Option.bind (lvAvlTreePrev h node) (\<lambda>prev. Some (prev, h, lvt))
       else Option.bind lookupParent (\<lambda>parent.
         if parent = NULL then None
         else if descent_dir (h parent) = TREE_DESCEND_LEFT
         then Option.bind (lvAvlTreePrev h parent) (\<lambda>prev. Some (prev, h, lvt))
         else Some (parent, h, lvt)))"

definition lvAvlTreeKeyNext :: "heap \<Rightarrow> lvTree \<Rightarrow> mval \<Rightarrow> (addr \<times> heap \<times> lvTree) option" where
  "lvAvlTreeKeyNext h lvt key =
     Option.bind (lvAvlTreeLookup h lvt key) (\<lambda>(node, lookupParent, h, lvt).
       if node \<noteq> NULL then Option.bind (lvAvlTreeNext h node) (\<lambda>nxt. Some (nxt, h, lvt))
       else Option.bind lookupParent (\<lambda>parent.
         if parent = NULL then None
         else if descent_dir (h parent) = TREE_DESCEND_RIGHT
         then Option.bind (lvAvlTreeNext h parent) (\<lambda>nxt. Some (nxt, h, lvt))
         else Some (parent, h, lvt)))"

section \<open>Rotations\<close>

definition lvAvlTreeSingleRotation :: "heap \<Rightarrow> addr \<Rightarrow> addr \<Rightarrow> tree_bal \<Rightarrow> (heap \<times> addr) option" where
  "lvAvlTreeSingleRotation h rebalanceNode anchorNode balanceFactor =
     (if rebalanceNode = NULL \<or> anchorNode = NULL then None
      else
        let left = (balanceFactor = TREE_LEFT_HEAVY);
            node = (if left then avl_right (h anchorNode) else avl_left (h anchorNode));
            h = (if left
                 then set_right (set_left h rebalanceNode node) anchorNode rebalanceNode
                 else set_left (set_right h rebalanceNode node) anchorNode rebalanceNode);
            h = set_parent_if h node rebalanceNode;
            h = set_parent h rebalanceNode anchorNode;
            h = (if balance (h anchorNode) \<noteq> TREE_BALANCED
                 then set_bal (set_bal h rebalanceNode TREE_BALANCED) anchorNode TREE_BALANCED
                 else set_bal h anchorNode (tree_balance_invert balanceFactor))
        in Some (h, anchorNode))"

definition lvAvlTreeDoubleRotation :: "heap \<Rightarrow> addr \<Rightarrow> addr \<Rightarrow> tree_bal \<Rightarrow> (heap \<times> addr) option" where
  "lvAvlTreeDoubleRotation h rebalanceNode anchorNode balanceFactor =
     (if rebalanceNode = NULL \<or> anchorNode = NULL then None
      else
        let left = (balanceFactor = TREE_LEFT_HEAVY);
            newRoot = (if left then avl_right (h anchorNode) else avl_left (h anchorNode))
        in if newRoot = NULL then None
           else
             let rebalanceChild = (if left then avl_right (h newRoot) else avl_left (h newRoot));
                 anchorChild = (if left then avl_left (h newRoot) else avl_right (h newRoot));
                 h = (if left
                      then set_right (set_left (set_right (set_left h rebalanceNode rebalanceChild)
                             anchorNode anchorChild) newRoot anchorNode) newRoot rebalanceNode
                      else set_right (set_left (set_left (set_right h rebalanceNode rebalanceChild)
                             anchorNode anchorChild) newRoot rebalanceNode) newRoot anchorNode);
                 h = set_parent_if h rebalanceChild rebalanceNode;
                 h = set_parent_if h anchorChild anchorNode;
                 h = set_parent h anchorNode newRoot;
                 h = set_parent h rebalanceNode newRoot;
                 bal = balance (h newRoot);
                 h = (if bal = balanceFactor
                      then set_bal (set_bal h rebalanceNode (tree_balance_invert balanceFactor))
                             anchorNode TREE_BALANCED
                      else if bal = TREE_BALANCED
                      then set_bal (set_bal h rebalanceNode TREE_BALANCED) anchorNode TREE_BALANCED
                      else set_bal (set_bal h rebalanceNode TREE_BALANCED) anchorNode balanceFactor);
                 h = set_bal h newRoot TREE_BALANCED
             in Some (h, newRoot))"

section \<open>Insertion\<close>

text \<open>
  The fields of a new node; \<open>node->v\<close> is initialised by the caller. The slot may have been used before: an integer key resets
  \<open>key_iconv\<close> and leaves the sign, the exponent and the high mantissa of the slot; a number of the other representation sets these and
  leaves \<open>key_iconv\<close>. The length of a string is stored over \<open>key_flags\<close>: its low seven bits over \<open>key_e\<close>, the next over \<open>key_sgn\<close> and
  the ninth over \<open>key_iconv\<close> (on a little-endian machine). Its address, which covers \<open>key_m1\<close>, is not modelled.
\<close>

definition init_node :: "lvTreeNode \<Rightarrow> mval \<Rightarrow> addr \<Rightarrow> lvTreeNode" where
  "init_node slot key parent =
     (let flt = nd_flt slot;
          strlen = (case key of MV_str s \<Rightarrow> int (length s) | _ \<Rightarrow> 0)
      in slot\<lparr>sbs_child := NULL, avl_left := NULL, avl_right := NULL, avl_parent := parent,
        nd_key := key,
        nd_flt :=
          (case key of
             MV_num (MV_int m1) \<Rightarrow> flt\<lparr>key_iconv := False\<rparr>
           | MV_num (MV_nm s e m1 m0) \<Rightarrow> flt\<lparr>key_sgn := s, key_e := e, key_m1 := m1\<rparr>
           | _ \<Rightarrow> flt\<lparr>key_e := strlen mod 128, key_sgn := odd (strlen div 128), key_iconv := odd (strlen div 256)\<rparr>),
        balance := TREE_BALANCED\<rparr>)"

text \<open>The loop that gives the balanced nodes between the new node and the rebalance node their new balance.\<close>

partial_function (option) insert_climb :: "heap \<Rightarrow> addr \<Rightarrow> addr \<Rightarrow> (heap \<times> addr) option" where
  "insert_climb h t_root tmpNode =
     (if tmpNode = NULL then None
      else if t_root = tmpNode then Some (h, tmpNode)
      else if balance (h tmpNode) \<noteq> TREE_BALANCED then Some (h, tmpNode)
      else insert_climb (set_bal h tmpNode (descent_dir (h tmpNode))) t_root (avl_parent (h tmpNode)))"

definition insert_rebalance :: "heap \<Rightarrow> lvTree \<Rightarrow> addr \<Rightarrow> (heap \<times> lvTree) option" where
  "insert_rebalance h lvt rebalanceNode =
     (let left = (descent_dir (h rebalanceNode) = TREE_DESCEND_LEFT);
          anchorNode = (if left then avl_left (h rebalanceNode) else avl_right (h rebalanceNode));
          balanceFactor = (if left then TREE_LEFT_HEAVY else TREE_RIGHT_HEAVY);
          curBalance = balance (h rebalanceNode)
      in if curBalance = TREE_BALANCED
         then Some (set_bal h rebalanceNode balanceFactor, lvt\<lparr>avl_height := avl_height lvt + 1\<rparr>)
         else if curBalance = tree_balance_invert balanceFactor
         then Some (set_bal h rebalanceNode TREE_BALANCED, lvt)
         else if anchorNode = NULL then None
         else
           let rebalanceNodeParent = avl_parent (h rebalanceNode)
           in Option.bind
                (if balance (h anchorNode) = balanceFactor
                 then lvAvlTreeSingleRotation h rebalanceNode anchorNode balanceFactor
                 else lvAvlTreeDoubleRotation h rebalanceNode anchorNode balanceFactor)
                (\<lambda>(h, tmpNode).
                   let h = set_parent h tmpNode rebalanceNodeParent
                   in if rebalanceNodeParent \<noteq> NULL
                      then Some (set_child_dir h rebalanceNodeParent tmpNode, lvt)
                      else Some (h, lvt\<lparr>avl_root := tmpNode\<rparr>)))"

definition lvAvlTreeNodeInsert ::
  "heap \<Rightarrow> lvTree \<Rightarrow> mval \<Rightarrow> addr \<Rightarrow> addr \<Rightarrow> (addr \<times> heap \<times> lvTree) option" where
  "lvAvlTreeNodeInsert h lvt key parent node =
     (let h = h(node := init_node (h node) key parent);
          lvt = lvt\<lparr>lastNodeLookedUp := node\<rparr>
      in if parent \<noteq> NULL
         then
           let h' = set_child_dir h parent node;
               lvt = (if descent_dir (h parent) = TREE_DESCEND_LEFT
                      then lvt\<lparr>lastNodeMax := parent\<rparr> else lvt\<lparr>lastNodeMin := parent\<rparr>)
           in Option.bind (insert_climb h' (avl_root lvt) parent) (\<lambda>(h, rebalanceNode).
              Option.bind (insert_rebalance h lvt rebalanceNode) (\<lambda>(h, lvt). Some (node, h, lvt)))
         else Some (node, h,
           lvt\<lparr>avl_root := node, avl_height := 1, lastNodeMin := NULL, lastNodeMax := NULL\<rparr>))"

section \<open>Deletion\<close>

text \<open>The search for the in-order successor, which also records the descent.\<close>

partial_function (option) delete_succ :: "heap \<Rightarrow> addr \<Rightarrow> (heap \<times> addr) option" where
  "delete_succ h next =
     (if avl_left (h next) \<noteq> NULL
      then delete_succ (set_dir h next TREE_DESCEND_LEFT) (avl_left (h next))
      else Some (h, next))"

text \<open>The unlinking of the node: the store, the tree and \<open>balanceThisNode\<close>.\<close>

definition delete_unlink :: "heap \<Rightarrow> lvTree \<Rightarrow> addr \<Rightarrow> (heap \<times> lvTree \<times> addr) option" where
  "delete_unlink h lvt node =
     (let nodeLeft = avl_left (h node);
          nodeRight = avl_right (h node);
          nodeParent = avl_parent (h node)
      in if nodeRight = NULL
         then
           let h' = (if nodeParent \<noteq> NULL then set_child_dir h nodeParent nodeLeft else h);
               lvt = (if nodeParent \<noteq> NULL then lvt else lvt\<lparr>avl_root := nodeLeft\<rparr>)
           in Some (set_parent_if h' nodeLeft nodeParent, lvt, nodeParent)
         else
           Option.bind (delete_succ h nodeRight) (\<lambda>(h, next).
             let nextRight = avl_right (h next);
                 nextParent = avl_parent (h next)
             in if nextParent = NULL then None
                else
                  let h1 = (if nextParent \<noteq> node
                            then set_parent (set_right (set_parent_if
                                   (set_child_dir h nextParent nextRight)
                                   nextRight nextParent) next nodeRight) nodeRight next
                            else h);
                      balanceThisNode = (if nextParent \<noteq> node then nextParent else next);
                      h2 = set_parent_if (set_left h1 next nodeLeft) nodeLeft next;
                      h3 = set_parent h2 next nodeParent;
                      h4 = set_bal h3 next (balance (h3 node));
                      h5 = set_dir h4 next TREE_DESCEND_RIGHT
                  in if nodeParent \<noteq> NULL
                     then Some (set_child_dir h5 nodeParent next, lvt, balanceThisNode)
                     else Some (h5, lvt\<lparr>avl_root := next\<rparr>, balanceThisNode)))"

text \<open>The loop that restores the balance from \<open>balanceThisNode\<close> upwards.\<close>

partial_function (option) delete_balance :: "heap \<Rightarrow> lvTree \<Rightarrow> addr \<Rightarrow> (heap \<times> lvTree) option" where
  "delete_balance h lvt balanceThisNode =
     (if balanceThisNode = NULL then Some (h, lvt\<lparr>avl_height := avl_height lvt - 1\<rparr>)
      else
        let balanceFactor = descent_dir (h balanceThisNode);
            curNodeBalance = balance (h balanceThisNode)
        in if curNodeBalance = TREE_BALANCED
           then Some (set_bal h balanceThisNode (tree_balance_invert balanceFactor), lvt)
           else
             let nextBalanceThisNode = avl_parent (h balanceThisNode)
             in if curNodeBalance = balanceFactor
                then delete_balance (set_bal h balanceThisNode TREE_BALANCED) lvt nextBalanceThisNode
                else
                  let left = (balanceFactor = TREE_LEFT_HEAVY);
                      newFactor = (if left then TREE_RIGHT_HEAVY else TREE_LEFT_HEAVY);
                      anchorNode = (if left then avl_right (h balanceThisNode) else avl_left (h balanceThisNode));
                      treeBalanced = (balance (h anchorNode) = TREE_BALANCED)
                  in Option.bind
                       (if anchorNode = NULL then None
                        else if treeBalanced \<or> balance (h anchorNode) = newFactor
                        then lvAvlTreeSingleRotation h balanceThisNode anchorNode newFactor
                        else lvAvlTreeDoubleRotation h balanceThisNode anchorNode newFactor)
                       (\<lambda>(h, newRoot).
                          let h1 = set_parent h newRoot nextBalanceThisNode;
                              h2 = (if nextBalanceThisNode \<noteq> NULL
                                    then set_child_dir h1 nextBalanceThisNode newRoot else h1);
                              lvt = (if nextBalanceThisNode \<noteq> NULL then lvt else lvt\<lparr>avl_root := newRoot\<rparr>)
                          in if treeBalanced then Some (h2, lvt)
                             else delete_balance h2 lvt nextBalanceThisNode))"

definition lvAvlTreeNodeDelete :: "heap \<Rightarrow> lvTree \<Rightarrow> addr \<Rightarrow> (heap \<times> lvTree) option" where
  "lvAvlTreeNodeDelete h lvt node =
     Option.bind (delete_unlink h lvt node) (\<lambda>(h, lvt, balanceThisNode).
     Option.bind (delete_balance h lvt balanceThisNode) (\<lambda>(h, lvt).
     Some (h, lvt\<lparr>lastNodeLookedUp := NULL\<rparr>)))"

partial_function (option) lvAvlTreeNodePrepareForDelete :: "heap \<Rightarrow> addr \<Rightarrow> heap option" where
  "lvAvlTreeNodePrepareForDelete h curNode =
     (let parentNode = avl_parent (h curNode)
      in if parentNode = NULL then Some h
         else lvAvlTreeNodePrepareForDelete
           (set_dir h parentNode
              (if curNode = avl_left (h parentNode) then TREE_DESCEND_LEFT else TREE_DESCEND_RIGHT))
           parentNode)"

end
