(* ===== verification/Lv_Shape.thy ===== *)
theory Lv_Shape
  imports Lv_Tree "HOL-Library.Tree"
begin

text \<open>
  The abstract view of the store of a local variable tree: a tree of node addresses (\<open>links\<close>), its balance
  factors (\<open>bals\<close>), and contexts, the part of the tree above a node, with the same two predicates. The lemmas
  of this theory say how the assignments of the code act on them.
\<close>

section \<open>Fields after an assignment\<close>

lemma set_fields [simp]:
  "avl_left (set_left h a x b) = (if b = a then x else avl_left (h b))"
  "avl_right (set_left h a x b) = avl_right (h b)"
  "avl_parent (set_left h a x b) = avl_parent (h b)"
  "balance (set_left h a x b) = balance (h b)"
  "descent_dir (set_left h a x b) = descent_dir (h b)"
  "nd_key (set_left h a x b) = nd_key (h b)"
  "avl_left (set_right h a x b) = avl_left (h b)"
  "avl_right (set_right h a x b) = (if b = a then x else avl_right (h b))"
  "avl_parent (set_right h a x b) = avl_parent (h b)"
  "balance (set_right h a x b) = balance (h b)"
  "descent_dir (set_right h a x b) = descent_dir (h b)"
  "nd_key (set_right h a x b) = nd_key (h b)"
  "avl_left (set_parent h a x b) = avl_left (h b)"
  "avl_right (set_parent h a x b) = avl_right (h b)"
  "avl_parent (set_parent h a x b) = (if b = a then x else avl_parent (h b))"
  "balance (set_parent h a x b) = balance (h b)"
  "descent_dir (set_parent h a x b) = descent_dir (h b)"
  "nd_key (set_parent h a x b) = nd_key (h b)"
  "avl_left (set_bal h a y b) = avl_left (h b)"
  "avl_right (set_bal h a y b) = avl_right (h b)"
  "avl_parent (set_bal h a y b) = avl_parent (h b)"
  "balance (set_bal h a y b) = (if b = a then y else balance (h b))"
  "descent_dir (set_bal h a y b) = descent_dir (h b)"
  "nd_key (set_bal h a y b) = nd_key (h b)"
  "avl_left (set_dir h a y b) = avl_left (h b)"
  "avl_right (set_dir h a y b) = avl_right (h b)"
  "avl_parent (set_dir h a y b) = avl_parent (h b)"
  "balance (set_dir h a y b) = balance (h b)"
  "descent_dir (set_dir h a y b) = (if b = a then y else descent_dir (h b))"
  "nd_key (set_dir h a y b) = nd_key (h b)"
  by (simp_all add: set_left_def set_right_def set_parent_def set_bal_def set_dir_def)

text \<open>
  The value of a node, the tree of its children and the stored float form of its key, which insertions and deletions of other nodes leave alone.
\<close>

definition payload :: "lvTreeNode \<Rightarrow> mval \<times> addr \<times> flt_key" where
  "payload n = (nd_v n, sbs_child n, nd_flt n)"

lemma set_payload [simp]:
  "payload (set_left h a x b) = payload (h b)" "payload (set_right h a x b) = payload (h b)"
  "payload (set_parent h a x b) = payload (h b)" "payload (set_bal h a y b) = payload (h b)"
  "payload (set_dir h a y b) = payload (h b)" "payload (set_parent_if h a x b) = payload (h b)"
  "payload (set_child_dir h a x b) = payload (h b)"
  by (simp_all add: payload_def set_left_def set_right_def set_parent_def set_bal_def set_dir_def set_parent_if_def
      set_child_dir_def)

lemma set_flt_form [simp]:
  "nd_flt (set_left h a x b) = nd_flt (h b)" "nd_flt (set_right h a x b) = nd_flt (h b)"
  "nd_flt (set_parent h a x b) = nd_flt (h b)" "nd_flt (set_bal h a y b) = nd_flt (h b)"
  "nd_flt (set_dir h a y b) = nd_flt (h b)" "nd_flt (set_parent_if h a x b) = nd_flt (h b)"
  "nd_flt (set_child_dir h a x b) = nd_flt (h b)"
  by (simp_all add: set_left_def set_right_def set_parent_def set_bal_def set_dir_def set_parent_if_def
      set_child_dir_def)

text \<open>The assignment of a comparison to the node that it compares.\<close>

definition set_flt :: "heap \<Rightarrow> addr \<Rightarrow> flt_key \<Rightarrow> heap" where
  "set_flt h a f = h(a := (h a)\<lparr>nd_flt := f\<rparr>)"

lemma set_flt_fields [simp]:
  "avl_left (set_flt h a f b) = avl_left (h b)"
  "avl_right (set_flt h a f b) = avl_right (h b)"
  "avl_parent (set_flt h a f b) = avl_parent (h b)"
  "balance (set_flt h a f b) = balance (h b)"
  "descent_dir (set_flt h a f b) = descent_dir (h b)"
  "nd_key (set_flt h a f b) = nd_key (h b)"
  "nd_flt (set_flt h a f b) = (if b = a then f else nd_flt (h b))"
  by (simp_all add: set_flt_def)

lemma set_parent_if_fields [simp]:
  "avl_left (set_parent_if h a x b) = avl_left (h b)"
  "avl_right (set_parent_if h a x b) = avl_right (h b)"
  "avl_parent (set_parent_if h a x b) = (if b = a \<and> a \<noteq> NULL then x else avl_parent (h b))"
  "balance (set_parent_if h a x b) = balance (h b)"
  "descent_dir (set_parent_if h a x b) = descent_dir (h b)"
  "nd_key (set_parent_if h a x b) = nd_key (h b)"
  by (simp_all add: set_parent_if_def)

lemma set_child_dir_fields [simp]:
  "avl_left (set_child_dir h p x b) =
    (if b = p \<and> descent_dir (h p) = TREE_LEFT_HEAVY then x else avl_left (h b))"
  "avl_right (set_child_dir h p x b) =
    (if b = p \<and> descent_dir (h p) \<noteq> TREE_LEFT_HEAVY then x else avl_right (h b))"
  "avl_parent (set_child_dir h p x b) = avl_parent (h b)"
  "balance (set_child_dir h p x b) = balance (h b)"
  "descent_dir (set_child_dir h p x b) = descent_dir (h b)"
  "nd_key (set_child_dir h p x b) = nd_key (h b)"
  by (simp_all add: set_child_dir_def)

section \<open>Trees and contexts\<close>

fun rootp :: "addr tree \<Rightarrow> addr" where
  "rootp Leaf = NULL"
| "rootp (Node l a r) = a"

fun links :: "heap \<Rightarrow> addr \<Rightarrow> addr tree \<Rightarrow> bool" where
  "links h par Leaf \<longleftrightarrow> True"
| "links h par (Node l a r) \<longleftrightarrow>
     a \<noteq> NULL \<and> avl_parent (h a) = par \<and> avl_left (h a) = rootp l \<and> avl_right (h a) = rootp r
     \<and> links h a l \<and> links h a r"

fun bal_ok :: "tree_bal \<Rightarrow> nat \<Rightarrow> nat \<Rightarrow> bool" where
  "bal_ok TREE_LEFT_HEAVY hl hr \<longleftrightarrow> hl = Suc hr"
| "bal_ok TREE_RIGHT_HEAVY hl hr \<longleftrightarrow> hr = Suc hl"
| "bal_ok TREE_BALANCED hl hr \<longleftrightarrow> hl = hr"

fun bals :: "heap \<Rightarrow> addr tree \<Rightarrow> bool" where
  "bals h Leaf \<longleftrightarrow> True"
| "bals h (Node l a r) \<longleftrightarrow> bals h l \<and> bals h r \<and> bal_ok (balance (h a)) (height l) (height r)"

text \<open>A frame of a context: the hole is the left child (\<open>FL\<close>) or the right child (\<open>FR\<close>) of the node.\<close>

datatype frame = FL addr "addr tree" | FR "addr tree" addr

type_synonym ctx = "frame list"

fun plug :: "ctx \<Rightarrow> addr tree \<Rightarrow> addr tree" where
  "plug [] t = t"
| "plug (FL a r # c) t = plug c (Node t a r)"
| "plug (FR l a # c) t = plug c (Node l a t)"

fun ctop :: "ctx \<Rightarrow> addr" where
  "ctop [] = NULL"
| "ctop (FL a r # c) = a"
| "ctop (FR l a # c) = a"

fun clinks :: "heap \<Rightarrow> addr \<Rightarrow> ctx \<Rightarrow> bool" where
  "clinks h p [] \<longleftrightarrow> True"
| "clinks h p (FL a r # c) \<longleftrightarrow>
     a \<noteq> NULL \<and> avl_parent (h a) = ctop c \<and> avl_left (h a) = p \<and> avl_right (h a) = rootp r
     \<and> links h a r \<and> clinks h a c"
| "clinks h p (FR l a # c) \<longleftrightarrow>
     a \<noteq> NULL \<and> avl_parent (h a) = ctop c \<and> avl_left (h a) = rootp l \<and> avl_right (h a) = p
     \<and> links h a l \<and> clinks h a c"

fun cbals :: "heap \<Rightarrow> nat \<Rightarrow> ctx \<Rightarrow> bool" where
  "cbals h n [] \<longleftrightarrow> True"
| "cbals h n (FL a r # c) \<longleftrightarrow>
     bals h r \<and> bal_ok (balance (h a)) n (height r) \<and> cbals h (Suc (max n (height r))) c"
| "cbals h n (FR l a # c) \<longleftrightarrow>
     bals h l \<and> bal_ok (balance (h a)) (height l) n \<and> cbals h (Suc (max (height l) n)) c"

fun cdirs :: "heap \<Rightarrow> ctx \<Rightarrow> bool" where
  "cdirs h [] \<longleftrightarrow> True"
| "cdirs h (FL a r # c) \<longleftrightarrow> descent_dir (h a) = TREE_DESCEND_LEFT \<and> cdirs h c"
| "cdirs h (FR l a # c) \<longleftrightarrow> descent_dir (h a) = TREE_DESCEND_RIGHT \<and> cdirs h c"

fun cbefore :: "ctx \<Rightarrow> addr list" where
  "cbefore [] = []"
| "cbefore (FL a r # c) = cbefore c"
| "cbefore (FR l a # c) = cbefore c @ inorder l @ [a]"

fun cafter :: "ctx \<Rightarrow> addr list" where
  "cafter [] = []"
| "cafter (FL a r # c) = a # inorder r @ cafter c"
| "cafter (FR l a # c) = cafter c"

fun caddrs :: "ctx \<Rightarrow> addr set" where
  "caddrs [] = {}"
| "caddrs (FL a r # c) = insert a (set_tree r \<union> caddrs c)"
| "caddrs (FR l a # c) = insert a (set_tree l \<union> caddrs c)"

text \<open>The height of a plugged tree as a function of the height of what is plugged in.\<close>

fun cheight :: "ctx \<Rightarrow> nat \<Rightarrow> nat" where
  "cheight [] n = n"
| "cheight (FL a r # c) n = cheight c (Suc (max n (height r)))"
| "cheight (FR l a # c) n = cheight c (Suc (max (height l) n))"

lemma inorder_plug: "inorder (plug c t) = cbefore c @ inorder t @ cafter c"
  by (induction c t rule: plug.induct) simp_all

lemma height_plug: "height (plug c t) = cheight c (height t)"
  by (induction c t rule: plug.induct) simp_all

lemma caddrs_eq: "caddrs c = set (cbefore c) \<union> set (cafter c)"
  by (induction c rule: caddrs.induct) (auto simp: set_inorder)

lemma set_tree_plug: "set_tree (plug c t) = caddrs c \<union> set_tree t"
  by (induction c t rule: plug.induct) auto

lemma plug_append: "plug (c @ d) t = plug d (plug c t)"
  by (induction c t rule: plug.induct) simp_all

lemma caddrs_append: "caddrs (c @ d) = caddrs c \<union> caddrs d"
  by (induction c rule: caddrs.induct) auto

lemma cbefore_append: "cbefore (c @ d) = cbefore d @ cbefore c"
  by (induction c rule: caddrs.induct) auto

lemma cafter_append: "cafter (c @ d) = cafter c @ cafter d"
  by (induction c rule: caddrs.induct) auto

lemma cheight_append: "cheight (c @ d) n = cheight d (cheight c n)"
  by (induction c n rule: cheight.induct) auto

lemma cbals_append: "cbals h n (c @ d) \<longleftrightarrow> cbals h n c \<and> cbals h (cheight c n) d"
  by (induction h n c rule: cbals.induct) auto

lemma plug_Node: "\<exists>l' b r'. plug c (Node l a r) = Node l' b r'"
  by (induction c arbitrary: l a r rule: caddrs.induct) auto

lemma distinct_plug:
  "distinct (inorder (plug c t)) \<longleftrightarrow>
    distinct (cbefore c) \<and> distinct (cafter c) \<and> distinct (inorder t)
    \<and> set (cbefore c) \<inter> set (cafter c) = {} \<and> caddrs c \<inter> set_tree t = {}"
  unfolding inorder_plug caddrs_eq by (auto simp: set_inorder)

lemma rootp_in: "t \<noteq> Leaf \<Longrightarrow> rootp t \<in> set_tree t"
  by (cases t) simp_all

lemma rootp_NULL [simp]: "links h par t \<Longrightarrow> rootp t = NULL \<longleftrightarrow> t = Leaf"
  by (cases t) simp_all

lemma rootp_zero [simp]: "links h par t \<Longrightarrow> 0 = rootp t \<longleftrightarrow> t = Leaf"
  by (cases t) simp_all

lemma links_nonzero: "links h par t \<Longrightarrow> NULL \<notin> set_tree t"
  by (induction t arbitrary: par) auto

lemma links_plug: "links h NULL (plug c t) \<longleftrightarrow> clinks h (rootp t) c \<and> links h (ctop c) t"
  by (induction c t rule: plug.induct) (auto split: tree.splits)

lemma bals_plug: "bals h (plug c t) \<longleftrightarrow> cbals h (height t) c \<and> bals h t"
  by (induction c t rule: plug.induct) auto

lemma ctop_in: "c \<noteq> [] \<Longrightarrow> ctop c \<in> caddrs c"
  by (cases c rule: ctop.cases) auto

lemma ctop_NULL [simp]: "clinks h p c \<Longrightarrow> ctop c = NULL \<longleftrightarrow> c = []"
  by (cases c rule: ctop.cases) auto

lemma ctop_zero [simp]: "clinks h p c \<Longrightarrow> 0 = ctop c \<longleftrightarrow> c = []"
  by (cases c rule: ctop.cases) auto

lemma clinks_nonzero: "clinks h p c \<Longrightarrow> NULL \<notin> caddrs c"
  by (induction h p c rule: clinks.induct) (auto dest: links_nonzero)

lemma rootp_plug: "rootp t = rootp u \<or> c \<noteq> [] \<Longrightarrow> rootp (plug c t) = rootp (plug c u)"
proof (induction c arbitrary: t u rule: caddrs.induct)
  case (2 a r c)
  then show ?case by (metis plug.simps(2) rootp.simps(2))
next
  case (3 l a c)
  then show ?case by (metis plug.simps(3) rootp.simps(2))
qed simp

section \<open>What the predicates depend on\<close>

lemma links_cong:
  assumes "\<And>a. a \<in> set_tree t \<Longrightarrow> avl_left (h a) = avl_left (h' a) \<and> avl_right (h a) = avl_right (h' a)
      \<and> avl_parent (h a) = avl_parent (h' a)"
  shows "links h par t = links h' par t"
  using assms by (induction t arbitrary: par) auto

lemma bals_cong: "(\<And>a. a \<in> set_tree t \<Longrightarrow> balance (h a) = balance (h' a)) \<Longrightarrow> bals h t = bals h' t"
  by (induction t) auto

lemma clinks_cong:
  assumes "\<And>a. a \<in> caddrs c \<Longrightarrow> avl_left (h a) = avl_left (h' a) \<and> avl_right (h a) = avl_right (h' a)
      \<and> avl_parent (h a) = avl_parent (h' a)"
  shows "clinks h p c = clinks h' p c"
  using assms
proof (induction c arbitrary: p rule: caddrs.induct)
  case (2 a r c)
  then show ?case using links_cong [of r h h' a] by auto
next
  case (3 l a c)
  then show ?case using links_cong [of l h h' a] by auto
qed simp

lemma cbals_cong: "(\<And>a. a \<in> caddrs c \<Longrightarrow> balance (h a) = balance (h' a)) \<Longrightarrow> cbals h n c = cbals h' n c"
proof (induction c arbitrary: n rule: caddrs.induct)
  case (2 a r c)
  then show ?case using bals_cong [of r h h'] by auto
next
  case (3 l a c)
  then show ?case using bals_cong [of l h h'] by auto
qed simp

lemma cdirs_cong: "(\<And>a. a \<in> caddrs c \<Longrightarrow> descent_dir (h a) = descent_dir (h' a)) \<Longrightarrow> cdirs h c = cdirs h' c"
  by (induction c rule: caddrs.induct) auto

lemma links_set [simp]:
  "a \<notin> set_tree t \<Longrightarrow> links (set_left h a x) par t = links h par t"
  "a \<notin> set_tree t \<Longrightarrow> links (set_right h a x) par t = links h par t"
  "a \<notin> set_tree t \<Longrightarrow> links (set_parent h a x) par t = links h par t"
  "a \<notin> set_tree t \<Longrightarrow> links (set_parent_if h a x) par t = links h par t"
  "a \<notin> set_tree t \<Longrightarrow> links (set_child_dir h a x) par t = links h par t"
  "links (set_bal h a y) par t = links h par t"
  "links (set_dir h a y) par t = links h par t"
  "links (set_flt h a f) par t = links h par t"
  by (auto intro!: links_cong)

lemma clinks_set [simp]:
  "a \<notin> caddrs c \<Longrightarrow> clinks (set_left h a x) p c = clinks h p c"
  "a \<notin> caddrs c \<Longrightarrow> clinks (set_right h a x) p c = clinks h p c"
  "a \<notin> caddrs c \<Longrightarrow> clinks (set_parent h a x) p c = clinks h p c"
  "a \<notin> caddrs c \<Longrightarrow> clinks (set_parent_if h a x) p c = clinks h p c"
  "a \<notin> caddrs c \<Longrightarrow> clinks (set_child_dir h a x) p c = clinks h p c"
  "clinks (set_bal h a y) p c = clinks h p c"
  "clinks (set_dir h a y) p c = clinks h p c"
  "clinks (set_flt h a f) p c = clinks h p c"
  by (auto intro!: clinks_cong)

lemma bals_set [simp]:
  "bals (set_left h a x) t = bals h t"
  "bals (set_right h a x) t = bals h t"
  "bals (set_parent h a x) t = bals h t"
  "bals (set_parent_if h a x) t = bals h t"
  "bals (set_child_dir h a x) t = bals h t"
  "a \<notin> set_tree t \<Longrightarrow> bals (set_bal h a y) t = bals h t"
  "bals (set_dir h a y) t = bals h t"
  "bals (set_flt h a f) t = bals h t"
  by (auto intro!: bals_cong)

lemma cbals_set [simp]:
  "cbals (set_left h a x) n c = cbals h n c"
  "cbals (set_right h a x) n c = cbals h n c"
  "cbals (set_parent h a x) n c = cbals h n c"
  "cbals (set_parent_if h a x) n c = cbals h n c"
  "cbals (set_child_dir h a x) n c = cbals h n c"
  "a \<notin> caddrs c \<Longrightarrow> cbals (set_bal h a y) n c = cbals h n c"
  "cbals (set_dir h a y) n c = cbals h n c"
  "cbals (set_flt h a f) n c = cbals h n c"
  by (auto intro!: cbals_cong)

lemma cdirs_set [simp]:
  "cdirs (set_left h a x) c = cdirs h c"
  "cdirs (set_right h a x) c = cdirs h c"
  "cdirs (set_parent h a x) c = cdirs h c"
  "cdirs (set_parent_if h a x) c = cdirs h c"
  "cdirs (set_child_dir h a x) c = cdirs h c"
  "cdirs (set_bal h a y) c = cdirs h c"
  "a \<notin> caddrs c \<Longrightarrow> cdirs (set_dir h a y) c = cdirs h c"
  "cdirs (set_flt h a f) c = cdirs h c"
  by (auto intro!: cdirs_cong)

section \<open>Changing the parent pointer of a root and the child pointer of a context\<close>

lemma links_reparent:
  "links h par t \<Longrightarrow> distinct (inorder t) \<Longrightarrow> links (set_parent_if h (rootp t) q) q t"
  by (cases t) (auto simp: set_inorder)

lemma links_reparent_node:
  "links h par (Node l a r) \<Longrightarrow> distinct (inorder (Node l a r)) \<Longrightarrow> links (set_parent h a q) q (Node l a r)"
  by (auto simp: set_inorder)

lemma clinks_rechild:
  "clinks h p c \<Longrightarrow> cdirs h c \<Longrightarrow> c \<noteq> [] \<Longrightarrow> distinct (inorder (plug c Leaf)) \<Longrightarrow>
    clinks (set_child_dir h (ctop c) q) q c"
  by (cases c rule: ctop.cases) (auto simp: distinct_plug caddrs_eq set_inorder)

end
