(* ===== verification/Lv_Walk.thy ===== *)
theory Lv_Walk
  imports Lv_Shape
begin

text \<open>
  The traversals of a local variable tree: first and last node, in-order neighbours, and the
  post-order traversal, on any store that holds a linked tree.
\<close>

definition hd0 :: "addr list \<Rightarrow> addr" where
  "hd0 xs = (case xs of [] \<Rightarrow> NULL | x # _ \<Rightarrow> x)"

definition last0 :: "addr list \<Rightarrow> addr" where
  "last0 xs = (if xs = [] then NULL else last xs)"

lemma hd0_simps [simp]: "hd0 [] = NULL" "hd0 (x # xs) = x"
  by (simp_all add: hd0_def)

lemma last0_simps [simp]: "last0 [] = NULL" "last0 (xs @ [x]) = x" "last0 [x] = x"
  by (simp_all add: last0_def)

lemma hd0_append: "hd0 (xs @ ys) = (if xs = [] then hd0 ys else hd0 xs)"
  by (cases xs) simp_all

lemma last0_append: "last0 (xs @ ys) = (if ys = [] then last0 xs else last0 ys)"
  by (simp add: last0_def)

lemma last0_Cons [simp]: "xs \<noteq> [] \<Longrightarrow> last0 (x # xs) = last0 xs"
  by (simp add: last0_def)

section \<open>First and last\<close>

lemma left_most_eq: "links h par (Node l a r) \<Longrightarrow> left_most h a = Some (hd0 (inorder (Node l a r)))"
proof (induction l arbitrary: par a r)
  case Leaf
  then show ?case by (subst left_most.simps) simp
next
  case (Node ll b lr)
  then show ?case by (subst left_most.simps) (auto simp: hd0_append)
qed

lemma right_most_eq: "links h par (Node l a r) \<Longrightarrow> right_most h a = Some (last0 (inorder (Node l a r)))"
proof (induction r arbitrary: par a l)
  case Leaf
  then show ?case by (subst right_most.simps) simp
next
  case (Node rl b rr)
  then show ?case by (subst right_most.simps) (auto simp: last0_append)
qed

lemma lvAvlTreeFirst_eq:
  "links h NULL t \<Longrightarrow> avl_root lvt = rootp t \<Longrightarrow> lvAvlTreeFirst h lvt = Some (hd0 (inorder t))"
proof (cases t)
  case (Node l a r)
  then show "links h NULL t \<Longrightarrow> avl_root lvt = rootp t \<Longrightarrow> ?thesis"
    using left_most_eq [of h NULL l a r] by (simp add: lvAvlTreeFirst_def)
qed (simp add: lvAvlTreeFirst_def)

lemma lvAvlTreeLast_eq:
  "links h NULL t \<Longrightarrow> avl_root lvt = rootp t \<Longrightarrow> lvAvlTreeLast h lvt = Some (last0 (inorder t))"
proof (cases t)
  case (Node l a r)
  then show "links h NULL t \<Longrightarrow> avl_root lvt = rootp t \<Longrightarrow> ?thesis"
    using right_most_eq [of h NULL l a r] by (simp add: lvAvlTreeLast_def)
qed (simp add: lvAvlTreeLast_def)

section \<open>Neighbours\<close>

lemma next_climb_eq:
  "clinks h p c \<Longrightarrow> p \<noteq> NULL \<Longrightarrow> p \<notin> caddrs c \<Longrightarrow> distinct (inorder (plug c Leaf)) \<Longrightarrow>
    next_climb h p (ctop c) = Some (hd0 (cafter c))"
proof (induction c arbitrary: p rule: caddrs.induct)
  case 1
  then show ?case by (subst next_climb.simps) simp
next
  case (2 a r c)
  then show ?case by (subst next_climb.simps) simp
next
  case (3 l a c)
  have "rootp l \<noteq> p" using 3 rootp_in [of l] by (cases l) auto
  moreover have "a \<notin> caddrs c" "distinct (inorder (plug c Leaf))"
    using "3.prems"(4) by (auto simp: inorder_plug caddrs_eq)
  ultimately show ?case using 3 by (subst next_climb.simps) simp
qed

lemma prev_climb_eq:
  "clinks h p c \<Longrightarrow> p \<noteq> NULL \<Longrightarrow> p \<notin> caddrs c \<Longrightarrow> distinct (inorder (plug c Leaf)) \<Longrightarrow>
    prev_climb h p (ctop c) = Some (last0 (cbefore c))"
proof (induction c arbitrary: p rule: caddrs.induct)
  case 1
  then show ?case by (subst prev_climb.simps) simp
next
  case (2 a r c)
  have "rootp r \<noteq> p" using 2 rootp_in [of r] by (cases r) auto
  moreover have "a \<notin> caddrs c" "distinct (inorder (plug c Leaf))"
    using "2.prems"(4) by (auto simp: inorder_plug caddrs_eq)
  ultimately show ?case using 2 by (subst prev_climb.simps) simp
next
  case (3 l a c)
  then show ?case by (subst prev_climb.simps) (simp add: last0_append)
qed

lemma plug_context_facts:
  assumes "links h NULL (plug c (Node l a r))" and "distinct (inorder (plug c (Node l a r)))"
  shows "clinks h a c" and "links h (ctop c) (Node l a r)" and "a \<noteq> NULL" and "a \<notin> caddrs c"
    and "distinct (inorder (plug c Leaf))"
  using assms by (auto simp: links_plug distinct_plug)

lemma lvAvlTreeNext_ctx:
  assumes "links h NULL (plug c (Node l a r))" and "distinct (inorder (plug c (Node l a r)))"
  shows "lvAvlTreeNext h a = Some (hd0 (inorder r @ cafter c))"
proof -
  note f = plug_context_facts [OF assms]
  show ?thesis
  proof (cases r)
    case Leaf
    then show ?thesis using f next_climb_eq [OF f(1,3,4,5)] by (simp add: lvAvlTreeNext_def)
  next
    case (Node rl b rr)
    then show ?thesis using f left_most_eq [of h a rl b rr] by (auto simp: lvAvlTreeNext_def hd0_append)
  qed
qed

lemma lvAvlTreePrev_ctx:
  assumes "links h NULL (plug c (Node l a r))" and "distinct (inorder (plug c (Node l a r)))"
  shows "lvAvlTreePrev h a = Some (last0 (cbefore c @ inorder l))"
proof -
  note f = plug_context_facts [OF assms]
  show ?thesis
  proof (cases l)
    case Leaf
    then show ?thesis using f prev_climb_eq [OF f(1,3,4,5)] by (simp add: lvAvlTreePrev_def)
  next
    case (Node ll b lr)
    then show ?thesis using f right_most_eq [of h a ll b lr] by (auto simp: lvAvlTreePrev_def last0_append)
  qed
qed

lemma context_exists: "a \<in> set_tree t \<Longrightarrow> \<exists>c l r. t = plug c (Node l a r)"
proof (induction t)
  case Leaf
  then show ?case by simp
next
  case (Node l b r)
  consider "a = b" | "a \<in> set_tree l" | "a \<in> set_tree r" using Node.prems by auto
  then show ?case
  proof cases
    case 1
    then show ?thesis by (intro exI [of _ "[]"]) auto
  next
    case 2
    then obtain c l' r' where "l = plug c (Node l' a r')" using Node.IH(1) by blast
    then have "Node l b r = plug (c @ [FL b r]) (Node l' a r')" by (simp add: plug_append)
    then show ?thesis by blast
  next
    case 3
    then obtain c l' r' where "r = plug c (Node l' a r')" using Node.IH(2) by blast
    then have "Node l b r = plug (c @ [FR l b]) (Node l' a r')" by (simp add: plug_append)
    then show ?thesis by blast
  qed
qed

lemma distinct_split_unique:
  "distinct (xs @ a # ys) \<Longrightarrow> xs @ a # ys = xs' @ a # ys' \<Longrightarrow> xs = xs' \<and> ys = ys'"
proof (induction xs arbitrary: xs')
  case Nil
  then show ?case by (cases xs') auto
next
  case (Cons x xs)
  show ?case
  proof (cases xs')
    case Nil
    then show ?thesis using Cons.prems by auto
  next
    case (Cons y zs)
    then show ?thesis
      using Cons.IH [of zs] Cons.prems by (metis append_Cons distinct.simps(2) list.inject)
  qed
qed

lemma lvAvlTree_neighbours:
  assumes "links h NULL t" and "distinct (inorder t)" and "inorder t = xs @ a # ys"
  shows "lvAvlTreeNext h a = Some (hd0 ys)" and "lvAvlTreePrev h a = Some (last0 xs)"
proof -
  have "a \<in> set_tree t" using assms(3) set_inorder [of t] by auto
  then obtain c l r where t: "t = plug c (Node l a r)" using context_exists by blast
  have "inorder t = (cbefore c @ inorder l) @ a # (inorder r @ cafter c)" by (simp add: t inorder_plug)
  then have "xs = cbefore c @ inorder l" "ys = inorder r @ cafter c"
    using distinct_split_unique [of xs a ys] assms(2,3) by auto
  then show "lvAvlTreeNext h a = Some (hd0 ys)" and "lvAvlTreePrev h a = Some (last0 xs)"
    using lvAvlTreeNext_ctx lvAvlTreePrev_ctx assms(1,2) t by auto
qed

section \<open>Post-order\<close>

fun cpost :: "ctx \<Rightarrow> addr list" where
  "cpost [] = []"
| "cpost (FL a r # c) = postorder r @ a # cpost c"
| "cpost (FR l a # c) = a # cpost c"

fun cpostpre :: "ctx \<Rightarrow> addr list" where
  "cpostpre [] = []"
| "cpostpre (FL a r # c) = cpostpre c"
| "cpostpre (FR l a # c) = cpostpre c @ postorder l"

lemma postorder_plug: "postorder (plug c t) = cpostpre c @ postorder t @ cpost c"
  by (induction c t rule: plug.induct) simp_all

lemma postorder_Nil [simp]: "postorder t = [] \<longleftrightarrow> t = Leaf"
  by (cases t) simp_all

lemma post_down_eq: "links h par t \<Longrightarrow> t \<noteq> Leaf \<Longrightarrow> post_down h (rootp t) = Some (hd0 (postorder t))"
proof (induction t arbitrary: par)
  case Leaf
  then show ?case by simp
next
  case (Node l a r)
  then show ?case
    by (cases "l = Leaf"; cases "r = Leaf"; subst post_down.simps) (auto simp: hd0_append)
qed

lemma lvAvlTreeNextPostOrder_ctx:
  assumes "links h NULL (plug c (Node l a r))" and "distinct (inorder (plug c (Node l a r)))"
  shows "lvAvlTreeNextPostOrder h a = Some (hd0 (cpost c))"
proof -
  note f = plug_context_facts [OF assms]
  show ?thesis
  proof (cases c rule: ctop.cases)
    case 1
    then show ?thesis using f by (simp add: lvAvlTreeNextPostOrder_def)
  next
    case (2 b s d)
    have "rootp s \<noteq> a" using f 2 rootp_in [of s] by (cases s) auto
    then show ?thesis
      using f 2 post_down_eq [of h b s] by (auto simp: lvAvlTreeNextPostOrder_def hd0_append)
  next
    case (3 s b d)
    then show ?thesis using f by (simp add: lvAvlTreeNextPostOrder_def)
  qed
qed

lemma lvAvlTreePostOrder_next:
  assumes "links h NULL t" and "distinct (inorder t)" and "postorder t = xs @ a # ys"
  shows "lvAvlTreeNextPostOrder h a = Some (hd0 ys)"
proof -
  have d: "distinct (postorder t)" using assms(2) by (metis card_distinct distinct_card length_inorder
      length_postorder set_inorder set_postorder)
  have "a \<in> set_tree t" using assms(3) set_postorder [of t] by auto
  then obtain c l r where t: "t = plug c (Node l a r)" using context_exists by blast
  have "postorder t = (cpostpre c @ postorder l @ postorder r) @ a # cpost c" by (simp add: t postorder_plug)
  then have "ys = cpost c" using distinct_split_unique [of xs a ys] d assms(3) by auto
  then show ?thesis using lvAvlTreeNextPostOrder_ctx assms(1,2) t by auto
qed

end
