(* ===== verification/Lv_Lookup.thy ===== *)
theory Lv_Lookup
  imports Lv_Walk
begin

text \<open>
  The invariant of a local variable tree with its clue, and the correctness of the lookups. The three
  comparison macros share a contract, the locale \<open>key_compare\<close>; the lookup is verified once from the
  contract and holds for each of the three lookup functions by interpretation.
\<close>

section \<open>The invariant\<close>

definition rank_of :: "heap \<Rightarrow> addr \<Rightarrow> krank" where
  "rank_of h a = krank (nd_key (h a))"

lemma rank_of_set [simp]:
  "rank_of (set_left h a x) = rank_of h" "rank_of (set_right h a x) = rank_of h"
  "rank_of (set_parent h a x) = rank_of h" "rank_of (set_parent_if h a x) = rank_of h"
  "rank_of (set_child_dir h a x) = rank_of h" "rank_of (set_bal h a y) = rank_of h"
  "rank_of (set_dir h a y) = rank_of h" "rank_of (set_flt h a f) = rank_of h"
  by (rule ext, simp add: rank_of_def)+

definition ksorted :: "heap \<Rightarrow> addr tree \<Rightarrow> bool" where
  "ksorted h t \<longleftrightarrow> sorted_wrt (<) (map (rank_of h) (inorder t))"

definition keys_ok :: "heap \<Rightarrow> addr tree \<Rightarrow> bool" where
  "keys_ok h t \<longleftrightarrow> (\<forall>a \<in> set_tree t. node_ok (h a))"

lemma keys_ok_set [simp]:
  "keys_ok (set_dir h a d) t = keys_ok h t"
  "keys_ok h t \<Longrightarrow> flt_ok (nd_key (h a)) f \<Longrightarrow> keys_ok (set_flt h a f) t"
  by (auto simp: keys_ok_def node_ok_def)

text \<open>
  The clue: the descent directions lead to the node of the last lookup, and when it lacks a child, the
  minimum or maximum on that side is its in-order neighbour.
\<close>

definition clue_ok :: "heap \<Rightarrow> lvTree \<Rightarrow> addr tree \<Rightarrow> bool" where
  "clue_ok h lvt t \<longleftrightarrow> lastNodeLookedUp lvt = NULL \<or>
     (\<exists>c l r. t = plug c (Node l (lastNodeLookedUp lvt) r) \<and> cdirs h c
        \<and> (l = Leaf \<longrightarrow> lastNodeMin lvt = last0 (cbefore c))
        \<and> (r = Leaf \<longrightarrow> lastNodeMax lvt = hd0 (cafter c)))"

definition tree_inv :: "heap \<Rightarrow> lvTree \<Rightarrow> addr tree \<Rightarrow> bool" where
  "tree_inv h lvt t \<longleftrightarrow> links h NULL t \<and> distinct (inorder t) \<and> bals h t \<and> ksorted h t \<and> keys_ok h t
     \<and> avl_root lvt = rootp t \<and> avl_height lvt = height t"

definition lv_inv :: "heap \<Rightarrow> lvTree \<Rightarrow> addr tree \<Rightarrow> bool" where
  "lv_inv h lvt t \<longleftrightarrow> tree_inv h lvt t \<and> clue_ok h lvt t"

text \<open>A store that differs from another only in descent directions.\<close>

definition same_but_dirs :: "heap \<Rightarrow> heap \<Rightarrow> bool" where
  "same_but_dirs h h' \<longleftrightarrow>
     (\<forall>a. (h' a)\<lparr>descent_dir := TREE_BALANCED\<rparr> = (h a)\<lparr>descent_dir := TREE_BALANCED\<rparr>)"

lemma same_but_dirs_refl [simp]: "same_but_dirs h h"
  by (simp add: same_but_dirs_def)

lemma same_but_dirs_set [simp]: "same_but_dirs h (set_dir h a d)"
  by (simp add: same_but_dirs_def set_dir_def)

lemma same_but_dirs_trans: "same_but_dirs h h' \<Longrightarrow> same_but_dirs h' h'' \<Longrightarrow> same_but_dirs h h''"
  by (simp add: same_but_dirs_def)

lemma same_but_dirs_fields:
  assumes "same_but_dirs h h'"
  shows "avl_left (h' a) = avl_left (h a)" "avl_right (h' a) = avl_right (h a)"
    "avl_parent (h' a) = avl_parent (h a)" "balance (h' a) = balance (h a)" "nd_key (h' a) = nd_key (h a)"
    "nd_v (h' a) = nd_v (h a)" "sbs_child (h' a) = sbs_child (h a)" "nd_flt (h' a) = nd_flt (h a)"
proof -
  have e: "(h' a)\<lparr>descent_dir := TREE_BALANCED\<rparr> = (h a)\<lparr>descent_dir := TREE_BALANCED\<rparr>"
    using assms by (simp add: same_but_dirs_def)
  show "avl_left (h' a) = avl_left (h a)" using arg_cong [OF e, of avl_left] by simp
  show "avl_right (h' a) = avl_right (h a)" using arg_cong [OF e, of avl_right] by simp
  show "avl_parent (h' a) = avl_parent (h a)" using arg_cong [OF e, of avl_parent] by simp
  show "balance (h' a) = balance (h a)" using arg_cong [OF e, of balance] by simp
  show "nd_key (h' a) = nd_key (h a)" using arg_cong [OF e, of nd_key] by simp
  show "nd_v (h' a) = nd_v (h a)" using arg_cong [OF e, of nd_v] by simp
  show "sbs_child (h' a) = sbs_child (h a)" using arg_cong [OF e, of sbs_child] by simp
  show "nd_flt (h' a) = nd_flt (h a)" using arg_cong [OF e, of nd_flt] by simp
qed

text \<open>A store that differs from another only in descent directions and in the stored float forms.\<close>

definition same_nodes :: "heap \<Rightarrow> heap \<Rightarrow> bool" where
  "same_nodes h h' \<longleftrightarrow>
     (\<forall>a. \<exists>d f. h' a = (h a)\<lparr>descent_dir := d, nd_flt := f\<rparr>)"

lemma same_nodes_refl [simp]: "same_nodes h h"
  unfolding same_nodes_def
proof
  fix a
  show "\<exists>d f. h a = (h a)\<lparr>descent_dir := d, nd_flt := f\<rparr>"
    by (intro exI [of _ "descent_dir (h a)"] exI [of _ "nd_flt (h a)"]) simp
qed

lemma same_nodes_set [simp]: "same_nodes h (set_dir h a d)" "same_nodes h (set_flt h a f)"
  unfolding same_nodes_def
proof -
  show "\<forall>b. \<exists>d' f'. set_dir h a d b = (h b)\<lparr>descent_dir := d', nd_flt := f'\<rparr>"
  proof
    fix b
    show "\<exists>d' f'. set_dir h a d b = (h b)\<lparr>descent_dir := d', nd_flt := f'\<rparr>"
      by (intro exI [of _ "if b = a then d else descent_dir (h b)"] exI [of _ "nd_flt (h b)"]) (simp add: set_dir_def)
  qed
  show "\<forall>b. \<exists>d' f'. set_flt h a f b = (h b)\<lparr>descent_dir := d', nd_flt := f'\<rparr>"
  proof
    fix b
    show "\<exists>d' f'. set_flt h a f b = (h b)\<lparr>descent_dir := d', nd_flt := f'\<rparr>"
      by (intro exI [of _ "descent_dir (h b)"] exI [of _ "if b = a then f else nd_flt (h b)"]) (simp add: set_flt_def)
  qed
qed

lemma same_nodes_trans: "same_nodes h h' \<Longrightarrow> same_nodes h' h'' \<Longrightarrow> same_nodes h h''"
  unfolding same_nodes_def
proof
  fix a
  assume "\<forall>a. \<exists>d f. h' a = (h a)\<lparr>descent_dir := d, nd_flt := f\<rparr>" "\<forall>a. \<exists>d f. h'' a = (h' a)\<lparr>descent_dir := d, nd_flt := f\<rparr>"
  then obtain d f d' f' where "h' a = (h a)\<lparr>descent_dir := d, nd_flt := f\<rparr>" "h'' a = (h' a)\<lparr>descent_dir := d', nd_flt := f'\<rparr>"
    by metis
  then show "\<exists>d f. h'' a = (h a)\<lparr>descent_dir := d, nd_flt := f\<rparr>" by (intro exI [of _ d'] exI [of _ f']) simp
qed

lemma same_nodes_fields:
  assumes "same_nodes h h'"
  shows "avl_left (h' a) = avl_left (h a)" "avl_right (h' a) = avl_right (h a)"
    "avl_parent (h' a) = avl_parent (h a)" "balance (h' a) = balance (h a)" "nd_key (h' a) = nd_key (h a)"
    "nd_v (h' a) = nd_v (h a)" "sbs_child (h' a) = sbs_child (h a)"
proof -
  obtain d f where "h' a = (h a)\<lparr>descent_dir := d, nd_flt := f\<rparr>" using assms unfolding same_nodes_def by blast
  then show "avl_left (h' a) = avl_left (h a)" "avl_right (h' a) = avl_right (h a)"
    "avl_parent (h' a) = avl_parent (h a)" "balance (h' a) = balance (h a)" "nd_key (h' a) = nd_key (h a)"
    "nd_v (h' a) = nd_v (h a)" "sbs_child (h' a) = sbs_child (h a)" by simp_all
qed

lemma same_nodes_rank: "same_nodes h h' \<Longrightarrow> rank_of h' a = rank_of h a"
  by (simp add: rank_of_def same_nodes_fields)

lemma tree_inv_nodes:
  assumes "same_nodes h h'" and "keys_ok h' t" and "tree_inv h lvt t"
  shows "tree_inv h' lvt t"
proof -
  note f = same_nodes_fields [OF assms(1)]
  have "links h' NULL t = links h NULL t" by (rule links_cong) (simp add: f)
  moreover have "bals h' t = bals h t" by (rule bals_cong) (simp add: f)
  moreover have "rank_of h' = rank_of h" by (rule ext) (simp add: rank_of_def f)
  then have "ksorted h' t = ksorted h t" by (simp add: ksorted_def)
  ultimately show ?thesis using assms(2,3) by (simp add: tree_inv_def)
qed

lemma tree_inv_dirs:
  assumes "same_but_dirs h h'"
  shows "tree_inv h' lvt t = tree_inv h lvt t"
proof -
  note f = same_but_dirs_fields [OF assms]
  have "links h' NULL t = links h NULL t" by (rule links_cong) (simp add: f)
  moreover have "bals h' t = bals h t" by (rule bals_cong) (simp add: f)
  moreover have "rank_of h' = rank_of h" by (rule ext) (simp add: rank_of_def f)
  then have "ksorted h' t = ksorted h t" by (simp add: ksorted_def)
  moreover have "keys_ok h' t = keys_ok h t" by (simp add: keys_ok_def node_ok_def f)
  ultimately show ?thesis by (simp add: tree_inv_def)
qed

text \<open>Where a key is, and where it would be.\<close>

definition found_at :: "heap \<Rightarrow> addr tree \<Rightarrow> krank \<Rightarrow> addr \<Rightarrow> bool" where
  "found_at h t k n \<longleftrightarrow> (\<exists>c l r. t = plug c (Node l n r) \<and> cdirs h c \<and> rank_of h n = k)"

definition hole_at :: "heap \<Rightarrow> addr tree \<Rightarrow> krank \<Rightarrow> addr \<Rightarrow> bool" where
  "hole_at h t k par \<longleftrightarrow> (\<exists>c. t = plug c Leaf \<and> ctop c = par \<and> cdirs h c
     \<and> (\<forall>x \<in> set (cbefore c). rank_of h x < k) \<and> (\<forall>x \<in> set (cafter c). k < rank_of h x))"

text \<open>The float forms play no part in them.\<close>

lemma cdirs_dir_flt [simp]: "cdirs (set_dir (set_flt h b f) p d) c = cdirs (set_dir h p d) c"
  by (rule cdirs_cong) simp

lemma at_flt [simp]:
  "found_at (set_flt h b f) t k n = found_at h t k n"
  "hole_at (set_flt h b f) t k n = hole_at h t k n"
  "hole_at (set_dir (set_flt h b f) p d) t k n = hole_at (set_dir h p d) t k n"
  "clue_ok (set_flt h b f) lvt t = clue_ok h lvt t"
  "clue_ok (set_dir (set_flt h b f) p d) lvt t = clue_ok (set_dir h p d) lvt t"
  by (simp_all add: found_at_def hole_at_def clue_ok_def)

lemma lv_inv_flt:
  assumes "lv_inv h lvt t" and "flt_ok (nd_key (h a)) f"
  shows "lv_inv (set_flt h a f) lvt t"
proof -
  have "keys_ok (set_flt h a f) t" using assms by (simp add: lv_inv_def tree_inv_def)
  then show ?thesis using tree_inv_nodes [OF same_nodes_set(2)] assms(1) by (simp add: lv_inv_def)
qed

lemma ksorted_plug:
  assumes "ksorted h (plug c (Node l a r))"
  shows "\<And>x. x \<in> set (cbefore c) \<union> set_tree l \<Longrightarrow> rank_of h x < rank_of h a"
    and "\<And>x. x \<in> set_tree r \<union> set (cafter c) \<Longrightarrow> rank_of h a < rank_of h x"
  using assms by (auto simp: ksorted_def inorder_plug sorted_wrt_append simp flip: set_inorder)

lemma cafter_hd:
  "cafter c = a # xs \<Longrightarrow> \<exists>c1 r c2. c = c1 @ FL a r # c2 \<and> xs = inorder r @ cafter c2"
proof (induction c rule: caddrs.induct)
  case (2 b r c)
  then show ?case by (intro exI [of _ "[]"]) auto
next
  case (3 l b c)
  then obtain c1 r c2 where "c = c1 @ FL a r # c2" "xs = inorder r @ cafter c2" by auto
  then show ?case by (intro exI [of _ "FR l b # c1"]) auto
qed simp

lemma cbefore_last:
  "cbefore c = xs @ [a] \<Longrightarrow> \<exists>c1 l c2. c = c1 @ FR l a # c2 \<and> xs = cbefore c2 @ inorder l"
proof (induction c rule: caddrs.induct)
  case (2 b r c)
  then obtain c1 l c2 where "c = c1 @ FR l a # c2" "xs = cbefore c2 @ inorder l" by auto
  then show ?case by (intro exI [of _ "FL b r # c1"]) auto
next
  case (3 l b c)
  then show ?case by (intro exI [of _ "[]"]) auto
qed simp

lemma cdirs_append: "cdirs h (c1 @ c2) \<longleftrightarrow> cdirs h c1 \<and> cdirs h c2"
  by (induction c1 rule: caddrs.induct) auto

lemma found_after:
  assumes "cdirs h c" and "cafter c = a # xs" and "rank_of h a = k"
  shows "found_at h (plug c t) k a"
proof -
  obtain c1 r c2 where c: "c = c1 @ FL a r # c2" using cafter_hd [OF assms(2)] by blast
  then have "plug c t = plug c2 (Node (plug c1 t) a r)" by (simp add: plug_append)
  then show ?thesis using assms c unfolding found_at_def by (auto simp: cdirs_append)
qed

lemma found_before:
  assumes "cdirs h c" and "cbefore c = xs @ [a]" and "rank_of h a = k"
  shows "found_at h (plug c t) k a"
proof -
  obtain c1 l c2 where c: "c = c1 @ FR l a # c2" using cbefore_last [OF assms(2)] by blast
  then have "plug c t = plug c2 (Node l a (plug c1 t))" by (simp add: plug_append)
  then show ?thesis using assms c unfolding found_at_def by (auto simp: cdirs_append)
qed

lemma sorted_neighbours:
  assumes "ksorted h (plug c t)"
  shows "cafter c = x # xs \<Longrightarrow> k < rank_of h x \<Longrightarrow> \<forall>y \<in> set (cafter c). k < rank_of h y"
    and "cbefore c = ys @ [y] \<Longrightarrow> rank_of h y < k \<Longrightarrow> \<forall>z \<in> set (cbefore c). rank_of h z < k"
  using assms by (auto simp: ksorted_def inorder_plug sorted_wrt_append dest: order.strict_trans)

text \<open>What the traversal from the root returns.\<close>

fun walk_ok :: "heap \<Rightarrow> addr tree \<Rightarrow> krank \<Rightarrow> addr \<times> addr \<times> heap \<times> addr \<times> addr \<times> addr \<Rightarrow> bool" where
  "walk_ok h t k (n, p, h', looked, mn, mx) \<longleftrightarrow> same_nodes h h' \<and> keys_ok h' t
     \<and> (\<exists>c l r. t = plug c (Node l looked r) \<and> cdirs h' c \<and> mn = last0 (cbefore c) \<and> mx = hd0 (cafter c))
     \<and> (if n \<noteq> NULL then n = looked \<and> rank_of h n = k else p = looked \<and> hole_at h' t k p)"

lemma walk_ok_step:
  assumes "walk_ok (set_dir (set_flt h a f) a d) t k out"
  shows "walk_ok h t k out"
proof -
  have "same_nodes h (set_dir (set_flt h a f) a d)" using same_nodes_trans [OF same_nodes_set(2) same_nodes_set(1)] .
  then show ?thesis using assms by (cases out) (auto intro: same_nodes_trans)
qed

declare walk_ok.simps [simp del]

text \<open>What a lookup of a key promises.\<close>

fun lookup_ok :: "heap \<Rightarrow> addr tree \<Rightarrow> krank \<Rightarrow> lookup_result \<Rightarrow> bool" where
  "lookup_ok h t k (n, par, h', lvt') \<longleftrightarrow> same_nodes h h' \<and> lv_inv h' lvt' t
     \<and> (if n \<noteq> NULL then found_at h' t k n
        else hole_at h' t k (lastNodeLookedUp lvt') \<and> par = Some (lastNodeLookedUp lvt'))"

declare lookup_ok.simps [simp del]

section \<open>The contract of a comparison and the lookup\<close>

locale key_compare =
  fixes ok :: "'k \<Rightarrow> bool"
    and rank :: "'k \<Rightarrow> krank"
    and cmp :: "'k \<Rightarrow> lvTreeNode \<Rightarrow> (int \<times> lvTreeNode) res"
  assumes cmp_rank: "ok k \<Longrightarrow> node_ok n \<Longrightarrow>
    \<exists>c f. cmp k n = Inr (c, n\<lparr>nd_flt := f\<rparr>) \<and> flt_ok (nd_key n) f \<and> cmp_agrees c (rank k) (krank (nd_key n))"
begin

lemma cmp_ex:
  assumes "ok k" and "node_ok (h a)"
  shows "\<exists>c n f. res_opt (cmp k (h a)) = Some (c, n) \<and> h(a := n) = set_flt h a f
    \<and> avl_left n = avl_left (h a) \<and> avl_right n = avl_right (h a) \<and> flt_ok (nd_key (h a)) f
    \<and> (c < 0 \<longleftrightarrow> rank k < rank_of h a) \<and> (c = 0 \<longleftrightarrow> rank k = rank_of h a) \<and> (0 < c \<longleftrightarrow> rank_of h a < rank k)"
  using cmp_rank [OF assms] by (auto simp: res_opt_def cmp_agrees_def rank_of_def set_flt_def)

lemma lookup_walk_spec:
  assumes "ok k" and "t = plug c (Node l a r)" and "links h NULL t" and "distinct (inorder t)"
    and "ksorted h t" and "keys_ok h t" and "cdirs h c"
    and "\<forall>x \<in> set (cbefore c). rank_of h x < rank k" and "\<forall>x \<in> set (cafter c). rank k < rank_of h x"
  shows "\<exists>out. lookup_walk (cmp k) h par a (last0 (cbefore c)) (hd0 (cafter c)) = Some out
    \<and> walk_ok h t (rank k) out"
  using assms(2-)
proof (induction "size (Node l a r)" arbitrary: c l a r h par rule: less_induct)
  case less
  note f = plug_context_facts [OF less.prems(2,3) [unfolded less.prems(1)]]
  have an: "a \<noteq> NULL" "avl_left (h a) = rootp l" "avl_right (h a) = rootp r" "links h a l" "links h a r"
    using f(2) by simp_all
  have "node_ok (h a)" using less.prems(1,5) by (simp add: keys_ok_def set_tree_plug)
  then obtain cm n g where cm: "res_opt (cmp k (h a)) = Some (cm, n)" "cm < 0 \<longleftrightarrow> rank k < rank_of h a"
    "cm = 0 \<longleftrightarrow> rank k = rank_of h a" "0 < cm \<longleftrightarrow> rank_of h a < rank k"
    and n: "h(a := n) = set_flt h a g" "flt_ok (nd_key (h a)) g" "avl_left n = avl_left (h a)" "avl_right n = avl_right (h a)" using cmp_ex [OF assms(1)] by metis
  note srt = ksorted_plug [OF less.prems(4) [unfolded less.prems(1)]]
  have here: "\<exists>c' l' r'. t = plug c' (Node l' a r') \<and> cdirs (set_dir h a d) c' \<and>
      last0 (cbefore c) = last0 (cbefore c') \<and> hd0 (cafter c) = hd0 (cafter c')" for d
    using less.prems(1,6) f(4) by (intro exI [of _ c] exI [of _ l] exI [of _ r]) simp
  have keep: "links (set_dir (set_flt h a g) a d) NULL t" "ksorted (set_dir (set_flt h a g) a d) t"
    "keys_ok (set_dir (set_flt h a g) a d) t" for d
    using less.prems n(2) by (simp_all add: ksorted_def)
  have same: "same_nodes h (set_dir (set_flt h a g) a d)" for d
    using same_nodes_trans [OF same_nodes_set(2) same_nodes_set(1)] .
  consider "cm = 0" | "cm < 0" | "0 < cm" by linarith
  then show ?case
  proof cases
    case 1
    have "walk_ok h t (rank k) (a, par, set_flt h a g, a, last0 (cbefore c), hd0 (cafter c))"
      using 1 cm(3) less.prems(1,5,6) an(1) n(2) by (auto simp: walk_ok.simps)
    then show ?thesis using 1 cm(1) n(1) by (subst lookup_walk.simps) (simp add: Let_def)
  next
    case 2
    let ?h = "set_dir (set_flt h a g) a TREE_DESCEND_LEFT"
    have dirs: "cdirs ?h (FL a r # c)" using less.prems(6) f(4) by simp
    have lt: "\<forall>x \<in> set (cbefore (FL a r # c)). rank_of ?h x < rank k"
      "\<forall>x \<in> set (cafter (FL a r # c)). rank k < rank_of ?h x"
      using 2 cm(2) less.prems(7,8) srt(2) by (auto intro: order.strict_trans)
    show ?thesis
    proof (cases l)
      case Leaf
      have "hole_at ?h t (rank k) a"
        unfolding hole_at_def using Leaf dirs lt less.prems(1) by (intro exI [of _ "FL a r # c"]) simp
      then have "walk_ok h t (rank k) (NULL, a, ?h, a, last0 (cbefore c), hd0 (cafter c))"
        using here same keep(3) by (simp add: walk_ok.simps)
      then show ?thesis using 2 cm(1) n an Leaf by (subst lookup_walk.simps) (simp add: Let_def)
    next
      case (Node ll b lr)
      obtain out where "lookup_walk (cmp k) ?h a b (last0 (cbefore (FL a r # c))) (hd0 (cafter (FL a r # c))) = Some out"
        "walk_ok ?h t (rank k) out"
        using less.hyps [of ll b lr "FL a r # c" ?h a] keep dirs lt less.prems(1,3) Node by auto
      then show ?thesis using 2 cm(1) n an Node walk_ok_step by (subst lookup_walk.simps) (auto simp: Let_def)
    qed
  next
    case 3
    let ?h = "set_dir (set_flt h a g) a TREE_DESCEND_RIGHT"
    have dirs: "cdirs ?h (FR l a # c)" using less.prems(6) f(4) by simp
    have lt: "\<forall>x \<in> set (cbefore (FR l a # c)). rank_of ?h x < rank k"
      "\<forall>x \<in> set (cafter (FR l a # c)). rank k < rank_of ?h x"
      using 3 cm(4) less.prems(7,8) srt(1) by (auto intro: order.strict_trans)
    show ?thesis
    proof (cases r)
      case Leaf
      have "hole_at ?h t (rank k) a"
        unfolding hole_at_def using Leaf dirs lt less.prems(1) by (intro exI [of _ "FR l a # c"]) simp
      then have "walk_ok h t (rank k) (NULL, a, ?h, a, last0 (cbefore c), hd0 (cafter c))"
        using here same keep(3) by (simp add: walk_ok.simps)
      then show ?thesis using 3 cm(1) n an Leaf by (subst lookup_walk.simps) (simp add: Let_def)
    next
      case (Node rl b rr)
      obtain out where "lookup_walk (cmp k) ?h a b (last0 (cbefore (FR l a # c))) (hd0 (cafter (FR l a # c))) = Some out"
        "walk_ok ?h t (rank k) out"
        using less.hyps [of rl b rr "FR l a # c" ?h a] keep dirs lt less.prems(1,3) Node by auto
      then show ?thesis using 3 cm(1) n an Node walk_ok_step by (subst lookup_walk.simps) (auto simp: Let_def last0_append)
    qed
  qed
qed

text \<open>The clue either finds the key, or finds the hole, or gives no help.\<close>

lemma lookup_clue_spec:
  assumes "ok k" and inv: "lv_inv h lvt t"
  shows "\<exists>out h'. lookup_clue (cmp k) h lvt = Some (out, h') \<and> same_nodes h h' \<and> lv_inv h' lvt t \<and> (case out of
      Clue_found n \<Rightarrow> n \<noteq> NULL \<and> found_at h' t (rank k) n
    | Clue_absent p d \<Rightarrow> p = lastNodeLookedUp lvt \<and> p \<noteq> NULL \<and> hole_at (set_dir h' p d) t (rank k) p
        \<and> clue_ok (set_dir h' p d) lvt t
    | Clue_no_help \<Rightarrow> True)"
proof (cases "lastNodeLookedUp lvt = NULL")
  case True
  then show ?thesis using inv by (simp add: lookup_clue_def)
next
  case False
  define a where "a = lastNodeLookedUp lvt"
  obtain c l r where t: "t = plug c (Node l a r)" "cdirs h c"
      "l = Leaf \<longrightarrow> lastNodeMin lvt = last0 (cbefore c)" "r = Leaf \<longrightarrow> lastNodeMax lvt = hd0 (cafter c)"
    using inv False by (auto simp: lv_inv_def clue_ok_def a_def)
  have ti: "links h NULL t" "distinct (inorder t)" "ksorted h t" "keys_ok h t"
    using inv by (simp_all add: lv_inv_def tree_inv_def)
  note f = plug_context_facts [OF ti(1,2) [unfolded t(1)]]
  note srt = ksorted_plug [OF ti(3) [unfolded t(1)]]
  have an: "avl_left (h a) = rootp l" "avl_right (h a) = rootp r" "links h a l" "links h a r"
    using f(2) by simp_all
  have clue: "clue_ok (set_dir h a d) lvt t" for d
    using t f(4) unfolding clue_ok_def a_def by (intro disjI2 exI [of _ c] exI [of _ l] exI [of _ r]) auto
  have "node_ok (h a)" using ti(4) t(1) by (auto simp: keys_ok_def set_tree_plug)
  then obtain cm n g where cm: "res_opt (cmp k (h a)) = Some (cm, n)" "cm < 0 \<longleftrightarrow> rank k < rank_of h a"
    "cm = 0 \<longleftrightarrow> rank k = rank_of h a" "0 < cm \<longleftrightarrow> rank_of h a < rank k"
    and n: "h(a := n) = set_flt h a g" "flt_ok (nd_key (h a)) g" "avl_left n = avl_left (h a)" "avl_right n = avl_right (h a)"
    using cmp_ex [OF assms(1)] by metis
  define h1 where "h1 = set_flt h a g"
  note n1 = n(1) [folded h1_def]
  have i1: "lv_inv h1 lvt t" unfolding h1_def using lv_inv_flt [OF inv n(2)] .
  have s1: "same_nodes h h1" unfolding h1_def by simp
  have ko: "node_ok (h1 x)" if "x \<in> caddrs c" for x
    using that i1 t(1) by (auto simp: lv_inv_def tree_inv_def keys_ok_def set_tree_plug)
  have an1: "avl_left n = rootp l" "avl_right n = rootp r" using an n(3,4) by simp_all
  note cd = lookup_clue_def Let_def n1
  have holeR: "hole_at (set_dir h a TREE_DESCEND_RIGHT) t (rank k) a"
    if "r = Leaf" "0 < cm" "\<forall>y \<in> set (cafter c). rank k < rank_of h y"
    unfolding hole_at_def using that t f(4) srt(1) cm(4)
    by (intro exI [of _ "FR l a # c"]) (auto intro: order.strict_trans)
  have holeL: "hole_at (set_dir h a TREE_DESCEND_LEFT) t (rank k) a"
    if "l = Leaf" "cm < 0" "\<forall>y \<in> set (cbefore c). rank_of h y < rank k"
    unfolding hole_at_def using that t f(4) srt(2) cm(2)
    by (intro exI [of _ "FL a r # c"]) (auto intro: order.strict_trans)
  have tr: "hole_at (set_dir h1 a d) t (rank k) a = hole_at (set_dir h a d) t (rank k) a" "clue_ok (set_dir h1 a d) lvt t"
    "found_at h1 t (rank k) b = found_at h t (rank k) b" for d b
    using clue unfolding h1_def by simp_all
  note sn = sorted_neighbours [OF ti(3) [unfolded t(1)]]
  have nz: "NULL \<notin> caddrs c" using clinks_nonzero [OF f(1)] .
  consider "cm = 0" | "0 < cm" | "cm < 0" by linarith
  then show ?thesis
  proof cases
    case 1
    then have "found_at h t (rank k) a" using t cm(3) by (auto simp: found_at_def)
    then show ?thesis using 1 cm(1) f(3) i1 s1 tr by (simp add: cd flip: a_def)
  next
    case 2
    show ?thesis
    proof (cases "cafter c")
      case Nil
      then show ?thesis using 2 cm(1) an(3,4) an1 t(4) f(3) tr holeR i1 s1
        by (cases "r = Leaf") (auto simp: cd simp flip: a_def)
    next
      case (Cons x xs)
      then have x: "x \<in> caddrs c" "x \<noteq> NULL" using nz by (auto simp: caddrs_eq)
      obtain cx nx gx where cx: "res_opt (cmp k (h1 x)) = Some (cx, nx)" "cx < 0 \<longleftrightarrow> rank k < rank_of h x"
        "cx = 0 \<longleftrightarrow> rank k = rank_of h x"
        and nx: "h1(x := nx) = set_flt h1 x gx" "flt_ok (nd_key (h1 x)) gx"
        using cmp_ex [of k h1 x, OF assms(1) ko [OF x(1)]] unfolding h1_def rank_of_set by metis
      note i2 = lv_inv_flt [OF i1 nx(2)]
      have s2: "same_nodes h (set_flt h1 x gx)" using same_nodes_trans [OF s1 same_nodes_set(2)] .
      have "r = Leaf \<Longrightarrow> cx < 0 \<Longrightarrow> hole_at (set_dir h a TREE_DESCEND_RIGHT) t (rank k) a"
        using holeR 2 cx(2) sn(1) [OF Cons] by auto
      moreover have "cx = 0 \<Longrightarrow> found_at h t (rank k) x"
        using found_after [OF t(2) Cons] cx(3) t(1) by simp
      ultimately show ?thesis using 2 cm(1) an(3,4) an1 t(4) f(3) x(2) cx(1) tr Cons i1 s1 i2 s2
        by (cases "r = Leaf") (auto simp: cd nx(1) simp flip: a_def)
    qed
  next
    case 3
    show ?thesis
    proof (cases "cbefore c" rule: rev_cases)
      case Nil
      then show ?thesis using 3 cm(1) an(3,4) an1 t(3) f(3) tr holeL i1 s1
        by (cases "l = Leaf") (auto simp: cd simp flip: a_def)
    next
      case (snoc ys y)
      then have y: "y \<in> caddrs c" "y \<noteq> NULL" using nz by (auto simp: caddrs_eq)
      obtain cy ny gy where cy: "res_opt (cmp k (h1 y)) = Some (cy, ny)" "0 < cy \<longleftrightarrow> rank_of h y < rank k"
        "cy = 0 \<longleftrightarrow> rank k = rank_of h y"
        and ny: "h1(y := ny) = set_flt h1 y gy" "flt_ok (nd_key (h1 y)) gy"
        using cmp_ex [of k h1 y, OF assms(1) ko [OF y(1)]] unfolding h1_def rank_of_set by metis
      note i2 = lv_inv_flt [OF i1 ny(2)]
      have s2: "same_nodes h (set_flt h1 y gy)" using same_nodes_trans [OF s1 same_nodes_set(2)] .
      have "l = Leaf \<Longrightarrow> 0 < cy \<Longrightarrow> hole_at (set_dir h a TREE_DESCEND_LEFT) t (rank k) a"
        using holeL 3 cy(2) sn(2) [OF snoc] by auto
      moreover have "cy = 0 \<Longrightarrow> found_at h t (rank k) y"
        using found_before [OF t(2) snoc] cy(3) t(1) by simp
      ultimately show ?thesis using 3 cm(1) an(3,4) an1 t(3) f(3) y(2) cy(1) tr snoc i1 s1 i2 s2
        by (cases "l = Leaf") (auto simp: cd ny(1) simp flip: a_def)
    qed
  qed
qed

text \<open>The lookup returns, keeps the invariant, and finds the key or its hole.\<close>

lemma lookup_with_spec:
  assumes "ok k" and inv: "lv_inv h lvt t"
  shows "\<exists>out. lookup_with (cmp k) h lvt = Some out \<and> lookup_ok h t (rank k) out"
proof -
  obtain out h1 where out: "lookup_clue (cmp k) h lvt = Some (out, h1)" "case out of
      Clue_found n \<Rightarrow> n \<noteq> NULL \<and> found_at h1 t (rank k) n
    | Clue_absent p d \<Rightarrow> p = lastNodeLookedUp lvt \<and> p \<noteq> NULL \<and> hole_at (set_dir h1 p d) t (rank k) p
        \<and> clue_ok (set_dir h1 p d) lvt t
    | Clue_no_help \<Rightarrow> True"
    and s1: "same_nodes h h1" and i1: "lv_inv h1 lvt t"
    using lookup_clue_spec [OF assms] by blast
  show ?thesis
  proof (cases out)
    case (Clue_found n)
    then show ?thesis using out i1 s1 by (simp add: lookup_with_def lookup_ok.simps)
  next
    case (Clue_absent p d)
    then have "lv_inv (set_dir h1 p d) lvt t"
      using out(2) i1 tree_inv_dirs [OF same_but_dirs_set] by (auto simp: lv_inv_def)
    moreover have "same_nodes h (set_dir h1 p d)" using same_nodes_trans [OF s1 same_nodes_set(1)] .
    ultimately show ?thesis using Clue_absent out by (auto simp: lookup_with_def lookup_ok.simps)
  next
    case Clue_no_help
    have ti: "links h1 NULL t" "distinct (inorder t)" "ksorted h1 t" "keys_ok h1 t" "avl_root lvt = rootp t"
      using i1 by (simp_all add: lv_inv_def tree_inv_def)
    show ?thesis
    proof (cases t)
      case Leaf
      have "plug c (Node l a r) \<noteq> Leaf" for c l r and a :: addr
        using set_tree_plug [of c "Node l a r"] by auto
      then have "lastNodeLookedUp lvt = NULL"
        using inv Leaf unfolding lv_inv_def clue_ok_def by metis
      moreover have "hole_at h1 t (rank k) NULL" unfolding hole_at_def using Leaf by (intro exI [of _ "[]"]) simp
      ultimately show ?thesis using Leaf Clue_no_help out(1) i1 s1 ti(5) by (simp add: lookup_with_def lookup_ok.simps)
    next
      case (Node l a r)
      obtain n p h' looked mn mx where
        w: "lookup_walk (cmp k) h1 a a NULL NULL = Some (n, p, h', looked, mn, mx)"
           "walk_ok h1 t (rank k) (n, p, h', looked, mn, mx)"
        using lookup_walk_spec [of k t "[]" l a r h1 a] assms(1) Node ti by auto
      let ?lvt = "lvt\<lparr>lastNodeLookedUp := looked, lastNodeMin := mn, lastNodeMax := mx\<rparr>"
      obtain c l' r' where c: "t = plug c (Node l' looked r')" "cdirs h' c" "mn = last0 (cbefore c)" "mx = hd0 (cafter c)"
        and s: "same_nodes h1 h'" "keys_ok h' t" using w(2) by (auto simp: walk_ok.simps)
      have "tree_inv h' lvt t" using i1 tree_inv_nodes [OF s] by (simp add: lv_inv_def)
      then have "tree_inv h' ?lvt t" by (simp add: tree_inv_def)
      moreover have "clue_ok h' ?lvt t" using c by (auto simp: clue_ok_def)
      moreover have "n \<noteq> NULL \<Longrightarrow> found_at h' t (rank k) n"
        using w(2) c same_nodes_rank [OF s(1)] by (auto simp: found_at_def walk_ok.simps)
      moreover have "same_nodes h h'" using same_nodes_trans [OF s1 s(1)] .
      ultimately show ?thesis using w Clue_no_help out(1) ti(5) Node links_nonzero [OF ti(1)]
        by (auto simp: lookup_with_def lookup_ok.simps lv_inv_def walk_ok.simps)
    qed
  qed
qed

end

section \<open>The three lookups\<close>

interpretation intkey: key_compare "\<lambda>m. mnum_ok (MV_int m)" "\<lambda>m. krank (MV_num (MV_int m))" lv_avl_tree_intkey_cmp
proof
  fix k and n :: lvTreeNode
  assume "mnum_ok (MV_int k)" and "node_ok n"
  then show "\<exists>c f. lv_avl_tree_intkey_cmp k n = Inr (c, n\<lparr>nd_flt := f\<rparr>) \<and> flt_ok (nd_key n) f
      \<and> cmp_agrees c (krank (MV_num (MV_int k))) (krank (nd_key n))"
    using lvAvlTreeKeySubscrCmp_rank [of "MV_num (MV_int k)" n] by simp
qed

interpretation numkey: key_compare "\<lambda>(s, e, m1, m0). mnum_ok (MV_nm s e m1 m0) \<and> e \<noteq> 0"
  "\<lambda>(s, e, m1, m0). krank (MV_num (MV_nm s e m1 m0))" "\<lambda>(s, e, m1, m0). lv_avl_tree_numkey_cmp s e m1 m0"
proof (unfold_locales, clarify)
  fix s e m1 m0 and n :: lvTreeNode
  assume "mnum_ok (MV_nm s e m1 m0)" and "e \<noteq> 0" and "node_ok n"
  then show "\<exists>c f. lv_avl_tree_numkey_cmp s e m1 m0 n = Inr (c, n\<lparr>nd_flt := f\<rparr>) \<and> flt_ok (nd_key n) f
      \<and> cmp_agrees c (krank (MV_num (MV_nm s e m1 m0))) (krank (nd_key n))"
    using lvAvlTreeKeySubscrCmp_rank [of "MV_num (MV_nm s e m1 m0)" n] by simp
qed

interpretation strkey: key_compare "\<lambda>k. k = MV_sqlnull \<or> (\<exists>s. k = MV_str s)" krank lv_avl_tree_strkey_cmp
proof
  fix k and n :: lvTreeNode
  assume k: "k = MV_sqlnull \<or> (\<exists>s. k = MV_str s)" and n: "node_ok n"
  then have "lvAvlTreeKeySubscrCmp k n = lv_avl_tree_strkey_cmp k n" "key_ok k" by auto
  then show "\<exists>c f. lv_avl_tree_strkey_cmp k n = Inr (c, n\<lparr>nd_flt := f\<rparr>) \<and> flt_ok (nd_key n) f
      \<and> cmp_agrees c (krank k) (krank (nd_key n))"
    using lvAvlTreeKeySubscrCmp_rank [OF _ n, of k] by simp
qed

lemma lvAvlTreeLookup_spec:
  assumes "key_ok k" and "lv_inv h lvt t"
  shows "\<exists>out. lvAvlTreeLookup h lvt k = Some out \<and> lookup_ok h t (krank k) out"
proof (cases k)
  case (MV_num x)
  show ?thesis
  proof (cases x)
    case (MV_int m)
    then show ?thesis
      using intkey.lookup_with_spec [of m h lvt t] assms MV_num by (auto simp: lvAvlTreeLookupInt_def simp del: mnum_val.simps)
  next
    case (MV_nm s e m1 m0)
    then show ?thesis
      using numkey.lookup_with_spec [of "(s, e, m1, m0)" h lvt t] assms MV_num
      by (auto simp: lvAvlTreeLookupNum_def)
  qed
next
  case (MV_str s)
  then show ?thesis
    using strkey.lookup_with_spec [of k h lvt t] assms by (auto simp: lvAvlTreeLookupStr_def)
next
  case MV_sqlnull
  then show ?thesis
    using strkey.lookup_with_spec [of k h lvt t] assms by (auto simp: lvAvlTreeLookupStr_def)
qed (use assms in simp)

lemma found_at_mem: "found_at h t k n \<Longrightarrow> n \<in> set_tree t \<and> rank_of h n = k"
  by (auto simp: found_at_def set_tree_plug)

lemma hole_at_absent: "hole_at h t k p \<Longrightarrow> k \<notin> rank_of h ` set_tree t"
  by (fastforce simp: hole_at_def set_tree_plug caddrs_eq)

end
