(* ===== verification/Lv_Rotate.thy ===== *)
theory Lv_Rotate
  imports Lv_Lookup
begin

text \<open>
  The two rotations. Trees and frames are written relative to a side, so that the left and the right cases of
  the code are one statement: \<open>mk d x a y\<close> is a node with \<open>x\<close> on side \<open>d\<close>.
\<close>

section \<open>Nodes relative to a side\<close>

definition mk :: "tree_bal \<Rightarrow> addr tree \<Rightarrow> addr \<Rightarrow> addr tree \<Rightarrow> addr tree" where
  "mk d x a y = (if d = TREE_LEFT_HEAVY then Node x a y else Node y a x)"

definition fr :: "tree_bal \<Rightarrow> addr \<Rightarrow> addr tree \<Rightarrow> frame" where
  "fr d a y = (if d = TREE_LEFT_HEAVY then FL a y else FR y a)"

definition dbal :: "tree_bal \<Rightarrow> tree_bal \<Rightarrow> nat \<Rightarrow> nat \<Rightarrow> bool" where
  "dbal d b hx hy = (if d = TREE_LEFT_HEAVY then bal_ok b hx hy else bal_ok b hy hx)"

definition side :: "tree_bal \<Rightarrow> bool" where
  "side d \<longleftrightarrow> d = TREE_LEFT_HEAVY \<or> d = TREE_RIGHT_HEAVY"

abbreviation inv_side :: "tree_bal \<Rightarrow> tree_bal" where
  "inv_side \<equiv> tree_balance_invert"

definition dchild :: "tree_bal \<Rightarrow> lvTreeNode \<Rightarrow> addr" where
  "dchild d n = (if d = TREE_LEFT_HEAVY then avl_left n else avl_right n)"

lemma side_cases: "side d \<Longrightarrow> (d = TREE_LEFT_HEAVY \<Longrightarrow> P) \<Longrightarrow> (d = TREE_RIGHT_HEAVY \<Longrightarrow> P) \<Longrightarrow> P"
  by (auto simp: side_def)

lemma side_inv [simp]: "side (inv_side d) = side d" "inv_side (inv_side d) = d"
  by (cases d; simp add: side_def)+

lemma inv_side_neq [simp]: "side d \<Longrightarrow> inv_side d \<noteq> d" "side d \<Longrightarrow> d \<noteq> inv_side d"
  "side d \<Longrightarrow> inv_side d \<noteq> TREE_BALANCED" "side d \<Longrightarrow> d \<noteq> TREE_BALANCED"
  by (auto simp: side_def)

lemma dir_exhaust: "side d \<Longrightarrow> b = d \<or> b = inv_side d \<or> b = TREE_BALANCED"
  by (cases b; cases d; simp add: side_def)

lemma mk_simps [simp]:
  "height (mk d x a y) = Suc (max (height x) (height y))"
  "set_tree (mk d x a y) = insert a (set_tree x \<union> set_tree y)"
  "rootp (mk d x a y) = a"
  "mk d x a y \<noteq> Leaf"
  "(mk d x a y = mk d x' a' y') = (x = x' \<and> a = a' \<and> y = y')"
  by (auto simp: mk_def)

lemma mk_inv: "side d \<Longrightarrow> mk (inv_side d) x a y = mk d y a x"
  by (auto simp: mk_def side_def)

lemma mk_exists: "t \<noteq> Leaf \<Longrightarrow> \<exists>x a y. t = mk d x a y"
  by (cases t; cases "d = TREE_LEFT_HEAVY") (auto simp: mk_def)

lemma links_mk [simp]:
  "side d \<Longrightarrow> links h par (mk d x a y) \<longleftrightarrow>
     a \<noteq> NULL \<and> avl_parent (h a) = par \<and> dchild d (h a) = rootp x \<and> dchild (inv_side d) (h a) = rootp y
     \<and> links h a x \<and> links h a y"
  by (auto simp: mk_def dchild_def side_def)

lemma bals_mk [simp]:
  "bals h (mk d x a y) \<longleftrightarrow> bals h x \<and> bals h y \<and> dbal d (balance (h a)) (height x) (height y)"
  by (auto simp: mk_def dbal_def)

lemma dbal_simps [simp]:
  "side d \<Longrightarrow> dbal d d hx hy \<longleftrightarrow> hx = Suc hy"
  "side d \<Longrightarrow> dbal d (inv_side d) hx hy \<longleftrightarrow> hy = Suc hx"
  "dbal d TREE_BALANCED hx hy \<longleftrightarrow> hx = hy"
  by (auto simp: dbal_def side_def)

lemma dbal_inv: "side d \<Longrightarrow> dbal (inv_side d) b hx hy = dbal d b hy hx"
  by (auto simp: dbal_def side_def)

lemma distinct_mk [simp]:
  "distinct (inorder (mk d x a y)) \<longleftrightarrow> distinct (inorder x) \<and> distinct (inorder y)
     \<and> a \<notin> set_tree x \<and> a \<notin> set_tree y \<and> set_tree x \<inter> set_tree y = {}"
  by (auto simp: mk_def)

lemma inorder_rotate1: "inorder (mk d (mk d ll a lr) b r) = inorder (mk d ll a (mk d lr b r))"
  by (simp add: mk_def)

lemma inorder_rotate2:
  "side d \<Longrightarrow> inorder (mk d (mk d ll a (mk d lm m lr)) b r) = inorder (mk d (mk d ll a lm) m (mk d lr b r))"
  by (auto simp: mk_def side_def)

lemma plug_fr [simp]: "plug (fr d a y # c) t = plug c (mk d t a y)"
  by (simp add: fr_def mk_def)

lemma ctop_fr [simp]: "ctop (fr d a y # c) = a"
  by (simp add: fr_def)

lemma caddrs_fr [simp]: "caddrs (fr d a y # c) = insert a (set_tree y \<union> caddrs c)"
  by (simp add: fr_def)

lemma clinks_fr [simp]:
  "side d \<Longrightarrow> clinks h p (fr d a y # c) \<longleftrightarrow>
     a \<noteq> NULL \<and> avl_parent (h a) = ctop c \<and> dchild d (h a) = p \<and> dchild (inv_side d) (h a) = rootp y
     \<and> links h a y \<and> clinks h a c"
  by (auto simp: fr_def dchild_def side_def)

lemma cbals_fr [simp]:
  "cbals h n (fr d a y # c) \<longleftrightarrow>
     bals h y \<and> dbal d (balance (h a)) n (height y) \<and> cbals h (Suc (max n (height y))) c"
  by (auto simp: fr_def dbal_def max.commute)

lemma cdirs_fr [simp]: "side d \<Longrightarrow> cdirs h (fr d a y # c) \<longleftrightarrow> descent_dir (h a) = d \<and> cdirs h c"
  by (auto simp: fr_def side_def)

lemma cheight_fr [simp]: "cheight (fr d a y # c) n = cheight c (Suc (max n (height y)))"
  by (auto simp: fr_def max.commute)

lemma frame_cases: obtains d a y where "f = fr d a y" "side d"
proof (cases f)
  case (FL a y)
  then show ?thesis using that [of TREE_LEFT_HEAVY a y] by (simp add: fr_def side_def)
next
  case (FR y a)
  then show ?thesis using that [of TREE_RIGHT_HEAVY a y] by (simp add: fr_def side_def)
qed

lemma dchild_set [simp]:
  "dchild d (set_parent h a x b) = dchild d (h b)" "dchild d (set_parent_if h a x b) = dchild d (h b)"
  "dchild d (set_bal h a y b) = dchild d (h b)" "dchild d (set_dir h a y b) = dchild d (h b)"
  by (simp_all add: dchild_def)

text \<open>The assignment to the child on a side.\<close>

definition set_dchild :: "tree_bal \<Rightarrow> heap \<Rightarrow> addr \<Rightarrow> addr \<Rightarrow> heap" where
  "set_dchild d h a x = (if d = TREE_LEFT_HEAVY then set_left h a x else set_right h a x)"

lemma set_dchild_fields [simp]:
  "side d \<Longrightarrow> dchild d (set_dchild d h a x b) = (if b = a then x else dchild d (h b))"
  "side d \<Longrightarrow> dchild (inv_side d) (set_dchild d h a x b) = dchild (inv_side d) (h b)"
  "side d \<Longrightarrow> dchild d (set_dchild (inv_side d) h a x b) = dchild d (h b)"
  "avl_parent (set_dchild d h a x b) = avl_parent (h b)"
  "balance (set_dchild d h a x b) = balance (h b)"
  "descent_dir (set_dchild d h a x b) = descent_dir (h b)"
  "nd_key (set_dchild d h a x b) = nd_key (h b)"
  by (auto simp: set_dchild_def dchild_def side_def)

lemma set_dchild_preds [simp]:
  "a \<notin> set_tree t \<Longrightarrow> links (set_dchild d h a x) par t = links h par t"
  "a \<notin> caddrs c \<Longrightarrow> clinks (set_dchild d h a x) p c = clinks h p c"
  "bals (set_dchild d h a x) t = bals h t"
  "cbals (set_dchild d h a x) n c = cbals h n c"
  "cdirs (set_dchild d h a x) c = cdirs h c"
  by (auto simp: set_dchild_def)

lemma set_child_dir_dchild: "side (descent_dir (h p)) \<Longrightarrow> set_child_dir h p x = set_dchild (descent_dir (h p)) h p x"
  by (auto simp: set_child_dir_def set_dchild_def)

section \<open>What a rotation may change\<close>

text \<open>
  \<open>frame_rel h h' S\<close>: keys and directions are the same everywhere, and outside of \<open>S\<close> everything
  that the predicates look at.
\<close>

definition frame_rel :: "heap \<Rightarrow> heap \<Rightarrow> addr set \<Rightarrow> bool" where
  "frame_rel h h' S \<longleftrightarrow> (\<forall>b. nd_key (h' b) = nd_key (h b) \<and> payload (h' b) = payload (h b)
     \<and> descent_dir (h' b) = descent_dir (h b) \<and>
     (b \<notin> S \<longrightarrow> avl_left (h' b) = avl_left (h b) \<and> avl_right (h' b) = avl_right (h b)
        \<and> avl_parent (h' b) = avl_parent (h b) \<and> balance (h' b) = balance (h b)))"

lemma frame_rel_refl: "frame_rel h h S"
  by (simp add: frame_rel_def)

lemma frame_rel_trans: "frame_rel h h' S \<Longrightarrow> frame_rel h' h'' S' \<Longrightarrow> frame_rel h h'' (S \<union> S')"
  by (simp add: frame_rel_def)

lemma frame_rel_mono: "frame_rel h h' S \<Longrightarrow> S \<subseteq> S' \<Longrightarrow> frame_rel h h' S'"
  by (auto simp: frame_rel_def)

lemma frame_rel_rank: "frame_rel h h' S \<Longrightarrow> rank_of h' = rank_of h"
  by (rule ext) (simp add: frame_rel_def rank_of_def)

lemma frame_rel_key: "frame_rel h h' S \<Longrightarrow> nd_key (h' a) = nd_key (h a)"
  by (simp add: frame_rel_def)

lemma frame_rel_payload: "frame_rel h h' S \<Longrightarrow> payload (h' a) = payload (h a)"
  by (simp add: frame_rel_def)

lemma frame_rel_dir: "frame_rel h h' S \<Longrightarrow> descent_dir (h' a) = descent_dir (h a)"
  by (simp add: frame_rel_def)

lemma frame_rel_cdirs: "frame_rel h h' S \<Longrightarrow> cdirs h' c = cdirs h c"
  by (rule cdirs_cong) (simp add: frame_rel_def)

lemma frame_rel_ctx:
  assumes "frame_rel h h' S" and "caddrs c \<inter> S = {}"
  shows "clinks h' p c = clinks h p c" and "cbals h' n c = cbals h n c"
  using assms by (auto simp: frame_rel_def intro!: clinks_cong cbals_cong)

lemma frame_rel_tree:
  assumes "frame_rel h h' S" and "set_tree t \<inter> S = {}"
  shows "links h' p t = links h p t" and "bals h' t = bals h t"
  using assms by (auto simp: frame_rel_def intro!: links_cong bals_cong)

lemma frame_rel_set:
  "frame_rel h (set_left h a x) {a}" "frame_rel h (set_right h a x) {a}" "frame_rel h (set_parent h a x) {a}"
  "frame_rel h (set_parent_if h a x) {a}" "frame_rel h (set_bal h a y) {a}" "frame_rel h (set_child_dir h a x) {a}"
  "frame_rel h (set_dchild d h a x) {a}"
  by (auto simp: frame_rel_def set_dchild_def)

lemma rootp_notin: "NULL \<notin> S \<Longrightarrow> set_tree t \<inter> S = {} \<Longrightarrow> rootp t \<notin> S"
  by (cases t) auto

section \<open>Single rotation\<close>

lemma single_rotation:
  assumes d: "side d" and l: "links h par (mk d (mk d ll a lr) b r)"
    and dis: "distinct (inorder (mk d (mk d ll a lr) b r))"
  shows "\<exists>h'. lvAvlTreeSingleRotation h b a d = Some (h', a)
    \<and> links (set_parent h' a q) q (mk d ll a (mk d lr b r))
    \<and> frame_rel h h' ({a, b} \<union> set_tree lr)
    \<and> (\<forall>x. x \<noteq> a \<and> x \<noteq> b \<longrightarrow> balance (h' x) = balance (h x))
    \<and> (if balance (h a) \<noteq> TREE_BALANCED then balance (h' a) = TREE_BALANCED \<and> balance (h' b) = TREE_BALANCED
       else balance (h' a) = inv_side d \<and> balance (h' b) = balance (h b))"
proof -
  have f: "a \<noteq> NULL" "b \<noteq> NULL" "a \<noteq> b" "a \<notin> set_tree ll" "a \<notin> set_tree lr" "a \<notin> set_tree r"
    "b \<notin> set_tree ll" "b \<notin> set_tree lr" "b \<notin> set_tree r"
    using l dis d by auto
  define h1 where "h1 = set_dchild (inv_side d) (set_dchild d h b (rootp lr)) a b"
  define h2 where "h2 = set_parent (set_parent_if h1 (rootp lr) b) b a"
  define h3 where "h3 = (if balance (h a) \<noteq> TREE_BALANCED then set_bal (set_bal h2 b TREE_BALANCED) a TREE_BALANCED
      else set_bal h2 a (inv_side d))"
  have node: "(if d = TREE_LEFT_HEAVY then avl_right (h a) else avl_left (h a)) = rootp lr"
    using l d by (auto simp: dchild_def side_def)
  have h1: "(if d = TREE_LEFT_HEAVY then set_right (set_left h b (rootp lr)) a b
      else set_left (set_right h b (rootp lr)) a b) = h1"
    using d by (auto simp: h1_def set_dchild_def side_def)
  have b2: "balance (h2 x) = balance (h x)" for x by (simp add: h2_def h1_def)
  have run: "lvAvlTreeSingleRotation h b a d = Some (h3, a)"
    unfolding lvAvlTreeSingleRotation_def Let_def node h1
    using f by (simp add: h3_def flip: h2_def) (simp add: b2)
  have lr: "links h1 a lr" using l d f by (simp add: h1_def)
  have "links (set_parent_if h1 (rootp lr) b) b lr" by (rule links_reparent [OF lr]) (use dis d in simp)
  then have lr2: "links h2 b lr" using f by (simp add: h2_def)
  have rr: "rootp lr \<noteq> a" "rootp lr \<noteq> b" "rootp lr \<noteq> NULL \<Longrightarrow> rootp lr \<in> set_tree lr"
    using f by (cases lr; auto)+
  have rll: "rootp lr \<notin> set_tree ll" "rootp lr \<notin> set_tree r"
    using dis l links_nonzero [of h a ll] links_nonzero [of h b r] d by (cases lr; auto)+
  have "links (set_parent h2 a q) q (mk d ll a (mk d lr b r))"
    using l d f lr2 rr rll by (simp add: h2_def h1_def)
  then have links3: "links (set_parent h3 a q) q (mk d ll a (mk d lr b r))"
    by (subst links_cong [of _ _ "set_parent h2 a q"]) (auto simp: h3_def)
  have fr: "frame_rel h h3 ({a, b} \<union> set_tree lr)"
    using rr(3) by (auto simp: frame_rel_def h3_def h2_def h1_def set_dchild_def)
  show ?thesis
    using run links3 fr f by (auto simp: h3_def b2)
qed

section \<open>Double rotation\<close>

lemma double_rotation:
  assumes d: "side d" and l: "links h par (mk d (mk d ll a (mk d lm m lr)) b r)"
    and dis: "distinct (inorder (mk d (mk d ll a (mk d lm m lr)) b r))"
  shows "\<exists>h'. lvAvlTreeDoubleRotation h b a d = Some (h', m)
    \<and> links (set_parent h' m q) q (mk d (mk d ll a lm) m (mk d lr b r))
    \<and> frame_rel h h' ({a, b, m} \<union> set_tree lm \<union> set_tree lr)
    \<and> (\<forall>x. x \<noteq> a \<and> x \<noteq> b \<and> x \<noteq> m \<longrightarrow> balance (h' x) = balance (h x))
    \<and> balance (h' m) = TREE_BALANCED
    \<and> balance (h' b) = (if balance (h m) = d then inv_side d else TREE_BALANCED)
    \<and> balance (h' a) = (if balance (h m) = d \<or> balance (h m) = TREE_BALANCED then TREE_BALANCED else d)"
proof -
  have f: "a \<noteq> NULL" "b \<noteq> NULL" "m \<noteq> NULL" "a \<noteq> b" "a \<noteq> m" "m \<noteq> b"
    "a \<notin> set_tree ll" "a \<notin> set_tree lm" "a \<notin> set_tree lr" "a \<notin> set_tree r"
    "b \<notin> set_tree ll" "b \<notin> set_tree lm" "b \<notin> set_tree lr" "b \<notin> set_tree r"
    "m \<notin> set_tree ll" "m \<notin> set_tree lm" "m \<notin> set_tree lr" "m \<notin> set_tree r"
    using l dis d by auto
  define h1 where "h1 = set_dchild (inv_side d) (set_dchild d (set_dchild (inv_side d)
      (set_dchild d h b (rootp lr)) a (rootp lm)) m a) m b"
  define h2 where "h2 = set_parent_if (set_parent_if h1 (rootp lr) b) (rootp lm) a"
  define h3 where "h3 = set_parent (set_parent h2 a m) b m"
  define h4 where "h4 = set_bal (if balance (h m) = d then set_bal (set_bal h3 b (inv_side d)) a TREE_BALANCED
     else if balance (h m) = TREE_BALANCED then set_bal (set_bal h3 b TREE_BALANCED) a TREE_BALANCED
     else set_bal (set_bal h3 b TREE_BALANCED) a d) m TREE_BALANCED"
  have ch: "(if d = TREE_LEFT_HEAVY then avl_right (h a) else avl_left (h a)) = m"
    "(if d = TREE_LEFT_HEAVY then avl_right (h m) else avl_left (h m)) = rootp lr"
    "(if d = TREE_LEFT_HEAVY then avl_left (h m) else avl_right (h m)) = rootp lm"
    using l d by (auto simp: dchild_def side_def)
  have h1: "(if d = TREE_LEFT_HEAVY
      then set_right (set_left (set_right (set_left h b (rootp lr)) a (rootp lm)) m a) m b
      else set_right (set_left (set_left (set_right h b (rootp lr)) a (rootp lm)) m b) m a) = h1"
    using d by (auto simp: h1_def set_dchild_def side_def set_left_def set_right_def)
  have b3: "balance (h3 x) = balance (h x)" for x by (simp add: h3_def h2_def h1_def)
  have run: "lvAvlTreeDoubleRotation h b a d = Some (h4, m)"
    unfolding lvAvlTreeDoubleRotation_def Let_def ch h1
    using f by (simp add: h4_def flip: h2_def h3_def) (simp add: b3)
  have lnk: "links h1 m lr" "links h1 m lm" using l d f by (simp_all add: h1_def)
  have dl: "distinct (inorder lm)" "distinct (inorder lr)" "set_tree lm \<inter> set_tree lr = {}"
    "set_tree lm \<inter> set_tree ll = {}" "set_tree lm \<inter> set_tree r = {}"
    "set_tree lr \<inter> set_tree ll = {}" "set_tree lr \<inter> set_tree r = {}"
    using dis d by auto
  have nz: "NULL \<notin> set_tree ll" "NULL \<notin> set_tree lm" "NULL \<notin> set_tree lr" "NULL \<notin> set_tree r"
    using l d links_nonzero by auto
  have rr: "rootp lr \<notin> {a, b, m} \<union> set_tree ll \<union> set_tree lm \<union> set_tree r"
    "rootp lm \<notin> {a, b, m} \<union> set_tree ll \<union> set_tree lr \<union> set_tree r"
    by (rule rootp_notin; use f dl nz in blast)+
  have "links (set_parent_if h1 (rootp lr) b) b lr" by (rule links_reparent [OF lnk(1) dl(2)])
  then have lr2: "links h2 b lr" using rr by (simp add: h2_def)
  have "links (set_parent_if h1 (rootp lr) b) m lm" using lnk(2) rr by simp
  then have lm2: "links h2 a lm" unfolding h2_def by (rule links_reparent) (rule dl(1))
  have "links (set_parent h3 m q) q (mk d (mk d ll a lm) m (mk d lr b r))"
    using l d f lr2 lm2 rr by (auto simp: h3_def h2_def h1_def)
  then have links4: "links (set_parent h4 m q) q (mk d (mk d ll a lm) m (mk d lr b r))"
    by (subst links_cong [of _ _ "set_parent h3 m q"]) (auto simp: h4_def)
  have "rootp lr \<noteq> NULL \<Longrightarrow> rootp lr \<in> set_tree lr" "rootp lm \<noteq> NULL \<Longrightarrow> rootp lm \<in> set_tree lm"
    by (cases lr; simp) (cases lm; simp)
  then have fr: "frame_rel h h4 ({a, b, m} \<union> set_tree lm \<union> set_tree lr)"
    by (auto simp: frame_rel_def h4_def h3_def h2_def h1_def set_dchild_def)
  show ?thesis
    using run links4 fr f by (auto simp: h4_def b3)
qed

end
