(* ===== verification/Lv_Insert.thy ===== *)
theory Lv_Insert
  imports Lv_Rotate
begin

text \<open>
  Insertion into a local variable tree: the climb that adjusts balance factors, the one rotation that may
  be needed, and the correctness of \<open>lvAvlTreeNodeInsert\<close>, clue included.
\<close>

section \<open>Stores that differ in balance factors\<close>

definition bal_rel :: "heap \<Rightarrow> heap \<Rightarrow> addr set \<Rightarrow> bool" where
  "bal_rel h h' S \<longleftrightarrow> (\<forall>b. avl_left (h' b) = avl_left (h b) \<and> avl_right (h' b) = avl_right (h b)
     \<and> avl_parent (h' b) = avl_parent (h b) \<and> descent_dir (h' b) = descent_dir (h b)
     \<and> nd_key (h' b) = nd_key (h b) \<and> payload (h' b) = payload (h b) \<and> (b \<notin> S \<longrightarrow> balance (h' b) = balance (h b)))"

lemma bal_rel_refl [simp]: "bal_rel h h S"
  by (simp add: bal_rel_def)

lemma bal_rel_step: "bal_rel (set_bal h a y) h' S \<Longrightarrow> a \<in> S' \<Longrightarrow> S \<subseteq> S' \<Longrightarrow> bal_rel h h' S'"
  unfolding bal_rel_def by (metis set_fields(19-24) set_payload(4) subsetD)

lemma bal_rel_links: "bal_rel h h' S \<Longrightarrow> links h' p t = links h p t"
  by (rule links_cong) (simp add: bal_rel_def)

lemma bal_rel_cdirs: "bal_rel h h' S \<Longrightarrow> cdirs h' c = cdirs h c"
  by (rule cdirs_cong) (simp add: bal_rel_def)

lemma bal_rel_frame: "bal_rel h h' S \<Longrightarrow> frame_rel h h' UNIV"
  by (simp add: bal_rel_def frame_rel_def)

lemma rootp_plug_in: "c \<noteq> [] \<Longrightarrow> rootp (plug c t) \<in> caddrs c"
proof (induction c arbitrary: t)
  case Nil
  then show ?case by simp
next
  case (Cons f c)
  obtain d a y where f: "f = fr d a y" "side d" by (rule frame_cases)
  show ?case using Cons.IH [of "mk d t a y"] f by (cases "c = []") auto
qed

section \<open>The climb\<close>

text \<open>
  A subtree \<open>s\<close> that has grown by one inside a context whose balance factors are still those of the old
  height \<open>n\<close>; unless it is the new node, its root leans the way the lookup descended.
\<close>

definition grown :: "heap \<Rightarrow> addr tree \<Rightarrow> nat \<Rightarrow> ctx \<Rightarrow> bool" where
  "grown h s n c \<longleftrightarrow> s \<noteq> Leaf \<and> bals h s \<and> height s = Suc n \<and> cbals h n c
     \<and> (0 < n \<longrightarrow> balance (h (rootp s)) \<noteq> TREE_BALANCED \<and> balance (h (rootp s)) = descent_dir (h (rootp s)))"

lemma insert_climb_spec:
  assumes "links h NULL (plug c s)" and "distinct (inorder (plug c s))" and "cdirs h c" and "grown h s n c"
    and "c \<noteq> []"
  shows "\<exists>h' e f c' n'. insert_climb h (rootp (plug c s)) (ctop c) = Some (h', ctop (f # c'))
    \<and> c = e @ f # c' \<and> bal_rel h h' (caddrs e) \<and> grown h' (plug e s) n' (f # c')
    \<and> cheight (f # c') n' = cheight c n
    \<and> (c' = [] \<or> balance (h' (ctop (f # c'))) \<noteq> TREE_BALANCED)"
  using assms
proof (induction c arbitrary: h s n)
  case Nil
  then show ?case by simp
next
  case (Cons f c)
  obtain d a y where f: "f = fr d a y" "side d" by (rule frame_cases)
  have a: "a \<noteq> NULL" "a \<notin> caddrs c" "a \<notin> set_tree s" "a \<notin> set_tree y" "descent_dir (h a) = d"
    "avl_parent (h a) = ctop c"
    using Cons.prems f by (auto simp: links_plug distinct_plug)
  show ?case
  proof (cases "c = [] \<or> balance (h a) \<noteq> TREE_BALANCED")
    case True
    have "insert_climb h (rootp (plug (f # c) s)) a = Some (h, a)"
      using True a f by (subst insert_climb.simps) auto
    then show ?thesis
      using True f Cons.prems(4)
      by (intro exI [of _ h] exI [of _ "[]"] exI [of _ f] exI [of _ c] exI [of _ n]) auto
  next
    case False
    let ?h = "set_bal h a d" and ?s = "mk d s a y"
    have ny: "height y = n" using Cons.prems(4) False f by (simp add: grown_def)
    have g: "grown ?h ?s (Suc n) c"
      using Cons.prems(4) f a ny by (auto simp: grown_def)
    have "a \<noteq> rootp (plug c ?s)" using rootp_plug_in [of c ?s] False a(2) by auto
    then have run: "insert_climb h (rootp (plug (f # c) s)) a = insert_climb ?h (rootp (plug c ?s)) (ctop c)"
      using False a f by (subst insert_climb.simps) auto
    have "\<exists>h' e f' c' n'. insert_climb ?h (rootp (plug c ?s)) (ctop c) = Some (h', ctop (f' # c'))
      \<and> c = e @ f' # c' \<and> bal_rel ?h h' (caddrs e) \<and> grown h' (plug e ?s) n' (f' # c')
      \<and> cheight (f' # c') n' = cheight c (Suc n)
      \<and> (c' = [] \<or> balance (h' (ctop (f' # c'))) \<noteq> TREE_BALANCED)"
      by (rule Cons.IH) (use Cons.prems f False g in auto)
    then obtain h' e f' c' n' where
      r: "insert_climb ?h (rootp (plug c ?s)) (ctop c) = Some (h', ctop (f' # c'))"
      "c = e @ f' # c'" "bal_rel ?h h' (caddrs e)" "grown h' (plug e ?s) n' (f' # c')"
      "cheight (f' # c') n' = cheight c (Suc n)"
      "c' = [] \<or> balance (h' (ctop (f' # c'))) \<noteq> TREE_BALANCED" by blast
    have "bal_rel h h' (caddrs (f # e))" using bal_rel_step [OF r(3)] f by auto
    moreover have "cheight (f' # c') n' = cheight (f # c) n" using r(5) f ny by simp
    ultimately show ?thesis
      using r f run by (intro exI [of _ h'] exI [of _ "f # e"] exI [of _ f'] exI [of _ c'] exI [of _ n']) simp
  qed
qed

section \<open>The rebalance node\<close>

text \<open>A tree in the store with correct balance factors and root and height fields.\<close>

definition avl_tree :: "heap \<Rightarrow> lvTree \<Rightarrow> addr tree \<Rightarrow> bool" where
  "avl_tree h lvt t \<longleftrightarrow> links h NULL t \<and> distinct (inorder t) \<and> bals h t \<and> avl_root lvt = rootp t
     \<and> avl_height lvt = height t"

definition leads_to :: "heap \<Rightarrow> addr tree \<Rightarrow> addr \<Rightarrow> bool" where
  "leads_to h t x \<longleftrightarrow> (\<exists>c l r. t = plug c (Node l x r) \<and> cdirs h c)"

lemma reconnect:
  assumes "clinks h p c" and "cdirs h c" and "links h (ctop c) s" and "distinct (inorder (plug c s))"
  shows "c \<noteq> [] \<Longrightarrow> links (set_child_dir h (ctop c) (rootp s)) NULL (plug c s)"
    and "c = [] \<Longrightarrow> links h NULL (plug c s)"
proof -
  have d: "distinct (inorder (plug c Leaf))" "caddrs c \<inter> set_tree s = {}" using assms(4) by (auto simp: distinct_plug)
  show "links (set_child_dir h (ctop c) (rootp s)) NULL (plug c s)" if c: "c \<noteq> []"
    unfolding links_plug using clinks_rechild [OF assms(1,2) c d(1)] assms(3) ctop_in [OF c] d(2)
    by (subst links_set) auto
qed (use assms in \<open>simp add: links_plug\<close>)

lemma reattach:
  assumes "links h NULL (plug c t0)" and "distinct (inorder (plug c t0))" and "cdirs h c"
    and "frame_rel h h' (set_tree t0)" and "links (set_parent h' (rootp s) (ctop c)) (ctop c) s"
    and "inorder s = inorder t0" and "s \<noteq> Leaf" and "bals h' s"
    and "h'' = (if ctop c \<noteq> NULL then set_child_dir (set_parent h' (rootp s) (ctop c)) (ctop c) (rootp s)
         else set_parent h' (rootp s) (ctop c))"
  shows "links h'' NULL (plug c s)" and "distinct (inorder (plug c s))" and "bals h'' s \<and> cbals h'' n c = cbals h n c"
    and "frame_rel h h'' UNIV" and "rootp (plug c s) = (if ctop c \<noteq> NULL then rootp (plug c t0) else rootp s)"
proof -
  have st: "set_tree s = set_tree t0" using assms(6) by (metis set_inorder)
  show d: "distinct (inorder (plug c s))" using assms(2,6) by (simp add: inorder_plug)
  have c: "clinks h (rootp t0) c" "caddrs c \<inter> set_tree t0 = {}" using assms(1,2) by (auto simp: links_plug distinct_plug)
  have rs: "rootp s \<notin> caddrs c" using rootp_in [OF assms(7)] st c(2) by auto
  have ck: "clinks (set_parent h' (rootp s) (ctop c)) (rootp t0) c"
    using frame_rel_ctx(1) [OF assms(4) c(2)] c(1) rs by simp
  have cd: "cdirs (set_parent h' (rootp s) (ctop c)) c" using assms(3) frame_rel_cdirs [OF assms(4)] by simp
  show "links h'' NULL (plug c s)"
    using reconnect [OF ck cd assms(5) d] ctop_NULL [OF c(1)] by (simp add: assms(9))
  have "cbals h' n c = cbals h n c" using frame_rel_ctx(2) [OF assms(4) c(2)] by simp
  then show "bals h'' s \<and> cbals h'' n c = cbals h n c" unfolding assms(9) using assms(8) by simp
  show "frame_rel h h'' UNIV" using assms(4) unfolding assms(9) by (simp add: frame_rel_def)
  show "rootp (plug c s) = (if ctop c \<noteq> NULL then rootp (plug c t0) else rootp s)"
    using rootp_plug [of s t0 c] ctop_NULL [OF c(1)] by auto
qed

section \<open>Rebalancing after an insertion\<close>

lemma insert_rebalance_rotate:
  assumes "side d" and "descent_dir (h a) = d" and "balance (h a) = d" and "dchild d (h a) = b" and "b \<noteq> NULL"
    and "(if balance (h b) = d then lvAvlTreeSingleRotation h a b d else lvAvlTreeDoubleRotation h a b d)
      = Some (h', m)"
  shows "insert_rebalance h lvt a = Some
    (if avl_parent (h a) \<noteq> NULL then set_child_dir (set_parent h' m (avl_parent (h a))) (avl_parent (h a)) m
     else set_parent h' m (avl_parent (h a)),
     if avl_parent (h a) \<noteq> NULL then lvt else lvt\<lparr>avl_root := m\<rparr>)"
proof -
  have "(if d = TREE_LEFT_HEAVY then avl_left (h a) else avl_right (h a)) = b"
    "(if d = TREE_LEFT_HEAVY then TREE_LEFT_HEAVY else TREE_RIGHT_HEAVY) = d"
    using assms(1,4) by (auto simp: dchild_def side_def)
  then show ?thesis unfolding insert_rebalance_def Let_def assms(2,3) using assms(1,5,6)
    by (cases "balance (h b) = d") simp_all
qed

text \<open>The result of rebalancing: an AVL tree with the same nodes in the same order, whose directions lead to \<open>x\<close>.\<close>

definition rebalanced :: "heap \<Rightarrow> lvTree \<Rightarrow> addr tree \<Rightarrow> addr \<Rightarrow> heap \<times> lvTree \<Rightarrow> bool" where
  "rebalanced h lvt t x out \<longleftrightarrow> (\<exists>t'. avl_tree (fst out) (snd out) t' \<and> inorder t' = inorder t
     \<and> leads_to (fst out) t' x \<and> frame_rel h (fst out) UNIV
     \<and> (\<exists>a n. snd out = lvt\<lparr>avl_root := a, avl_height := n\<rparr>))"

lemma rebalanced_rotation:
  assumes "links h NULL (plug c t0)" and "distinct (inorder (plug c t0))" and "cdirs h c"
    and "frame_rel h h' (set_tree t0)" and "links (set_parent h' (rootp s) (ctop c)) (ctop c) s"
    and "inorder s = inorder t0" and "s \<noteq> Leaf" and "bals h' s" and "cbals h (height s) c"
    and "avl_root lvt = rootp (plug c t0)" and "avl_height lvt = cheight c (height s)"
    and "s = plug e (Node l x r)" and "cdirs h e"
  shows "rebalanced h lvt (plug c t0) x
    (if ctop c \<noteq> NULL then set_child_dir (set_parent h' (rootp s) (ctop c)) (ctop c) (rootp s)
       else set_parent h' (rootp s) (ctop c),
     if ctop c \<noteq> NULL then lvt else lvt\<lparr>avl_root := rootp s\<rparr>)"
proof -
  define h'' where "h'' = (if ctop c \<noteq> NULL then set_child_dir (set_parent h' (rootp s) (ctop c)) (ctop c) (rootp s)
       else set_parent h' (rootp s) (ctop c))"
  let ?lvt = "if ctop c \<noteq> NULL then lvt else lvt\<lparr>avl_root := rootp s\<rparr>"
  note r = reattach [OF assms(1-8) h''_def]
  have "avl_tree h'' ?lvt (plug c s)"
    using r(1,2,5) r(3) [of "height s"] assms(9-11) by (simp add: avl_tree_def height_plug bals_plug)
  moreover have "leads_to h'' (plug c s) x"
    unfolding leads_to_def assms(12) using assms(3,13) frame_rel_cdirs [OF r(4)]
    by (intro exI [of _ "e @ c"] exI [of _ l] exI [of _ r]) (simp add: plug_append cdirs_append)
  moreover have "inorder (plug c s) = inorder (plug c t0)" using assms(6) by (simp add: inorder_plug)
  moreover have "\<exists>a n. ?lvt = lvt\<lparr>avl_root := a, avl_height := n\<rparr>"
    by (rule exI [of _ "avl_root ?lvt"], rule exI [of _ "avl_height lvt"]) simp
  ultimately show ?thesis unfolding rebalanced_def h''_def [symmetric] fst_conv snd_conv using r(4) by blast
qed

lemma bals_outside:
  "bals h t \<Longrightarrow> \<forall>z. z \<notin> S \<longrightarrow> balance (h' z) = balance (h z) \<Longrightarrow> set_tree t \<inter> S = {} \<Longrightarrow> bals h' t"
  by (metis bals_cong disjoint_iff)

lemma rebalance_single:
  assumes d: "side d" and l: "links h NULL (plug c (mk d (mk d u b w) a y))"
    and dis: "distinct (inorder (plug c (mk d (mk d u b w) a y)))" and cd: "cdirs h c"
    and ba: "balance (h a) = d" "descent_dir (h a) = d" "balance (h b) = d" "descent_dir (h b) = d"
    and bs: "bals h (mk d u b w)" "bals h y" "height u = Suc (height w)" "height y = height w"
      "cbals h (Suc (Suc (height w))) c"
    and lvt: "avl_root lvt = rootp (plug c (mk d (mk d u b w) a y))" "avl_height lvt = cheight c (Suc (Suc (height w)))"
    and u: "u = plug e (Node l' x r')" "cdirs h e"
  shows "\<exists>out. insert_rebalance h lvt a = Some out \<and> rebalanced h lvt (plug c (mk d (mk d u b w) a y)) x out"
proof -
  have ls: "links h (ctop c) (mk d (mk d u b w) a y)" "distinct (inorder (mk d (mk d u b w) a y))"
    using l dis by (simp_all add: links_plug distinct_plug)
  obtain h' where h': "lvAvlTreeSingleRotation h a b d = Some (h', b)"
    "links (set_parent h' b (ctop c)) (ctop c) (mk d u b (mk d w a y))" "frame_rel h h' ({b, a} \<union> set_tree w)"
    "\<forall>z. z \<noteq> b \<and> z \<noteq> a \<longrightarrow> balance (h' z) = balance (h z)" "balance (h' b) = TREE_BALANCED" "balance (h' a) = TREE_BALANCED"
    using single_rotation [OF d ls, of "ctop c"] ba(3) d by auto
  let ?s = "mk d u b (mk d w a y)"
  have sub: "bals h' u" "bals h' w" "bals h' y"
    by (rule bals_outside [of h _ "{a, b}"]; use bs(1,2) ls(2) h'(4) in auto)+
  have "rebalanced h lvt (plug c (mk d (mk d u b w) a y)) x
    (if ctop c \<noteq> NULL then set_child_dir (set_parent h' (rootp ?s) (ctop c)) (ctop c) (rootp ?s)
       else set_parent h' (rootp ?s) (ctop c), if ctop c \<noteq> NULL then lvt else lvt\<lparr>avl_root := rootp ?s\<rparr>)"
  proof (rule rebalanced_rotation [OF l dis cd, of h' ?s])
    show "frame_rel h h' (set_tree (mk d (mk d u b w) a y))" by (rule frame_rel_mono [OF h'(3)]) auto
    show "inorder ?s = inorder (mk d (mk d u b w) a y)" by (rule inorder_rotate1 [symmetric])
    show "?s = plug (e @ [fr d b (mk d w a y)]) (Node l' x r')" by (simp add: plug_append u(1))
    show "cdirs h (e @ [fr d b (mk d w a y)])" using u(2) d ba(4) by (simp add: cdirs_append)
  qed (use h' sub bs lvt in simp_all)
  moreover have "avl_parent (h a) = ctop c" "dchild d (h a) = b" "b \<noteq> NULL" using ls(1) d by simp_all
  ultimately show ?thesis
    using insert_rebalance_rotate [of d h a, OF d ba(2,1), of b h' b lvt] h'(1) ba(3) by auto
qed

lemma double_leads:
  assumes d: "side d" and u: "mk d lm m lr = plug e (Node l' x r')" "cdirs h e"
    and dirs: "descent_dir (h b) = inv_side d" "descent_dir (h a) = d"
  shows "\<exists>e2 l2 r2. mk d (mk d ll b lm) m (mk d lr a y) = plug e2 (Node l2 x r2) \<and> cdirs h e2"
proof (cases e rule: rev_cases)
  case Nil
  then have "m = x" using u(1) by (simp add: mk_def split: if_splits)
  then show ?thesis by (intro exI [of _ "[]"]) (simp add: mk_def)
next
  case (snoc e' f)
  obtain d2 m2 v where f: "f = fr d2 m2 v" "side d2" by (rule frame_cases)
  have eq: "mk d lm m lr = mk d2 (plug e' (Node l' x r')) m2 v" using u(1) snoc f by (simp add: plug_append)
  have c: "cdirs h e'" "descent_dir (h m2) = d2" using u(2) snoc f by (simp_all add: cdirs_append)
  consider "d2 = d" | "d2 = inv_side d" using dir_exhaust [OF d, of d2] f(2) by (auto simp: side_def)
  then show ?thesis
  proof cases
    case 1
    then have "lm = plug e' (Node l' x r')" "m = m2" using eq by simp_all
    then show ?thesis using 1 c d dirs mk_inv [OF d, of lm b ll]
      by (intro exI [of _ "e' @ [fr (inv_side d) b ll, fr d m (mk d lr a y)]"] exI [of _ l'] exI [of _ r'])
        (simp add: plug_append cdirs_append)
  next
    case 2
    then have "lr = plug e' (Node l' x r')" "m = m2" using eq mk_inv [OF d] by simp_all
    then show ?thesis using 2 c d dirs mk_inv [OF d, of "mk d lr a y" m "mk d ll b lm"]
      by (intro exI [of _ "e' @ [fr d a y, fr (inv_side d) m (mk d ll b lm)]"] exI [of _ l'] exI [of _ r'])
        (simp add: plug_append cdirs_append)
  qed
qed

lemma double_bals:
  assumes "side d" and "dbal d bm hm hr" and "max hm hr = hl" and "hy = hl"
    and "ba = (if bm = d \<or> bm = TREE_BALANCED then TREE_BALANCED else d)"
    and "bb = (if bm = d then inv_side d else TREE_BALANCED)"
  shows "dbal d ba hl hm \<and> dbal d bb hr hy"
  using assms by (cases d; cases bm; simp add: side_def dbal_def)

lemma rebalance_double:
  assumes d: "side d" and l: "links h NULL (plug c (mk d (mk d ll b (mk d lm m lr)) a y))"
    and dis: "distinct (inorder (plug c (mk d (mk d ll b (mk d lm m lr)) a y)))" and cd: "cdirs h c"
    and ba: "balance (h a) = d" "descent_dir (h a) = d" "balance (h b) = inv_side d" "descent_dir (h b) = inv_side d"
    and bs: "bals h ll" "bals h (mk d lm m lr)" "bals h y" "max (height lm) (height lr) = height ll" "height y = height ll"
      "cbals h (Suc (Suc (height ll))) c"
    and lvt: "avl_root lvt = rootp (plug c (mk d (mk d ll b (mk d lm m lr)) a y))"
      "avl_height lvt = cheight c (Suc (Suc (height ll)))"
    and u: "mk d lm m lr = plug e (Node l' x r')" "cdirs h e"
  shows "\<exists>out. insert_rebalance h lvt a = Some out
    \<and> rebalanced h lvt (plug c (mk d (mk d ll b (mk d lm m lr)) a y)) x out"
proof -
  have ls: "links h (ctop c) (mk d (mk d ll b (mk d lm m lr)) a y)"
    "distinct (inorder (mk d (mk d ll b (mk d lm m lr)) a y))"
    using l dis by (simp_all add: links_plug distinct_plug)
  obtain h' where h': "lvAvlTreeDoubleRotation h a b d = Some (h', m)"
    "links (set_parent h' m (ctop c)) (ctop c) (mk d (mk d ll b lm) m (mk d lr a y))"
    "frame_rel h h' ({b, a, m} \<union> set_tree lm \<union> set_tree lr)"
    "\<forall>z. z \<noteq> b \<and> z \<noteq> a \<and> z \<noteq> m \<longrightarrow> balance (h' z) = balance (h z)" "balance (h' m) = TREE_BALANCED"
    "balance (h' a) = (if balance (h m) = d then inv_side d else TREE_BALANCED)"
    "balance (h' b) = (if balance (h m) = d \<or> balance (h m) = TREE_BALANCED then TREE_BALANCED else d)"
    using double_rotation [OF d ls, of "ctop c"] by auto
  let ?s = "mk d (mk d ll b lm) m (mk d lr a y)"
  obtain e2 l2 r2 where e2: "?s = plug e2 (Node l2 x r2)" "cdirs h e2" using double_leads [OF d u ba(4,2)] by blast
  have sub: "bals h' ll" "bals h' lm" "bals h' lr" "bals h' y"
    by (rule bals_outside [of h _ "{a, b, m}"]; use bs(1-3) ls(2) h'(4) in auto)+
  have bm: "dbal d (balance (h m)) (height lm) (height lr)" using bs(2) by simp
  have bb: "dbal d (balance (h' b)) (height ll) (height lm)" "dbal d (balance (h' a)) (height lr) (height y)"
    using double_bals [OF d bm bs(4,5) h'(7,6)] by simp_all
  have "rebalanced h lvt (plug c (mk d (mk d ll b (mk d lm m lr)) a y)) x
    (if ctop c \<noteq> NULL then set_child_dir (set_parent h' (rootp ?s) (ctop c)) (ctop c) (rootp ?s)
       else set_parent h' (rootp ?s) (ctop c), if ctop c \<noteq> NULL then lvt else lvt\<lparr>avl_root := rootp ?s\<rparr>)"
  proof (rule rebalanced_rotation [OF l dis cd, of h' ?s])
    show "frame_rel h h' (set_tree (mk d (mk d ll b (mk d lm m lr)) a y))" by (rule frame_rel_mono [OF h'(3)]) auto
    show "inorder ?s = inorder (mk d (mk d ll b (mk d lm m lr)) a y)" by (rule inorder_rotate2 [OF d, symmetric])
    show "?s = plug e2 (Node l2 x r2)" by (rule e2(1))
    show "bals h' ?s" using sub bb h'(5) bs(4,5) by auto
    have hs: "height ?s = Suc (Suc (height ll))" using bs(4,5) by auto
    show "cbals h (height ?s) c" "avl_height lvt = cheight c (height ?s)" unfolding hs by (rule bs(6), rule lvt(2))
  qed (use h' lvt e2(2) in simp_all)
  moreover have "avl_parent (h a) = ctop c" "dchild d (h a) = b" "b \<noteq> NULL" using ls(1) d by simp_all
  ultimately show ?thesis
    using insert_rebalance_rotate [of d h a, OF d ba(2,1), of b h' m lvt] h'(1) ba(3) d by auto
qed

text \<open>The rebalance node where the climb stopped.\<close>

lemma insert_rebalance_spec:
  assumes d: "side d" and l: "links h NULL (plug (fr d a y # c) s)" and dis: "distinct (inorder (plug (fr d a y # c) s))"
    and cd: "cdirs h (fr d a y # c)" and g: "grown h s n (fr d a y # c)"
    and s: "s = plug e (Node Leaf x Leaf)" "cdirs h e"
    and lvt: "avl_root lvt = rootp (plug (fr d a y # c) s)" "avl_height lvt = cheight (fr d a y # c) n"
    and stop: "c = [] \<or> balance (h a) \<noteq> TREE_BALANCED"
  shows "\<exists>out. insert_rebalance h lvt a = Some out \<and> rebalanced h lvt (plug (fr d a y # c) s) x out"
proof -
  have a: "descent_dir (h a) = d" "a \<notin> set_tree s" "a \<notin> set_tree y" "a \<notin> caddrs c" "cdirs h c"
    using cd dis d by (auto simp: distinct_plug)
  have bf: "(if d = TREE_LEFT_HEAVY then TREE_LEFT_HEAVY else TREE_RIGHT_HEAVY) = d" using d by (auto simp: side_def)
  have gr: "bals h s" "height s = Suc n" "bals h y" "dbal d (balance (h a)) n (height y)"
    "cbals h (Suc (max n (height y))) c" using g by (simp_all add: grown_def)
  have stay: "rebalanced h lvt (plug (fr d a y # c) s) x (set_bal h a b, lvt\<lparr>avl_height := k\<rparr>)"
    if b: "dbal d b (Suc n) (height y)" "cbals h (Suc (max (Suc n) (height y))) c"
      "k = cheight c (Suc (max (Suc n) (height y)))" for b k
  proof -
    have "avl_tree (set_bal h a b) (lvt\<lparr>avl_height := k\<rparr>) (plug (fr d a y # c) s)"
      using l dis gr b a lvt(1) by (auto simp: avl_tree_def bals_plug height_plug)
    moreover have "leads_to (set_bal h a b) (plug (fr d a y # c) s) x"
      unfolding leads_to_def s(1) using s(2) cd
      by (intro exI [of _ "e @ fr d a y # c"]) (auto simp: plug_append cdirs_append)
    moreover have "\<exists>a' n'. lvt\<lparr>avl_height := k\<rparr> = lvt\<lparr>avl_root := a', avl_height := n'\<rparr>"
      by (rule exI [of _ "avl_root lvt"], rule exI [of _ k]) simp
    ultimately show ?thesis unfolding rebalanced_def by (auto simp: frame_rel_def)
  qed
  consider "balance (h a) = TREE_BALANCED" | "balance (h a) = inv_side d" | "balance (h a) = d"
    using dir_exhaust [OF d] by blast
  then show ?thesis
  proof cases
    case 1
    then have "insert_rebalance h lvt a = Some (set_bal h a d, lvt\<lparr>avl_height := avl_height lvt + 1\<rparr>)"
      unfolding insert_rebalance_def Let_def a(1) by (simp add: bf)
    moreover have "c = []" using 1 stop by simp
    ultimately show ?thesis using stay [of d "avl_height lvt + 1"] 1 gr(4) d lvt(2) by simp
  next
    case 2
    then have "insert_rebalance h lvt a = Some (set_bal h a TREE_BALANCED, lvt)"
      unfolding insert_rebalance_def Let_def a(1) using d by (simp add: bf)
    moreover have "rebalanced h lvt (plug (fr d a y # c) s) x (set_bal h a TREE_BALANCED, lvt\<lparr>avl_height := avl_height lvt\<rparr>)"
      using 2 gr(4,5) d lvt(2) by (intro stay) simp_all
    moreover have "lvt\<lparr>avl_height := avl_height lvt\<rparr> = lvt" by simp
    ultimately show ?thesis by metis
  next
    case 3
    then have ny: "n = Suc (height y)" using gr(4) d by simp
    define b where "b = rootp s"
    have nb: "balance (h b) \<noteq> TREE_BALANCED" "balance (h b) = descent_dir (h b)" using g ny unfolding grown_def b_def by blast+
    have "e \<noteq> []" using s(1) gr(2) ny by auto
    then obtain e' f where e: "e = e' @ [f]" by (meson rev_exhaust)
    obtain d2 b2 w where f: "f = fr d2 b2 w" "side d2" by (rule frame_cases)
    have s2: "s = mk d2 (plug e' (Node Leaf x Leaf)) b w" "b2 = b" using s(1) e f by (simp_all add: plug_append b_def)
    have c2: "cdirs h e'" "descent_dir (h b) = d2" using s(2) e f s2(2) by (simp_all add: cdirs_append)
    consider "d2 = d" | "d2 = inv_side d" using dir_exhaust [OF d, of d2] f(2) by (auto simp: side_def)
    then show ?thesis
    proof cases
      case 1
      let ?u = "plug e' (Node Leaf x Leaf)"
      have hu: "height ?u = Suc (height w)" "height y = height w" "cbals h (Suc (Suc (height w))) c"
        using gr(1,2,5) s2(1) 1 nb(2) c2(2) d ny by auto
      have "\<exists>out. insert_rebalance h lvt a = Some out \<and> rebalanced h lvt (plug c (mk d (mk d ?u b w) a y)) x out"
      proof (rule rebalance_single [OF d])
        show "cdirs h e'" by (rule c2(1))
      qed (use l dis a 3 nb c2 1 gr lvt ny s2 hu in simp_all)
      then show ?thesis using 1 s2(1) by simp
    next
      case 2
      let ?u = "plug e' (Node Leaf x Leaf)"
      have s3: "s = mk d w b ?u" using s2(1) 2 mk_inv [OF d] by simp
      have hu: "height ?u = Suc (height w)" "height y = height w" "cbals h (Suc (Suc (height w))) c" "bals h w" "bals h ?u"
        using gr(1,2,5) s3 2 nb(2) c2(2) d ny by auto
      obtain lm m lr where u: "?u = mk d lm m lr" using hu(1) mk_exists [of ?u d] by (metis height_tree.simps(1) nat.distinct(1))
      have "\<exists>out. insert_rebalance h lvt a = Some out
          \<and> rebalanced h lvt (plug c (mk d (mk d w b (mk d lm m lr)) a y)) x out"
      proof (rule rebalance_double [OF d])
        show "mk d lm m lr = plug e' (Node Leaf x Leaf)" by (rule u [symmetric])
        show "cdirs h e'" by (rule c2(1))
      qed (use l dis a 3 nb c2 2 gr lvt ny s3 hu u in simp_all)
      then show ?thesis using s3 u by simp
    qed
  qed
qed

section \<open>Inserting a node\<close>

lemma init_node_fields [simp]:
  "avl_left (init_node slot key p) = NULL" "avl_right (init_node slot key p) = NULL"
  "avl_parent (init_node slot key p) = p" "balance (init_node slot key p) = TREE_BALANCED"
  "nd_key (init_node slot key p) = key" "sbs_child (init_node slot key p) = NULL"
  "descent_dir (init_node slot key p) = descent_dir slot"
  by (simp_all add: init_node_def Let_def)

text \<open>The new node has no stale float form: for an integer key \<open>key_iconv\<close> is reset.\<close>

lemma init_node_flt [simp]: "flt_ok key (nd_flt (init_node slot key p))"
  by (cases "(key, nd_flt (init_node slot key p))" rule: flt_ok.cases) (simp_all add: init_node_def Let_def)

text \<open>The clue of the lookup and the parent give the neighbours of the new node.\<close>

lemma hole_clue:
  assumes inv: "lv_inv h lvt (plug c Leaf)" and "c \<noteq> []" and "lastNodeLookedUp lvt = ctop c" and "cdirs h c"
  shows "descent_dir (h (ctop c)) = TREE_DESCEND_LEFT \<Longrightarrow>
      lastNodeMin lvt = last0 (cbefore c) \<and> ctop c = hd0 (cafter c)"
    and "descent_dir (h (ctop c)) \<noteq> TREE_DESCEND_LEFT \<Longrightarrow>
      ctop c = last0 (cbefore c) \<and> lastNodeMax lvt = hd0 (cafter c)"
proof -
  let ?p = "ctop c"
  have ti: "links h NULL (plug c Leaf)" "distinct (inorder (plug c Leaf))"
    using inv by (simp_all add: lv_inv_def tree_inv_def)
  have "?p \<noteq> NULL" using ti(1) assms(2) by (simp add: links_plug)
  then obtain c0 l r where c0: "plug c Leaf = plug c0 (Node l ?p r)" "l = Leaf \<longrightarrow> lastNodeMin lvt = last0 (cbefore c0)"
    "r = Leaf \<longrightarrow> lastNodeMax lvt = hd0 (cafter c0)"
    using inv assms(3) by (auto simp: lv_inv_def clue_ok_def)
  note pf = plug_context_facts [OF ti [unfolded c0(1)]]
  have ch: "links h ?p l" "links h ?p r" "avl_left (h ?p) = rootp l" "avl_right (h ?p) = rootp r" using pf(2) by simp_all
  have eq: "(cbefore c0 @ inorder l) @ ?p # (inorder r @ cafter c0) = cbefore c @ cafter c"
    using arg_cong [OF c0(1), of inorder] by (simp add: inorder_plug)
  have d: "distinct ((cbefore c0 @ inorder l) @ ?p # (inorder r @ cafter c0))" unfolding eq using ti(2) by (simp add: inorder_plug)
  show "lastNodeMin lvt = last0 (cbefore c) \<and> ?p = hd0 (cafter c)" if dir: "descent_dir (h ?p) = TREE_DESCEND_LEFT"
  proof -
    obtain q y c' where c: "c = FL q y # c'" using assms(2,4) dir by (cases c rule: ctop.cases) auto
    then have "l = Leaf" using ti(1) ch(1,3) by (auto simp: links_plug)
    moreover have "cbefore c0 @ inorder l = cbefore c"
      using distinct_split_unique [OF d, of "cbefore c" "inorder y @ cafter c'"] eq c by simp
    ultimately show ?thesis using c0(2) c by simp
  qed
  show "?p = last0 (cbefore c) \<and> lastNodeMax lvt = hd0 (cafter c)" if dir: "descent_dir (h ?p) \<noteq> TREE_DESCEND_LEFT"
  proof -
    obtain q y c' where c: "c = FR y q # c'" using assms(2,4) dir by (cases c rule: ctop.cases) auto
    then have "r = Leaf" using ti(1) ch(2,4) by (auto simp: links_plug)
    moreover have "inorder r @ cafter c0 = cafter c"
      using distinct_split_unique [OF d, of "cbefore c' @ inorder y" "cafter c'"] eq c by simp
    ultimately show ?thesis using c0(3) c by (simp add: last0_append)
  qed
qed

text \<open>The result of an insertion: the new node stands in its place of the order and is the new clue.\<close>

definition inserted :: "heap \<Rightarrow> addr tree \<Rightarrow> mval \<Rightarrow> addr \<Rightarrow> heap \<times> lvTree \<Rightarrow> bool" where
  "inserted h t key node out \<longleftrightarrow> (\<exists>t' xs ys. lv_inv (fst out) (snd out) t' \<and> inorder t = xs @ ys
     \<and> inorder t' = xs @ node # ys \<and> nd_key (fst out node) = key \<and> sbs_child (fst out node) = NULL
     \<and> lastNodeLookedUp (snd out) = node
     \<and> (\<forall>a. a \<noteq> node \<longrightarrow> nd_key (fst out a) = nd_key (h a) \<and> payload (fst out a) = payload (h a)))"

lemma insert_finish:
  assumes inv: "tree_inv h lvt (plug c Leaf)" and key: "key_ok key" and node: "node \<noteq> NULL" "node \<notin> set_tree (plug c Leaf)"
    and hole: "\<forall>x \<in> set (cbefore c). rank_of h x < krank key" "\<forall>x \<in> set (cafter c). krank key < rank_of h x"
    and h': "avl_tree h' lvt' t'" "inorder t' = cbefore c @ node # cafter c" "leads_to h' t' node"
      "nd_key (h' node) = key" "sbs_child (h' node) = NULL" "flt_ok key (nd_flt (h' node))"
      "\<And>a. a \<noteq> node \<Longrightarrow> nd_key (h' a) = nd_key (h a) \<and> payload (h' a) = payload (h a)"
    and clue: "lastNodeLookedUp lvt' = node" "lastNodeMin lvt' = last0 (cbefore c)" "lastNodeMax lvt' = hd0 (cafter c)"
  shows "inserted h (plug c Leaf) key node (h', lvt')"
proof -
  have ne: "node \<notin> set (cbefore c)" "node \<notin> set (cafter c)" using node(2) by (auto simp: set_tree_plug caddrs_eq)
  have rk: "rank_of h' x = rank_of h x" if "x \<noteq> node" for x using h'(7) [OF that] by (simp add: rank_of_def)
  have rn: "rank_of h' node = krank key" using h'(4) by (simp add: rank_of_def)
  have m: "map (rank_of h') (cbefore c) = map (rank_of h) (cbefore c)"
    "map (rank_of h') (cafter c) = map (rank_of h) (cafter c)"
    using ne by (auto intro!: map_cong rk)
  have "ksorted h (plug c Leaf)" "keys_ok h (plug c Leaf)" using inv by (simp_all add: tree_inv_def)
  then have srt: "ksorted h' t'" unfolding ksorted_def h'(2) using hole
    by (auto simp: sorted_wrt_append m rn inorder_plug)
  have "set_tree t' = insert node (caddrs c)"
    using arg_cong [OF h'(2), of set] by (simp add: caddrs_eq set_inorder)
  moreover have "node_ok (h' a) = node_ok (h a)" if "a \<noteq> node" for a
    using h'(7) [OF that] by (simp add: node_ok_def payload_def)
  moreover have "node_ok (h' node)" using key h'(4,6) by (simp add: node_ok_def)
  ultimately have "keys_ok h' t'" using \<open>keys_ok h (plug c Leaf)\<close> node(2)
    by (fastforce simp: keys_ok_def set_tree_plug)
  then have ti: "tree_inv h' lvt' t'" using srt h'(1) by (simp add: tree_inv_def avl_tree_def)
  obtain c2 l r where c2: "t' = plug c2 (Node l node r)" "cdirs h' c2" using h'(3) by (auto simp: leads_to_def)
  have "(cbefore c2 @ inorder l) @ node # (inorder r @ cafter c2) = cbefore c @ node # cafter c"
    using h'(2) c2(1) by (simp add: inorder_plug)
  then have "cbefore c2 @ inorder l = cbefore c" "inorder r @ cafter c2 = cafter c"
    using distinct_split_unique [of "cbefore c2 @ inorder l" node "inorder r @ cafter c2" "cbefore c" "cafter c"]
      ti h'(2) by (auto simp: tree_inv_def)
  then have "clue_ok h' lvt' t'" unfolding clue_ok_def using c2 clue
    by (intro disjI2 exI [of _ c2] exI [of _ l] exI [of _ r]) auto
  then have "lv_inv h' lvt' t'" using ti by (simp add: lv_inv_def)
  then show ?thesis unfolding inserted_def using h' clue(1)
    by (intro exI [of _ t'] exI [of _ "cbefore c"] exI [of _ "cafter c"]) (auto simp: inorder_plug)
qed

lemma lvAvlTreeNodeInsert_spec:
  assumes inv: "lv_inv h lvt t" and hole: "hole_at h t (krank key) parent" and lk: "lastNodeLookedUp lvt = parent"
    and node: "node \<noteq> NULL" "node \<notin> set_tree t" and key: "key_ok key"
  shows "\<exists>out. lvAvlTreeNodeInsert h lvt key parent node = Some (node, out) \<and> inserted h t key node out"
proof -
  obtain c where c: "t = plug c Leaf" "ctop c = parent" "cdirs h c" "\<forall>x \<in> set (cbefore c). rank_of h x < krank key"
    "\<forall>x \<in> set (cafter c). krank key < rank_of h x" using hole by (auto simp: hole_at_def)
  have ti: "tree_inv h lvt (plug c Leaf)" using inv c(1) by (simp add: lv_inv_def)
  let ?h = "h(node := init_node (h node) key parent)"
  show ?thesis
  proof (cases "c = []")
    case True
    let ?lvt = "lvt\<lparr>lastNodeLookedUp := node, avl_root := node, avl_height := 1, lastNodeMin := NULL, lastNodeMax := NULL\<rparr>"
    have "inserted h (plug c Leaf) key node (?h, ?lvt)"
    proof (rule insert_finish [OF ti key node [unfolded c(1)] c(4,5)])
      show "avl_tree ?h ?lvt (Node Leaf node Leaf)" using node c(2) True by (simp add: avl_tree_def)
      show "leads_to ?h (Node Leaf node Leaf) node" unfolding leads_to_def by (intro exI [of _ "[]"]) simp
    qed (use True in \<open>simp_all\<close>)
    then show ?thesis using True c(1,2) by (simp add: lvAvlTreeNodeInsert_def)
  next
    case False
    let ?h1 = "set_child_dir ?h parent node" and ?X = "Node Leaf node Leaf"
    have lt: "links h NULL (plug c Leaf)" "distinct (inorder (plug c Leaf))" "bals h (plug c Leaf)"
      "avl_root lvt = rootp (plug c Leaf)" "avl_height lvt = height (plug c Leaf)"
      using ti by (simp_all add: tree_inv_def)
    have nc: "node \<notin> caddrs c" using node(2) c(1) by (simp add: set_tree_plug)
    have pn: "parent \<noteq> NULL" "parent \<noteq> node" 
      using lt(1) False c(2) nc ctop_in [OF False] ctop_NULL [of h NULL c] by (auto simp: links_plug)
    have cong: "clinks ?h NULL c" "cdirs ?h c" "cbals ?h 0 c"
      using lt(1,3) c(3) nc
      by (subst clinks_cong [of c _ h] cdirs_cong [of c _ h] cbals_cong [of c _ h]; auto simp: links_plug bals_plug)+
    have ck: "clinks ?h1 node c" using clinks_rechild [OF cong(1,2) False lt(2), of node] c(2) by simp
    have l1: "links ?h1 NULL (plug c ?X)" unfolding links_plug using ck node(1) c(2) pn by simp
    have d1: "distinct (inorder (plug c ?X))" using lt(2) nc by (auto simp: distinct_plug)
    have cd1: "cdirs ?h1 c" using cong(2) by simp
    have g1: "grown ?h1 ?X 0 c" using cong(3) pn by (simp add: grown_def)
    obtain h2 e f c' n' where cl: "insert_climb ?h1 (rootp (plug c ?X)) (ctop c) = Some (h2, ctop (f # c'))"
      "c = e @ f # c'" "bal_rel ?h1 h2 (caddrs e)" "grown h2 (plug e ?X) n' (f # c')"
      "cheight (f # c') n' = cheight c 0" "c' = [] \<or> balance (h2 (ctop (f # c'))) \<noteq> TREE_BALANCED"
      using insert_climb_spec [OF l1 d1 cd1 g1 False] by blast
    obtain d a y where f: "f = fr d a y" "side d" by (rule frame_cases)
    have pc: "plug (fr d a y # c') (plug e t) = plug c t" for t using cl(2) f by (simp add: plug_append)
    have cd2: "cdirs h2 c" using bal_rel_cdirs [OF cl(3)] cd1 by simp
    define lvt2 where "lvt2 = (if descent_dir (h parent) = TREE_DESCEND_LEFT
        then lvt\<lparr>lastNodeLookedUp := node, lastNodeMax := parent\<rparr>
        else lvt\<lparr>lastNodeLookedUp := node, lastNodeMin := parent\<rparr>)"
    have rt: "rootp (plug c ?X) = avl_root lvt" using lt(4) rootp_plug [of ?X Leaf c] False by simp
    have "\<exists>out. insert_rebalance h2 lvt2 a = Some out \<and> rebalanced h2 lvt2 (plug (fr d a y # c') (plug e ?X)) node out"
    proof (rule insert_rebalance_spec [OF f(2)])
      show "links h2 NULL (plug (fr d a y # c') (plug e ?X))" unfolding pc using bal_rel_links [OF cl(3)] l1 by simp
      show "distinct (inorder (plug (fr d a y # c') (plug e ?X)))" unfolding pc by (rule d1)
      show "cdirs h2 (fr d a y # c')" "cdirs h2 e" using cd2 unfolding cl(2) f(1) cdirs_append by simp_all
      show "grown h2 (plug e ?X) n' (fr d a y # c')" using cl(4) f(1) by simp
      show "avl_root lvt2 = rootp (plug (fr d a y # c') (plug e ?X))" unfolding pc rt by (simp add: lvt2_def)
      show "avl_height lvt2 = cheight (fr d a y # c') n'"
        using cl(5) f(1) lt(5) by (simp add: lvt2_def height_plug)
      show "c' = [] \<or> balance (h2 a) \<noteq> TREE_BALANCED" using cl(6) f(1) by simp
    qed (rule refl)
    then obtain h3 lvt3 where r: "insert_rebalance h2 lvt2 a = Some (h3, lvt3)"
      "rebalanced h2 lvt2 (plug c ?X) node (h3, lvt3)" unfolding pc by auto
    then obtain t' b n where t': "avl_tree h3 lvt3 t'" "inorder t' = inorder (plug c ?X)" "leads_to h3 t' node"
      "frame_rel h2 h3 UNIV" "lvt3 = lvt2\<lparr>avl_root := b, avl_height := n\<rparr>" by (auto simp: rebalanced_def)
    have same: "nd_key (h3 x) = nd_key (?h x)" "payload (h3 x) = payload (?h x)" for x
      using frame_rel_key [OF t'(4)] frame_rel_payload [OF t'(4)] frame_rel_key [OF bal_rel_frame [OF cl(3)]]
        frame_rel_payload [OF bal_rel_frame [OF cl(3)]] by simp_all
    have "inserted h (plug c Leaf) key node (h3, lvt3)"
    proof (rule insert_finish [OF ti key node [unfolded c(1)] c(4,5) t'(1) _ t'(3)])
      show "inorder t' = cbefore c @ node # cafter c" using t'(2) by (simp add: inorder_plug)
      show "sbs_child (h3 node) = NULL" using same(2) [of node] by (simp add: payload_def)
      show "flt_ok key (nd_flt (h3 node))" using same(2) [of node] by (simp add: payload_def)
      show "lastNodeMin lvt3 = last0 (cbefore c)" "lastNodeMax lvt3 = hd0 (cafter c)"
        using hole_clue [OF inv [unfolded c(1)] False _ c(3)] lk c(2) t'(5) by (auto simp: lvt2_def)
      show "lastNodeLookedUp lvt3 = node" using t'(5) by (simp add: lvt2_def)
    qed (simp_all add: same)
    moreover have "descent_dir (?h parent) = descent_dir (h parent)" using pn by simp
    moreover have "ctop (f # c') = a" using f(1) by simp
    ultimately show ?thesis using cl(1) r(1) pn rt c(1,2)
      by (auto simp: lvAvlTreeNodeInsert_def Let_def lvt2_def split: if_splits)
  qed
qed

end
