(* ===== verification/Lv_Delete.thy ===== *)
theory Lv_Delete
  imports Lv_Insert
begin

text \<open>
  Deletion from a local variable tree: the node is unlinked, its in-order successor takes its place when it
  has a right subtree, and balance is restored along the recorded descent. \<open>lvAvlTreeNodePrepareForDelete\<close>
  records that descent for a node that was not reached by a lookup.
\<close>

section \<open>Restoring the balance\<close>

lemma delete_balance_rotate:
  assumes "side d" and "a \<noteq> NULL" and "descent_dir (h a) = d" and "balance (h a) = inv_side d"
    and "dchild (inv_side d) (h a) = b" and "b \<noteq> NULL"
    and "(if balance (h b) = TREE_BALANCED \<or> balance (h b) = inv_side d then lvAvlTreeSingleRotation h a b (inv_side d)
      else lvAvlTreeDoubleRotation h a b (inv_side d)) = Some (h', m)"
    and "p = avl_parent (h a)"
    and "h2 = (if p \<noteq> NULL then set_child_dir (set_parent h' m p) p m else set_parent h' m p)"
    and "lvt2 = (if p \<noteq> NULL then lvt else lvt\<lparr>avl_root := m\<rparr>)"
  shows "delete_balance h lvt a =
    (if balance (h b) = TREE_BALANCED then Some (h2, lvt2) else delete_balance h2 lvt2 p)"
proof -
  have "(if d = TREE_LEFT_HEAVY then avl_right (h a) else avl_left (h a)) = b"
    "(if d = TREE_LEFT_HEAVY then TREE_RIGHT_HEAVY else TREE_LEFT_HEAVY) = inv_side d"
    using assms(1,5) by (auto simp: dchild_def side_def)
  then show ?thesis
    apply (subst delete_balance.simps)
    unfolding Let_def assms(3,4) assms(8) [symmetric] using assms(1,2,6,7,9,10)
    by (cases "balance (h b) = TREE_BALANCED"; cases "balance (h b) = inv_side d") simp_all
qed

text \<open>The rotation at a node whose subtree on side \<open>d\<close> has become two lower than the other.\<close>

lemma delete_rotation:
  assumes d: "side d" and l: "links h p (mk d s a y)" and dis: "distinct (inorder (mk d s a y))"
    and bs: "bals h s" "bals h y" "balance (h a) = inv_side d" "height y = Suc (Suc (height s))"
  shows "\<exists>h' s'. (if balance (h (rootp y)) = TREE_BALANCED \<or> balance (h (rootp y)) = inv_side d
        then lvAvlTreeSingleRotation h a (rootp y) (inv_side d)
        else lvAvlTreeDoubleRotation h a (rootp y) (inv_side d)) = Some (h', rootp s')
    \<and> inorder s' = inorder (mk d s a y) \<and> s' \<noteq> Leaf \<and> bals h' s' \<and> frame_rel h h' (set_tree (mk d s a y))
    \<and> links (set_parent h' (rootp s') q) q s'
    \<and> height s' = (if balance (h (rootp y)) = TREE_BALANCED then Suc (Suc (Suc (height s))) else Suc (Suc (height s)))"
proof -
  define D where "D = inv_side d"
  have D: "side D" "inv_side D = d" using d by (simp_all add: D_def)
  have "y \<noteq> Leaf" using bs(4) by auto
  then obtain yl b yr where y: "y = mk D yl b yr" using mk_exists by blast
  have t: "mk d s a y = mk D (mk D yl b yr) a s" using mk_inv [OF d, of y a s] y by (simp add: D_def)
  note l' = l [unfolded t] and dis' = dis [unfolded t]
  have b: "rootp y = b" "bals h yl" "bals h yr" "dbal D (balance (h b)) (height yl) (height yr)"
    "max (height yl) (height yr) = Suc (height s)" using bs(2,4) y by simp_all
  show ?thesis
  proof (cases "balance (h b) = TREE_BALANCED \<or> balance (h b) = D")
    case True
    obtain h' where h': "lvAvlTreeSingleRotation h a b D = Some (h', b)"
      "links (set_parent h' b q) q (mk D yl b (mk D yr a s))" "frame_rel h h' ({b, a} \<union> set_tree yr)"
      "\<forall>x. x \<noteq> b \<and> x \<noteq> a \<longrightarrow> balance (h' x) = balance (h x)"
      "if balance (h b) \<noteq> TREE_BALANCED then balance (h' b) = TREE_BALANCED \<and> balance (h' a) = TREE_BALANCED
       else balance (h' b) = inv_side D \<and> balance (h' a) = balance (h a)"
      using single_rotation [OF D(1) l' dis', of q] by auto
    have sub: "bals h' yl" "bals h' yr" "bals h' s"
      by (rule bals_outside [of h _ "{a, b}"]; use b(2,3) bs(1) dis' h'(4) in auto)+
    have "bals h' (mk D yl b (mk D yr a s))"
      using sub h'(5) True b(4,5) bs(3) D d dbal_inv [OF d] by (auto simp: D_def split: if_splits)
    moreover have "frame_rel h h' (set_tree (mk d s a y))" by (rule frame_rel_mono [OF h'(3)]) (auto simp: y)
    moreover have "height (mk D yl b (mk D yr a s)) =
        (if balance (h b) = TREE_BALANCED then Suc (Suc (Suc (height s))) else Suc (Suc (height s)))"
      using True b(4,5) D(1) by auto
    moreover have "inorder (mk D yl b (mk D yr a s)) = inorder (mk d s a y)" unfolding t by (rule inorder_rotate1 [symmetric])
    ultimately show ?thesis
      using h'(1,2) True unfolding b(1) D_def [symmetric]
      by (intro exI [of _ h'] exI [of _ "mk D yl b (mk D yr a s)"]) (simp only: mk_simps if_True simp_thms)
  next
    case False
    then have bd: "balance (h b) = inv_side D" using dir_exhaust [OF D(1), of "balance (h b)"] by auto
    then have hy: "height yr = Suc (height s)" "height yl = height s" using b(4,5) D(1) by auto
    obtain lm m lr where yr: "yr = mk D lm m lr" using hy(1) mk_exists [of yr D]
      by (metis height_tree.simps(1) nat.distinct(1))
    obtain h' where h': "lvAvlTreeDoubleRotation h a b D = Some (h', m)"
      "links (set_parent h' m q) q (mk D (mk D yl b lm) m (mk D lr a s))"
      "frame_rel h h' ({b, a, m} \<union> set_tree lm \<union> set_tree lr)"
      "\<forall>z. z \<noteq> b \<and> z \<noteq> a \<and> z \<noteq> m \<longrightarrow> balance (h' z) = balance (h z)" "balance (h' m) = TREE_BALANCED"
      "balance (h' a) = (if balance (h m) = D then inv_side D else TREE_BALANCED)"
      "balance (h' b) = (if balance (h m) = D \<or> balance (h m) = TREE_BALANCED then TREE_BALANCED else D)"
      using double_rotation [OF D(1) l' [unfolded yr] dis' [unfolded yr], of q] by auto
    have sub: "bals h' yl" "bals h' lm" "bals h' lr" "bals h' s"
      by (rule bals_outside [of h _ "{a, b, m}"]; use b(2,3) bs(1) dis' h'(4) yr in auto)+
    have hm: "dbal D (balance (h m)) (height lm) (height lr)" "max (height lm) (height lr) = height yl"
      using b(3) hy yr by simp_all
    have "bals h' (mk D (mk D yl b lm) m (mk D lr a s))"
      using sub double_bals [OF D(1) hm hy(2) [symmetric] h'(7,6)] h'(5) hy(2) hm(2) by auto
    moreover have "frame_rel h h' (set_tree (mk d s a y))" by (rule frame_rel_mono [OF h'(3)]) (auto simp: y yr)
    moreover have "height (mk D (mk D yl b lm) m (mk D lr a s)) = Suc (Suc (height s))" using hm(2) hy(2) by auto
    moreover have "inorder (mk D (mk D yl b lm) m (mk D lr a s)) = inorder (mk d s a y)"
      unfolding t yr by (rule inorder_rotate2 [OF D(1), symmetric])
    ultimately show ?thesis
      using h'(1,2) False unfolding b(1) D_def [symmetric]
      by (intro exI [of _ h'] exI [of _ "mk D (mk D yl b lm) m (mk D lr a s)"]) simp
  qed
qed

text \<open>
  The loop, on a context whose balance factors expect a subtree one higher than the one that is there: the
  result is an AVL tree with the same nodes in the same order.
\<close>

definition restored :: "heap \<Rightarrow> lvTree \<Rightarrow> addr tree \<Rightarrow> heap \<times> lvTree \<Rightarrow> bool" where
  "restored h lvt t out \<longleftrightarrow> (\<exists>t'. avl_tree (fst out) (snd out) t' \<and> inorder t' = inorder t
     \<and> frame_rel h (fst out) UNIV \<and> (\<exists>a n. snd out = lvt\<lparr>avl_root := a, avl_height := n\<rparr>))"

lemma restored_trans:
  assumes "restored h1 lvt1 t1 out" and "frame_rel h h1 UNIV" and "inorder t1 = inorder t" and "lvt1 = lvt\<lparr>avl_root := r\<rparr>"
  shows "restored h lvt t out"
  using assms frame_rel_trans [OF assms(2)] by (fastforce simp: restored_def)

lemma restored_now: "avl_tree h' (lvt\<lparr>avl_root := r, avl_height := n\<rparr>) t' \<Longrightarrow> inorder t' = inorder t \<Longrightarrow> frame_rel h h' UNIV \<Longrightarrow>
    restored h lvt t (h', lvt\<lparr>avl_root := r, avl_height := n\<rparr>)"
  by (auto simp: restored_def)

definition shrunk :: "heap \<Rightarrow> lvTree \<Rightarrow> ctx \<Rightarrow> addr tree \<Rightarrow> bool" where
  "shrunk h lvt c s \<longleftrightarrow> links h NULL (plug c s) \<and> distinct (inorder (plug c s)) \<and> cdirs h c \<and> bals h s
     \<and> cbals h (Suc (height s)) c \<and> avl_root lvt = rootp (plug c s) \<and> avl_height lvt = cheight c (Suc (height s))"

lemma delete_balance_spec:
  "shrunk h lvt c s \<Longrightarrow> \<exists>out. delete_balance h lvt (ctop c) = Some out \<and> restored h lvt (plug c s) out"
proof (induction c arbitrary: h lvt s)
  case Nil
  then have "restored h lvt s (h, lvt\<lparr>avl_root := avl_root lvt, avl_height := height s\<rparr>)"
    by (intro restored_now) (simp_all add: shrunk_def avl_tree_def frame_rel_refl)
  then show ?case using Nil by (subst delete_balance.simps) (simp add: shrunk_def)
next
  case (Cons f c)
  obtain d a y where f: "f = fr d a y" "side d" by (rule frame_cases)
  note sh = Cons.prems [unfolded shrunk_def f(1)]
  have ls: "links h (ctop c) (mk d s a y)" "distinct (inorder (mk d s a y))" "clinks h a c"
    "links h NULL (plug c (mk d s a y))" "distinct (inorder (plug c (mk d s a y)))" "cdirs h c"
    using sh f(2) by (auto simp: links_plug distinct_plug)
  have a: "a \<noteq> NULL" "descent_dir (h a) = d" "avl_parent (h a) = ctop c" "a \<notin> set_tree s" "a \<notin> set_tree y" "a \<notin> caddrs c"
    using sh f(2) ls by (auto simp: distinct_plug)
  have bs: "bals h s" "bals h y" "dbal d (balance (h a)) (Suc (height s)) (height y)"
    "cbals h (Suc (max (Suc (height s)) (height y))) c" using sh by simp_all
  consider "balance (h a) = TREE_BALANCED" | "balance (h a) = d" | "balance (h a) = inv_side d"
    using dir_exhaust [OF f(2)] by blast
  then show ?case
  proof cases
    case 1
    let ?h = "set_bal h a (inv_side d)"
    have "avl_tree ?h (lvt\<lparr>avl_root := avl_root lvt, avl_height := avl_height lvt\<rparr>) (plug (f # c) s)"
      using 1 sh bs a f by (simp add: avl_tree_def bals_plug height_plug)
    then have "restored h lvt (plug (f # c) s) (?h, lvt\<lparr>avl_root := avl_root lvt, avl_height := avl_height lvt\<rparr>)"
      by (rule restored_now) (simp_all add: frame_rel_def)
    then show ?thesis using 1 a f by (subst delete_balance.simps) (simp add: Let_def)
  next
    case 2
    let ?h = "set_bal h a TREE_BALANCED"
    have "shrunk ?h lvt c (mk d s a y)"
      using 2 sh bs a f ls by (simp add: shrunk_def)
    then obtain out where out: "delete_balance ?h lvt (ctop c) = Some out" "restored ?h lvt (plug c (mk d s a y)) out"
      using Cons.IH by blast
    have "restored h lvt (plug (f # c) s) out"
      by (rule restored_trans [OF out(2), where r = "avl_root lvt"]) (simp_all add: frame_rel_def f)
    then show ?thesis using 2 a f out(1) by (subst delete_balance.simps) (auto simp: Let_def)
  next
    case 3
    then have hy: "height y = Suc (Suc (height s))" using bs(3) f(2) by simp
    define b where "b = rootp y"
    have b: "b \<noteq> NULL" "dchild (inv_side d) (h a) = b" using ls(1) f(2) hy by (cases y; simp add: b_def)+
    obtain h' s' where r: "(if balance (h b) = TREE_BALANCED \<or> balance (h b) = inv_side d
        then lvAvlTreeSingleRotation h a b (inv_side d) else lvAvlTreeDoubleRotation h a b (inv_side d)) = Some (h', rootp s')"
      "inorder s' = inorder (mk d s a y)" "s' \<noteq> Leaf" "bals h' s'" "frame_rel h h' (set_tree (mk d s a y))"
      "links (set_parent h' (rootp s') (ctop c)) (ctop c) s'"
      "height s' = (if balance (h b) = TREE_BALANCED then Suc (Suc (Suc (height s))) else Suc (Suc (height s)))"
      using delete_rotation [OF f(2) ls(1,2) bs(1,2) 3 hy, of "ctop c"] unfolding b_def by blast
    define h2 where "h2 = (if ctop c \<noteq> NULL then set_child_dir (set_parent h' (rootp s') (ctop c)) (ctop c) (rootp s')
        else set_parent h' (rootp s') (ctop c))"
    define lvt2 where "lvt2 = (if ctop c \<noteq> NULL then lvt else lvt\<lparr>avl_root := rootp s'\<rparr>)"
    note run = delete_balance_rotate [OF f(2) a(1,2) 3 b(2,1) r(1) a(3) [symmetric] h2_def lvt2_def]
    note ra = reattach [OF ls(4-6) r(5,6,2,3,4) h2_def]
    have root: "avl_root lvt2 = rootp (plug c s')" using ra(5) sh by (simp add: lvt2_def)
    have lvt2: "lvt2 = lvt\<lparr>avl_root := avl_root lvt2\<rparr>" by (simp add: lvt2_def)
    have io: "inorder (plug c s') = inorder (plug (f # c) s)" using r(2) f(1) by (simp add: inorder_plug)
    have cb: "cbals h2 (Suc (Suc (Suc (height s)))) c" using ra(3) bs(4) hy by simp
    have ht: "avl_height lvt = cheight c (Suc (Suc (Suc (height s))))" using sh hy by simp
    show ?thesis
    proof (cases "balance (h b) = TREE_BALANCED")
      case True
      then have "avl_tree h2 (lvt\<lparr>avl_root := avl_root lvt2, avl_height := avl_height lvt\<rparr>) (plug c s')"
        using ra(1,2) ra(3) [of 0] cb r(7) root ht by (simp add: avl_tree_def bals_plug height_plug)
      then have "restored h lvt (plug (f # c) s) (h2, lvt\<lparr>avl_root := avl_root lvt2, avl_height := avl_height lvt\<rparr>)"
        by (rule restored_now) (rule io, rule ra(4))
      moreover have "lvt\<lparr>avl_root := avl_root lvt2, avl_height := avl_height lvt\<rparr> = lvt2" by (simp add: lvt2_def)
      ultimately show ?thesis using run True f(1) by simp
    next
      case False
      then have "shrunk h2 lvt2 c s'"
        using ra(1,2) ra(3) [of 0] cb r(7) root ht frame_rel_cdirs [OF ra(4)] ls(6) by (simp add: shrunk_def lvt2_def)
      then obtain out where out: "delete_balance h2 lvt2 (ctop c) = Some out" "restored h2 lvt2 (plug c s') out"
        using Cons.IH by blast
      have "restored h lvt (plug (f # c) s) out" by (rule restored_trans [OF out(2) ra(4) io lvt2])
      then show ?thesis using run False f(1) out(1) by auto
    qed
  qed
qed

section \<open>The in-order successor\<close>

lemma same_but_dirs_payload: "same_but_dirs h h' \<Longrightarrow> payload (h' b) = payload (h b)"
  by (simp add: payload_def same_but_dirs_fields)

lemma delete_succ_spec:
  assumes "links h p r" and "r \<noteq> Leaf" and "distinct (inorder r)"
  shows "\<exists>h' e nx nr. delete_succ h (rootp r) = Some (h', nx) \<and> r = plug e (Node Leaf nx nr)
    \<and> cbefore e = [] \<and> cdirs h' e \<and> same_but_dirs h h' \<and> (\<forall>b. b \<notin> caddrs e \<longrightarrow> h' b = h b)"
  using assms
proof (induction r arbitrary: h p)
  case Leaf
  then show ?case by simp
next
  case (Node l a r)
  show ?case
  proof (cases "l = Leaf")
    case True
    then have "delete_succ h a = Some (h, a)" using Node.prems by (subst delete_succ.simps) simp
    then show ?thesis using True by (intro exI [of _ h] exI [of _ "[]"] exI [of _ a] exI [of _ r]) simp
  next
    case False
    let ?h = "set_dir h a TREE_DESCEND_LEFT"
    obtain h' e nx nr where r: "delete_succ ?h (rootp l) = Some (h', nx)" "l = plug e (Node Leaf nx nr)"
      "cbefore e = []" "cdirs h' e" "same_but_dirs ?h h'" "\<forall>b. b \<notin> caddrs e \<longrightarrow> h' b = ?h b"
      using Node.IH(1) [of ?h a] Node.prems False by auto
    have "a \<notin> caddrs e" using Node.prems(3) r(2) by (auto simp: set_tree_plug)
    then have "cdirs h' (e @ [FL a r])" "\<forall>b. b \<notin> caddrs (e @ [FL a r]) \<longrightarrow> h' b = h b"
      using r(4,6) by (auto simp: cdirs_append caddrs_append set_dir_def)
    moreover have "cbefore (e @ [FL a r]) = []" using r(3) by (simp add: cbefore_append)
    moreover have "Node l a r = plug (e @ [FL a r]) (Node Leaf nx nr)" using r(2) by (simp add: plug_append)
    moreover have "same_but_dirs h h'" by (rule same_but_dirs_trans [OF same_but_dirs_set r(5)])
    moreover have "delete_succ h a = delete_succ ?h (rootp l)" using Node.prems False
      by (subst delete_succ.simps) auto
    ultimately show ?thesis using r(1) by (metis rootp.simps(2))
  qed
qed

text \<open>The successor is taken out of the right subtree, whose root gets a new parent.\<close>

lemma remove_min:
  assumes l: "links h q (plug e (Node Leaf nx nr))" and dis: "distinct (inorder (plug e (Node Leaf nx nr)))"
    and e: "e \<noteq> []" "cdirs h e" and r: "R = rootp (plug e (Node Leaf nx nr))"
  shows "links (set_parent (set_parent_if (set_child_dir h (ctop e) (rootp nr)) (rootp nr) (ctop e)) R q') q' (plug e nr)"
    and "rootp (plug e nr) = R" and "avl_parent (h nx) = ctop e" and "ctop e \<noteq> NULL" and "avl_right (h nx) = rootp nr"
proof -
  let ?t = "plug e (Node Leaf nx nr)"
  obtain tl ta tr where t: "?t = Node tl ta tr" using plug_Node by blast
  define g where "g = set_parent h R NULL"
  have "links g NULL ?t" unfolding g_def r t rootp.simps
    by (rule links_reparent_node [OF l [unfolded t] dis [unfolded t]])
  then have g: "clinks g nx e" "links g nx nr" "avl_parent (g nx) = ctop e" "avl_right (g nx) = rootp nr"
    by (simp_all add: links_plug)
  have de: "distinct (inorder (plug e Leaf))" "nx \<notin> caddrs e" "caddrs e \<inter> set_tree nr = {}" "distinct (inorder nr)"
    using dis by (auto simp: distinct_plug)
  have Re: "R \<in> caddrs e" using rootp_plug_in [OF e(1)] r by simp
  define g1 where "g1 = set_child_dir g (ctop e) (rootp nr)"
  define g2 where "g2 = set_parent_if g1 (rootp nr) (ctop e)"
  have "clinks g1 (rootp nr) e" unfolding g1_def using clinks_rechild [OF g(1) _ e(1) de(1)] e(2) by (simp add: g_def)
  moreover have "rootp nr \<notin> caddrs e" using rootp_notin [of "caddrs e" nr] clinks_nonzero [OF g(1)] de(3) by auto
  ultimately have "clinks g2 (rootp nr) e" by (simp add: g2_def)
  moreover have "links g1 nx nr" using g(2) ctop_in [OF e(1)] de(3) by (subst g1_def, subst links_set) auto
  then have "links g2 (ctop e) nr" unfolding g2_def by (rule links_reparent) (rule de(4))
  ultimately have l2: "links g2 NULL (plug e nr)" by (simp add: links_plug)
  show R: "rootp (plug e nr) = R" unfolding r by (rule rootp_plug) (simp add: e(1))
  have "plug e nr \<noteq> Leaf" using Re set_tree_plug [of e nr] by auto
  then obtain a b where n: "plug e nr = Node a R b" using R by (cases "plug e nr") auto
  have "distinct (inorder (plug e nr))" using de by (auto simp: distinct_plug)
  then have "links (set_parent g2 R q') q' (plug e nr)"
    using l2 unfolding n by (rule links_reparent_node [rotated])
  then show "links (set_parent (set_parent_if (set_child_dir h (ctop e) (rootp nr)) (rootp nr) (ctop e)) R q') q' (plug e nr)"
    by (rule links_cong [THEN iffD1, rotated]) (auto simp: g2_def g1_def g_def)
  show "avl_parent (h nx) = ctop e" "avl_right (h nx) = rootp nr" using g(3,4) Re de(2) by (auto simp: g_def split: if_splits)
  show "ctop e \<noteq> NULL" using g(1) e(1) by simp
qed

text \<open>Stores with the same keys, values, balance factors and directions.\<close>

definition only_links :: "heap \<Rightarrow> heap \<Rightarrow> addr set \<Rightarrow> bool" where
  "only_links h h' S \<longleftrightarrow> (\<forall>b. nd_key (h' b) = nd_key (h b) \<and> payload (h' b) = payload (h b)
     \<and> balance (h' b) = balance (h b) \<and> descent_dir (h' b) = descent_dir (h b)
     \<and> (b \<notin> S \<longrightarrow> avl_left (h' b) = avl_left (h b) \<and> avl_right (h' b) = avl_right (h b)
        \<and> avl_parent (h' b) = avl_parent (h b)))"

lemma only_links_preds:
  assumes "only_links h h' S"
  shows "caddrs c \<inter> S = {} \<Longrightarrow> clinks h' p c = clinks h p c" and "cdirs h' c = cdirs h c" and "cbals h' n c = cbals h n c"
    and "set_tree t \<inter> S = {} \<Longrightarrow> links h' p t = links h p t" and "bals h' t = bals h t"
proof -
  note o = assms [unfolded only_links_def]
  show "cdirs h' c = cdirs h c" by (rule cdirs_cong) (simp add: o)
  show "cbals h' n c = cbals h n c" by (rule cbals_cong) (simp add: o)
  show "bals h' t = bals h t" by (rule bals_cong) (simp add: o)
  show "clinks h' p c = clinks h p c" if "caddrs c \<inter> S = {}" by (rule clinks_cong) (use o that in auto)
  show "links h' p t = links h p t" if "set_tree t \<inter> S = {}" by (rule links_cong) (use o that in auto)
qed

lemma succ_moved:
  assumes l: "links h x (plug e (Node Leaf nx nr))" and dis: "distinct (inorder (plug e (Node Leaf nx nr)))"
    and e: "cdirs h e" "x \<notin> set_tree (plug e (Node Leaf nx nr))" and r: "R = rootp (plug e (Node Leaf nx nr))"
    and h1: "h1 = (if avl_parent (h nx) \<noteq> x
      then set_parent (set_right (set_parent_if (set_child_dir h (avl_parent (h nx)) (avl_right (h nx)))
        (avl_right (h nx)) (avl_parent (h nx))) nx R) R nx else h)"
  shows "links h1 nx (plug e nr) \<and> avl_right (h1 nx) = rootp (plug e nr)
    \<and> only_links h h1 (set_tree (plug e (Node Leaf nx nr)))
    \<and> (if avl_parent (h nx) \<noteq> x then avl_parent (h nx) else nx) = ctop (e @ FR l' nx # c)
    \<and> nx \<noteq> NULL \<and> (avl_parent (h nx) \<noteq> NULL \<or> x = NULL)"
proof (cases "e = []")
  case True
  then show ?thesis using l h1 by (auto simp: only_links_def)
next
  case False
  note rm = remove_min [OF l dis False e(1) r]
  have pe: "ctop e \<in> caddrs e" by (rule ctop_in [OF False])
  have nx: "nx \<notin> set_tree (plug e nr)" "nx \<noteq> R" using dis rootp_plug_in [OF False, of "Node Leaf nx nr"] r
    by (auto simp: distinct_plug set_tree_plug)
  have px: "ctop e \<noteq> x" using pe e(2) by (auto simp: set_tree_plug)
  have h1: "h1 = set_parent (set_right (set_parent_if (set_child_dir h (ctop e) (rootp nr)) (rootp nr) (ctop e)) nx R) R nx"
    using h1 rm(3,5) px by simp
  have "links h1 nx (plug e nr)"
    using rm(1) [of nx] by (rule links_cong [THEN iffD1, rotated]) (use nx in \<open>auto simp: h1\<close>)
  moreover have "avl_right (h1 nx) = rootp (plug e nr)" using rm(2) by (simp add: h1)
  moreover have "rootp nr \<noteq> NULL \<Longrightarrow> rootp nr \<in> set_tree nr" by (cases nr) auto
  then have "only_links h h1 (set_tree (plug e (Node Leaf nx nr)))"
    using pe rootp_plug_in [OF False, of "Node Leaf nx nr"] r by (auto simp: only_links_def h1 set_tree_plug)
  moreover have "ctop (e @ FR l' nx # c) = ctop e" using False by (cases e rule: ctop.cases) auto
  moreover have "nx \<noteq> NULL" using links_nonzero [OF l] by (auto simp: set_tree_plug)
  ultimately show ?thesis using rm(3,4) px by simp
qed

text \<open>The successor takes the place of the node.\<close>

lemma take_place:
  assumes c: "clinks h x c" "cdirs h c" and l: "links h x l" and r: "links h nx r" "avl_right (h nx) = rootp r" "nx \<noteq> NULL"
    and dis: "distinct (inorder (plug c (Node l nx r)))"
    and h2: "h2 = set_dir (set_bal (set_parent (set_parent_if (set_left h nx (rootp l)) (rootp l) nx) nx (ctop c)) nx b) nx d"
    and h3: "h3 = (if ctop c \<noteq> NULL then set_child_dir h2 (ctop c) nx else h2)"
  shows "links h3 NULL (plug c (Node l nx r))"
proof -
  have d: "nx \<notin> set_tree l" "nx \<notin> set_tree r" "nx \<notin> caddrs c" "set_tree l \<inter> set_tree r = {}" "distinct (inorder l)"
    "caddrs c \<inter> set_tree l = {}" "distinct (inorder (plug c Leaf))"
    using dis by (auto simp: distinct_plug)
  have rl: "rootp l = NULL \<or> rootp l \<in> set_tree l" by (cases l) auto
  have rn: "rootp l \<notin> set_tree r" "rootp l \<notin> caddrs c"
    using rl links_nonzero [OF r(1)] clinks_nonzero [OF c(1)] d by auto
  have "links (set_left h nx (rootp l)) x l" using l d(1) by simp
  then have "links (set_parent_if (set_left h nx (rootp l)) (rootp l) nx) nx l" by (rule links_reparent) (rule d(5))
  then have ll: "links h2 nx l" using d(1) by (simp add: h2)
  have lr: "links h2 nx r" using r(1) d(2) rn(1) by (simp add: h2)
  have "links h2 (ctop c) (Node l nx r)" using ll lr r(2,3) d by (simp add: h2)
  moreover have "clinks h2 x c" "cdirs h2 c" using c d(3) rn(2) by (simp_all add: h2)
  ultimately show ?thesis unfolding h3
    using reconnect [of h2 x c "Node l nx r"] dis ctop_NULL [OF c(1)] by simp
qed

section \<open>Unlinking a node\<close>

definition unlinked :: "heap \<Rightarrow> lvTree \<Rightarrow> addr list \<Rightarrow> heap \<times> lvTree \<times> addr \<Rightarrow> bool" where
  "unlinked h lvt xs out \<longleftrightarrow> (\<exists>h' lvt' c s. out = (h', lvt', ctop c) \<and> shrunk h' lvt' c s \<and> inorder (plug c s) = xs
     \<and> (\<forall>b. nd_key (h' b) = nd_key (h b) \<and> payload (h' b) = payload (h b)) \<and> (\<exists>a. lvt' = lvt\<lparr>avl_root := a\<rparr>))"

lemma unlink_no_right:
  assumes t: "avl_tree h lvt (plug c (Node l x Leaf))" and cd: "cdirs h c"
  shows "\<exists>out. delete_unlink h lvt x = Some out \<and> unlinked h lvt (cbefore c @ inorder l @ cafter c) out"
proof -
  note a = t [unfolded avl_tree_def]
  have x: "x \<noteq> NULL" "avl_left (h x) = rootp l" "avl_right (h x) = NULL" "avl_parent (h x) = ctop c" "links h x l"
    "clinks h x c" using a by (simp_all add: links_plug)
  have d: "distinct (inorder (plug c Leaf))" "distinct (inorder (plug c l))" "distinct (inorder l)" "caddrs c \<inter> set_tree l = {}"
    using a by (auto simp: distinct_plug)
  define h1 where "h1 = (if ctop c \<noteq> NULL then set_child_dir h (ctop c) (rootp l) else h)"
  define h2 where "h2 = set_parent_if h1 (rootp l) (ctop c)"
  define lvt2 where "lvt2 = (if ctop c \<noteq> NULL then lvt else lvt\<lparr>avl_root := rootp l\<rparr>)"
  have "clinks h1 (rootp l) c" using clinks_rechild [OF x(6) cd _ d(1)] x(6) by (auto simp: h1_def)
  moreover have "rootp l \<notin> caddrs c" using rootp_notin [of "caddrs c" l] clinks_nonzero [OF x(6)] d(4) by auto
  ultimately have "clinks h2 (rootp l) c" by (simp add: h2_def)
  moreover have "c \<noteq> [] \<Longrightarrow> ctop c \<notin> set_tree l" using ctop_in [of c] d(4) by auto
  then have "links h1 x l" using x(5,6) by (cases "c = []") (simp_all add: h1_def)
  then have "links h2 (ctop c) l" unfolding h2_def by (rule links_reparent) (rule d(3))
  ultimately have lk: "links h2 NULL (plug c l)" by (simp add: links_plug)
  have hl: "height (Node l x Leaf) = Suc (height l)" by simp
  have bl: "bals h2 l" "cbals h2 (Suc (height l)) c" "cdirs h2 c"
    using a cd by (simp_all add: bals_plug h2_def h1_def)
  have rt: "avl_root lvt2 = rootp (plug c l)"
    using a rootp_plug [of "Node l x Leaf" l c] ctop_NULL [OF x(6)] by (auto simp: lvt2_def)
  have "avl_height lvt2 = cheight c (Suc (height l))" using a hl by (simp add: height_plug lvt2_def)
  then have sh: "shrunk h2 lvt2 c l" using lk d(2) bl rt by (simp add: shrunk_def)
  have "\<exists>b. lvt2 = lvt\<lparr>avl_root := b\<rparr>" by (rule exI [of _ "avl_root lvt2"]) (simp add: lvt2_def)
  then have "unlinked h lvt (cbefore c @ inorder l @ cafter c) (h2, lvt2, ctop c)"
    unfolding unlinked_def using sh
    by (intro exI [of _ h2] exI [of _ lvt2] exI [of _ c] exI [of _ l]) (simp add: inorder_plug h2_def h1_def)
  moreover have "delete_unlink h lvt x = Some (h2, lvt2, ctop c)"
    using x by (simp add: delete_unlink_def Let_def h2_def h1_def lvt2_def)
  ultimately show ?thesis by blast
qed

lemma unlink_succ:
  assumes t: "avl_tree h lvt (plug c (Node l x r))" and cd: "cdirs h c" and r: "r \<noteq> Leaf"
  shows "\<exists>out. delete_unlink h lvt x = Some out \<and> unlinked h lvt (cbefore c @ inorder l @ inorder r @ cafter c) out"
proof -
  note a = t [unfolded avl_tree_def]
  have x: "x \<noteq> NULL" "avl_left (h x) = rootp l" "avl_right (h x) = rootp r" "avl_parent (h x) = ctop c"
    "links h x l" "links h x r" "clinks h x c" using a by (simp_all add: links_plug)
  have d: "distinct (inorder r)" "x \<notin> set_tree r" "caddrs c \<inter> set_tree r = {}" "set_tree l \<inter> set_tree r = {}"
    using a by (auto simp: distinct_plug)
  obtain hs e nx nr where s: "delete_succ h (rootp r) = Some (hs, nx)" "r = plug e (Node Leaf nx nr)"
    "cbefore e = []" "cdirs hs e" "same_but_dirs h hs" "\<forall>b. b \<notin> caddrs e \<longrightarrow> hs b = h b"
    using delete_succ_spec [OF x(6) r d(1)] by blast
  note sf = same_but_dirs_fields [OF s(5)]
  have er: "caddrs e \<subseteq> set_tree r" using s(2) by (auto simp: set_tree_plug)
  have hs: "links hs x r" "links hs x l" "clinks hs x c"
    using x(5-7) links_cong [of r hs h x] links_cong [of l hs h x] clinks_cong [of c hs h x] sf by auto
  have "hs b = h b" if "b \<in> caddrs c" for b using that s(6) er d(3) by blast
  then have hc: "cdirs hs c" using cd cdirs_cong [of c hs h] by simp
  define h1 where "h1 = (if avl_parent (hs nx) \<noteq> x
      then set_parent (set_right (set_parent_if (set_child_dir hs (avl_parent (hs nx)) (avl_right (hs nx)))
        (avl_right (hs nx)) (avl_parent (hs nx))) nx (rootp r)) (rootp r) nx else hs)"
  define bt where "bt = (if avl_parent (hs nx) \<noteq> x then avl_parent (hs nx) else nx)"
  have m: "links h1 nx (plug e nr)" "avl_right (h1 nx) = rootp (plug e nr)" "only_links hs h1 (set_tree r)"
    "bt = ctop (e @ FR l nx # c)" "nx \<noteq> NULL" "avl_parent (hs nx) \<noteq> NULL"
    using succ_moved [OF hs(1) [unfolded s(2)] d(1) [unfolded s(2)] s(4) d(2) [unfolded s(2)] refl h1_def [unfolded s(2)], of l c]
      x(1) unfolding s(2) bt_def by blast+
  note mp = only_links_preds [OF m(3)]
  let ?t = "plug (e @ FR l nx # c) nr"
  have pt: "?t = plug c (Node l nx (plug e nr))" by (simp add: plug_append)
  have io: "inorder ?t = cbefore c @ inorder l @ inorder r @ cafter c"
    unfolding pt s(2) using s(3) by (simp add: inorder_plug)
  have dt: "distinct (inorder ?t)" unfolding io using a by (auto simp: inorder_plug)
  define h2 where "h2 = set_dir (set_bal (set_parent (set_parent_if (set_left h1 nx (rootp l)) (rootp l) nx) nx (ctop c)) nx
      (balance (h x))) nx TREE_DESCEND_RIGHT"
  define h3 where "h3 = (if ctop c \<noteq> NULL then set_child_dir h2 (ctop c) nx else h2)"
  define lvt2 where "lvt2 = (if ctop c \<noteq> NULL then lvt else lvt\<lparr>avl_root := nx\<rparr>)"
  have lk: "links h3 NULL ?t" unfolding pt
  proof (rule take_place [of h1 x c l nx "plug e nr" h2 "balance (h x)" TREE_DESCEND_RIGHT])
    show "clinks h1 x c" "cdirs h1 c" "links h1 x l" using hs(2,3) hc mp d by auto
  qed (use m dt pt h2_def h3_def in simp_all)
  have nd: "nx \<notin> caddrs e" "nx \<notin> caddrs c" "nx \<notin> set_tree nr" "nx \<notin> set_tree l"
    using dt unfolding pt by (auto simp: distinct_plug set_tree_plug)
  have dirs: "cdirs h3 (e @ FR l nx # c)"
    using s(4) hc nd mp(2) by (simp add: cdirs_append h3_def h2_def)
  have h3f: "balance (h3 b) = (if b = nx then balance (h x) else balance (h b))"
    "nd_key (h3 b) = nd_key (h b)" "payload (h3 b) = payload (h b)" for b
    using m(3) sf same_but_dirs_payload [OF s(5)] by (auto simp: h3_def h2_def only_links_def)
  have same: "bals h3 t = bals h t" if "nx \<notin> set_tree t" for t by (rule bals_cong) (use that h3f in auto)
  have bo: "bals h l" "bals h r" "bal_ok (balance (h x)) (height l) (height r)" "cbals h (Suc (max (height l) (height r))) c"
    using a by (simp_all add: bals_plug)
  have be: "cbals h (Suc (height nr)) e" "bals h nr" using bo(2) s(2) by (simp_all add: bals_plug)
  have cb: "cbals h3 n e = cbals h n e" "cbals h3 n c = cbals h n c" for n by (rule cbals_cong; use nd h3f in auto)+
  have hr: "height r = cheight e (Suc (height nr))" using s(2) by (simp add: height_plug)
  have "cbals h3 (Suc (height nr)) (e @ FR l nx # c)"
    unfolding cbals_append using be(1) bo hr cb same [OF nd(4)] h3f(1) by simp
  moreover have "bals h3 nr" using same [OF nd(3)] be(2) by simp
  moreover have "avl_root lvt2 = rootp ?t" unfolding pt
    using a rootp_plug [of "Node l x r" "Node l nx (plug e nr)" c] ctop_NULL [OF x(7)] by (auto simp: lvt2_def)
  moreover have "avl_height lvt2 = cheight (e @ FR l nx # c) (Suc (height nr))"
    using a hr by (simp add: lvt2_def height_plug cheight_append)
  ultimately have sh: "shrunk h3 lvt2 (e @ FR l nx # c) nr" using lk dt dirs by (simp add: shrunk_def)
  have "\<exists>b. lvt2 = lvt\<lparr>avl_root := b\<rparr>" by (rule exI [of _ "avl_root lvt2"]) (simp add: lvt2_def)
  then have "unlinked h lvt (cbefore c @ inorder l @ inorder r @ cafter c) (h3, lvt2, bt)"
    unfolding unlinked_def using sh io m(4) h3f
    by (intro exI [of _ h3] exI [of _ lvt2] exI [of _ "e @ FR l nx # c"] exI [of _ nr]) simp
  moreover have "balance (h1 x) = balance (h x)" using m(3) sf by (simp add: only_links_def)
  then have "delete_unlink h lvt x = Some (h3, lvt2, bt)"
    unfolding delete_unlink_def Let_def x(2-4) using s(1) r x(6) m(6)
    by (simp add: h1_def [symmetric] bt_def [symmetric]) (simp add: h3_def h2_def lvt2_def)
  ultimately show ?thesis by blast
qed

section \<open>Deleting a node\<close>

lemma delete_unlink_spec:
  assumes "avl_tree h lvt (plug c (Node l x r))" and "cdirs h c"
  shows "\<exists>out. delete_unlink h lvt x = Some out \<and> unlinked h lvt (cbefore c @ inorder l @ inorder r @ cafter c) out"
  using unlink_no_right [of h lvt c l x] unlink_succ [OF assms] assms by (cases "r = Leaf") auto

text \<open>The result of a deletion.\<close>

definition deleted :: "heap \<Rightarrow> addr tree \<Rightarrow> addr \<Rightarrow> heap \<times> lvTree \<Rightarrow> bool" where
  "deleted h t x out \<longleftrightarrow> (\<exists>t'. lv_inv (fst out) (snd out) t' \<and> inorder t' = remove1 x (inorder t)
     \<and> lastNodeLookedUp (snd out) = NULL
     \<and> (\<forall>a. nd_key (fst out a) = nd_key (h a) \<and> payload (fst out a) = payload (h a)))"

lemma lvAvlTreeNodeDelete_spec:
  assumes inv: "tree_inv h lvt t" and x: "leads_to h t x"
  shows "\<exists>out. lvAvlTreeNodeDelete h lvt x = Some out \<and> deleted h t x out"
proof -
  obtain c l r where t: "t = plug c (Node l x r)" and cd: "cdirs h c" using x by (auto simp: leads_to_def)
  have a: "avl_tree h lvt (plug c (Node l x r))" using inv t by (simp add: tree_inv_def avl_tree_def)
  let ?xs = "cbefore c @ inorder l @ inorder r @ cafter c"
  have dis: "distinct (cbefore c @ inorder l @ x # inorder r @ cafter c)"
    using inv t by (simp add: tree_inv_def inorder_plug)
  then have rem: "remove1 x (inorder t) = ?xs" unfolding t inorder_plug by (simp add: remove1_append)
  obtain h1 lvt1 c1 s1 b1 where u: "delete_unlink h lvt x = Some (h1, lvt1, ctop c1)" "shrunk h1 lvt1 c1 s1"
    "inorder (plug c1 s1) = ?xs" "\<forall>b. nd_key (h1 b) = nd_key (h b) \<and> payload (h1 b) = payload (h b)"
    "lvt1 = lvt\<lparr>avl_root := b1\<rparr>"
    using delete_unlink_spec [OF a cd] by (auto simp: unlinked_def)
  obtain h2 lvt2 t2 where b: "delete_balance h1 lvt1 (ctop c1) = Some (h2, lvt2)" "avl_tree h2 lvt2 t2"
    "inorder t2 = ?xs" "frame_rel h1 h2 UNIV"
    using delete_balance_spec [OF u(2)] u(3) by (auto simp: restored_def)
  have k: "nd_key (h2 b) = nd_key (h b)" "payload (h2 b) = payload (h b)" for b
    using u(4) frame_rel_key [OF b(4)] frame_rel_payload [OF b(4)] by simp_all
  have rk: "rank_of h2 = rank_of h" by (rule ext) (simp add: rank_of_def k(1))
  have st: "set_tree t2 \<subseteq> set_tree t" using arg_cong [OF b(3), of set] t by (auto simp: set_tree_plug caddrs_eq set_inorder)
  have nk: "node_ok (h2 b) = node_ok (h b)" for b using k [of b] by (simp add: node_ok_def payload_def)
  have "ksorted h t" "keys_ok h t" using inv by (simp_all add: tree_inv_def)
  then have "ksorted h2 t2" "keys_ok h2 t2"
    using st b(3) t by (auto simp: ksorted_def keys_ok_def rk nk inorder_plug sorted_wrt_append)
  then have "lv_inv h2 (lvt2\<lparr>lastNodeLookedUp := NULL\<rparr>) t2"
    using b(2) by (simp add: lv_inv_def tree_inv_def avl_tree_def clue_ok_def)
  then have "deleted h t x (h2, lvt2\<lparr>lastNodeLookedUp := NULL\<rparr>)"
    unfolding deleted_def rem using b(3) k by auto
  then show ?thesis using u(1) b(1) by (simp add: lvAvlTreeNodeDelete_def)
qed

text \<open>Recording the descent to a node.\<close>

lemma lvAvlTreeNodePrepareForDelete_spec:
  assumes "links h NULL (plug c (Node l x r))" and "distinct (inorder (plug c (Node l x r)))"
  shows "\<exists>h'. lvAvlTreeNodePrepareForDelete h x = Some h' \<and> same_but_dirs h h' \<and> cdirs h' c
    \<and> (\<forall>b. b \<notin> caddrs c \<longrightarrow> h' b = h b)"
  using assms
proof (induction c arbitrary: h l x r)
  case Nil
  then show ?case by (subst lvAvlTreeNodePrepareForDelete.simps) (simp add: Let_def)
next
  case (Cons f c)
  obtain d a y where f: "f = fr d a y" "side d" by (rule frame_cases)
  define t where "t = Node l x r"
  obtain l2 r2 where m: "mk d t a y = Node l2 a r2" by (cases "d = TREE_LEFT_HEAVY") (auto simp: mk_def)
  let ?h = "set_dir h a d"
  have a: "links h (ctop c) (mk d t a y)" "a \<notin> caddrs c" "distinct (inorder (mk d t a y))"
    using Cons.prems f by (auto simp: links_plug distinct_plug t_def)
  have x: "avl_parent (h x) = a" "a \<noteq> NULL" "x \<noteq> rootp y" "dchild d (h a) = x" "dchild (inv_side d) (h a) = rootp y" "x \<noteq> NULL"
    using a(1,3) f(2) by (cases y; auto simp: t_def)+
  have dir: "(if x = avl_left (h a) then TREE_DESCEND_LEFT else TREE_DESCEND_RIGHT) = d"
    using x f(2) by (auto simp: dchild_def side_def)
  obtain h' where h': "lvAvlTreeNodePrepareForDelete ?h a = Some h'" "same_but_dirs ?h h'" "cdirs h' c"
    "\<forall>b. b \<notin> caddrs c \<longrightarrow> h' b = ?h b"
    using Cons.IH [of ?h l2 a r2] Cons.prems f m by (auto simp: t_def)
  have "cdirs h' (f # c)" using h'(3,4) a(2) f by simp
  moreover have "\<forall>b. b \<notin> caddrs (f # c) \<longrightarrow> h' b = h b" using h'(4) f by (simp add: set_dir_def)
  moreover have "lvAvlTreeNodePrepareForDelete h x = Some h'"
    using x h'(1) dir by (subst lvAvlTreeNodePrepareForDelete.simps) (simp add: Let_def)
  ultimately show ?case using same_but_dirs_trans [OF same_but_dirs_set h'(2)] by blast
qed

end
