(* ===== verification/Lv_Order.thy ===== *)
theory Lv_Order
  imports Lv_Lookup
begin

text \<open>
  The order in which a program sees the subscripts of a local variable: the nodes before and after a
  key, and the same under standard null collation, where the null string comes before the numbers although
  the tree stores it between the numbers and the strings. The flag \<open>local_collseq_stdnull\<close> is an
  argument. A traversal is a cursor; the locale \<open>cursor\<close> states its contract once for all orders.
\<close>

section \<open>Collated traversal\<close>

definition lv_node_key_is_null_subs :: "lvTreeNode \<Rightarrow> bool" where
  "lv_node_key_is_null_subs n \<longleftrightarrow> nd_key n = MV_str []"

definition lvAvlTreeCollatedLast :: "bool \<Rightarrow> heap \<Rightarrow> lvTree \<Rightarrow> addr option" where
  "lvAvlTreeCollatedLast local_collseq_stdnull h lvt =
     Option.bind (lvAvlTreeLast h lvt) (\<lambda>node.
       if local_collseq_stdnull \<and> node \<noteq> NULL \<and> lv_node_key_is_null_subs (h node)
       then Option.bind (lvAvlTreePrev h node) (\<lambda>prevNode. Some (if prevNode \<noteq> NULL then prevNode else node))
       else Some node)"

text \<open>Hopping over the null subscript.\<close>

definition hop_next :: "heap \<Rightarrow> addr \<Rightarrow> addr option" where
  "hop_next h node = (if node \<noteq> NULL \<and> lv_node_key_is_null_subs (h node) then lvAvlTreeNext h node else Some node)"

definition hop_prev :: "heap \<Rightarrow> addr \<Rightarrow> addr option" where
  "hop_prev h node = (if node \<noteq> NULL \<and> lv_node_key_is_null_subs (h node) then lvAvlTreePrev h node else Some node)"

definition lvAvlTreeKeyCollatedNext :: "bool \<Rightarrow> heap \<Rightarrow> lvTree \<Rightarrow> mval \<Rightarrow> (addr \<times> heap \<times> lvTree) option" where
  "lvAvlTreeKeyCollatedNext local_collseq_stdnull h lvt key =
     (if local_collseq_stdnull
      then Option.bind
        (if key = MV_str [] then map_option (\<lambda>node. (node, h, lvt)) (lvAvlTreeFirst h lvt)
         else lvAvlTreeKeyNext h lvt key)
        (\<lambda>(node, h, lvt). map_option (\<lambda>node. (node, h, lvt)) (hop_next h node))
      else lvAvlTreeKeyNext h lvt key)"

text \<open>\<open>lvt\<close> is the tree of the node, \<open>LV_GET_PARENT_TREE(node)\<close>.\<close>

definition lvAvlTreeNodeCollatedNext :: "bool \<Rightarrow> heap \<Rightarrow> lvTree \<Rightarrow> addr \<Rightarrow> addr option" where
  "lvAvlTreeNodeCollatedNext local_collseq_stdnull h lvt node =
     (if local_collseq_stdnull
      then Option.bind
        (if node \<noteq> NULL \<and> lv_node_key_is_null_subs (h node) then lvAvlTreeFirst h lvt else lvAvlTreeNext h node)
        (hop_next h)
      else lvAvlTreeNext h node)"

text \<open>The lookup of the null subscript when the start of the stored order has been reached.\<close>

definition or_null_subs :: "heap \<Rightarrow> lvTree \<Rightarrow> addr \<Rightarrow> (addr \<times> heap \<times> lvTree) option" where
  "or_null_subs h lvt node =
     (if node = NULL
      then map_option (\<lambda>(node, _, h, lvt). (node, h, lvt)) (lvAvlTreeLookupStr h lvt (MV_str []))
      else Some (node, h, lvt))"

definition lvAvlTreeNodeCollatedPrev :: "bool \<Rightarrow> heap \<Rightarrow> lvTree \<Rightarrow> addr \<Rightarrow> (addr \<times> heap \<times> lvTree) option" where
  "lvAvlTreeNodeCollatedPrev local_collseq_stdnull h lvt node =
     (if local_collseq_stdnull
      then if lv_node_key_is_null_subs (h node) then Some (NULL, h, lvt)
           else Option.bind (Option.bind (lvAvlTreePrev h node) (hop_prev h)) (or_null_subs h lvt)
      else map_option (\<lambda>node. (node, h, lvt)) (lvAvlTreePrev h node))"

definition lvAvlTreeKeyCollatedPrev :: "bool \<Rightarrow> heap \<Rightarrow> lvTree \<Rightarrow> mval \<Rightarrow> (addr \<times> heap \<times> lvTree) option" where
  "lvAvlTreeKeyCollatedPrev local_collseq_stdnull h lvt key =
     (if local_collseq_stdnull
      then if key = MV_str [] then Some (NULL, h, lvt)
           else Option.bind (lvAvlTreeKeyPrev h lvt key) (\<lambda>(node, h, lvt).
             Option.bind (hop_prev h node) (or_null_subs h lvt))
      else lvAvlTreeKeyPrev h lvt key)"

section \<open>The nodes around a key\<close>

lemma sorted_split_filter:
  assumes "\<forall>x \<in> set xs. f x < k" and "\<forall>y \<in> set ys. (k :: krank) < f y"
  shows "filter (\<lambda>a. k < f a) (xs @ ys) = ys" and "filter (\<lambda>a. f a < k) (xs @ ys) = xs"
  using assms by (auto simp: filter_id_conv filter_empty_conv order.asym)

text \<open>Where a lookup ends determines the nodes above and below the key.\<close>

lemma lookup_split:
  assumes "lv_inv h lvt t" and "key_ok k"
  shows "\<exists>n par h' lvt'. lvAvlTreeLookup h lvt k = Some (n, par, h', lvt') \<and> same_nodes h h' \<and> lv_inv h' lvt' t
    \<and> (if n \<noteq> NULL then (\<exists>xs ys. inorder t = xs @ n # ys \<and> (\<forall>x \<in> set xs. rank_of h x < krank k)
          \<and> (\<forall>y \<in> set ys. krank k < rank_of h y) \<and> rank_of h n = krank k)
       else (\<exists>c. t = plug c Leaf \<and> par = Some (ctop c) \<and> cdirs h' c
          \<and> (\<forall>x \<in> set (cbefore c). rank_of h x < krank k) \<and> (\<forall>y \<in> set (cafter c). krank k < rank_of h y)))"
proof -
  obtain n par h' lvt' where r: "lvAvlTreeLookup h lvt k = Some (n, par, h', lvt')" "lookup_ok h t (krank k) (n, par, h', lvt')"
    using lvAvlTreeLookup_spec [OF assms(2,1)] by (metis prod_cases4)
  have s: "same_nodes h h'" "lv_inv h' lvt' t" using r(2) by (simp_all add: lookup_ok.simps)
  have rk: "rank_of h' = rank_of h" by (rule ext) (rule same_nodes_rank [OF s(1)])
  have srt: "ksorted h t" using assms(1) by (simp add: lv_inv_def tree_inv_def)
  have "\<exists>xs ys. inorder t = xs @ n # ys \<and> (\<forall>x \<in> set xs. rank_of h x < krank k)
      \<and> (\<forall>y \<in> set ys. krank k < rank_of h y) \<and> rank_of h n = krank k" if "n \<noteq> NULL"
  proof -
    have "found_at h' t (krank k) n" using r(2) that by (simp add: lookup_ok.simps)
    then obtain c l r' where t: "t = plug c (Node l n r')" and k: "rank_of h n = krank k"
      by (auto simp: found_at_def rk)
    show ?thesis using ksorted_plug [OF srt [unfolded t]] k
      by (intro exI [of _ "cbefore c @ inorder l"] exI [of _ "inorder r' @ cafter c"]) (auto simp: t inorder_plug set_inorder)
  qed
  moreover have "\<exists>c. t = plug c Leaf \<and> par = Some (ctop c) \<and> cdirs h' c
      \<and> (\<forall>x \<in> set (cbefore c). rank_of h x < krank k) \<and> (\<forall>y \<in> set (cafter c). krank k < rank_of h y)" if "n = NULL"
  proof -
    have p: "par = Some (lastNodeLookedUp lvt')" "hole_at h' t (krank k) (lastNodeLookedUp lvt')"
      using r(2) that by (simp_all add: lookup_ok.simps)
    then obtain c where "t = plug c Leaf" "ctop c = lastNodeLookedUp lvt'" "cdirs h' c"
      "\<forall>x \<in> set (cbefore c). rank_of h x < krank k" "\<forall>y \<in> set (cafter c). krank k < rank_of h y"
      by (auto simp: hole_at_def rk)
    then show ?thesis using p(1) by (intro exI [of _ c]) simp
  qed
  ultimately show ?thesis using r(1) s
    by (intro exI [of _ n] exI [of _ par] exI [of _ h'] exI [of _ lvt']) simp
qed

definition moved_to :: "heap \<Rightarrow> addr tree \<Rightarrow> addr \<Rightarrow> (addr \<times> heap \<times> lvTree) option \<Rightarrow> bool" where
  "moved_to h t a out \<longleftrightarrow> (\<exists>h' lvt'. out = Some (a, h', lvt') \<and> same_nodes h h' \<and> lv_inv h' lvt' t)"

lemma inv_facts: "lv_inv h lvt t \<Longrightarrow> links h NULL t \<and> distinct (inorder t) \<and> avl_root lvt = rootp t"
  by (simp add: lv_inv_def tree_inv_def)

lemma lvAvlTreeKeyNext_spec:
  assumes inv: "lv_inv h lvt t" and k: "key_ok k" and t: "t \<noteq> Leaf"
  shows "moved_to h t (hd0 (filter (\<lambda>a. krank k < rank_of h a) (inorder t))) (lvAvlTreeKeyNext h lvt k)"
proof -
  obtain n par h' lvt' where r: "lvAvlTreeLookup h lvt k = Some (n, par, h', lvt')" "same_nodes h h'" "lv_inv h' lvt' t"
    "if n \<noteq> NULL then (\<exists>xs ys. inorder t = xs @ n # ys \<and> (\<forall>x \<in> set xs. rank_of h x < krank k)
          \<and> (\<forall>y \<in> set ys. krank k < rank_of h y) \<and> rank_of h n = krank k)
       else (\<exists>c. t = plug c Leaf \<and> par = Some (ctop c) \<and> cdirs h' c
          \<and> (\<forall>x \<in> set (cbefore c). rank_of h x < krank k) \<and> (\<forall>y \<in> set (cafter c). krank k < rank_of h y))"
    using lookup_split [OF inv k] by blast
  note f = inv_facts [OF r(3)]
  show ?thesis
  proof (cases "n = NULL")
    case False
    then obtain xs ys where x: "inorder t = xs @ n # ys" "\<forall>x \<in> set xs. rank_of h x < krank k"
      "\<forall>y \<in> set ys. krank k < rank_of h y" "rank_of h n = krank k" using r(4) by auto
    have "filter (\<lambda>a. krank k < rank_of h a) (inorder t) = ys"
      unfolding x(1) using x by (auto simp: filter_empty_conv filter_id_conv order.asym)
    then show ?thesis using r False lvAvlTree_neighbours(1) [of h' t xs n ys] f x(1)
      by (simp add: moved_to_def lvAvlTreeKeyNext_def)
  next
    case True
    then obtain c where c: "t = plug c Leaf" "par = Some (ctop c)" "cdirs h' c"
      "\<forall>x \<in> set (cbefore c). rank_of h x < krank k" "\<forall>y \<in> set (cafter c). krank k < rank_of h y" using r(4) by auto
    have io: "inorder t = cbefore c @ cafter c" using c(1) by (simp add: inorder_plug)
    have res: "filter (\<lambda>a. krank k < rank_of h a) (inorder t) = cafter c"
      unfolding io by (rule sorted_split_filter [OF c(4,5)])
    have "c \<noteq> []" using c(1) t by auto
    then obtain a y c' where "c = FL a y # c' \<or> c = FR y a # c'" by (cases c rule: ctop.cases) auto
    moreover have nz: "ctop c \<noteq> NULL" using f c(1) \<open>c \<noteq> []\<close> ctop_NULL [of h' NULL c] by (auto simp: links_plug)
    moreover have "lvAvlTreeNext h' a = Some (hd0 (cafter c))" if "c = FR y a # c'"
      using lvAvlTree_neighbours(1) [of h' t "cbefore c' @ inorder y" a "cafter c'"] f io that by simp
    ultimately show ?thesis using r True c(2,3) res by (auto simp: moved_to_def lvAvlTreeKeyNext_def)
  qed
qed

lemma lvAvlTreeKeyPrev_spec:
  assumes inv: "lv_inv h lvt t" and k: "key_ok k" and t: "t \<noteq> Leaf"
  shows "moved_to h t (last0 (filter (\<lambda>a. rank_of h a < krank k) (inorder t))) (lvAvlTreeKeyPrev h lvt k)"
proof -
  obtain n par h' lvt' where r: "lvAvlTreeLookup h lvt k = Some (n, par, h', lvt')" "same_nodes h h'" "lv_inv h' lvt' t"
    "if n \<noteq> NULL then (\<exists>xs ys. inorder t = xs @ n # ys \<and> (\<forall>x \<in> set xs. rank_of h x < krank k)
          \<and> (\<forall>y \<in> set ys. krank k < rank_of h y) \<and> rank_of h n = krank k)
       else (\<exists>c. t = plug c Leaf \<and> par = Some (ctop c) \<and> cdirs h' c
          \<and> (\<forall>x \<in> set (cbefore c). rank_of h x < krank k) \<and> (\<forall>y \<in> set (cafter c). krank k < rank_of h y))"
    using lookup_split [OF inv k] by blast
  note f = inv_facts [OF r(3)]
  show ?thesis
  proof (cases "n = NULL")
    case False
    then obtain xs ys where x: "inorder t = xs @ n # ys" "\<forall>x \<in> set xs. rank_of h x < krank k"
      "\<forall>y \<in> set ys. krank k < rank_of h y" "rank_of h n = krank k" using r(4) by auto
    have "filter (\<lambda>a. rank_of h a < krank k) (inorder t) = xs"
      unfolding x(1) using x by (auto simp: filter_empty_conv filter_id_conv order.asym)
    then show ?thesis using r False lvAvlTree_neighbours(2) [of h' t xs n ys] f x(1)
      by (simp add: moved_to_def lvAvlTreeKeyPrev_def)
  next
    case True
    then obtain c where c: "t = plug c Leaf" "par = Some (ctop c)" "cdirs h' c"
      "\<forall>x \<in> set (cbefore c). rank_of h x < krank k" "\<forall>y \<in> set (cafter c). krank k < rank_of h y" using r(4) by auto
    have io: "inorder t = cbefore c @ cafter c" using c(1) by (simp add: inorder_plug)
    have res: "filter (\<lambda>a. rank_of h a < krank k) (inorder t) = cbefore c"
      unfolding io by (rule sorted_split_filter [OF c(4,5)])
    have "c \<noteq> []" using c(1) t by auto
    then obtain a y c' where "c = FL a y # c' \<or> c = FR y a # c'" by (cases c rule: ctop.cases) auto
    moreover have nz: "ctop c \<noteq> NULL" using f c(1) \<open>c \<noteq> []\<close> ctop_NULL [of h' NULL c] by (auto simp: links_plug)
    moreover have "lvAvlTreePrev h' a = Some (last0 (cbefore c))" if "c = FL a y # c'"
      using lvAvlTree_neighbours(2) [of h' t "cbefore c'" a "inorder y @ cafter c'"] f io that by simp
    ultimately show ?thesis using r True c(2,3) res
      by (auto simp: moved_to_def lvAvlTreeKeyPrev_def last0_append)
  qed
qed

section \<open>Collated order\<close>

text \<open>The nodes in collation order.\<close>

definition collated :: "bool \<Rightarrow> heap \<Rightarrow> addr list \<Rightarrow> addr list" where
  "collated std h xs =
     (if std then filter (\<lambda>a. nd_key (h a) = MV_str []) xs @ filter (\<lambda>a. nd_key (h a) \<noteq> MV_str []) xs else xs)"

definition cnext :: "bool \<Rightarrow> heap \<Rightarrow> addr tree \<Rightarrow> mval \<Rightarrow> addr" where
  "cnext std h t key = hd0 (filter (\<lambda>a. crank std key < crank std (nd_key (h a))) (collated std h (inorder t)))"

definition cprev :: "bool \<Rightarrow> heap \<Rightarrow> addr tree \<Rightarrow> mval \<Rightarrow> addr" where
  "cprev std h t key = last0 (filter (\<lambda>a. crank std (nd_key (h a)) < crank std key) (collated std h (inorder t)))"

text \<open>The collation order is the sorted order of the collation ranks.\<close>

lemma collated_sorted:
  assumes "ksorted h t"
  shows "sorted_wrt (\<lambda>a b. crank std (nd_key (h a)) < crank std (nd_key (h b))) (collated std h (inorder t))"
    and "set (collated std h (inorder t)) = set_tree t"
proof -
  have s: "sorted_wrt (\<lambda>a b. krank (nd_key (h a)) < krank (nd_key (h b))) (inorder t)"
    using assms by (simp add: ksorted_def sorted_wrt_map rank_of_def)
  have "sorted_wrt (\<lambda>a b. crank std (nd_key (h a)) < crank std (nd_key (h b))) (inorder t)" if "\<not> std"
    using s that by (simp add: crank_less)
  moreover have "sorted_wrt (\<lambda>a b. crank std (nd_key (h a)) < crank std (nd_key (h b)))
      (filter (\<lambda>a. nd_key (h a) = MV_str []) xs @ filter (\<lambda>a. nd_key (h a) \<noteq> MV_str []) xs)"
    if "std" "sorted_wrt (\<lambda>a b. krank (nd_key (h a)) < krank (nd_key (h b))) xs" for xs
    using that(2) by (induction xs) (auto simp: sorted_wrt_append crank_less that(1))
  ultimately show "sorted_wrt (\<lambda>a b. crank std (nd_key (h a)) < crank std (nd_key (h b))) (collated std h (inorder t))"
    using s by (simp add: collated_def)
  show "set (collated std h (inorder t)) = set_tree t" by (auto simp: collated_def)
qed

lemma one_null:
  assumes "ksorted h t" and "inorder t = xs @ a # ys" and "nd_key (h a) = MV_str []"
  shows "\<forall>b \<in> set xs \<union> set ys. nd_key (h b) \<noteq> MV_str []"
  using assms by (auto simp: ksorted_def sorted_wrt_append rank_of_def)

lemma inorder_nonzero:
  assumes "links h p t" and "inorder t = xs @ a # ys"
  shows "a \<noteq> NULL"
proof -
  have "a \<in> set (inorder t)" unfolding assms(2) by simp
  then show ?thesis using links_nonzero [OF assms(1)] unfolding set_inorder by metis
qed

lemma hop_next_eq:
  assumes "links h NULL t" and "distinct (inorder t)" and "ksorted h t" and "inorder t = xs @ ys"
  shows "hop_next h (hd0 ys) = Some (hd0 (filter (\<lambda>a. nd_key (h a) \<noteq> MV_str []) ys))"
proof (cases ys)
  case (Cons a zs)
  have a: "a \<noteq> NULL" using inorder_nonzero [OF assms(1), of xs a zs] assms(4) Cons by simp
  show ?thesis
  proof (cases "nd_key (h a) = MV_str []")
    case True
    then have "\<forall>b \<in> set zs. nd_key (h b) \<noteq> MV_str []"
      using one_null [OF assms(3), of xs a zs] assms(4) Cons by blast
    then have "filter (\<lambda>a. nd_key (h a) \<noteq> MV_str []) zs = zs" by (rule filter_True)
    then show ?thesis
      using True Cons a lvAvlTree_neighbours(1) [OF assms(1,2), of xs a zs] assms(4)
      by (simp add: hop_next_def lv_node_key_is_null_subs_def)
  qed (use Cons in \<open>simp add: hop_next_def lv_node_key_is_null_subs_def\<close>)
qed (simp add: hop_next_def)

lemma hop_prev_eq:
  assumes "links h NULL t" and "distinct (inorder t)" and "ksorted h t" and "inorder t = xs @ ys"
  shows "hop_prev h (last0 xs) = Some (last0 (filter (\<lambda>a. nd_key (h a) \<noteq> MV_str []) xs))"
proof (cases xs rule: rev_cases)
  case (snoc zs a)
  have a: "a \<noteq> NULL" using inorder_nonzero [OF assms(1), of zs a ys] assms(4) snoc by simp
  show ?thesis
  proof (cases "nd_key (h a) = MV_str []")
    case True
    then have "\<forall>b \<in> set zs. nd_key (h b) \<noteq> MV_str []"
      using one_null [OF assms(3), of zs a ys] assms(4) snoc by simp
    then have "filter (\<lambda>a. nd_key (h a) \<noteq> MV_str []) zs = zs" by (rule filter_True)
    then show ?thesis
      using True snoc a lvAvlTree_neighbours(2) [OF assms(1,2), of zs a ys] assms(4)
      by (simp add: hop_prev_def lv_node_key_is_null_subs_def)
  qed (use snoc in \<open>simp add: hop_prev_def lv_node_key_is_null_subs_def\<close>)
qed (simp add: hop_prev_def)

text \<open>The nodes above (below) a key as a suffix (prefix) of the stored order.\<close>

lemma sorted_filter_split:
  assumes "sorted_wrt (\<lambda>a b. (f a :: krank) < f b) xs"
  shows "filter (\<lambda>a. \<not> k < f a) xs @ filter (\<lambda>a. k < f a) xs = xs
    \<and> filter (\<lambda>a. f a < k) xs @ filter (\<lambda>a. \<not> f a < k) xs = xs"
  using assms
proof (induction xs)
  case (Cons x xs)
  have "k < f x \<Longrightarrow> filter (\<lambda>a. \<not> k < f a) xs = [] \<and> filter (\<lambda>a. k < f a) xs = xs"
    "\<not> f x < k \<Longrightarrow> filter (\<lambda>a. f a < k) xs = [] \<and> filter (\<lambda>a. \<not> f a < k) xs = xs"
    using Cons.prems by (auto simp: filter_empty_conv filter_id_conv not_less)
  then show ?case using Cons by auto
qed simp

lemma inorder_split:
  assumes "ksorted h t"
  shows "inorder t = filter (\<lambda>a. \<not> k < rank_of h a) (inorder t) @ filter (\<lambda>a. k < rank_of h a) (inorder t)"
    and "inorder t = filter (\<lambda>a. rank_of h a < k) (inorder t) @ filter (\<lambda>a. \<not> rank_of h a < k) (inorder t)"
  using assms sorted_filter_split [of "rank_of h" "inorder t" k] by (simp_all add: ksorted_def sorted_wrt_map)

section \<open>The collated functions\<close>

text \<open>What the collation order means for the stored order.\<close>

lemma cnext_eq:
  "cnext std h t key =
    (if std then hd0 (filter (\<lambda>a. nd_key (h a) \<noteq> MV_str [])
       (if key = MV_str [] then inorder t else filter (\<lambda>a. krank key < rank_of h a) (inorder t)))
     else hd0 (filter (\<lambda>a. krank key < rank_of h a) (inorder t)))"
proof (cases std)
  case True
  have "filter (\<lambda>a. crank True key < crank True (nd_key (h a))) (filter (\<lambda>a. nd_key (h a) = MV_str []) xs) = []" for xs
    by (auto simp: filter_empty_conv crank_less)
  moreover have "filter (\<lambda>a. crank True key < crank True (nd_key (h a))) (filter (\<lambda>a. nd_key (h a) \<noteq> MV_str []) xs)
      = filter (\<lambda>a. nd_key (h a) \<noteq> MV_str []) (if key = MV_str [] then xs else filter (\<lambda>a. krank key < rank_of h a) xs)" for xs
    by (auto simp: crank_less rank_of_def intro!: filter_cong)
  ultimately show ?thesis using True by (simp add: cnext_def collated_def)
qed (simp add: cnext_def collated_def crank_less rank_of_def)

lemma cprev_eq:
  "cprev std h t key =
    (if std then if key = MV_str [] then NULL
       else last0 (filter (\<lambda>a. nd_key (h a) = MV_str []) (inorder t)
          @ filter (\<lambda>a. nd_key (h a) \<noteq> MV_str []) (filter (\<lambda>a. rank_of h a < krank key) (inorder t)))
     else last0 (filter (\<lambda>a. rank_of h a < krank key) (inorder t)))"
proof (cases std)
  case True
  have "filter (\<lambda>a. crank True (nd_key (h a)) < crank True key) (filter (\<lambda>a. nd_key (h a) = MV_str []) xs)
      = (if key = MV_str [] then [] else filter (\<lambda>a. nd_key (h a) = MV_str []) xs)" for xs
    by (auto simp: filter_empty_conv crank_less intro!: filter_cong)
  moreover have "filter (\<lambda>a. crank True (nd_key (h a)) < crank True key) (filter (\<lambda>a. nd_key (h a) \<noteq> MV_str []) xs)
      = (if key = MV_str [] then [] else filter (\<lambda>a. nd_key (h a) \<noteq> MV_str []) (filter (\<lambda>a. rank_of h a < krank key) xs))" for xs
    by (auto simp: crank_less rank_of_def filter_empty_conv intro!: filter_cong)
  ultimately show ?thesis using True by (simp add: cprev_def collated_def)
qed (simp add: cprev_def collated_def crank_less rank_of_def)

lemma inv_sorted: "lv_inv h lvt t \<Longrightarrow> ksorted h t"
  by (simp add: lv_inv_def tree_inv_def)

lemma nodes_same:
  assumes "same_nodes h h'"
  shows "rank_of h' = rank_of h" and "nd_key (h' a) = nd_key (h a)" and "ksorted h' t = ksorted h t"
proof -
  show r: "rank_of h' = rank_of h" by (rule ext) (rule same_nodes_rank [OF assms])
  show "ksorted h' t = ksorted h t" by (simp add: ksorted_def r)
qed (simp add: same_nodes_fields [OF assms])

lemma KeyCollatedNext_spec:
  assumes inv: "lv_inv h lvt t" and k: "key_ok k" and t: "t \<noteq> Leaf"
  shows "moved_to h t (cnext std h t k) (lvAvlTreeKeyCollatedNext std h lvt k)"
proof (cases "std \<and> k = MV_str []")
  case True
  then show ?thesis
    using inv inv_facts [OF inv] lvAvlTreeFirst_eq [of h t lvt] hop_next_eq [of h t "[]" "inorder t"] inv_sorted [OF inv]
    by (auto simp: lvAvlTreeKeyCollatedNext_def cnext_eq moved_to_def)
next
  case False
  obtain h' lvt' where m: "lvAvlTreeKeyNext h lvt k = Some (hd0 (filter (\<lambda>a. krank k < rank_of h a) (inorder t)), h', lvt')"
    "same_nodes h h'" "lv_inv h' lvt' t"
    using lvAvlTreeKeyNext_spec [OF assms] by (auto simp: moved_to_def)
  show ?thesis
  proof (cases std)
    case True
    have "hop_next h' (hd0 (filter (\<lambda>a. krank k < rank_of h a) (inorder t)))
        = Some (hd0 (filter (\<lambda>a. nd_key (h' a) \<noteq> MV_str []) (filter (\<lambda>a. krank k < rank_of h a) (inorder t))))"
      using inv_facts [OF m(3)] inv_sorted [OF m(3)] inorder_split(1) [OF inv_sorted [OF inv], of "krank k"]
      by (intro hop_next_eq) auto
    then show ?thesis using m True False nodes_same(2) [OF m(2)]
      by (simp add: lvAvlTreeKeyCollatedNext_def cnext_eq moved_to_def)
  next
    case f: False
    then show ?thesis using m by (simp add: lvAvlTreeKeyCollatedNext_def cnext_eq moved_to_def)
  qed
qed

lemma NodeCollatedNext_spec:
  assumes inv: "lv_inv h lvt t" and a: "inorder t = xs @ a # ys"
  shows "lvAvlTreeNodeCollatedNext std h lvt a = Some (cnext std h t (nd_key (h a)))"
proof -
  note f = inv_facts [OF inv] and s = inv_sorted [OF inv]
  have an: "a \<noteq> NULL" using inorder_nonzero a f by blast
  have nx: "lvAvlTreeNext h a = Some (hd0 ys)" using lvAvlTree_neighbours(1) f a by blast
  have st: "sorted_wrt (\<lambda>a b. rank_of h a < rank_of h b) (xs @ a # ys)"
    using s by (simp only: ksorted_def sorted_wrt_map a)
  have fl: "filter (\<lambda>b. krank (nd_key (h a)) < rank_of h b) (xs @ a # ys) = ys"
    using st by (auto simp: sorted_wrt_append rank_of_def filter_empty_conv filter_id_conv order.asym)
  show ?thesis
  proof (cases "std \<and> nd_key (h a) = MV_str []")
    case True
    then show ?thesis
      using an lvAvlTreeFirst_eq [of h t lvt] hop_next_eq [of h t "[]" "inorder t"] f s
      by (simp add: lvAvlTreeNodeCollatedNext_def lv_node_key_is_null_subs_def cnext_eq)
  next
    case False
    have "hop_next h (hd0 ys) = Some (hd0 (filter (\<lambda>a. nd_key (h a) \<noteq> MV_str []) ys))"
      using hop_next_eq [of h t "xs @ [a]" ys] f s a by simp
    then show ?thesis using False nx fl a
      by (auto simp: lvAvlTreeNodeCollatedNext_def lv_node_key_is_null_subs_def cnext_eq)
  qed
qed

text \<open>The lookup of the null subscript.\<close>

lemma filter_null:
  assumes "ksorted h t" and "inorder t = xs @ a # ys" and "nd_key (h a) = MV_str []"
  shows "filter (\<lambda>a. nd_key (h a) = MV_str []) (inorder t) = [a]"
proof -
  have "filter (\<lambda>a. nd_key (h a) = MV_str []) xs = []" "filter (\<lambda>a. nd_key (h a) = MV_str []) ys = []"
    using one_null [OF assms] by (auto simp: filter_empty_conv)
  then show ?thesis unfolding assms(2) using assms(3) by simp
qed

lemma krank_null: "key_ok k \<Longrightarrow> krank k = krank (MV_str []) \<longleftrightarrow> k = MV_str []"
  by (cases k) auto

lemma or_null_subs_spec:
  assumes inv: "lv_inv h lvt t" and nz: "NULL \<notin> set ys"
  shows "moved_to h t (last0 (filter (\<lambda>a. nd_key (h a) = MV_str []) (inorder t) @ ys)) (or_null_subs h lvt (last0 ys))"
proof (cases "ys = []")
  case False
  then have "last0 ys \<noteq> NULL" using nz by (metis last0_def last_in_set)
  then show ?thesis using False inv by (simp add: or_null_subs_def moved_to_def last0_append)
next
  case True
  obtain n par h' lvt' where r: "lvAvlTreeLookup h lvt (MV_str []) = Some (n, par, h', lvt')" "same_nodes h h'"
    "lv_inv h' lvt' t" "if n \<noteq> NULL then (\<exists>xs ys. inorder t = xs @ n # ys \<and> (\<forall>x \<in> set xs. rank_of h x < krank (MV_str []))
          \<and> (\<forall>y \<in> set ys. krank (MV_str []) < rank_of h y) \<and> rank_of h n = krank (MV_str []))
       else (\<exists>c. t = plug c Leaf \<and> par = Some (ctop c) \<and> cdirs h' c
          \<and> (\<forall>x \<in> set (cbefore c). rank_of h x < krank (MV_str []))
          \<and> (\<forall>y \<in> set (cafter c). krank (MV_str []) < rank_of h y))"
    using lookup_split [OF inv, of "MV_str []"] by auto
  have ko: "key_ok (nd_key (h a))" if "a \<in> set (inorder t)" for a
    using inv that by (simp add: lv_inv_def tree_inv_def keys_ok_def node_ok_def)
  have "last0 (filter (\<lambda>a. nd_key (h a) = MV_str []) (inorder t)) = n"
  proof (cases "n = NULL")
    case False
    then obtain xs zs where x: "inorder t = xs @ n # zs" "rank_of h n = krank (MV_str [])" using r(4) by auto
    have "nd_key (h n) = MV_str []" using krank_null [OF ko [of n]] x by (simp add: rank_of_def)
    then show ?thesis using filter_null [OF inv_sorted [OF inv] x(1)] by simp
  next
    case True
    then obtain c where c: "t = plug c Leaf" "\<forall>x \<in> set (cbefore c). rank_of h x < krank (MV_str [])"
      "\<forall>y \<in> set (cafter c). krank (MV_str []) < rank_of h y" using r(4) by auto
    then have "\<forall>x \<in> set (inorder t). nd_key (h x) \<noteq> MV_str []" by (auto simp: inorder_plug rank_of_def)
    then show ?thesis using True by (simp add: filter_empty_conv)
  qed
  then show ?thesis using True r by (simp add: or_null_subs_def moved_to_def)
qed

lemma moved_to_nodes: "same_nodes h h' \<Longrightarrow> moved_to h' t a out \<Longrightarrow> moved_to h t a out"
  by (auto simp: moved_to_def intro: same_nodes_trans)

lemma prev_collated:
  assumes inv: "lv_inv h lvt t" and xs: "inorder t = xs @ ys"
  shows "moved_to h t (last0 (filter (\<lambda>a. nd_key (h a) = MV_str []) (inorder t) @ filter (\<lambda>a. nd_key (h a) \<noteq> MV_str []) xs))
    (Option.bind (hop_prev h (last0 xs)) (or_null_subs h lvt))"
proof -
  note f = inv_facts [OF inv]
  have "NULL \<notin> set (inorder t)" using links_nonzero [of h NULL t] f by simp
  then have "NULL \<notin> set (filter (\<lambda>a. nd_key (h a) \<noteq> MV_str []) xs)" by (simp add: xs)
  then show ?thesis using or_null_subs_spec [OF inv] hop_prev_eq [OF _ _ inv_sorted [OF inv] xs] f by simp
qed

lemma KeyCollatedPrev_spec:
  assumes inv: "lv_inv h lvt t" and k: "key_ok k" and t: "t \<noteq> Leaf"
  shows "moved_to h t (cprev std h t k) (lvAvlTreeKeyCollatedPrev std h lvt k)"
proof (cases "std \<and> k = MV_str []")
  case True
  then show ?thesis using inv by (simp add: lvAvlTreeKeyCollatedPrev_def cprev_eq moved_to_def)
next
  case False
  let ?xs = "filter (\<lambda>a. rank_of h a < krank k) (inorder t)"
  obtain h' lvt' where m: "lvAvlTreeKeyPrev h lvt k = Some (last0 ?xs, h', lvt')" "same_nodes h h'" "lv_inv h' lvt' t"
    using lvAvlTreeKeyPrev_spec [OF assms] by (auto simp: moved_to_def)
  show ?thesis
  proof (cases std)
    case True
    have "moved_to h t (last0 (filter (\<lambda>a. nd_key (h' a) = MV_str []) (inorder t) @ filter (\<lambda>a. nd_key (h' a) \<noteq> MV_str []) ?xs))
        (Option.bind (hop_prev h' (last0 ?xs)) (or_null_subs h' lvt'))"
      using prev_collated [OF m(3) inorder_split(2) [OF inv_sorted [OF inv], of "krank k"]] moved_to_nodes [OF m(2)] by simp
    then show ?thesis using m(1) True False nodes_same(2) [OF m(2)]
      by (simp add: lvAvlTreeKeyCollatedPrev_def cprev_eq)
  next
    case f: False
    then show ?thesis using m by (simp add: lvAvlTreeKeyCollatedPrev_def cprev_eq moved_to_def)
  qed
qed

lemma NodeCollatedPrev_spec:
  assumes inv: "lv_inv h lvt t" and a: "inorder t = xs @ a # ys"
  shows "moved_to h t (cprev std h t (nd_key (h a))) (lvAvlTreeNodeCollatedPrev std h lvt a)"
proof -
  note f = inv_facts [OF inv] and s = inv_sorted [OF inv]
  have pv: "lvAvlTreePrev h a = Some (last0 xs)" using lvAvlTree_neighbours(2) f a by blast
  have "sorted_wrt (\<lambda>a b. rank_of h a < rank_of h b) (xs @ a # ys)"
    using s by (simp only: ksorted_def sorted_wrt_map a)
  then have fl: "filter (\<lambda>b. rank_of h b < krank (nd_key (h a))) (inorder t) = xs"
    unfolding a by (auto simp: sorted_wrt_append rank_of_def filter_empty_conv filter_id_conv order.asym)
  show ?thesis
    using pv fl prev_collated [OF inv, of xs "a # ys"] a inv
    by (auto simp: lvAvlTreeNodeCollatedPrev_def lv_node_key_is_null_subs_def cprev_eq moved_to_def)
qed

lemma CollatedLast_spec:
  assumes inv: "lv_inv h lvt t"
  shows "lvAvlTreeCollatedLast std h lvt = Some (last0 (collated std h (inorder t)))"
proof -
  note f = inv_facts [OF inv] and s = inv_sorted [OF inv]
  have l: "lvAvlTreeLast h lvt = Some (last0 (inorder t))" using lvAvlTreeLast_eq f by blast
  show ?thesis
  proof (cases "inorder t" rule: rev_cases)
    case Nil
    then show ?thesis using l by (simp add: lvAvlTreeCollatedLast_def collated_def)
  next
    case (snoc xs a)
    have an: "a \<noteq> NULL" using inorder_nonzero [of h NULL t xs a "[]"] f snoc by simp
    have pv: "lvAvlTreePrev h a = Some (last0 xs)" using lvAvlTree_neighbours(2) [of h t xs a "[]"] f snoc by simp
    show ?thesis
    proof (cases "std \<and> nd_key (h a) = MV_str []")
      case True
      then have "\<forall>b \<in> set xs. nd_key (h b) \<noteq> MV_str []" using one_null [OF s, of xs a "[]"] snoc by simp
      then have "filter (\<lambda>a. nd_key (h a) \<noteq> MV_str []) (inorder t) = xs" using True snoc by simp
      moreover have "xs \<noteq> [] \<Longrightarrow> last0 xs \<noteq> NULL"
        using inorder_nonzero [of h NULL t "butlast xs" "last xs" "[a]"] f snoc by (simp add: last0_def)
      moreover have "filter (\<lambda>a. nd_key (h a) = MV_str []) (inorder t) = [a]"
        using filter_null [OF s, of xs a "[]"] snoc True by simp
      ultimately show ?thesis using l pv an True snoc
        by (cases "xs = []") (simp_all add: lvAvlTreeCollatedLast_def lv_node_key_is_null_subs_def collated_def last0_append)
    next
      case False
      then show ?thesis using l an snoc
        by (auto simp: lvAvlTreeCollatedLast_def lv_node_key_is_null_subs_def collated_def last0_append)
    qed
  qed
qed

section \<open>Cursors\<close>

text \<open>
  The loops of the callers: from a first node, the next one until the null pointer. The fuel bounds the
  number of steps; \<open>None\<close> is a loop that has not ended within it.
\<close>

fun cursor_walk :: "(addr \<Rightarrow> addr option) \<Rightarrow> nat \<Rightarrow> addr \<Rightarrow> addr list option" where
  "cursor_walk nxt fuel a =
     (if a = NULL then Some []
      else case fuel of 0 \<Rightarrow> None
        | Suc n \<Rightarrow> Option.bind (nxt a) (\<lambda>b. map_option (Cons a) (cursor_walk nxt n b)))"

declare cursor_walk.simps [simp del]

type_synonym lv_state = "heap \<times> lvTree \<times> addr tree"

fun state_ok :: "lv_state \<Rightarrow> bool" where
  "state_ok (h, lvt, t) \<longleftrightarrow> lv_inv h lvt t"

locale cursor =
  fixes elems :: "lv_state \<Rightarrow> addr list"
    and first :: "lv_state \<Rightarrow> addr option"
    and nxt :: "lv_state \<Rightarrow> addr \<Rightarrow> addr option"
  assumes first_elem: "state_ok s \<Longrightarrow> first s = Some (hd0 (elems s))"
    and next_elem: "state_ok s \<Longrightarrow> elems s = xs @ a # ys \<Longrightarrow> nxt s a = Some (hd0 ys)"
    and nonnull: "state_ok s \<Longrightarrow> NULL \<notin> set (elems s)"
begin

lemma walk_suffix:
  assumes "state_ok s"
  shows "elems s = xs @ ys \<Longrightarrow> length ys \<le> fuel \<Longrightarrow> cursor_walk (nxt s) fuel (hd0 ys) = Some ys"
proof (induction ys arbitrary: xs fuel)
  case Nil
  then show ?case by (subst cursor_walk.simps) simp
next
  case (Cons a ys)
  have "a \<noteq> NULL" using nonnull [OF assms] Cons.prems(1) by auto
  moreover obtain n where "fuel = Suc n" "length ys \<le> n" using Cons.prems(2) by (cases fuel) auto
  ultimately show ?case
    using Cons.IH [of "xs @ [a]" n] next_elem [OF assms Cons.prems(1)] Cons.prems(1)
    by (subst cursor_walk.simps) simp
qed

lemma walk_all: "state_ok s \<Longrightarrow> Option.bind (first s) (cursor_walk (nxt s) (length (elems s))) = Some (elems s)"
  using walk_suffix [of s "[]" "elems s"] by (simp add: first_elem)

end

fun forward :: "lv_state \<Rightarrow> addr list" where
  "forward (h, lvt, t) = inorder t"

fun backward :: "lv_state \<Rightarrow> addr list" where
  "backward (h, lvt, t) = rev (inorder t)"

fun children_first :: "lv_state \<Rightarrow> addr list" where
  "children_first (h, lvt, t) = postorder t"

lemma last0_rev: "last0 xs = hd0 (rev xs)"
  by (cases xs rule: rev_cases) simp_all

interpretation fwd: cursor forward "\<lambda>(h, lvt, t). lvAvlTreeFirst h lvt" "\<lambda>(h, lvt, t). lvAvlTreeNext h"
  by unfold_locales (auto dest!: inv_facts simp: lvAvlTreeFirst_eq lvAvlTree_neighbours(1) links_nonzero)

interpretation bwd: cursor backward "\<lambda>(h, lvt, t). lvAvlTreeLast h lvt" "\<lambda>(h, lvt, t). lvAvlTreePrev h"
proof (unfold_locales, goal_cases)
  case (2 s xs a ys)
  obtain h lvt t where s: "s = (h, lvt, t)" by (cases s)
  have "inorder t = rev ys @ a # rev xs" using 2(2) s by (simp add: rev_swap)
  then show ?case using 2(1) s lvAvlTree_neighbours(2) [of h t "rev ys" a "rev xs"] by (auto dest!: inv_facts simp: last0_rev)
qed (auto dest!: inv_facts simp: lvAvlTreeLast_eq last0_rev links_nonzero)

interpretation post: cursor children_first "\<lambda>(h, lvt, t). lvAvlTreeFirstPostOrder h lvt" "\<lambda>(h, lvt, t). lvAvlTreeNextPostOrder h"
proof (unfold_locales, goal_cases)
  case (1 s)
  obtain h lvt t where s: "s = (h, lvt, t)" by (cases s)
  show ?case using 1 s post_down_eq [of h NULL t] by (cases t) (auto dest!: inv_facts simp: lvAvlTreeFirstPostOrder_def)
next
  case (2 s xs a ys)
  obtain h lvt t where s: "s = (h, lvt, t)" by (cases s)
  show ?case using 2 s lvAvlTreePostOrder_next [of h t xs a ys] by (auto dest!: inv_facts)
next
  case (3 s)
  then show ?case by (cases s) (auto dest!: inv_facts simp: links_nonzero)
qed

lemma collated_next:
  assumes inv: "lv_inv h lvt t" and c: "collated std h (inorder t) = xs @ a # ys"
  shows "lvAvlTreeNodeCollatedNext std h lvt a = Some (hd0 ys)"
proof -
  note cs = collated_sorted [OF inv_sorted [OF inv], of std]
  have "a \<in> set (inorder t)" using cs(2) c by (metis in_set_conv_decomp set_inorder)
  then obtain us vs where "inorder t = us @ a # vs" by (metis in_set_conv_decomp)
  then have n: "lvAvlTreeNodeCollatedNext std h lvt a = Some (cnext std h t (nd_key (h a)))"
    by (rule NodeCollatedNext_spec [OF inv])
  have "filter (\<lambda>b. crank std (nd_key (h a)) < crank std (nd_key (h b))) (xs @ a # ys) = ys"
    using cs(1) unfolding c by (auto simp: sorted_wrt_append filter_empty_conv filter_id_conv order.asym)
  then show ?thesis using n by (simp add: cnext_def c)
qed

end
