(* ===== verification/Lv_Map.thy ===== *)
theory Lv_Map
  imports Lv_Delete Lv_Order
begin

text \<open>
  One level of a local array as a map from subscripts to nodes and values. The operations are those
  that the run time performs on a level: finding a node (\<open>op_srchindx\<close>), finding or making it
  (\<open>op_putindx\<close>), storing a value, and deleting it (\<open>lv_kill\<close>). The locale \<open>subscript_map\<close> is the
  contract of a level; it is interpreted on the tree operations.
\<close>

section \<open>Operations on a level\<close>

type_synonym level = "heap \<times> lvTree"

text \<open>Subscripts are passed in the form in which the callers prepare them: canonical numbers as numbers.\<close>

fun srchindx_level :: "level \<Rightarrow> mval \<Rightarrow> (addr \<times> level) option" where
  "srchindx_level (h, lvt) key = map_option (\<lambda>(node, _, h, lvt). (node, h, lvt)) (lvAvlTreeLookup h lvt key)"

text \<open>\<open>lv->v.mvtype = 0\<close> after an insertion marks the new value undefined. The argument \<open>slot\<close> is the free node.\<close>

fun putindx_level :: "level \<Rightarrow> mval \<Rightarrow> addr \<Rightarrow> (addr \<times> level) option" where
  "putindx_level (h, lvt) key slot =
     Option.bind (lvAvlTreeLookup h lvt key) (\<lambda>(node, parent, h, lvt).
       if node \<noteq> NULL then Some (node, h, lvt)
       else Option.bind parent (\<lambda>parent.
         Option.bind (lvAvlTreeNodeInsert h lvt key parent slot) (\<lambda>(node, h, lvt).
           Some (node, h(node := (h node)\<lparr>nd_v := MV_undef\<rparr>), lvt))))"

text \<open>The assignment of a value to the node that \<open>op_putindx\<close> has returned.\<close>

definition set_level :: "level \<Rightarrow> mval \<Rightarrow> addr \<Rightarrow> mval \<Rightarrow> level option" where
  "set_level s key slot v =
     map_option (\<lambda>(node, h, lvt). (h(node := (h node)\<lparr>nd_v := v\<rparr>), lvt)) (putindx_level s key slot)"

definition kill_level :: "level \<Rightarrow> mval \<Rightarrow> level option" where
  "kill_level s key =
     Option.bind (srchindx_level s key) (\<lambda>(node, h, lvt).
       if node = NULL then Some (h, lvt) else lvAvlTreeNodeDelete h lvt node)"

section \<open>The contract of a level\<close>

type_synonym lv_map = "krank \<Rightarrow> (addr \<times> mval) option"

datatype lv_op = Lv_set mval addr mval | Lv_kill mval

fun op_map :: "lv_op \<Rightarrow> lv_map \<Rightarrow> lv_map" where
  "op_map (Lv_set k slot v) m = m(krank k \<mapsto> (case m (krank k) of None \<Rightarrow> slot | Some (a, _) \<Rightarrow> a, v))"
| "op_map (Lv_kill k) m = m(krank k := None)"

text \<open>A slot that is offered to a set is free.\<close>

fun op_ok :: "lv_map \<Rightarrow> lv_op \<Rightarrow> bool" where
  "op_ok m (Lv_set k slot v) \<longleftrightarrow> key_ok k \<and> slot \<noteq> NULL \<and> (\<forall>r a w. m r = Some (a, w) \<longrightarrow> a \<noteq> slot)"
| "op_ok m (Lv_kill k) \<longleftrightarrow> key_ok k"

fun ops_ok :: "lv_map \<Rightarrow> lv_op list \<Rightarrow> bool" where
  "ops_ok m [] \<longleftrightarrow> True"
| "ops_ok m (x # xs) \<longleftrightarrow> op_ok m x \<and> ops_ok (op_map x m) xs"

fun run_ops :: "('s \<Rightarrow> mval \<Rightarrow> addr \<Rightarrow> mval \<Rightarrow> 's option) \<Rightarrow> ('s \<Rightarrow> mval \<Rightarrow> 's option) \<Rightarrow> lv_op list \<Rightarrow> 's \<Rightarrow> 's option" where
  "run_ops st kl [] s = Some s"
| "run_ops st kl (Lv_set k slot v # xs) s = Option.bind (st s k slot v) (run_ops st kl xs)"
| "run_ops st kl (Lv_kill k # xs) s = Option.bind (kl s k) (run_ops st kl xs)"

locale subscript_map =
  fixes repr :: "'s \<Rightarrow> lv_map \<Rightarrow> bool"
    and find :: "'s \<Rightarrow> mval \<Rightarrow> (addr \<times> 's) option"
    and set_op :: "'s \<Rightarrow> mval \<Rightarrow> addr \<Rightarrow> mval \<Rightarrow> 's option"
    and kill :: "'s \<Rightarrow> mval \<Rightarrow> 's option"
  assumes find_repr: "repr s m \<Longrightarrow> key_ok k \<Longrightarrow>
      \<exists>s'. find s k = Some (case m (krank k) of None \<Rightarrow> NULL | Some (a, _) \<Rightarrow> a, s') \<and> repr s' m"
    and set_repr: "repr s m \<Longrightarrow> op_ok m (Lv_set k slot v) \<Longrightarrow>
      \<exists>s'. set_op s k slot v = Some s' \<and> repr s' (op_map (Lv_set k slot v) m)"
    and kill_repr: "repr s m \<Longrightarrow> key_ok k \<Longrightarrow> \<exists>s'. kill s k = Some s' \<and> repr s' (op_map (Lv_kill k) m)"
begin

lemma run_repr:
  "repr s m \<Longrightarrow> ops_ok m xs \<Longrightarrow> \<exists>s'. run_ops set_op kill xs s = Some s' \<and> repr s' (fold op_map xs m)"
proof (induction xs arbitrary: s m)
  case (Cons x xs)
  show ?case
  proof (cases x)
    case (Lv_set k slot v)
    then show ?thesis using Cons set_repr [of s m k slot v] by force
  next
    case (Lv_kill k)
    then show ?thesis using Cons kill_repr [of s m k] by force
  qed
qed simp

lemma find_after_run:
  assumes "repr s m" and "ops_ok m xs" and "key_ok k"
  shows "\<exists>s' s''. run_ops set_op kill xs s = Some s'
    \<and> find s' k = Some (case fold op_map xs m (krank k) of None \<Rightarrow> NULL | Some (a, _) \<Rightarrow> a, s'')"
  using run_repr [OF assms(1,2)] find_repr [OF _ assms(3)] by blast

end

section \<open>The trees implement the contract\<close>

definition nodes_map :: "heap \<Rightarrow> addr tree \<Rightarrow> lv_map" where
  "nodes_map h t = map_of (map (\<lambda>a. (rank_of h a, (a, nd_v (h a)))) (inorder t))"

fun lv_repr :: "level \<Rightarrow> lv_map \<Rightarrow> bool" where
  "lv_repr (h, lvt) m \<longleftrightarrow> (\<exists>t. lv_inv h lvt t \<and> m = nodes_map h t)"

lemma nodes_map_Some:
  assumes "ksorted h t"
  shows "nodes_map h t r = Some (a, v) \<longleftrightarrow> a \<in> set_tree t \<and> rank_of h a = r \<and> nd_v (h a) = v"
proof -
  have "distinct (map (rank_of h) (inorder t))" using assms by (simp add: ksorted_def strict_sorted_iff)
  then have "distinct (map fst (map (\<lambda>a. (rank_of h a, (a, nd_v (h a)))) (inorder t)))" by (simp add: comp_def)
  then have "nodes_map h t r = Some (a, v) \<longleftrightarrow> (r, (a, v)) \<in> set (map (\<lambda>a. (rank_of h a, (a, nd_v (h a)))) (inorder t))"
    unfolding nodes_map_def by (rule map_of_eq_Some_iff)
  then show ?thesis by auto
qed

lemma nodes_map_None: "nodes_map h t r = None \<longleftrightarrow> r \<notin> rank_of h ` set_tree t"
  by (simp add: nodes_map_def map_of_eq_None_iff image_image)

lemma lv_map_eqI:
  assumes "\<And>r a v. m r = Some (a, v) \<longleftrightarrow> m' r = Some (a, v)"
  shows "m = (m' :: lv_map)"
  by (rule ext) (metis assms not_None_eq surj_pair)

lemma nodes_map_same: "same_nodes h h' \<Longrightarrow> nodes_map h' t = nodes_map h t"
  by (simp add: nodes_map_def rank_of_def same_nodes_fields)

text \<open>A lookup against the map.\<close>

lemma lookup_map:
  assumes inv: "lv_inv h lvt t" and k: "key_ok k"
  shows "\<exists>n par h' lvt'. lvAvlTreeLookup h lvt k = Some (n, par, h', lvt') \<and> same_nodes h h' \<and> lv_inv h' lvt' t
    \<and> n = (case nodes_map h t (krank k) of None \<Rightarrow> NULL | Some (a, _) \<Rightarrow> a)
    \<and> (if n \<noteq> NULL then nodes_map h t (krank k) = Some (n, nd_v (h n)) \<and> found_at h' t (krank k) n
       else nodes_map h t (krank k) = None \<and> hole_at h' t (krank k) (lastNodeLookedUp lvt')
         \<and> par = Some (lastNodeLookedUp lvt'))"
proof -
  obtain n par h' lvt' where r: "lvAvlTreeLookup h lvt k = Some (n, par, h', lvt')" "lookup_ok h t (krank k) (n, par, h', lvt')"
    using lvAvlTreeLookup_spec [OF k inv] by (metis prod_cases4)
  have s: "same_nodes h h'" "lv_inv h' lvt' t" using r(2) by (simp_all add: lookup_ok.simps)
  have "nodes_map h t (krank k) = Some (n, nd_v (h n)) \<and> found_at h' t (krank k) n" if "n \<noteq> NULL"
  proof -
    have f: "found_at h' t (krank k) n" using r(2) that by (simp add: lookup_ok.simps)
    then show ?thesis using found_at_mem [OF f] nodes_map_Some [OF inv_sorted [OF inv]] same_nodes_rank [OF s(1)] by simp
  qed
  moreover have "nodes_map h t (krank k) = None \<and> hole_at h' t (krank k) (lastNodeLookedUp lvt')
      \<and> par = Some (lastNodeLookedUp lvt')" if "n = NULL"
  proof -
    have f: "hole_at h' t (krank k) (lastNodeLookedUp lvt')" "par = Some (lastNodeLookedUp lvt')"
      using r(2) that by (simp_all add: lookup_ok.simps)
    then show ?thesis using hole_at_absent [OF f(1)] nodes_map_None [of h t] nodes_same(1) [OF s(1)] by simp
  qed
  ultimately show ?thesis using r(1) s
    by (intro exI [of _ n] exI [of _ par] exI [of _ h'] exI [of _ lvt']) (cases "n = NULL"; simp)
qed

text \<open>Storing a value in a node keeps the invariant.\<close>

lemma lv_inv_value: "lv_inv (h(a := (h a)\<lparr>nd_v := v\<rparr>)) lvt t = lv_inv h lvt t"
proof -
  let ?h = "h(a := (h a)\<lparr>nd_v := v\<rparr>)"
  have f: "links ?h p u = links h p u" "bals ?h u = bals h u" "cdirs ?h c = cdirs h c" "rank_of ?h = rank_of h"
    "node_ok (?h b) = node_ok (h b)" for p u c b
    by (auto intro!: links_cong bals_cong cdirs_cong simp: rank_of_def node_ok_def fun_eq_iff)
  show ?thesis by (simp only: lv_inv_def tree_inv_def clue_ok_def ksorted_def keys_ok_def f)
qed

lemma nodes_map_value:
  assumes "ksorted h t" and "a \<in> set_tree t"
  shows "nodes_map (h(a := (h a)\<lparr>nd_v := v\<rparr>)) t = (nodes_map h t)(rank_of h a \<mapsto> (a, v))"
proof (rule lv_map_eqI)
  fix r b w
  let ?h = "h(a := (h a)\<lparr>nd_v := v\<rparr>)"
  have rk: "rank_of ?h = rank_of h" by (auto simp: rank_of_def fun_eq_iff)
  then have s: "ksorted ?h t" using assms(1) by (simp add: ksorted_def)
  have "b = a" if "b \<in> set_tree t" "rank_of h b = rank_of h a"
    using that assms nodes_map_Some [OF assms(1), of "rank_of h a"] by (metis Pair_inject option.inject)
  then show "nodes_map ?h t r = Some (b, w) \<longleftrightarrow> ((nodes_map h t)(rank_of h a \<mapsto> (a, v))) r = Some (b, w)"
    using nodes_map_Some [OF s] nodes_map_Some [OF assms(1)] assms(2) rk by auto
qed

lemma nodes_map_inserted:
  assumes i: "lv_inv h' lvt' t'" "inorder t = xs @ ys" "inorder t' = xs @ a # ys" and h: "ksorted h t"
    and same: "\<And>b. b \<noteq> a \<Longrightarrow> nd_key (h' b) = nd_key (h b) \<and> payload (h' b) = payload (h b)"
  shows "nodes_map h' t' = (nodes_map h t)(rank_of h' a \<mapsto> (a, nd_v (h' a)))"
proof (rule lv_map_eqI)
  fix r b w
  have st: "set_tree t' = insert a (set_tree t)" using i(2,3) by (metis Un_insert_right list.simps(15) set_append set_inorder)
  have na: "a \<notin> set_tree t"
    using inv_facts [OF i(1)] unfolding i(3) set_inorder [symmetric] i(2) by auto
  have s: "ksorted h' t'" by (rule inv_sorted [OF i(1)])
  have rk: "rank_of h' b = rank_of h b" "nd_v (h' b) = nd_v (h b)" if "b \<noteq> a" for b
    using same [OF that] by (simp_all add: rank_of_def payload_def)
  have u: "rank_of h' b \<noteq> rank_of h' a" if "b \<in> set_tree t" for b
    using that na st nodes_map_Some [OF s, of "rank_of h' a"] by (metis insertCI option.inject prod.inject)
  show "nodes_map h' t' r = Some (b, w) \<longleftrightarrow> ((nodes_map h t)(rank_of h' a \<mapsto> (a, nd_v (h' a)))) r = Some (b, w)"
    using nodes_map_Some [OF s, of r b w] nodes_map_Some [OF h, of r b w] st na rk [of b] u [of b] by (cases "b = a") auto
qed

lemma nodes_map_deleted:
  assumes h: "ksorted h t" and d: "distinct (inorder t)" and h': "ksorted h' t'" "inorder t' = remove1 a (inorder t)"
    and a: "a \<in> set_tree t" and same: "\<And>b. nd_key (h' b) = nd_key (h b) \<and> payload (h' b) = payload (h b)"
  shows "nodes_map h' t' = (nodes_map h t)(rank_of h a := None)"
proof (rule lv_map_eqI)
  fix r b w
  have st: "set_tree t' = set_tree t - {a}" using h'(2) d by (metis set_inorder set_remove1_eq)
  have rk: "rank_of h' b = rank_of h b" "nd_v (h' b) = nd_v (h b)" for b
    using same [of b] by (simp_all add: rank_of_def payload_def)
  have "b = a" if "b \<in> set_tree t" "rank_of h b = rank_of h a"
    using that a nodes_map_Some [OF h, of "rank_of h a"] by (metis Pair_inject option.inject)
  then show "nodes_map h' t' r = Some (b, w) \<longleftrightarrow> ((nodes_map h t)(rank_of h a := None)) r = Some (b, w)"
    using nodes_map_Some [OF h'(1)] nodes_map_Some [OF h] st rk by auto
qed

lemma srchindx_repr:
  assumes "lv_repr s m" and "key_ok k"
  shows "\<exists>s'. srchindx_level s k = Some (case m (krank k) of None \<Rightarrow> NULL | Some (a, _) \<Rightarrow> a, s') \<and> lv_repr s' m"
proof -
  obtain h lvt t where s: "s = (h, lvt)" "lv_inv h lvt t" "m = nodes_map h t" using assms(1) by (cases s) auto
  obtain n par h' lvt' where r: "lvAvlTreeLookup h lvt k = Some (n, par, h', lvt')" "same_nodes h h'" "lv_inv h' lvt' t"
    "n = (case nodes_map h t (krank k) of None \<Rightarrow> NULL | Some (a, _) \<Rightarrow> a)"
    using lookup_map [OF s(2) assms(2)] by blast
  have "lv_repr (h', lvt') m" using r(3) s(3) nodes_map_same [OF r(2)] by auto
  then show ?thesis using r(1,4) s by simp
qed

lemma set_level_repr:
  assumes rep: "lv_repr s m" and ok: "op_ok m (Lv_set k slot v)"
  shows "\<exists>s'. set_level s k slot v = Some s' \<and> lv_repr s' (op_map (Lv_set k slot v) m)"
proof -
  obtain h lvt t where s: "s = (h, lvt)" "lv_inv h lvt t" "m = nodes_map h t" using rep by (cases s) auto
  have k: "key_ok k" "slot \<noteq> NULL" using ok by simp_all
  obtain n par h' lvt' where r: "lvAvlTreeLookup h lvt k = Some (n, par, h', lvt')" "same_nodes h h'" "lv_inv h' lvt' t"
    "if n \<noteq> NULL then nodes_map h t (krank k) = Some (n, nd_v (h n)) \<and> found_at h' t (krank k) n
       else nodes_map h t (krank k) = None \<and> hole_at h' t (krank k) (lastNodeLookedUp lvt')
         \<and> par = Some (lastNodeLookedUp lvt')"
    using lookup_map [OF s(2) k(1)] by blast
  have m: "nodes_map h' t = m" using nodes_map_same [OF r(2)] s(3) by simp
  have srt: "ksorted h' t" by (rule inv_sorted [OF r(3)])
  show ?thesis
  proof (cases "n = NULL")
    case False
    then have f: "nodes_map h t (krank k) = Some (n, nd_v (h n))" "found_at h' t (krank k) n" using r(4) by simp_all
    note n = found_at_mem [OF f(2)]
    let ?h = "h'(n := (h' n)\<lparr>nd_v := v\<rparr>)"
    have "nodes_map ?h t = m(krank k \<mapsto> (n, v))" using nodes_map_value [OF srt, of n v] n m by simp
    then have "lv_repr (?h, lvt') (op_map (Lv_set k slot v) m)" using lv_inv_value r(3) f(1) s(3) by auto
    then show ?thesis using r(1) False s(1) by (simp add: set_level_def)
  next
    case True
    then have f: "nodes_map h t (krank k) = None" "hole_at h' t (krank k) (lastNodeLookedUp lvt')"
      "par = Some (lastNodeLookedUp lvt')" using r(4) by simp_all
    have ns: "slot \<notin> set_tree t" using ok m nodes_map_Some [OF srt, of "rank_of h' slot" slot] by (metis op_ok.simps(1))
    obtain h2 lvt2 where i: "lvAvlTreeNodeInsert h' lvt' k (lastNodeLookedUp lvt') slot = Some (slot, h2, lvt2)"
      "inserted h' t k slot (h2, lvt2)"
      using lvAvlTreeNodeInsert_spec [OF r(3) f(2) refl k(2) ns k(1)] by (metis surj_pair)
    then obtain t' xs ys where t': "lv_inv h2 lvt2 t'" "inorder t = xs @ ys" "inorder t' = xs @ slot # ys"
      "nd_key (h2 slot) = k" "\<And>a. a \<noteq> slot \<Longrightarrow> nd_key (h2 a) = nd_key (h' a) \<and> payload (h2 a) = payload (h' a)"
      by (auto simp: inserted_def)
    have nm: "nodes_map h2 t' = m(krank k \<mapsto> (slot, nd_v (h2 slot)))"
      using nodes_map_inserted [OF t'(1,2,3) srt t'(5)] m t'(4) by (simp add: rank_of_def)
    have st: "slot \<in> set_tree t'" using t'(3) by (metis in_set_conv_decomp set_inorder)
    let ?h = "h2(slot := (h2 slot)\<lparr>nd_v := v\<rparr>)"
    have "nodes_map ?h t' = m(krank k \<mapsto> (slot, v))"
      using nodes_map_value [OF inv_sorted [OF t'(1)] st, of v] nm t'(4) by (simp add: rank_of_def)
    then have "lv_repr (?h, lvt2) (op_map (Lv_set k slot v) m)" using lv_inv_value t'(1) f(1) s(3) by auto
    then show ?thesis using r(1) i(1) True f(3) s(1) by (simp add: set_level_def)
  qed
qed

lemma kill_level_repr:
  assumes rep: "lv_repr s m" and k: "key_ok k"
  shows "\<exists>s'. kill_level s k = Some s' \<and> lv_repr s' (op_map (Lv_kill k) m)"
proof -
  obtain h lvt t where s: "s = (h, lvt)" "lv_inv h lvt t" "m = nodes_map h t" using rep by (cases s) auto
  obtain n par h' lvt' where r: "lvAvlTreeLookup h lvt k = Some (n, par, h', lvt')" "same_nodes h h'" "lv_inv h' lvt' t"
    "if n \<noteq> NULL then nodes_map h t (krank k) = Some (n, nd_v (h n)) \<and> found_at h' t (krank k) n
       else nodes_map h t (krank k) = None \<and> hole_at h' t (krank k) (lastNodeLookedUp lvt')
         \<and> par = Some (lastNodeLookedUp lvt')"
    using lookup_map [OF s(2) k] by blast
  have m: "nodes_map h' t = m" using nodes_map_same [OF r(2)] s(3) by simp
  show ?thesis
  proof (cases "n = NULL")
    case True
    then have "m(krank k := None) = m" using r(4) s(3) by auto
    then have "lv_repr (h', lvt') (op_map (Lv_kill k) m)" using r(3) m by auto
    then show ?thesis using r(1) True s(1) by (simp add: kill_level_def)
  next
    case False
    then have f: "found_at h' t (krank k) n" using r(4) by simp
    note n = found_at_mem [OF f]
    have "leads_to h' t n" using f by (auto simp: found_at_def leads_to_def)
    moreover have ti: "tree_inv h' lvt' t" using r(3) by (simp add: lv_inv_def)
    ultimately obtain h2 lvt2 where d: "lvAvlTreeNodeDelete h' lvt' n = Some (h2, lvt2)" "deleted h' t n (h2, lvt2)"
      using lvAvlTreeNodeDelete_spec by (metis surj_pair)
    then obtain t' where t': "lv_inv h2 lvt2 t'" "inorder t' = remove1 n (inorder t)"
      "\<And>a. nd_key (h2 a) = nd_key (h' a) \<and> payload (h2 a) = payload (h' a)" by (auto simp: deleted_def)
    have "nodes_map h2 t' = m(krank k := None)"
      using nodes_map_deleted [OF inv_sorted [OF r(3)] _ inv_sorted [OF t'(1)] t'(2) _ t'(3)] inv_facts [OF r(3)] n m by simp
    then have "lv_repr (h2, lvt2) (op_map (Lv_kill k) m)" using t'(1) by auto
    then show ?thesis using r(1) d(1) False s(1) by (simp add: kill_level_def)
  qed
qed

interpretation lvm: subscript_map lv_repr srchindx_level set_level kill_level
  by unfold_locales (fact srchindx_repr set_level_repr kill_level_repr)+

lemma lv_repr_create: "lv_repr (h, lv_tree_create) Map.empty"
  by (auto simp: lv_tree_create_def lv_inv_def tree_inv_def clue_ok_def ksorted_def keys_ok_def nodes_map_def
      intro!: exI [of _ "Leaf :: addr tree"])

end
