(* ===== verification/Lv_Props.thy ===== *)
theory Lv_Props
  imports Lv_Map
begin

text \<open>
  The properties of the local variable trees. Each rests on the facts of the component theories; the
  witnesses run on a small array with three subscripts.
\<close>

section \<open>A small array\<close>

definition free_node :: lvTreeNode where
  "free_node = \<lparr>nd_v = MV_undef, sbs_child = NULL, nd_key = MV_undef, nd_flt = \<lparr>key_sgn = False, key_e = 0, key_m1 = 0, key_iconv = False\<rparr>,
     balance = TREE_BALANCED, descent_dir = TREE_BALANCED, avl_left = NULL, avl_right = NULL, avl_parent = NULL\<rparr>"

definition int_key :: "int \<Rightarrow> mval" where
  "int_key n = MV_num (MV_int n)"

text \<open>The nodes of \<open>SET x(1)=..,x(2)=..,x("")=..\<close> at the addresses 1, 2 and 3, with the clue of a lookup of the second.\<close>

definition sample_heap :: heap where
  "sample_heap = (\<lambda>_. free_node)(
     1 := free_node\<lparr>nd_key := int_key 1, avl_parent := 2\<rparr>,
     2 := free_node\<lparr>nd_key := int_key 2, avl_left := 1, avl_right := 3\<rparr>,
     3 := free_node\<lparr>nd_key := MV_str [], avl_parent := 2\<rparr>)"

definition sample_tree :: "addr tree" where
  "sample_tree = Node (Node Leaf 1 Leaf) 2 (Node Leaf 3 Leaf)"

definition sample_lvt :: lvTree where
  "sample_lvt = \<lparr>avl_height = 2, avl_root = 2, lastNodeLookedUp = NULL, lastNodeMin = NULL, lastNodeMax = NULL\<rparr>"

lemma int_key_simps [simp]: "krank (int_key n) = (0, mnum_val (MV_int n), [])" "key_ok (int_key n) = mnum_ok (MV_int n)"
  "int_key m = int_key n \<longleftrightarrow> m = n" "int_key n \<noteq> MV_str s" "\<not> key_iconv f \<Longrightarrow> flt_ok (int_key n) f"
  by (simp_all add: int_key_def del: mnum_val.simps mnum_ok.simps)

lemma sample_inv: "lv_inv sample_heap sample_lvt sample_tree"
  by (simp add: lv_inv_def tree_inv_def clue_ok_def ksorted_def keys_ok_def node_ok_def rank_of_def sample_heap_def sample_tree_def
      sample_lvt_def free_node_def)

section \<open>Numbers and keys\<close>

text \<open>C36: The comparison of two numbers has the sign of the difference of their values, whatever mixture of
  integer and decimal representations the operands have.\<close>

theorem numcmp_sign:
  assumes "mnum_ok u" and "mnum_ok v"
  shows "numcmp u v = Inr (sgn (mnum_val u - mnum_val v))"
  using assms by (rule numcmp_val)

theorem numcmp_sign_witness:
  "mnum_ok (MV_int 1500) \<and> mnum_ok (MV_nm False 66 150000000 0) \<and> numcmp (MV_int 1500) (MV_nm False 66 150000000 0) = Inr (-1)"
proof -
  have "mnum_ok (MV_int 1500)" "mnum_ok (MV_nm False 66 150000000 0)" by code_simp+
  moreover have "sgn (mnum_val (MV_int 1500) - mnum_val (MV_nm False 66 150000000 0)) = -1" by code_simp
  ultimately show ?thesis using numcmp_sign [of "MV_int 1500" "MV_nm False 66 150000000 0"] by simp
qed

section \<open>The map of a level\<close>

text \<open>C1: A new tree implements a map: every sequence of sets and kills on it runs to its end, for slots
  that are free when they are offered, and a lookup afterwards returns the node that the map has for the subscript, or the
  null pointer.\<close>

theorem lv_ops_refine_map:
  assumes "ops_ok Map.empty xs" and "key_ok k"
  shows "\<exists>s' s''. run_ops set_level kill_level xs (h, lv_tree_create) = Some s'
    \<and> srchindx_level s' k = Some (case fold op_map xs Map.empty (krank k) of None \<Rightarrow> NULL | Some (a, _) \<Rightarrow> a, s'')"
  using lv_repr_create assms by (rule lvm.find_after_run)

theorem lv_ops_refine_map_witness:
  "\<exists>s' s''. run_ops set_level kill_level
      [Lv_set (int_key 5) 1 MV_undef, Lv_set (MV_num (MV_nm False 65 314159000 0)) 2 MV_undef, Lv_kill (int_key 5),
       Lv_set (int_key 7) 1 MV_undef]
      ((\<lambda>_. free_node), lv_tree_create) = Some s'
    \<and> srchindx_level s' (int_key 7) = Some (1, s'')"
proof -
  let ?x = "MV_num (MV_nm False 65 314159000 0)"
  let ?xs = "[Lv_set (int_key 5) 1 MV_undef, Lv_set ?x 2 MV_undef, Lv_kill (int_key 5), Lv_set (int_key 7) 1 MV_undef]"
  have x: "key_ok ?x" "mnum_ok (MV_int 5)" "mnum_ok (MV_int 7)" by code_simp+
  have r: "krank ?x \<noteq> krank (int_key 5)" "krank ?x \<noteq> krank (int_key 7)" by code_simp+
  have "ops_ok Map.empty ?xs" using x r by (auto split: if_splits simp del: krank.simps key_ok.simps mnum_val.simps mnum_ok.simps)
  moreover have "fold op_map ?xs Map.empty (krank (int_key 7)) = Some (1, MV_undef)"
    using r by (simp del: krank.simps key_ok.simps mnum_val.simps mnum_ok.simps)
  moreover have "key_ok (int_key 7)" by simp
  ultimately show ?thesis using lv_ops_refine_map [of ?xs "int_key 7" "\<lambda>_. free_node"] by (simp only: option.case prod.case)
qed

text \<open>C10: A lookup returns; it changes descent directions, stored float forms of integer keys and the clue only and keeps the invariant, which
  says that the stored float forms are those of the keys; it returns the
  node of the subscript if there is one, otherwise the null pointer and the node under which an insertion has to go.\<close>

theorem lvAvlTreeLookup_finds:
  assumes "lv_inv h lvt t" and "key_ok k"
  shows "\<exists>n par h' lvt'. lvAvlTreeLookup h lvt k = Some (n, par, h', lvt') \<and> same_nodes h h' \<and> lv_inv h' lvt' t
    \<and> (if krank k \<in> rank_of h ` set_tree t then n \<in> set_tree t \<and> rank_of h n = krank k
       else n = NULL \<and> par = Some (lastNodeLookedUp lvt') \<and> hole_at h' t (krank k) (lastNodeLookedUp lvt'))"
proof -
  note srt = inv_sorted [OF assms(1)]
  obtain n par h' lvt' where r: "lvAvlTreeLookup h lvt k = Some (n, par, h', lvt')" "same_nodes h h'" "lv_inv h' lvt' t"
    "if n \<noteq> NULL then nodes_map h t (krank k) = Some (n, nd_v (h n)) \<and> found_at h' t (krank k) n
       else nodes_map h t (krank k) = None \<and> hole_at h' t (krank k) (lastNodeLookedUp lvt')
         \<and> par = Some (lastNodeLookedUp lvt')"
    using lookup_map [OF assms] by blast
  then have "if krank k \<in> rank_of h ` set_tree t then n \<in> set_tree t \<and> rank_of h n = krank k
       else n = NULL \<and> par = Some (lastNodeLookedUp lvt') \<and> hole_at h' t (krank k) (lastNodeLookedUp lvt')"
    using nodes_map_Some [OF srt, of "krank k" n "nd_v (h n)"] nodes_map_None [of h t "krank k"]
    by (cases "n = NULL") auto
  then show ?thesis using r by blast
qed

theorem lvAvlTreeLookup_finds_witness:
  "\<exists>par h' lvt'. lvAvlTreeLookup sample_heap sample_lvt (int_key 1) = Some (1, par, h', lvt') \<and> lv_inv h' lvt' sample_tree"
proof -
  obtain n par h' lvt' where r: "lvAvlTreeLookup sample_heap sample_lvt (int_key 1) = Some (n, par, h', lvt')"
    "lv_inv h' lvt' sample_tree" "krank (int_key 1) \<in> rank_of sample_heap ` set_tree sample_tree \<Longrightarrow>
      n \<in> set_tree sample_tree \<and> rank_of sample_heap n = krank (int_key 1)"
    using lvAvlTreeLookup_finds [OF sample_inv, of "int_key 1"] by auto
  have "krank (int_key 1) \<in> rank_of sample_heap ` set_tree sample_tree"
    by (simp add: rank_of_def sample_heap_def sample_tree_def)
  then have "n = 1" using r(3) by (auto simp: rank_of_def sample_heap_def sample_tree_def)
  then show ?thesis using r(1,2) by blast
qed

text \<open>C8: A node inserted where the lookup of an absent subscript ended stands in its place of the order, the tree is a
  balanced search tree again with a valid clue, and the keys, values, children and stored
  float forms of the other nodes are as before.\<close>

theorem lvAvlTreeNodeInsert_keeps_invariant:
  assumes "lv_inv h lvt t" and "hole_at h t (krank key) (lastNodeLookedUp lvt)" and "key_ok key"
    and "slot \<noteq> NULL" and "slot \<notin> set_tree t"
  shows "\<exists>h' lvt' t' xs ys. lvAvlTreeNodeInsert h lvt key (lastNodeLookedUp lvt) slot = Some (slot, h', lvt')
    \<and> lv_inv h' lvt' t' \<and> inorder t = xs @ ys \<and> inorder t' = xs @ slot # ys \<and> nd_key (h' slot) = key
    \<and> (\<forall>a. a \<noteq> slot \<longrightarrow> nd_key (h' a) = nd_key (h a) \<and> payload (h' a) = payload (h a))"
proof -
  obtain h' lvt' where "lvAvlTreeNodeInsert h lvt key (lastNodeLookedUp lvt) slot = Some (slot, h', lvt')"
    "inserted h t key slot (h', lvt')"
    using lvAvlTreeNodeInsert_spec [OF assms(1,2) refl assms(4,5,3)] by (metis surj_pair)
  then show ?thesis unfolding inserted_def by auto
qed

theorem lvAvlTreeNodeInsert_keeps_invariant_witness:
  "\<exists>h' lvt' t' xs ys. lvAvlTreeNodeInsert (\<lambda>_. free_node) lv_tree_create (int_key 4) NULL 9 = Some (9, h', lvt')
    \<and> lv_inv h' lvt' t' \<and> inorder t' = [9] \<and> nd_key (h' 9) = int_key 4"
proof -
  have "lv_inv (\<lambda>_. free_node) lv_tree_create Leaf"
    by (simp add: lv_tree_create_def lv_inv_def tree_inv_def clue_ok_def ksorted_def keys_ok_def)
  moreover have "hole_at (\<lambda>_. free_node) Leaf (krank (int_key 4)) NULL"
    unfolding hole_at_def by (intro exI [of _ "[]"]) simp
  moreover have "lastNodeLookedUp lv_tree_create = NULL" by (simp add: lv_tree_create_def)
  ultimately show ?thesis
    using lvAvlTreeNodeInsert_keeps_invariant [of "\<lambda>_. free_node" lv_tree_create Leaf "int_key 4" 9] by auto
qed

text \<open>C9: Any node of a tree can be deleted after \<open>lvAvlTreeNodePrepareForDelete\<close>: both return, exactly this node leaves the
  order, the tree is a balanced search tree again, and the clue is reset.\<close>

theorem lvAvlTreeNodeDelete_keeps_invariant:
  assumes inv: "lv_inv h lvt t" and x: "x \<in> set_tree t"
  shows "\<exists>h1 h2 lvt2 t2. lvAvlTreeNodePrepareForDelete h x = Some h1 \<and> lvAvlTreeNodeDelete h1 lvt x = Some (h2, lvt2)
    \<and> lv_inv h2 lvt2 t2 \<and> inorder t2 = remove1 x (inorder t) \<and> lastNodeLookedUp lvt2 = NULL
    \<and> (\<forall>a. nd_key (h2 a) = nd_key (h a) \<and> payload (h2 a) = payload (h a))"
proof -
  obtain c l r where t: "t = plug c (Node l x r)" using context_exists [OF x] by blast
  obtain h1 where p: "lvAvlTreeNodePrepareForDelete h x = Some h1" "same_but_dirs h h1" "cdirs h1 c"
    using lvAvlTreeNodePrepareForDelete_spec [of h c l x r] inv_facts [OF inv] t by auto
  have "tree_inv h1 lvt t" using inv tree_inv_dirs [OF p(2)] by (simp add: lv_inv_def)
  moreover have "leads_to h1 t x" using t p(3) by (auto simp: leads_to_def)
  ultimately obtain h2 lvt2 where d: "lvAvlTreeNodeDelete h1 lvt x = Some (h2, lvt2)" "deleted h1 t x (h2, lvt2)"
    using lvAvlTreeNodeDelete_spec by (metis surj_pair)
  then show ?thesis using p(1) same_but_dirs_fields(5) [OF p(2)] same_but_dirs_payload [OF p(2)] by (auto simp: deleted_def)
qed

theorem lvAvlTreeNodeDelete_keeps_invariant_witness:
  "\<exists>h1 h2 lvt2 t2. lvAvlTreeNodePrepareForDelete sample_heap 2 = Some h1
    \<and> lvAvlTreeNodeDelete h1 sample_lvt 2 = Some (h2, lvt2) \<and> lv_inv h2 lvt2 t2 \<and> inorder t2 = [1, 3]"
  using lvAvlTreeNodeDelete_keeps_invariant [OF sample_inv, of 2] by (simp add: sample_tree_def) blast

section \<open>Height\<close>

lemma bals_size: "bals h t \<Longrightarrow> 2 ^ (height t div 2) \<le> size1 t"
proof (induction t)
  case (Node l a r)
  then have ih: "2 ^ (height l div 2) \<le> size1 l" "2 ^ (height r div 2) \<le> size1 r" by simp_all
  have two: "2 ^ (Suc (Suc n) div 2) \<le> a + b" if "2 ^ (n div 2) \<le> a" "2 ^ (Suc n div 2) \<le> b" for n and a b :: nat
  proof -
    have "(2 :: nat) ^ (n div 2) \<le> 2 ^ (Suc n div 2)" by (rule power_increasing) (simp_all add: div_le_mono)
    moreover have "(2 :: nat) ^ (Suc (Suc n) div 2) = 2 * 2 ^ (n div 2)" by simp
    ultimately show ?thesis using that by linarith
  qed
  have one: "2 ^ (Suc n div 2) \<le> a + b" if "2 ^ (n div 2) \<le> a" "2 ^ (n div 2) \<le> b" for n and a b :: nat
  proof -
    have "(2 :: nat) ^ (Suc n div 2) \<le> 2 ^ (Suc (n div 2))" by (rule power_increasing) simp_all
    then have "(2 :: nat) ^ (Suc n div 2) \<le> 2 * 2 ^ (n div 2)" by simp
    then show ?thesis using that by linarith
  qed
  show ?case
    using Node.prems ih two [of "height r" "size1 r" "size1 l"] two [of "height l" "size1 l" "size1 r"]
      one [of "height l" "size1 l" "size1 r"]
    by (cases "balance (h a)") (simp_all add: max_def add.commute)
qed simp

text \<open>The recorded height is the height of the tree and logarithmic in the number of nodes: a tree of height \<open>n\<close> has at
  least \<open>2 ^ (n div 2) - 1\<close> nodes.\<close>

theorem lv_height_bound:
  assumes "lv_inv h lvt t"
  shows "avl_height lvt = height t \<and> 2 ^ (avl_height lvt div 2) \<le> card (set_tree t) + 1"
proof -
  have i: "bals h t" "avl_height lvt = height t" "distinct (inorder t)" using assms by (simp_all add: lv_inv_def tree_inv_def)
  have "card (set_tree t) = size t" using distinct_card [OF i(3)] by simp
  then show ?thesis using bals_size [OF i(1)] i(2) by (simp add: size1_size)
qed

theorem lv_height_bound_witness:
  "avl_height sample_lvt = height sample_tree \<and> 2 ^ (avl_height sample_lvt div 2) \<le> card (set_tree sample_tree) + 1"
  by (rule lv_height_bound [OF sample_inv])

section \<open>Traversals\<close>

text \<open>C24: The loop from \<open>lvAvlTreeFirst\<close> over \<open>lvAvlTreeNext\<close> ends after one step per node and visits every node of
  the tree in strictly ascending order of the keys; the loop from \<open>lvAvlTreeLast\<close> over \<open>lvAvlTreePrev\<close> visits them in the
  opposite order.\<close>

theorem lv_traversal_in_order:
  assumes "lv_inv h lvt t"
  shows "\<exists>xs. Option.bind (lvAvlTreeFirst h lvt) (cursor_walk (lvAvlTreeNext h) (size t)) = Some xs
    \<and> Option.bind (lvAvlTreeLast h lvt) (cursor_walk (lvAvlTreePrev h) (size t)) = Some (rev xs)
    \<and> sorted_wrt (\<lambda>a b. rank_of h a < rank_of h b) xs \<and> set xs = set_tree t"
proof -
  have "sorted_wrt (\<lambda>a b. rank_of h a < rank_of h b) (inorder t)"
    using inv_sorted [OF assms] by (simp only: ksorted_def sorted_wrt_map)
  then show ?thesis
    using fwd.walk_all [of "(h, lvt, t)"] bwd.walk_all [of "(h, lvt, t)"] assms
    by (intro exI [of _ "inorder t"]) simp
qed

theorem lv_traversal_in_order_witness:
  "\<exists>xs. Option.bind (lvAvlTreeFirst sample_heap sample_lvt) (cursor_walk (lvAvlTreeNext sample_heap) 3) = Some xs
    \<and> sorted_wrt (\<lambda>a b. rank_of sample_heap a < rank_of sample_heap b) xs \<and> set xs = {1, 2, 3}"
proof -
  have "size sample_tree = 3" "set_tree sample_tree = {1, 2, 3}" by (auto simp: sample_tree_def)
  then show ?thesis using lv_traversal_in_order [OF sample_inv] by metis
qed

text \<open>C25: The loop over \<open>lvAvlTreeNextPostOrder\<close> that \<open>lv_killarray\<close> uses to free a whole tree ends, visits every node
  exactly once, and visits a node only after its children, so that no freed node is needed for the next step.\<close>

theorem lv_traversal_post_order:
  assumes inv: "lv_inv h lvt t"
  shows "\<exists>xs. Option.bind (lvAvlTreeFirstPostOrder h lvt) (cursor_walk (lvAvlTreeNextPostOrder h) (size t)) = Some xs
    \<and> distinct xs \<and> set xs = set_tree t
    \<and> (\<forall>us a vs. xs = us @ a # vs \<longrightarrow> (\<forall>b \<in> set_tree t. avl_parent (h b) = a \<longrightarrow> b \<in> set us))"
proof -
  note f = inv_facts [OF inv]
  have d: "distinct (postorder t)"
    using f by (metis card_distinct distinct_card length_inorder length_postorder set_inorder set_postorder)
  have "b \<in> set us" if s: "postorder t = us @ a # vs" and b: "b \<in> set_tree t" "avl_parent (h b) = a" for us a vs b
  proof -
    obtain c l r where t: "t = plug c (Node l b r)" using context_exists [OF b(1)] by blast
    have "a \<in> set_tree t" using s by (metis in_set_conv_decomp set_postorder)
    then have an: "a \<noteq> NULL" using links_nonzero [of h NULL t] f by metis
    have "ctop c = a" using plug_context_facts(2) [of h c l b r] f t b(2) by simp
    then obtain us' vs' where "postorder t = us' @ a # vs'" "b \<in> set us'"
    proof (cases c rule: ctop.cases)
      case (2 a' y c')
      then show ?thesis using that [of "cpostpre c' @ postorder (Node l b r) @ postorder y" "cpost c'"] t \<open>ctop c = a\<close>
        by (simp add: postorder_plug)
    next
      case (3 y a' c')
      then show ?thesis using that [of "cpostpre c' @ postorder y @ postorder (Node l b r)" "cpost c'"] t \<open>ctop c = a\<close>
        by (simp add: postorder_plug)
    qed (use an in simp)
    then show ?thesis using distinct_split_unique [of us a vs us' vs'] d s by simp
  qed
  then show ?thesis using post.walk_all [of "(h, lvt, t)"] inv d
    by (intro exI [of _ "postorder t"]) simp
qed

theorem lv_traversal_post_order_witness:
  "\<exists>xs. Option.bind (lvAvlTreeFirstPostOrder sample_heap sample_lvt) (cursor_walk (lvAvlTreeNextPostOrder sample_heap) 3)
      = Some xs \<and> distinct xs \<and> set xs = {1, 2, 3}"
proof -
  have "size sample_tree = 3" "set_tree sample_tree = {1, 2, 3}" by (auto simp: sample_tree_def)
  then show ?thesis using lv_traversal_post_order [OF sample_inv] by metis
qed

text \<open>C22: The successor and predecessor of a subscript, whether it exists or not, follow the collation order: with
  standard null collation the null string comes before all other subscripts, otherwise between the numbers and the
  strings.\<close>

theorem lv_key_collated_neighbours:
  assumes "lv_inv h lvt t" and "t \<noteq> Leaf" and "key_ok k"
  shows "\<exists>h1 lvt1 h2 lvt2.
      lvAvlTreeKeyCollatedNext std h lvt k =
        Some (hd0 (filter (\<lambda>a. crank std k < crank std (nd_key (h a))) (collated std h (inorder t))), h1, lvt1)
    \<and> lvAvlTreeKeyCollatedPrev std h lvt k =
        Some (last0 (filter (\<lambda>a. crank std (nd_key (h a)) < crank std k) (collated std h (inorder t))), h2, lvt2)
    \<and> lv_inv h1 lvt1 t \<and> lv_inv h2 lvt2 t
    \<and> sorted_wrt (\<lambda>a b. crank std (nd_key (h a)) < crank std (nd_key (h b))) (collated std h (inorder t))
    \<and> set (collated std h (inorder t)) = set_tree t"
  using KeyCollatedNext_spec [OF assms(1,3,2), of std] KeyCollatedPrev_spec [OF assms(1,3,2), of std]
    collated_sorted [OF inv_sorted [OF assms(1)], of std]
  unfolding moved_to_def cnext_def cprev_def by blast

theorem lv_key_collated_neighbours_witness:
  "\<exists>h1 lvt1. lvAvlTreeKeyCollatedNext True sample_heap sample_lvt (MV_str []) = Some (1, h1, lvt1)"
proof -
  have "filter (\<lambda>a. crank True (MV_str []) < crank True (nd_key (sample_heap a)))
      (collated True sample_heap (inorder sample_tree)) = [1, 2]"
    by (simp add: collated_def sample_tree_def sample_heap_def crank_less)
  then show ?thesis
    using lv_key_collated_neighbours [OF sample_inv, of "MV_str []" True] by (auto simp: sample_tree_def)
qed

text \<open>C23: From a node of the tree the collated successor is the next node of the collation order and the
  collated predecessor the one before; \<open>lvAvlTreeCollatedLast\<close> is the last one.\<close>

theorem lv_node_collated_neighbours:
  assumes inv: "lv_inv h lvt t" and c: "collated std h (inorder t) = xs @ a # ys"
  shows "lvAvlTreeNodeCollatedNext std h lvt a = Some (hd0 ys)
    \<and> (\<exists>h' lvt'. lvAvlTreeNodeCollatedPrev std h lvt a = Some (last0 xs, h', lvt') \<and> lv_inv h' lvt' t)
    \<and> lvAvlTreeCollatedLast std h lvt = Some (last0 (xs @ a # ys))"
proof -
  note cs = collated_sorted [OF inv_sorted [OF inv], of std]
  have "a \<in> set (inorder t)" using cs(2) c by (metis in_set_conv_decomp set_inorder)
  then obtain us vs where "inorder t = us @ a # vs" by (metis in_set_conv_decomp)
  then have "moved_to h t (cprev std h t (nd_key (h a))) (lvAvlTreeNodeCollatedPrev std h lvt a)"
    by (rule NodeCollatedPrev_spec [OF inv])
  moreover have "filter (\<lambda>b. crank std (nd_key (h b)) < crank std (nd_key (h a))) (xs @ a # ys) = xs"
    using cs(1) unfolding c by (auto simp: sorted_wrt_append filter_empty_conv filter_id_conv order.asym)
  ultimately show ?thesis using collated_next [OF assms] CollatedLast_spec [OF inv, of std] c
    by (auto simp: moved_to_def cprev_def)
qed

theorem lv_node_collated_neighbours_witness:
  "lvAvlTreeNodeCollatedNext True sample_heap sample_lvt 3 = Some 1 \<and> lvAvlTreeCollatedLast True sample_heap sample_lvt = Some 2"
proof -
  have "collated True sample_heap (inorder sample_tree) = [] @ 3 # [1, 2]"
    by (simp add: collated_def sample_tree_def sample_heap_def)
  then show ?thesis using lv_node_collated_neighbours [OF sample_inv, of True "[]" 3 "[1, 2]"] by simp
qed

end
