(* ===== verification/Subsc.thy ===== *)
theory Subsc
  imports Lv_Key
begin

text \<open>
  Subscripts in database keys (\<open>mval2subsc.c\<close>): every subscript becomes a byte sequence without zero bytes
  followed by a delimiter, so that comparing keys byte by byte is comparing subscripts. Numbers are an
  exponent byte and pairs of decimal digits, complemented for negative numbers; strings have a prefix and an escape for
  the bytes 0 and 1.

  A value with the \<open>MV_NUM_APPROX\<close> bit, a string that is not a canonical number, is \<open>MV_str\<close> here; a canonical
  number is \<open>MV_num\<close>. The collation transformation, user code, is the argument \<open>xform\<close>; \<open>None\<close> stands
  for no collation. Numbers treated as strings (\<open>gv_target->nct\<close>) are not modelled.
\<close>

section \<open>Constants and tables\<close>

abbreviation STR_SUB_PREFIX :: byte where "STR_SUB_PREFIX \<equiv> 0xFF"
abbreviation SUBSCRIPT_STDCOL_NULL :: byte where "SUBSCRIPT_STDCOL_NULL \<equiv> 0x01"
abbreviation STR_SUB_ESCAPE :: byte where "STR_SUB_ESCAPE \<equiv> 0x01"
abbreviation SUBSCRIPT_ZERO :: byte where "SUBSCRIPT_ZERO \<equiv> 0x80"
abbreviation NEG_MNTSSA_END :: byte where "NEG_MNTSSA_END \<equiv> 0xFF"
abbreviation KEY_DELIMITER :: byte where "KEY_DELIMITER \<equiv> 0"
abbreviation (input) SUBSCRIPT_BIAS :: int where "SUBSCRIPT_BIAS \<equiv> 0xBE"

definition pos_code :: "byte list" where
  "pos_code = [
     0x01, 0x02, 0x03, 0x04, 0x05, 0x06, 0x07, 0x08, 0x09, 0x0a,
     0x11, 0x12, 0x13, 0x14, 0x15, 0x16, 0x17, 0x18, 0x19, 0x1a,
     0x21, 0x22, 0x23, 0x24, 0x25, 0x26, 0x27, 0x28, 0x29, 0x2a,
     0x31, 0x32, 0x33, 0x34, 0x35, 0x36, 0x37, 0x38, 0x39, 0x3a,
     0x41, 0x42, 0x43, 0x44, 0x45, 0x46, 0x47, 0x48, 0x49, 0x4a,
     0x51, 0x52, 0x53, 0x54, 0x55, 0x56, 0x57, 0x58, 0x59, 0x5a,
     0x61, 0x62, 0x63, 0x64, 0x65, 0x66, 0x67, 0x68, 0x69, 0x6a,
     0x71, 0x72, 0x73, 0x74, 0x75, 0x76, 0x77, 0x78, 0x79, 0x7a,
     0x81, 0x82, 0x83, 0x84, 0x85, 0x86, 0x87, 0x88, 0x89, 0x8a,
     0x91, 0x92, 0x93, 0x94, 0x95, 0x96, 0x97, 0x98, 0x99, 0x9a]"

definition neg_code :: "byte list" where
  "neg_code = [
     0xfe, 0xfd, 0xfc, 0xfb, 0xfa, 0xf9, 0xf8, 0xf7, 0xf6, 0xf5,
     0xee, 0xed, 0xec, 0xeb, 0xea, 0xe9, 0xe8, 0xe7, 0xe6, 0xe5,
     0xde, 0xdd, 0xdc, 0xdb, 0xda, 0xd9, 0xd8, 0xd7, 0xd6, 0xd5,
     0xce, 0xcd, 0xcc, 0xcb, 0xca, 0xc9, 0xc8, 0xc7, 0xc6, 0xc5,
     0xbe, 0xbd, 0xbc, 0xbb, 0xba, 0xb9, 0xb8, 0xb7, 0xb6, 0xb5,
     0xae, 0xad, 0xac, 0xab, 0xaa, 0xa9, 0xa8, 0xa7, 0xa6, 0xa5,
     0x9e, 0x9d, 0x9c, 0x9b, 0x9a, 0x99, 0x98, 0x97, 0x96, 0x95,
     0x8e, 0x8d, 0x8c, 0x8b, 0x8a, 0x89, 0x88, 0x87, 0x86, 0x85,
     0x7e, 0x7d, 0x7c, 0x7b, 0x7a, 0x79, 0x78, 0x77, 0x76, 0x75,
     0x6e, 0x6d, 0x6c, 0x6b, 0x6a, 0x69, 0x68, 0x67, 0x66, 0x65]"

section \<open>Numbers\<close>

text \<open>The byte of a pair of digits and of an exponent value.\<close>

definition cvt :: "bool \<Rightarrow> int \<Rightarrow> byte res" where
  "cvt is_negative mx = rd (if is_negative then neg_code else pos_code) mx"

definition exp_byte :: "bool \<Rightarrow> int \<Rightarrow> byte" where
  "exp_byte is_negative exp_val = (if is_negative then NOT (word_of_int exp_val) else word_of_int exp_val)"

text \<open>The pairs that the loops over an integer push on \<open>temp_mantissa\<close>, the least significant one first.\<close>

function finish_integers :: "int \<Rightarrow> int list" where
  "finish_integers mt = (if mt \<le> 0 then [] else (mt - mt div 100 * 100) # finish_integers (mt div 100))"
  by pat_completeness auto
termination
  by (relation "measure nat") auto

function keep_striping :: "int \<Rightarrow> int list" where
  "keep_striping mt =
     (if mt \<le> 0 then []
      else let mw = mt - mt div 100 * 100
        in if mw \<noteq> 0 then mw # finish_integers (mt div 100) else keep_striping (mt div 100))"
  by pat_completeness auto
termination
  by (relation "measure nat") auto

declare finish_integers.simps [simp del] and keep_striping.simps [simp del]

definition odd_integer :: "int \<Rightarrow> int list" where
  "odd_integer mt =
     (let mw = mt - mt div 10 * 10
      in if mw \<noteq> 0 then mw * 10 # finish_integers (mt div 10) else keep_striping (mt div 10))"

text \<open>The exponent value and the pairs, the most significant first, of a positive integer.\<close>

definition int_subsc :: "int \<Rightarrow> int \<times> int list" where
  "int_subsc mt =
     (if 10 > mt then (SUBSCRIPT_BIAS - 2, [mt * 10])
      else if 100 > mt then (SUBSCRIPT_BIAS - 1, [mt])
      else if 1000 > mt then (SUBSCRIPT_BIAS, rev (odd_integer mt))
      else if 10000 > mt then (SUBSCRIPT_BIAS + 1, rev (keep_striping mt))
      else if 100000 > mt then (SUBSCRIPT_BIAS + 2, rev (odd_integer mt))
      else if 1000000 > mt then (SUBSCRIPT_BIAS + 3, rev (keep_striping mt))
      else if 10000000 > mt then (SUBSCRIPT_BIAS + 4, rev (odd_integer mt))
      else if 100000000 > mt then (SUBSCRIPT_BIAS + 5, rev (keep_striping mt))
      else (SUBSCRIPT_BIAS + 6, rev (odd_integer mt)))"

text \<open>
  The loop \<open>LAST_LONGWORD\<close> and the loop over four pairs. The last loop ends within five rounds; the argument
  \<open>fuel\<close> counts them and \<open>None\<close> stands for a loop that has not ended.
\<close>

fun last_longword :: "nat \<Rightarrow> int \<Rightarrow> int list option" where
  "last_longword fuel mt =
     (if mt = 0 then Some []
      else case fuel of 0 \<Rightarrow> None
        | Suc n \<Rightarrow> map_option (Cons (mt div 10000000)) (last_longword n ((mt - mt div 10000000 * 10000000) * 100)))"

fun four_pairs :: "nat \<Rightarrow> int \<Rightarrow> int list" where
  "four_pairs 0 mt = []"
| "four_pairs (Suc n) mt = mt div 10000000 # four_pairs n ((mt - mt div 10000000 * 10000000) * 100)"

declare last_longword.simps [simp del]

definition flt_subsc :: "int \<Rightarrow> int \<Rightarrow> int list option" where
  "flt_subsc m1 m0 =
     (let mx = m1 div 10000000;
          mt = (m1 - mx * 10000000) * 100
      in if m0 = 0 then map_option (Cons mx) (last_longword 5 mt)
         else
           let my = m0 div 100000000;
               mt' = mt + my * 10;
               mw = (m0 - my * 100000000) * 10
           in if mw = 0 then map_option (Cons mx) (last_longword 5 mt')
              else map_option (\<lambda>ps. mx # four_pairs 4 mt' @ ps) (last_longword 5 mw))"

text \<open>The bytes of a number, the terminator of negative numbers included.\<close>

fun cvt_all :: "bool \<Rightarrow> int list \<Rightarrow> byte list res" where
  "cvt_all neg [] = Inr []"
| "cvt_all neg (p # ps) = res_bind (cvt neg p) (\<lambda>b. res_bind (cvt_all neg ps) (\<lambda>bs. Inr (b # bs)))"

definition finish_number :: "bool \<Rightarrow> int \<Rightarrow> int list \<Rightarrow> byte list res" where
  "finish_number is_negative exp_val ps =
     res_bind (cvt_all is_negative ps) (\<lambda>bs.
       Inr (exp_byte is_negative exp_val # bs @ (if is_negative then [NEG_MNTSSA_END] else [])))"

fun subsc_num :: "mnum \<Rightarrow> byte list res" where
  "subsc_num (MV_int m1) =
     (if m1 = 0 then Inr [SUBSCRIPT_ZERO]
      else case int_subsc (if 0 > m1 then - m1 else m1) of (e, ps) \<Rightarrow> finish_number (0 > m1) e ps)"
| "subsc_num (MV_nm s e m1 m0) =
     (case flt_subsc m1 m0 of None \<Rightarrow> Inl OutOfBounds
      | Some ps \<Rightarrow> finish_number s (e - MV_XBIAS + SUBSCRIPT_BIAS) ps)"

section \<open>Strings\<close>

fun subsc_escape :: "mstr \<Rightarrow> byte list" where
  "subsc_escape [] = []"
| "subsc_escape (ch # s) = (if ch \<le> 1 then STR_SUB_ESCAPE # (ch + 1) # subsc_escape s else ch # subsc_escape s)"

definition subsc_str :: "bool \<Rightarrow> mstr \<Rightarrow> byte list" where
  "subsc_str std_null_coll s =
     (if s \<noteq> [] then STR_SUB_PREFIX # subsc_escape s
      else if std_null_coll then [SUBSCRIPT_STDCOL_NULL] else [STR_SUB_PREFIX])"

section \<open>Keys\<close>

text \<open>
  A key buffer: the bytes up to and including the two delimiters, the offset of the second delimiter, the offset of the last subscript
  and the size of the buffer.
\<close>

record gv_key =
  key_base :: "byte list"
  key_end :: nat
  key_prev :: nat
  key_top :: nat

abbreviation (input) MAX_GVKEY_PADDING_LEN :: nat where "MAX_GVKEY_PADDING_LEN \<equiv> 26"

definition add_subsc :: "gv_key \<Rightarrow> byte list \<Rightarrow> gv_key res" where
  "add_subsc out_key bs =
     (let new_end = key_end out_key + length bs + 1
      in if key_top out_key \<le> new_end then Inl OutOfBounds
         else if int (key_top out_key) - int new_end < int (MAX_GVKEY_PADDING_LEN + 1) then Inl ERR_GVSUBOFLOW
         else Inr (out_key\<lparr>key_base := take (key_end out_key) (key_base out_key) @ bs @ [KEY_DELIMITER, KEY_DELIMITER],
                key_prev := key_end out_key, key_end := new_end\<rparr>))"

definition count_escapes :: "mstr \<Rightarrow> nat" where
  "count_escapes s = length (filter (\<lambda>ch. ch \<le> 1) s)"

definition mval2subsc :: "(mstr \<Rightarrow> mstr) option \<Rightarrow> mval \<Rightarrow> gv_key \<Rightarrow> bool \<Rightarrow> gv_key res" where
  "mval2subsc xform in_val out_key std_null_coll =
     (case in_val of
        MV_sqlnull \<Rightarrow> Inl ERR_ZYSQLNULLNOTVALID
      | MV_undef \<Rightarrow> Inl OutOfBounds
      | MV_str s \<Rightarrow>
          let t = (case xform of None \<Rightarrow> s | Some f \<Rightarrow> f s);
              avail_bytes = int (key_top out_key) - int (key_end out_key + length t + 3)
          in if 0 > avail_bytes \<or> 0 > avail_bytes - int (count_escapes t) then Inl ERR_GVSUBOFLOW
             else add_subsc out_key (subsc_str std_null_coll t)
      | MV_num n \<Rightarrow> res_bind (subsc_num n) (add_subsc out_key))"

section \<open>Pairs of digits\<close>

text \<open>The \<open>k\<close> pairs of digits of a number, and the list without the zero pairs at its end.\<close>

fun digs :: "nat \<Rightarrow> int \<Rightarrow> int list" where
  "digs 0 x = []"
| "digs (Suc k) x = x div 100 ^ k # digs k (x mod 100 ^ k)"

fun rstrip :: "int list \<Rightarrow> int list" where
  "rstrip [] = []"
| "rstrip (x # xs) = (if x = 0 \<and> rstrip xs = [] then [] else x # rstrip xs)"

lemma pos100: "(100 :: int) ^ k \<le> x \<Longrightarrow> 0 < x"
  by (rule less_le_trans [of 0 "100 ^ k"]) simp_all

lemma rstrip_zeros: "rstrip (xs @ replicate n 0) = rstrip xs"
proof (induction xs)
  case Nil
  show ?case by (induction n) auto
qed auto

lemma rstrip_snoc: "rstrip (xs @ [x]) = (if x = 0 then rstrip xs else xs @ [x])"
  by (induction xs) auto

lemma rstrip_append: "rstrip ys \<noteq> [] \<Longrightarrow> rstrip (xs @ ys) = xs @ rstrip ys"
  by (induction xs) auto

lemma length_digs [simp]: "length (digs k x) = k"
  by (induction k arbitrary: x) auto

lemma digs_range: "0 \<le> x \<Longrightarrow> x < 100 ^ k \<Longrightarrow> \<forall>p \<in> set (digs k x). 0 \<le> p \<and> p < 100"
proof (induction k arbitrary: x)
  case (Suc k)
  have "x div 100 ^ k < 100" using Suc.prems by (intro int_div_less) (auto simp: mult.commute)
  moreover have "0 \<le> x div 100 ^ k" using Suc.prems(1) by (simp add: pos_imp_zdiv_nonneg_iff)
  moreover have "\<forall>p \<in> set (digs k (x mod 100 ^ k)). 0 \<le> p \<and> p < 100" by (rule Suc.IH) simp_all
  ultimately show ?case by simp
qed simp

lemma digs_append:
  assumes "0 \<le> b" and "b < 100 ^ k"
  shows "0 \<le> a \<Longrightarrow> a < 100 ^ j \<Longrightarrow> digs (j + k) (a * 100 ^ k + b) = digs j a @ digs k b"
proof (induction j arbitrary: a)
  case (Suc j)
  have k: "0 < (100 :: int) ^ k" "0 < (100 :: int) ^ j" by simp_all
  have r: "0 \<le> a mod 100 ^ j" "a mod 100 ^ j < 100 ^ j" by simp_all
  have "a * 100 ^ k + b = (a div 100 ^ j) * 100 ^ (j + k) + ((a mod 100 ^ j) * 100 ^ k + b)"
  proof -
    have "a * 100 ^ k = (a div 100 ^ j * 100 ^ j + a mod 100 ^ j) * 100 ^ k" by (simp only: div_mult_mod_eq)
    then show ?thesis by (simp only: distrib_right power_add mult.assoc add.assoc)
  qed
  moreover have "(a mod 100 ^ j) * 100 ^ k + b < 100 ^ (j + k)"
  proof -
    have "(a mod 100 ^ j + 1) * 100 ^ k \<le> 100 ^ j * 100 ^ k" by (rule mult_right_mono) (use r(2) in linarith, simp)
    then show ?thesis using assms(2) by (simp add: power_add algebra_simps)
  qed
  moreover have "0 \<le> (a mod 100 ^ j) * 100 ^ k + b" using r assms(1) by simp
  ultimately have "(a * 100 ^ k + b) div 100 ^ (j + k) = a div 100 ^ j"
    "(a * 100 ^ k + b) mod 100 ^ (j + k) = (a mod 100 ^ j) * 100 ^ k + b"
    using divmod_eq [of "a * 100 ^ k + b"] by blast+
  then show ?case using Suc.IH [of "a mod 100 ^ j"] r by simp
next
  case 0
  then have "a = 0" by simp
  then show ?case by simp
qed

lemma digs_zero: "digs k 0 = replicate k 0"
  by (induction k) auto

lemma digs_scale: "0 \<le> a \<Longrightarrow> a < 100 ^ j \<Longrightarrow> rstrip (digs (j + k) (a * 100 ^ k)) = rstrip (digs j a)"
  using digs_append [of 0 k a j] by (simp add: digs_zero rstrip_zeros)

lemma rstrip_digs_Nil: "0 \<le> x \<Longrightarrow> x < 100 ^ k \<Longrightarrow> rstrip (digs k x) = [] \<longleftrightarrow> x = 0"
proof (induction k arbitrary: x)
  case (Suc k)
  have "x div 100 ^ k = 0 \<and> x mod 100 ^ k = 0 \<longleftrightarrow> x = 0" by (metis div_0 div_mult_mod_eq mod_0 mult_zero_left add_0)
  then show ?case using Suc.IH [of "x mod 100 ^ k"] Suc.prems by auto
qed simp

section \<open>The loops compute the pairs\<close>

lemma snoc_digs: "0 \<le> x \<Longrightarrow> x < 100 ^ Suc k \<Longrightarrow> digs (Suc k) x = digs k (x div 100) @ [x mod 100]"
  using digs_append [of "x mod 100" 1 "x div 100" k] by (simp add: int_div_less mult.commute)

lemma finish_integers_digs:
  "0 \<le> x \<Longrightarrow> x < 100 ^ k \<Longrightarrow> k = 0 \<or> 100 ^ (k - 1) \<le> x \<Longrightarrow> finish_integers x = rev (digs k x)"
proof (induction k arbitrary: x)
  case 0
  then show ?case by (subst finish_integers.simps) simp
next
  case (Suc k)
  have x: "0 < x" using Suc.prems(3) pos100 [of k x] by simp
  have "k = 0 \<or> 100 ^ (k - 1) \<le> x div 100"
    using Suc.prems(3) by (cases k) (auto simp: zdiv_mono1 dest: zdiv_mono1 [of _ _ 100])
  then have "finish_integers (x div 100) = rev (digs k (x div 100))"
    using Suc.IH [of "x div 100"] Suc.prems x by (simp add: int_div_less mult.commute)
  then show ?case using x snoc_digs [of x k] Suc.prems
    by (subst finish_integers.simps) (simp add: minus_div_mult_eq_mod)
qed

lemma keep_striping_digs:
  "0 \<le> x \<Longrightarrow> x < 100 ^ k \<Longrightarrow> k = 0 \<or> 100 ^ (k - 1) \<le> x \<Longrightarrow> keep_striping x = rev (rstrip (digs k x))"
proof (induction k arbitrary: x)
  case 0
  then show ?case by (subst keep_striping.simps) simp
next
  case (Suc k)
  have x: "0 < x" using Suc.prems(3) pos100 [of k x] by simp
  have p: "k = 0 \<or> 100 ^ (k - 1) \<le> x div 100"
    using Suc.prems(3) by (cases k) (auto simp: zdiv_mono1 dest: zdiv_mono1 [of _ _ 100])
  then have "keep_striping (x div 100) = rev (rstrip (digs k (x div 100)))"
    "finish_integers (x div 100) = rev (digs k (x div 100))"
    using Suc.IH [of "x div 100"] finish_integers_digs [of "x div 100" k] Suc.prems x
    by (simp_all add: int_div_less mult.commute)
  then show ?case using x snoc_digs [of x k] Suc.prems
    by (subst keep_striping.simps) (simp add: Let_def minus_div_mult_eq_mod rstrip_snoc)
qed

lemma odd_integer_digs:
  assumes "100 ^ k \<le> x * 10" and "x * 10 < 100 ^ Suc k"
  shows "odd_integer x = rev (rstrip (digs (Suc k) (x * 10)))"
proof -
  have x: "0 < x" using pos100 [OF assms(1)] by simp
  have q: "x * 10 div 100 = x div 10" by simp
  have m: "x * 10 mod 100 = (x mod 10) * 10" by (simp add: mult_mod_left)
  have p: "k = 0 \<or> 100 ^ (k - 1) \<le> x div 10"
    using assms(1) q by (cases k) (auto dest: zdiv_mono1 [of _ _ 100])
  have l: "x div 10 < 100 ^ k" using assms(2) by (intro int_div_less) simp_all
  have f: "finish_integers (x div 10) = rev (digs k (x div 10))" "keep_striping (x div 10) = rev (rstrip (digs k (x div 10)))"
    using finish_integers_digs [of "x div 10" k] keep_striping_digs [of "x div 10" k] p l x by (simp_all add: pos_imp_zdiv_nonneg_iff)
  show ?thesis unfolding odd_integer_def Let_def
    using snoc_digs [of "x * 10" k] assms x f q m by (simp add: minus_div_mult_eq_mod rstrip_snoc)
qed

text \<open>
  The integer \<open>mt\<close> of the loops over decimal values holds the remaining pairs at its left end: ten times it is
  \<open>z * 100 ^ (5 - k)\<close> when \<open>k\<close> pairs are left.
\<close>

lemma longword_step:
  fixes mt z :: int
  assumes "mt * 10 = z * 100 ^ (4 - k)" and "k \<le> 4" and "0 \<le> z"
  shows "mt div 10000000 = z div 100 ^ k" and "(mt - mt div 10000000 * 10000000) * 100 * 10 = z mod 100 ^ k * 100 ^ (5 - k)"
proof -
  have p: "(100 :: int) ^ 4 = 100 ^ k * 100 ^ (4 - k)" using assms(2) by (simp flip: power_add)
  have "mt div 10000000 = (mt * 10) div 100 ^ 4" by simp
  also have "\<dots> = z div 100 ^ k" unfolding assms(1) p by simp
  finally show d: "mt div 10000000 = z div 100 ^ k" .
  have "(mt - mt div 10000000 * 10000000) * 10 = mt * 10 mod 100 ^ 4" by (simp add: minus_div_mult_eq_mod mult_mod_left)
  also have "\<dots> = z mod 100 ^ k * 100 ^ (4 - k)" unfolding assms(1) p by (simp add: mult_mod_left)
  finally have "(mt - mt div 10000000 * 10000000) * 10 * 100 = z mod 100 ^ k * (100 ^ (4 - k) * 100)" by simp
  also have "5 - k = Suc (4 - k)" using assms(2) by simp
  then have "(100 :: int) ^ (4 - k) * 100 = 100 ^ (5 - k)" by simp
  finally show "(mt - mt div 10000000 * 10000000) * 100 * 10 = z mod 100 ^ k * 100 ^ (5 - k)" by (simp only: mult.commute mult.left_commute)
qed

lemma last_longword_digs:
  "mt * 10 = z * 100 ^ (5 - k) \<Longrightarrow> k \<le> 5 \<Longrightarrow> 0 \<le> z \<Longrightarrow> z < 100 ^ k \<Longrightarrow> last_longword k mt = Some (rstrip (digs k z))"
proof (induction k arbitrary: mt z)
  case 0
  then show ?case by (subst last_longword.simps) simp
next
  case (Suc k)
  have mz: "mt = 0 \<longleftrightarrow> z = 0" using Suc.prems(1) by auto
  note st = longword_step [of mt z k]
  have ih: "last_longword k ((mt - mt div 10000000 * 10000000) * 100) = Some (rstrip (digs k (z mod 100 ^ k)))"
    by (rule Suc.IH) (use st Suc.prems in auto)
  show ?case
  proof (cases "z = 0")
    case True
    then show ?thesis using mz by (subst last_longword.simps) (simp add: digs_zero rstrip_zeros [of "[]", simplified])
  next
    case False
    then have "rstrip (digs (Suc k) z) = z div 100 ^ k # rstrip (digs k (z mod 100 ^ k))"
      using rstrip_digs_Nil [OF Suc.prems(3,4)] by (simp split: if_splits)
    then show ?thesis using False mz ih st(1) Suc.prems by (subst last_longword.simps) simp
  qed
qed

lemma four_pairs_digs:
  "mt * 10 = z * 100 ^ (5 - k) \<Longrightarrow> k \<le> 5 \<Longrightarrow> j \<le> k \<Longrightarrow> 0 \<le> z \<Longrightarrow> four_pairs j mt = take j (digs k z)"
proof (induction j arbitrary: mt z k)
  case (Suc j)
  then obtain k' where k: "k = Suc k'" by (cases k) auto
  note st = longword_step [of mt z k']
  have "four_pairs j ((mt - mt div 10000000 * 10000000) * 100) = take j (digs k' (z mod 100 ^ k'))"
    by (rule Suc.IH) (use st Suc.prems k in auto)
  then show ?case using st(1) Suc.prems k by simp
qed simp

text \<open>The pairs of an 18-digit mantissa.\<close>

lemma flt_subsc_digs:
  assumes "0 \<le> m1" and "m1 < MANT_HI" and "0 \<le> m0" and "m0 < MANT_HI"
  shows "flt_subsc m1 m0 = Some (m1 div 10000000 # rstrip (digs 8 ((m1 * MANT_HI + m0) mod 100 ^ 8)))"
proof -
  define a where "a = m1 mod 10000000"
  define my where "my = m0 div 100000000"
  define w where "w = m0 mod 100000000"
  have a: "0 \<le> a" "a < 10000000" "m1 - m1 div 10000000 * 10000000 = a" by (simp_all add: a_def minus_div_mult_eq_mod)
  have my: "0 \<le> my" "my < 10" "m0 = my * 100000000 + w" "0 \<le> w" "w < 100000000" "m0 - my * 100000000 = w"
    using assms(3,4) by (simp_all add: my_def w_def minus_div_mult_eq_mod pos_imp_zdiv_nonneg_iff int_div_less)
  have M: "(m1 * MANT_HI + m0) mod 100 ^ 8 = a * MANT_HI + m0"
  proof -
    have "m1 * MANT_HI + m0 = (m1 div 10000000) * 100 ^ 8 + (a * MANT_HI + m0)" using a(3) by simp
    moreover have "0 \<le> a * MANT_HI + m0" "a * MANT_HI + m0 < 100 ^ 8" using a assms(3,4) by simp_all
    ultimately show ?thesis by (rule divmod_eq(2))
  qed
  define z where "z = a * 10 + my"
  have z: "0 \<le> z" "z < 100 ^ 4" using a my by (simp_all add: z_def)
  have split: "digs 8 (a * MANT_HI + m0) = digs 4 z @ digs 4 w"
    using digs_append [of w 4 z 4] z my a by (simp add: z_def algebra_simps)
  have z5: "digs 5 (z * 100) = digs 4 z @ [0]" using digs_append [of 0 1 z 4] z by simp
  show ?thesis
  proof (cases "w = 0")
    case True
    have "last_longword 5 (a * 100 + my * 10) = Some (rstrip (digs 5 (z * 100)))"
      by (rule last_longword_digs) (use z in \<open>simp_all add: z_def algebra_simps\<close>)
    then have "last_longword 5 (a * 100 + my * 10) = Some (rstrip (digs 8 (a * MANT_HI + m0)))"
      unfolding split True z5 using rstrip_zeros [of "digs 4 z" 4] rstrip_snoc [of "digs 4 z" 0] by (simp add: digs_zero)
    moreover have "m0 = 0 \<Longrightarrow> my = 0" by (simp add: my_def)
    ultimately show ?thesis unfolding flt_subsc_def Let_def a(3) M my_def [symmetric] my(6) True by auto
  next
    case False
    have w5: "digs 5 (w * 100) = digs 4 w @ [0]" using digs_append [of 0 1 w 4] my by simp
    have "last_longword 5 (w * 10) = Some (rstrip (digs 5 (w * 100)))"
      by (rule last_longword_digs) (use my in simp_all)
    then have l: "last_longword 5 (w * 10) = Some (rstrip (digs 4 w))" by (simp add: w5 rstrip_snoc)
    have "four_pairs 4 (a * 100 + my * 10) = take 4 (digs 5 (z * 100))"
      by (rule four_pairs_digs) (use z in \<open>simp_all add: z_def algebra_simps\<close>)
    then have f: "four_pairs 4 (a * 100 + my * 10) = digs 4 z" by (simp add: z5)
    have "rstrip (digs 4 w) \<noteq> []" using rstrip_digs_Nil [of w 4] my False by simp
    then have "rstrip (digs 8 (a * MANT_HI + m0)) = digs 4 z @ rstrip (digs 4 w)" unfolding split by (rule rstrip_append)
    moreover have "m0 \<noteq> 0" using my False by auto
    ultimately show ?thesis unfolding flt_subsc_def Let_def a(3) M my_def [symmetric] my(6) using l f False by simp
  qed
qed

section \<open>The encoding of a number\<close>

definition pair_code :: "bool \<Rightarrow> int \<Rightarrow> byte" where
  "pair_code neg p = (if neg then neg_code else pos_code) ! nat p"

definition enc_num :: "bool \<Rightarrow> int \<Rightarrow> int \<Rightarrow> byte list" where
  "enc_num neg e M = exp_byte neg (e + 128) # map (pair_code neg) (rstrip (digs 9 M)) @ (if neg then [NEG_MNTSSA_END] else [])"

lemma length_codes [simp]: "length pos_code = 100" "length neg_code = 100"
  by (simp_all add: pos_code_def neg_code_def)

lemma cvt_all_codes: "\<forall>p \<in> set ps. 0 \<le> p \<and> p < 100 \<Longrightarrow> cvt_all neg ps = Inr (map (pair_code neg) ps)"
  by (induction ps) (simp_all add: cvt_def pair_code_def)

lemma rstrip_subset: "set (rstrip ps) \<subseteq> set ps"
  by (induction ps) auto

lemma finish_number_codes:
  assumes "0 \<le> M" and "M < 100 ^ 9" and "ps = rstrip (digs 9 M)"
  shows "finish_number neg (e + 128) ps = Inr (enc_num neg e M)"
proof -
  have "\<forall>p \<in> set ps. 0 \<le> p \<and> p < 100" using digs_range [OF assms(1,2)] rstrip_subset assms(3) by blast
  then show ?thesis by (simp add: finish_number_def cvt_all_codes enc_num_def assms(3))
qed

text \<open>The mantissa of a decimal value, and the bytes of its subscript.\<close>

lemma subsc_flt:
  assumes "mnum_ok (MV_nm s e m1 m0)" and "e \<noteq> 0"
  shows "subsc_num (MV_nm s e m1 m0) = Inr (enc_num s e (m1 * MANT_HI + m0))"
proof -
  have m: "MANT_LO \<le> m1" "m1 < MANT_HI" "0 \<le> m0" "m0 < MANT_HI" using assms by auto
  let ?M = "m1 * MANT_HI + m0"
  have d: "?M div 100 ^ 8 = m1 div 10000000"
  proof -
    have eq: "?M = (m1 div 10000000) * 100 ^ 8 + (m1 mod 10000000 * MANT_HI + m0)"
    proof -
      have q: "m1 div 10000000 * 10000000 + m1 mod 10000000 = m1" by simp
      show ?thesis by simp (use q in linarith)
    qed
    have b: "m1 mod 10000000 < 10000000" "0 \<le> m1 mod 10000000" by simp_all
    have r: "0 \<le> m1 mod 10000000 * MANT_HI + m0" using b(2) m(3) by simp
    have "m1 mod 10000000 * MANT_HI + m0 < 10000000000000000" using b(1) m(4) by linarith
    then show ?thesis using divmod_eq(1) [OF eq r] by simp
  qed
  have "10 \<le> m1 div 10000000" using zdiv_mono1 [OF m(1), of 10000000] by simp
  then have p: "m1 div 10000000 # rstrip (digs 8 (?M mod 100 ^ 8)) = rstrip (digs 9 ?M)"
  proof -
    have "(9 :: nat) = Suc 8" by simp
    then have "digs 9 ?M = m1 div 10000000 # digs 8 (?M mod 100 ^ 8)" by (simp only: digs.simps d)
    then show ?thesis using \<open>10 \<le> m1 div 10000000\<close> by (simp only: rstrip.simps) auto
  qed
  have "flt_subsc m1 m0 = Some (rstrip (digs 9 ?M))" using flt_subsc_digs [of m1 m0] m p by simp
  moreover have "finish_number s (e + 128) (rstrip (digs 9 ?M)) = Inr (enc_num s e ?M)"
    by (rule finish_number_codes) (use m in simp_all)
  ultimately show ?thesis by (simp add: add.commute)
qed

text \<open>The path for integers gives the same bytes as the promoted value would.\<close>

lemma int_subsc_digs:
  assumes "0 < mt" and "mt < 10 ^ 9"
  shows "\<exists>d. 1 \<le> d \<and> d \<le> 9 \<and> 10 ^ (d - 1) \<le> mt \<and> mt < 10 ^ d
    \<and> int_subsc mt = (187 + int d, rstrip (digs 9 (mt * 10 ^ (18 - d))))"
proof -
  have even: "rev (keep_striping mt) = rstrip (digs 9 (mt * 10 ^ (18 - 2 * k)))"
    if "100 ^ (k - 1) \<le> mt" "mt < 100 ^ k" "1 \<le> k" "k \<le> 9" for k
  proof -
    have e: "18 - 2 * k = 2 * (9 - k)" using that(4) by simp
    have "(10 :: int) ^ (18 - 2 * k) = 100 ^ (9 - k)" unfolding e by (simp add: power_mult)
    then show ?thesis using keep_striping_digs [of mt k] digs_scale [of mt k "9 - k"] that assms(1) by simp
  qed
  have odd: "rev (odd_integer mt) = rstrip (digs 9 (mt * 10 ^ (18 - (2 * k + 1))))"
    if "100 ^ k \<le> mt * 10" "mt * 10 < 100 ^ Suc k" "k \<le> 8" for k
  proof -
    have e: "18 - (2 * k + 1) = Suc (2 * (8 - k))" using that(3) by simp
    have "(10 :: int) ^ (18 - (2 * k + 1)) = 10 * 100 ^ (8 - k)" unfolding e by (simp add: power_mult)
    then have s: "mt * 10 ^ (18 - (2 * k + 1)) = (mt * 10) * 100 ^ (8 - k)" by simp
    have "Suc k + (8 - k) = 9" using that(3) by simp
    then show ?thesis unfolding s
      using odd_integer_digs [OF that(1,2)] digs_scale [of "mt * 10" "Suc k" "8 - k"] that(2) assms(1) by (simp only: rev_rev_ident)
  qed
  have one: "[mt * 10] = rstrip (digs 9 (mt * 10 ^ 17))" if "mt < 10"
    using digs_scale [of "mt * 10" 1 8] that assms(1) by (simp add: mult.commute)
  have two: "[mt] = rstrip (digs 9 (mt * 10 ^ 16))" if "mt < 100"
    using digs_scale [of mt 1 8] that assms(1) by simp
  consider "mt < 10" | "10 \<le> mt" "mt < 100" | "100 \<le> mt" "mt < 1000" | "1000 \<le> mt" "mt < 10000"
    | "10000 \<le> mt" "mt < 100000" | "100000 \<le> mt" "mt < 1000000" | "1000000 \<le> mt" "mt < 10000000"
    | "10000000 \<le> mt" "mt < 100000000" | "100000000 \<le> mt" by linarith
  then show ?thesis
  proof cases
    case 1
    then show ?thesis using one assms by (intro exI [of _ 1]) (simp add: int_subsc_def)
  next
    case 2
    then show ?thesis using two by (intro exI [of _ 2]) (simp add: int_subsc_def)
  next
    case 3
    then show ?thesis using odd [of 1] by (intro exI [of _ 3]) (simp add: int_subsc_def)
  next
    case 4
    then show ?thesis using even [of 2] by (intro exI [of _ 4]) (simp add: int_subsc_def)
  next
    case 5
    then show ?thesis using odd [of 2] by (intro exI [of _ 5]) (simp add: int_subsc_def)
  next
    case 6
    then show ?thesis using even [of 3] by (intro exI [of _ 6]) (simp add: int_subsc_def)
  next
    case 7
    then show ?thesis using odd [of 3] by (intro exI [of _ 7]) (simp add: int_subsc_def)
  next
    case 8
    then show ?thesis using even [of 4] by (intro exI [of _ 8]) (simp add: int_subsc_def)
  next
    case 9
    then show ?thesis using odd [of 4] assms by (intro exI [of _ 9]) (simp add: int_subsc_def)
  qed
qed

lemma subsc_int:
  assumes "mnum_ok (MV_int m)" and "m \<noteq> 0"
  shows "\<exists>e M. subsc_num (MV_int m) = Inr (enc_num (m < 0) e M) \<and> 60 \<le> e \<and> e \<le> 68 \<and> 10 ^ 17 \<le> M \<and> M < 10 ^ 18
    \<and> mnum_val (MV_int m) = (if m < 0 then -1 else 1) * M * 10 ^ nat e"
proof -
  define a where "a = (if 0 > m then - m else m)"
  have a: "0 < a" "a < 10 ^ 9" using assms by (auto simp: a_def)
  obtain d where d: "1 \<le> d" "d \<le> 9" "10 ^ (d - 1) \<le> a" "a < 10 ^ d"
    "int_subsc a = (187 + int d, rstrip (digs 9 (a * 10 ^ (18 - d))))" using int_subsc_digs [OF a] by blast
  let ?M = "a * 10 ^ (18 - d)"
  have "10 ^ (d - 1) * 10 ^ (18 - d) \<le> ?M" using d(3) by (intro mult_right_mono) auto
  moreover have "(10 :: int) ^ (d - 1) * 10 ^ (18 - d) = 10 ^ 17" using d(1,2) by (simp flip: power_add)
  ultimately have lo: "10 ^ 17 \<le> ?M" by (simp only:)
  have "?M < 10 ^ d * 10 ^ (18 - d)" using d(4) by (intro mult_strict_right_mono) auto
  moreover have "(10 :: int) ^ d * 10 ^ (18 - d) = 10 ^ 18" using d(2) by (simp flip: power_add)
  ultimately have hi: "?M < 10 ^ 18" by (simp only:)
  have n: "nat (59 + int d) = 59 + d" by simp
  have "(10 :: int) ^ (18 - d) * 10 ^ (59 + d) = 10 ^ (18 - d + (59 + d))" by (simp only: power_add)
  also have "18 - d + (59 + d) = 77" using d(2) by simp
  finally have "(if m < 0 then -1 else 1) * ?M * 10 ^ nat (59 + int d) = (if m < 0 then -1 else 1) * a * 10 ^ 77"
    unfolding n by (simp only: mult.assoc)
  then have v: "mnum_val (MV_int m) = (if m < 0 then -1 else 1) * ?M * 10 ^ nat (59 + int d)"
    by (auto simp: a_def)
  have "finish_number (0 > m) (59 + int d + 128) (rstrip (digs 9 ?M)) = Inr (enc_num (0 > m) (59 + int d) ?M)"
    by (rule finish_number_codes) (use lo hi in auto)
  then have "subsc_num (MV_int m) = Inr (enc_num (m < 0) (59 + int d) ?M)"
    using d(5) assms(2) by (simp flip: a_def)
  then show ?thesis using v lo hi d by (intro exI [of _ "59 + int d"] exI [of _ ?M]) auto
qed

text \<open>Both representations: the bytes are determined by sign, exponent and mantissa.\<close>

definition num_subs_ok :: "mnum \<Rightarrow> bool" where
  "num_subs_ok n \<longleftrightarrow> mnum_ok n \<and> (case n of MV_int m \<Rightarrow> True | MV_nm s e m1 m0 \<Rightarrow> EXPLO \<le> e \<and> e < EXPHI)"

lemma subsc_num_cases:
  assumes "num_subs_ok n"
  shows "(mnum_val n = 0 \<and> subsc_num n = Inr [SUBSCRIPT_ZERO]) \<or>
    (\<exists>s e M. subsc_num n = Inr (enc_num s e M) \<and> 20 \<le> e \<and> e < 110 \<and> 10 ^ 17 \<le> M \<and> M < 10 ^ 18
      \<and> mnum_val n = (if s then -1 else 1) * (M * 10 ^ nat e))"
proof (cases n)
  case (MV_int m)
  show ?thesis
  proof (cases "m = 0")
    case False
    obtain e M where "subsc_num (MV_int m) = Inr (enc_num (m < 0) e M)" "60 \<le> e" "e \<le> 68" "10 ^ 17 \<le> M" "M < 10 ^ 18"
      "mnum_val (MV_int m) = (if m < 0 then -1 else 1) * M * 10 ^ nat e"
      using subsc_int [of m] assms MV_int False by (auto simp: num_subs_ok_def simp del: mnum_val.simps)
    then show ?thesis using MV_int
      by (intro disjI2 exI [of _ "m < 0"] exI [of _ e] exI [of _ M]) (simp add: mult.assoc del: mnum_val.simps)
  qed (simp add: MV_int)
next
  case (MV_nm s e m1 m0)
  then have o: "mnum_ok (MV_nm s e m1 m0)" "e \<noteq> 0" "20 \<le> e" "e < 110" using assms by (auto simp: num_subs_ok_def)
  then show ?thesis using subsc_flt [OF o(1,2)] MV_nm
    by (intro disjI2 exI [of _ s] exI [of _ e] exI [of _ "m1 * MANT_HI + m0"]) auto
qed

section \<open>Bytewise order of numbers\<close>

lemma codes_sorted: "sorted_wrt (<) pos_code" "sorted_wrt (>) neg_code"
  by code_simp+

lemma codes_range: "list_all (\<lambda>b. 0 < b) pos_code" "list_all (\<lambda>b. b < 0xFF \<and> 0 < b) neg_code"
  by code_simp+

lemma pair_code_less:
  assumes "0 \<le> p" "p < 100" "0 \<le> q" "q < 100"
  shows "pair_code False p < pair_code False q \<longleftrightarrow> p < q" and "pair_code True p < pair_code True q \<longleftrightarrow> q < p"
    and "pair_code s p = pair_code s q \<longleftrightarrow> p = q" and "0 < pair_code s p" and "pair_code True p < 0xFF"
proof -
  have m: "nat a < nat b \<Longrightarrow> 0 \<le> a \<Longrightarrow> b < 100 \<Longrightarrow> pair_code False a < pair_code False b \<and> pair_code True b < pair_code True a" for a b
    using sorted_wrt_nth_less [OF codes_sorted(1), of "nat a" "nat b"] sorted_wrt_nth_less [OF codes_sorted(2), of "nat a" "nat b"]
    by (simp add: pair_code_def nat_less_iff)
  consider "p < q" | "q < p" | "p = q" by linarith
  then have "(pair_code False p < pair_code False q \<longleftrightarrow> p < q) \<and> (pair_code True p < pair_code True q \<longleftrightarrow> q < p)
      \<and> (pair_code s p = pair_code s q \<longleftrightarrow> p = q)"
  proof cases
    case 1
    then show ?thesis using m [of p q] assms by (cases s) (auto simp: nat_less_iff order.asym)
  next
    case 2
    then show ?thesis using m [of q p] assms by (cases s) (auto simp: nat_less_iff order.asym)
  qed simp
  then show "pair_code False p < pair_code False q \<longleftrightarrow> p < q" "pair_code True p < pair_code True q \<longleftrightarrow> q < p"
    "pair_code s p = pair_code s q \<longleftrightarrow> p = q" by blast+
  have "nat p < 100" using assms by simp
  then show "0 < pair_code s p" "pair_code True p < 0xFF"
    using codes_range by (cases s; simp add: pair_code_def list_all_length)+
qed

lemma pos_pairs_order:
  assumes "length xs = length ys" and "\<forall>p \<in> set xs \<union> set ys. 0 \<le> p \<and> p < 100"
  shows "map (pair_code False) (rstrip xs) @ [0] < map (pair_code False) (rstrip ys) @ [0] \<longleftrightarrow> xs < ys"
  using assms
proof (induction xs ys rule: list_induct2)
  case (Cons x xs y ys)
  have ih: "map (pair_code False) (rstrip xs) @ [0] < map (pair_code False) (rstrip ys) @ [0] \<longleftrightarrow> xs < ys"
    using Cons by simp
  have pos: "z \<in> set (rstrip xs) \<union> set (rstrip ys) \<Longrightarrow> 0 < pair_code False z" for z
    using Cons.prems rstrip_subset [of xs] rstrip_subset [of ys] pair_code_less(4) [of z 0] by auto
  have xy: "0 \<le> x" "x < 100" "0 \<le> y" "y < 100" using Cons.prems by auto
  note c = pair_code_less [OF xy]
  have n: "rstrip xs = [] \<Longrightarrow> rstrip ys \<noteq> [] \<Longrightarrow> xs < ys" "rstrip xs \<noteq> [] \<Longrightarrow> rstrip ys = [] \<Longrightarrow> \<not> xs < ys"
    "rstrip xs = [] \<Longrightarrow> rstrip ys = [] \<Longrightarrow> \<not> xs < ys"
    using ih pos by (cases "rstrip xs"; cases "rstrip ys"; auto)+
  have x0: "0 < pair_code False y" "\<not> pair_code False x < 0"
    using pair_code_less(4) [OF xy(3,4,1,2)] by simp_all
  show ?case using ih n c xy x0 by auto
qed simp

lemma neg_pairs_order:
  assumes "length xs = length ys" and "\<forall>p \<in> set xs \<union> set ys. 0 \<le> p \<and> p < 100"
  shows "map (pair_code True) (rstrip xs) @ [0xFF, 0] < map (pair_code True) (rstrip ys) @ [0xFF, 0] \<longleftrightarrow> ys < xs"
  using assms
proof (induction xs ys rule: list_induct2)
  case (Cons x xs y ys)
  have ih: "map (pair_code True) (rstrip xs) @ [0xFF, 0] < map (pair_code True) (rstrip ys) @ [0xFF, 0] \<longleftrightarrow> ys < xs"
    using Cons by simp
  have pos: "z \<in> set (rstrip xs) \<union> set (rstrip ys) \<Longrightarrow> pair_code True z < 0xFF" for z
    using Cons.prems rstrip_subset [of xs] rstrip_subset [of ys] pair_code_less(5) [of z 0] by auto
  have xy: "0 \<le> x" "x < 100" "0 \<le> y" "y < 100" using Cons.prems by auto
  note c = pair_code_less [OF xy]
  have n: "rstrip xs = [] \<Longrightarrow> rstrip ys \<noteq> [] \<Longrightarrow> \<not> ys < xs" "rstrip xs \<noteq> [] \<Longrightarrow> rstrip ys = [] \<Longrightarrow> ys < xs"
    "rstrip xs = [] \<Longrightarrow> rstrip ys = [] \<Longrightarrow> \<not> ys < xs"
    using ih pos by (cases "rstrip xs"; cases "rstrip ys"; force dest: order.asym)+
  have x0: "pair_code True x < 0xFF" "\<not> 0xFF < pair_code True y" "pair_code True x \<noteq> 0xFF" "0xFF \<noteq> pair_code True y"
    using pair_code_less(5) [OF xy] pair_code_less(5) [OF xy(3,4,1,2)] by (auto dest: order.asym)
  show ?case using ih n c xy x0 by auto
qed simp

lemma digs_less: "0 \<le> x \<Longrightarrow> x < 100 ^ k \<Longrightarrow> 0 \<le> y \<Longrightarrow> y < 100 ^ k \<Longrightarrow> digs k x < digs k y \<longleftrightarrow> x < y"
proof (induction k arbitrary: x y)
  case (Suc k)
  have x: "x = x div 100 ^ k * 100 ^ k + x mod 100 ^ k" and y: "y = y div 100 ^ k * 100 ^ k + y mod 100 ^ k"
    by (rule div_mult_mod_eq [symmetric])+
  have ih: "digs k (x mod 100 ^ k) < digs k (y mod 100 ^ k) \<longleftrightarrow> x mod 100 ^ k < y mod 100 ^ k"
    by (rule Suc.IH) simp_all
  have lt: "a div 100 ^ k < b div 100 ^ k \<Longrightarrow> a < b" for a b :: int
    by (metis linorder_not_less zdiv_mono1 zero_less_numeral zero_less_power)
  have eq: "x div 100 ^ k = y div 100 ^ k \<Longrightarrow> x < y \<longleftrightarrow> x mod 100 ^ k < y mod 100 ^ k"
    using x y by (metis add_less_cancel_left)
  consider "x div 100 ^ k < y div 100 ^ k" | "y div 100 ^ k < x div 100 ^ k" | "x div 100 ^ k = y div 100 ^ k" by linarith
  then show ?case using ih lt [of x y] lt [of y x] eq by cases auto
qed simp

lemma exp_byte_less:
  assumes "20 \<le> a" "a < 110" "20 \<le> b" "b < 110"
  shows "exp_byte False (a + 128) < exp_byte False (b + 128) \<longleftrightarrow> a < b"
    and "exp_byte True (a + 128) < exp_byte True (b + 128) \<longleftrightarrow> b < a"
    and "exp_byte s (a + 128) = exp_byte s (b + 128) \<longleftrightarrow> a = b"
    and "0x80 < exp_byte False (a + 128)" and "exp_byte False (a + 128) < 0xFF"
    and "exp_byte True (a + 128) < 0x80" and "1 < exp_byte True (a + 128)"
proof -
  have p: "uint (exp_byte False (x + 128)) = x + 128" if "20 \<le> x" "x < 110" for x
    using that by (simp only: exp_byte_def if_False uint_word_of_int) simp
  have n: "uint (exp_byte True (x + 128)) = 127 - x" if "20 \<le> x" "x < 110" for x
  proof -
    have "NOT (word_of_int (x + 128) :: byte) = word_of_int (- (x + 128) - 1)"
      by (simp only: not_eq_complement wi_hom_syms(1,4)) (simp add: wi_hom_syms)
    moreover have "(- (x + 128) - 1) mod 256 = 127 - x" by (rule divmod_eq(2) [of _ "- 1"]) (use that in simp_all)
    ultimately show ?thesis by (simp only: exp_byte_def if_True uint_word_of_int) simp
  qed
  show "exp_byte False (a + 128) < exp_byte False (b + 128) \<longleftrightarrow> a < b"
    "0x80 < exp_byte False (a + 128)" "exp_byte False (a + 128) < 0xFF"
    using p assms by (simp_all add: word_less_def)
  show "exp_byte True (a + 128) < exp_byte True (b + 128) \<longleftrightarrow> b < a" "exp_byte True (a + 128) < 0x80"
    "1 < exp_byte True (a + 128)"
    using n assms by (simp_all add: word_less_def)
  show "exp_byte s (a + 128) = exp_byte s (b + 128) \<longleftrightarrow> a = b"
    using p [OF assms(1,2)] p [OF assms(3,4)] n [OF assms(1,2)] n [OF assms(3,4)]
    by (cases s) (simp_all add: word_uint_eq_iff)
qed

text \<open>The bytes of two encoded numbers with the delimiter compare like their values.\<close>

lemma enc_num_order:
  assumes a: "20 \<le> a" "a < 110" "10 ^ 17 \<le> M" "M < 10 ^ 18" and b: "20 \<le> b" "b < 110" "10 ^ 17 \<le> N" "N < 10 ^ 18"
  shows "enc_num s a M @ [0] < enc_num t b N @ [0] \<longleftrightarrow>
    (if s then -1 else 1) * (M * 10 ^ nat a) < (if t then -1 else 1) * (N * 10 ^ nat b)"
proof -
  note e = exp_byte_less [OF a(1,2) b(1,2)]
  note z = exp_byte_less(4-7) [OF a(1,2) b(1,2)] exp_byte_less(4-7) [OF b(1,2) a(1,2)]
  have MN: "0 \<le> M" "M < 100 ^ 9" "0 \<le> N" "N < 100 ^ 9" using a b by simp_all
  have rng: "\<forall>p \<in> set (digs 9 M) \<union> set (digs 9 N). 0 \<le> p \<and> p < 100"
    using digs_range [OF MN(1,2)] digs_range [OF MN(3,4)] by auto
  have ord: "map (pair_code False) (rstrip (digs 9 M)) @ [0] < map (pair_code False) (rstrip (digs 9 N)) @ [0] \<longleftrightarrow> M < N"
    "map (pair_code True) (rstrip (digs 9 M)) @ [0xFF, 0] < map (pair_code True) (rstrip (digs 9 N)) @ [0xFF, 0] \<longleftrightarrow> N < M"
    using pos_pairs_order [of "digs 9 M" "digs 9 N"] neg_pairs_order [of "digs 9 M" "digs 9 N"] rng digs_less [OF MN]
      digs_less [OF MN(3,4,1,2)] by simp_all
  have pw: "0 < M * 10 ^ nat a" "0 < N * 10 ^ nat b" using a b by (simp_all add: mult_pos_pos)
  have lt: "a < b \<Longrightarrow> M * 10 ^ nat a < N * 10 ^ nat b" "b < a \<Longrightarrow> N * 10 ^ nat b < M * 10 ^ nat a"
    using mag_order [of M N "nat a" "nat b"] mag_order [of N M "nat b" "nat a"] a b by auto
  consider "a < b" | "b < a" | "a = b" by linarith
  then have mag: "M * 10 ^ nat a < N * 10 ^ nat b \<longleftrightarrow> a < b \<or> a = b \<and> M < N"
    "N * 10 ^ nat b < M * 10 ^ nat a \<longleftrightarrow> b < a \<or> a = b \<and> N < M"
    using lt by (cases; auto)+
  show ?thesis
  proof (cases s; cases t)
    assume "s" "t"
    then show ?thesis using e(2) e(3) [of True] ord(2) mag(2) by (auto simp: enc_num_def)
  next
    assume "s" "\<not> t"
    moreover have "exp_byte True (a + 128) < exp_byte False (b + 128)" using z(3,5) by (rule less_trans)
    ultimately show ?thesis using pw by (simp add: enc_num_def)
  next
    assume "\<not> s" "t"
    moreover have "exp_byte True (b + 128) < exp_byte False (a + 128)" using z(7,1) by (rule less_trans)
    ultimately show ?thesis using pw by (auto simp: enc_num_def dest: order.asym)
  next
    assume "\<not> s" "\<not> t"
    then show ?thesis using e(1) e(3) [of False] ord(1) mag(1) by (auto simp: enc_num_def)
  qed
qed

lemma enc_num_zero:
  assumes "20 \<le> a" "a < 110" "10 ^ 17 \<le> M"
  shows "enc_num s a M @ [0] < [SUBSCRIPT_ZERO, 0] \<longleftrightarrow> s" and "[SUBSCRIPT_ZERO, 0] < enc_num s a M @ [0] \<longleftrightarrow> \<not> s"
  using exp_byte_less(4,6) [OF assms(1,2) assms(1,2)] by (cases s; auto simp: enc_num_def dest: order.asym)+

lemma subsc_num_order:
  assumes "num_subs_ok u" and "num_subs_ok v"
  shows "\<exists>us vs. subsc_num u = Inr us \<and> subsc_num v = Inr vs \<and> (us @ [0] < vs @ [0] \<longleftrightarrow> mnum_val u < mnum_val v)"
proof -
  have sg: "(if s then -1 else 1) * (M * 10 ^ nat e) < 0 \<longleftrightarrow> s" "0 < (if s then -1 else 1) * (M * 10 ^ nat e) \<longleftrightarrow> \<not> s"
    if "10 ^ 17 \<le> M" for s e and M :: int
  proof -
    have "0 < M * 10 ^ nat e" using that by (simp add: mult_pos_pos)
    then show "(if s then -1 else 1) * (M * 10 ^ nat e) < 0 \<longleftrightarrow> s" "0 < (if s then -1 else 1) * (M * 10 ^ nat e) \<longleftrightarrow> \<not> s"
      by (cases s; simp)+
  qed
  from subsc_num_cases [OF assms(1)] subsc_num_cases [OF assms(2)] show ?thesis
  proof (elim disjE exE conjE)
    fix s e M
    assume "mnum_val v = 0" "subsc_num v = Inr [SUBSCRIPT_ZERO]" "subsc_num u = Inr (enc_num s e M)" "20 \<le> e" "e < 110"
      "10 ^ 17 \<le> M" "mnum_val u = (if s then -1 else 1) * (M * 10 ^ nat e)"
    then show ?thesis using enc_num_zero(1) [of e M s] sg(1) [of M s e] by (auto simp del: mnum_val.simps)
  next
    fix s e M
    assume "mnum_val u = 0" "subsc_num u = Inr [SUBSCRIPT_ZERO]" "subsc_num v = Inr (enc_num s e M)" "20 \<le> e" "e < 110"
      "10 ^ 17 \<le> M" "mnum_val v = (if s then -1 else 1) * (M * 10 ^ nat e)"
    then show ?thesis using enc_num_zero(2) [of e M s] sg(2) [of M s e] by (auto simp del: mnum_val.simps)
  next
    fix s e M t f N
    assume "subsc_num u = Inr (enc_num s e M)" "20 \<le> e" "e < 110" "10 ^ 17 \<le> M" "M < 10 ^ 18"
      "mnum_val u = (if s then -1 else 1) * (M * 10 ^ nat e)"
      "subsc_num v = Inr (enc_num t f N)" "20 \<le> f" "f < 110" "10 ^ 17 \<le> N" "N < 10 ^ 18"
      "mnum_val v = (if t then -1 else 1) * (N * 10 ^ nat f)"
    then show ?thesis using enc_num_order [of e M f N s t] by (simp del: mnum_val.simps)
  qed simp
qed

section \<open>Bytewise order of strings and of all subscripts\<close>

lemma byte_le1: "(b :: byte) \<le> 1 \<longleftrightarrow> b = 0 \<or> b = 1"
  by (simp add: word_le_nat_alt unat_eq_0 [symmetric] word_unat_eq_iff le_Suc_eq)

lemma byte_pos: "(0 :: byte) < b \<longleftrightarrow> b \<noteq> 0"
  by (simp add: word_neq_0_conv)

lemma subsc_escape_order: "subsc_escape s @ [0] < subsc_escape t @ [0] \<longleftrightarrow> s < t"
proof (induction s arbitrary: t)
  case Nil
  show ?case by (cases t) (auto simp: byte_pos byte_le1)
next
  case (Cons a s)
  show ?case
  proof (cases t)
    case Nil
    then show ?thesis by (auto simp: byte_le1)
  next
    case t: (Cons b t')
    consider "a \<le> 1" "b \<le> 1" | "a \<le> 1" "\<not> b \<le> 1" | "\<not> a \<le> 1" "b \<le> 1" | "\<not> a \<le> 1" "\<not> b \<le> 1" by blast
    then show ?thesis
    proof cases
      case 1
      then show ?thesis using Cons.IH [of t'] t by (auto simp: byte_le1)
    next
      case 2
      then have "a < b" "1 < b" by auto
      then show ?thesis using 2 t by auto
    next
      case 3
      then have "b < a" "1 < a" by auto
      then show ?thesis using 3 t by (auto dest: order.asym)
    qed (use Cons.IH [of t'] t in simp)
  qed
qed

fun subs_ok :: "mval \<Rightarrow> bool" where
  "subs_ok (MV_num n) \<longleftrightarrow> num_subs_ok n"
| "subs_ok (MV_str s) \<longleftrightarrow> True"
| "subs_ok v \<longleftrightarrow> False"

definition subsc_bytes :: "bool \<Rightarrow> mval \<Rightarrow> byte list" where
  "subsc_bytes std v = (case v of MV_num n \<Rightarrow> (case subsc_num n of Inl e \<Rightarrow> [] | Inr bs \<Rightarrow> bs)
     | MV_str s \<Rightarrow> subsc_str std s | _ \<Rightarrow> [])"

lemma num_bytes_head:
  assumes "num_subs_ok n"
  shows "\<exists>b bs. subsc_bytes std (MV_num n) = b # bs \<and> 1 < b \<and> b < 0xFF"
  using subsc_num_cases [OF assms]
proof (elim disjE exE conjE)
  fix s e M
  assume "subsc_num n = Inr (enc_num s e M)" and e: "20 \<le> e" "e < 110"
  moreover note x = exp_byte_less(4-7) [OF e e]
  have "1 < exp_byte s (e + 128) \<and> exp_byte s (e + 128) < 0xFF"
    using x less_trans [OF _ x(1), of 1] less_trans [OF x(3), of "0xFF"] by (cases s) simp_all
  ultimately show ?thesis by (simp add: subsc_bytes_def enc_num_def)
qed (simp add: subsc_bytes_def)

lemma str_bytes: "subsc_bytes std (MV_str s) = (if s = [] \<and> std then [1] else 0xFF # subsc_escape s)"
  by (simp add: subsc_bytes_def subsc_str_def)

text \<open>The order of the bytes is the collation order of the subscripts.\<close>

lemma subsc_bytes_order:
  assumes "subs_ok a" and "subs_ok b"
  shows "subsc_bytes std a @ [0] < subsc_bytes std b @ [0] \<longleftrightarrow> crank std a < crank std b"
proof (cases a)
  case a: (MV_num m)
  show ?thesis
  proof (cases b)
    case b: (MV_num n)
    then show ?thesis using a assms subsc_num_order [of m n] by (auto simp: subsc_bytes_def crank_less simp del: mnum_val.simps)
  next
    case b: (MV_str t)
    obtain x xs where "subsc_bytes std a = x # xs" "1 < x" "x < 0xFF" using num_bytes_head [of m std] a assms by auto
    then show ?thesis using a b by (auto simp: str_bytes crank_less dest: order.asym)
  qed (use assms in auto)
next
  case a: (MV_str s)
  show ?thesis
  proof (cases b)
    case b: (MV_num n)
    obtain x xs where "subsc_bytes std b = x # xs" "1 < x" "x < 0xFF" using num_bytes_head [of n std] b assms by auto
    then show ?thesis using a b by (auto simp: str_bytes crank_less dest: order.asym)
  next
    case b: (MV_str t)
    have "t \<noteq> [] \<Longrightarrow> [] < t" "\<not> t < []" by (cases t; simp)+
    then show ?thesis using a b subsc_escape_order [of s t] by (auto simp: str_bytes crank_less)
  qed (use assms in auto)
qed (use assms in auto)

section \<open>Building keys\<close>

definition gvkey_ok :: "gv_key \<Rightarrow> bool" where
  "gvkey_ok key \<longleftrightarrow> length (key_base key) = key_end key + 1 \<and> key_end key < key_top key"

lemma length_escape: "length (subsc_escape s) = length s + count_escapes s"
  by (induction s) (auto simp: count_escapes_def)

lemma rstrip_length: "length (rstrip ps) \<le> length ps"
  by (induction ps) auto

lemma subsc_num_length:
  assumes "num_subs_ok n"
  shows "\<exists>bs. subsc_num n = Inr bs \<and> bs = subsc_bytes std (MV_num n) \<and> length bs \<le> 11"
proof -
  have "length (enc_num s e M) \<le> 11" for s e M
    using rstrip_length [of "digs 9 M"] by (cases s) (simp_all add: enc_num_def)
  then show ?thesis using subsc_num_cases [OF assms] by (auto simp: subsc_bytes_def)
qed

text \<open>
  On a key with the space that the caller leaves for a number, adding a subscript stays in the buffer, and it
  fails only with an overflow.
\<close>

lemma mval2subsc_result:
  assumes "gvkey_ok key" and "subs_ok v" and "int (key_top key) - int (key_end key) \<ge> int MAX_GVKEY_PADDING_LEN + 1"
  shows "mval2subsc None v key std =
    (let bs = subsc_bytes std v; new_end = key_end key + length bs + 1
     in if int (key_top key) - int new_end < int (MAX_GVKEY_PADDING_LEN + 1) then Inl ERR_GVSUBOFLOW
        else Inr (key\<lparr>key_base := take (key_end key) (key_base key) @ bs @ [0, 0], key_prev := key_end key, key_end := new_end\<rparr>))"
proof (cases v)
  case (MV_num n)
  then show ?thesis using subsc_num_length [of n std] assms by (auto simp: mval2subsc_def add_subsc_def Let_def)
next
  case (MV_str s)
  define bs where "bs = subsc_bytes std (MV_str s)"
  have b: "subsc_str std s = bs" using MV_str by (simp add: subsc_bytes_def bs_def)
  have l: "length bs = length s + count_escapes s + 1"
    using MV_str by (auto simp: bs_def str_bytes length_escape count_escapes_def)
  show ?thesis unfolding bs_def [symmetric] mval2subsc_def MV_str mval.case option.case add_subsc_def Let_def b
    using l assms(3) by auto
qed (use assms in auto)

lemma prefix_less: "(xs @ ys :: byte list) < xs @ zs \<longleftrightarrow> ys < zs"
  by (induction xs) auto

lemma key_delim_less: "(xs @ [0, 0] :: byte list) < ys @ [0, 0] \<longleftrightarrow> xs @ [0] < ys @ [0]"
  if "0 \<notin> set xs" "0 \<notin> set ys"
  using that by (induction xs ys rule: list_induct2') (auto simp: byte_pos)

lemma escape_nonzero: "0 \<notin> set (subsc_escape s)"
  by (induction s) (auto simp: byte_le1)

lemma bytes_nonzero:
  assumes "subs_ok v"
  shows "0 \<notin> set (subsc_bytes std v)"
proof (cases v)
  case (MV_num n)
  have "0 \<notin> set (enc_num s e M)" if "20 \<le> e" "e < 110" "10 ^ 17 \<le> M" "M < 10 ^ 18" for s e M
  proof -
    have "\<forall>p \<in> set (rstrip (digs 9 M)). 0 < pair_code s p"
      using digs_range [of M 9] rstrip_subset [of "digs 9 M"] that pair_code_less(4) [of _ 0 s] by fastforce
    moreover have "exp_byte s (e + 128) \<noteq> 0"
      using exp_byte_less(4,7) [OF that(1,2) that(1,2)] by (cases s) auto
    ultimately show ?thesis by (auto simp: enc_num_def)
  qed
  then show ?thesis using MV_num assms subsc_num_cases [of n] by (auto simp: subsc_bytes_def)
next
  case (MV_str s)
  then show ?thesis using escape_nonzero [of s] by (auto simp: str_bytes)
qed (use assms in auto)

section \<open>Decoding\<close>

text \<open>
  The loop of \<open>gvsub2str\<close> that copies a string subscript and undoes the escapes, from the byte after the prefix to the delimiter. The code
  does not test the length of the buffer here; \<open>room\<close> is the number of bytes that are left in it, and a byte written beyond it is an
  access out of bounds, like a read beyond the end of the subscript.
\<close>

fun gvsub2str_copy :: "nat \<Rightarrow> byte list \<Rightarrow> mstr res" where
  "gvsub2str_copy room [] = Inl OutOfBounds"
| "gvsub2str_copy room (ch # sub) =
     (if ch = 0 then Inr []
      else if ch = STR_SUB_ESCAPE
      then (case sub of [] \<Rightarrow> Inl OutOfBounds
        | ch2 # sub' \<Rightarrow> if room = 0 then Inl OutOfBounds else res_bind (gvsub2str_copy (room - 1) sub') (\<lambda>s. Inr ((ch2 - 1) # s)))
      else if room = 0 then Inl OutOfBounds else res_bind (gvsub2str_copy (room - 1) sub) (\<lambda>s. Inr (ch # s)))"

lemma copy_escape:
  "gvsub2str_copy room (subsc_escape s @ 0 # rest) = (if length s \<le> room then Inr s else Inl OutOfBounds)"
proof (induction s arbitrary: room)
  case (Cons c s)
  then show ?case by (cases room) (auto simp: byte_le1)
qed simp

section \<open>Properties\<close>

definition sample_key :: gv_key where
  "sample_key = \<lparr>key_base = [0x61, 0, 0], key_end = 2, key_prev = 0, key_top = 64\<rparr>"

lemma sample_key_ok: "gvkey_ok sample_key" "int (key_top sample_key) - int (key_end sample_key) \<ge> int MAX_GVKEY_PADDING_LEN + 1"
  by (simp_all add: gvkey_ok_def sample_key_def)

lemma sign_mag_eq:
  fixes x y :: int
  assumes "(if s then -1 else 1) * x = (if t then -1 else 1) * y" and "0 < x" and "0 < y"
  shows "s \<longleftrightarrow> t"
  using assms by (cases s; cases t) simp_all

lemma not_isl_Inr: "\<not> isl r \<Longrightarrow> \<exists>x. r = Inr x"
  by (cases r) simp_all

text \<open>C11: Keys that extend the same key by one subscript compare byte by byte as the subscripts collate: numbers by
  value in every representation, then strings bytewise, with the null string first under standard null collation. This is the order
  of the local variables too.\<close>

theorem mval2subsc_order:
  assumes "gvkey_ok key" and "int (key_top key) - int (key_end key) \<ge> int MAX_GVKEY_PADDING_LEN + 1"
    and "subs_ok a" and "subs_ok b" and "mval2subsc None a key std = Inr ka" and "mval2subsc None b key std = Inr kb"
  shows "key_base ka < key_base kb \<longleftrightarrow> crank std a < crank std b"
proof -
  have "key_base ka = take (key_end key) (key_base key) @ subsc_bytes std a @ [0, 0]"
    "key_base kb = take (key_end key) (key_base key) @ subsc_bytes std b @ [0, 0]"
    using mval2subsc_result [OF assms(1,3,2), of std] mval2subsc_result [OF assms(1,4,2), of std] assms(5,6)
    by (auto simp: Let_def split: if_splits)
  then show ?thesis
    using subsc_bytes_order [OF assms(3,4), of std] bytes_nonzero assms(3,4) by (simp add: prefix_less key_delim_less)
qed

theorem mval2subsc_order_witness:
  "\<exists>ka kb. mval2subsc None (MV_num (MV_int (- 1500))) sample_key False = Inr ka
    \<and> mval2subsc None (MV_str [0x41]) sample_key False = Inr kb \<and> key_base ka < key_base kb"
proof -
  have "subs_ok (MV_num (MV_int (- 1500)))" "subs_ok (MV_str [0x41])" by (simp_all add: num_subs_ok_def)
  moreover have "\<not> isl (mval2subsc None (MV_num (MV_int (- 1500))) sample_key False)"
    "\<not> isl (mval2subsc None (MV_str [0x41]) sample_key False)" by code_simp+
  then have "\<exists>ka. mval2subsc None (MV_num (MV_int (- 1500))) sample_key False = Inr ka"
    "\<exists>kb. mval2subsc None (MV_str [0x41]) sample_key False = Inr kb" by (auto dest!: not_isl_Inr)
  moreover have "crank False (MV_num (MV_int (- 1500))) < crank False (MV_str [0x41])" by (simp add: crank_less)
  ultimately show ?thesis using mval2subsc_order [OF sample_key_ok] by blast
qed

text \<open>C12: Adding a subscript writes only inside of the buffer: the result is either the overflow error or a key that
  ends with two delimiters and again leaves the space that the next number needs; the bytes of the subscript stand between the old end and
  the delimiters, without a zero byte.\<close>

theorem mval2subsc_in_bounds:
  assumes "gvkey_ok key" and "int (key_top key) - int (key_end key) \<ge> int MAX_GVKEY_PADDING_LEN + 1" and "subs_ok v"
  shows "mval2subsc None v key std = Inl ERR_GVSUBOFLOW \<or>
    (\<exists>key' bs. mval2subsc None v key std = Inr key' \<and> key_base key' = take (key_end key) (key_base key) @ bs @ [0, 0]
      \<and> 0 \<notin> set bs \<and> key_prev key' = key_end key \<and> gvkey_ok key'
      \<and> int (key_top key') - int (key_end key') \<ge> int MAX_GVKEY_PADDING_LEN + 1)"
proof -
  note r = mval2subsc_result [OF assms(1,3,2), of std]
  show ?thesis
  proof (cases "int (key_top key) - int (key_end key + length (subsc_bytes std v) + 1) < int (MAX_GVKEY_PADDING_LEN + 1)")
    case True
    then show ?thesis using r by (simp add: Let_def)
  next
    case False
    then show ?thesis using r assms(1) bytes_nonzero [OF assms(3), of std]
      by (intro disjI2 exI [of _ "key\<lparr>key_base := take (key_end key) (key_base key) @ subsc_bytes std v @ [0, 0],
          key_prev := key_end key, key_end := key_end key + length (subsc_bytes std v) + 1\<rparr>"]
          exI [of _ "subsc_bytes std v"]) (auto simp: Let_def gvkey_ok_def)
  qed
qed

theorem mval2subsc_in_bounds_witness:
  "\<exists>key' bs. mval2subsc None (MV_str [0, 1, 2]) sample_key True = Inr key' \<and> gvkey_ok key'"
proof -
  have "mval2subsc None (MV_str [0, 1, 2]) sample_key True \<noteq> Inl ERR_GVSUBOFLOW" by code_simp
  then show ?thesis using mval2subsc_in_bounds [OF sample_key_ok, of "MV_str [0, 1, 2]" True] by auto
qed

text \<open>C14: The conversion of integers gives the same bytes as the conversion of the promoted decimal value.\<close>

theorem subsc_int_is_decimal:
  assumes "mnum_ok (MV_int m)" and "m \<noteq> 0"
  shows "\<exists>w bs. promote m = Inr w \<and> subsc_num w = Inr bs \<and> subsc_num (MV_int m) = Inr bs"
proof -
  obtain s e m1 where p: "promote m = Inr (MV_nm s e m1 0)" "mnum_ok (MV_nm s e m1 0)"
    "mnum_val (MV_nm s e m1 0) = mnum_val (MV_int m)" using promote_spec [of m] assms(1) by auto
  have v: "mnum_val (MV_int m) \<noteq> 0" using assms(2) by simp
  have "e \<noteq> 0" using p(2,3) v by auto
  obtain f M where i: "subsc_num (MV_int m) = Inr (enc_num (m < 0) f M)" "60 \<le> f" "f \<le> 68" "10 ^ 17 \<le> M" "M < 10 ^ 18"
    "mnum_val (MV_int m) = (if m < 0 then -1 else 1) * M * 10 ^ nat f" using subsc_int [OF assms] by blast
  let ?N = "m1 * MANT_HI + 0"
  have N: "10 ^ 17 \<le> ?N" "?N < 10 ^ 18" "0 < e" using p(2) \<open>e \<noteq> 0\<close> by auto
  have d: "subsc_num (MV_nm s e m1 0) = Inr (enc_num s e ?N)" by (rule subsc_flt [OF p(2) \<open>e \<noteq> 0\<close>])
  have eq: "(if s then -1 else 1) * (?N * 10 ^ nat e) = (if m < 0 then -1 else 1) * (M * 10 ^ nat f)"
    using p(3) i(6) by (simp only: mnum_val.simps mult.assoc)
  have pos: "0 < ?N * 10 ^ nat e" "0 < M * 10 ^ nat f" using N(1) i(4) by (simp_all add: mult_pos_pos)
  have sm: "s \<longleftrightarrow> m < 0"
    by (rule sign_mag_eq [OF eq pos])
  then have mag: "?N * 10 ^ nat e = M * 10 ^ nat f" using eq by auto
  have nonneg: "0 \<le> ?N" "0 \<le> M" using N(1) i(4) by simp_all
  have "\<not> nat e < nat f" using mag_order [OF N(2) i(4) nonneg(1), of "nat e" "nat f"] unfolding mag by blast
  moreover have "\<not> nat f < nat e" using mag_order [OF i(5) N(1) nonneg(2), of "nat f" "nat e"] unfolding mag by blast
  ultimately have "nat e = nat f" by (meson linorder_neqE_nat)
  then have "e = f" "?N = M" using mag N(3) i(2) by auto
  then show ?thesis using d i(1) p(1) sm by auto
qed

theorem subsc_int_is_decimal_witness:
  "\<exists>w bs. promote (- 25) = Inr w \<and> subsc_num w = Inr bs \<and> subsc_num (MV_int (- 25)) = Inr bs"
  by (rule subsc_int_is_decimal) simp_all

end
