(* ===== verification/Subsc_Text.thy ===== *)
theory Subsc_Text
  imports Subsc Num_Str_Props
begin

text \<open>
  Reading subscripts back from keys: \<open>gvsub2str\<close> (\<open>gvsub2str.c\<close>, with the tables of \<open>sub2stbl.c\<close> in their little endian form) without translation
  and collation. The text that has been written is a list, the size \<open>len\<close> of the buffer bounds it, and a write past it is an error.
  What it writes for the key of a number is the text that \<open>n2s\<close> gives.
\<close>

section \<open>Tables\<close>

definition dpos :: "int list" where
  "dpos = [
     0x3030, 0x3130, 0x3230, 0x3330, 0x3430, 0x3530, 0x3630, 0x3730,
     0x3830, 0x3930, 0x2a30, 0x2a30, 0x2a30, 0x2a30, 0x2a30, 0x2a30,
     0x3031, 0x3131, 0x3231, 0x3331, 0x3431, 0x3531, 0x3631, 0x3731,
     0x3831, 0x3931, 0x2a31, 0x2a31, 0x2a31, 0x2a31, 0x2a31, 0x2a31,
     0x3032, 0x3132, 0x3232, 0x3332, 0x3432, 0x3532, 0x3632, 0x3732,
     0x3832, 0x3932, 0x2a32, 0x2a32, 0x2a32, 0x2a32, 0x2a32, 0x2a32,
     0x3033, 0x3133, 0x3233, 0x3333, 0x3433, 0x3533, 0x3633, 0x3733,
     0x3833, 0x3933, 0x2a33, 0x2a33, 0x2a33, 0x2a33, 0x2a33, 0x2a33,
     0x3034, 0x3134, 0x3234, 0x3334, 0x3434, 0x3534, 0x3634, 0x3734,
     0x3834, 0x3934, 0x2a34, 0x2a34, 0x2a34, 0x2a34, 0x2a34, 0x2a34,
     0x3035, 0x3135, 0x3235, 0x3335, 0x3435, 0x3535, 0x3635, 0x3735,
     0x3835, 0x3935, 0x2a35, 0x2a35, 0x2a35, 0x2a35, 0x2a35, 0x2a35,
     0x3036, 0x3136, 0x3236, 0x3336, 0x3436, 0x3536, 0x3636, 0x3736,
     0x3836, 0x3936, 0x2a36, 0x2a36, 0x2a36, 0x2a36, 0x2a36, 0x2a36,
     0x3037, 0x3137, 0x3237, 0x3337, 0x3437, 0x3537, 0x3637, 0x3737,
     0x3837, 0x3937, 0x2a37, 0x2a37, 0x2a37, 0x2a37, 0x2a37, 0x2a37,
     0x3038, 0x3138, 0x3238, 0x3338, 0x3438, 0x3538, 0x3638, 0x3738,
     0x3838, 0x3938, 0x2a38, 0x2a38, 0x2a38, 0x2a38, 0x2a38, 0x2a38,
     0x3039, 0x3139, 0x3239, 0x3339, 0x3439, 0x3539, 0x3639, 0x3739,
     0x3839, 0x3939, 0x2a39, 0x2a39, 0x2a39, 0x2a39, 0x2a39, 0x2a39]"

definition dneg :: "int list" where
  "dneg = [
     0x2b30, 0x2b30, 0x2b30, 0x2b30, 0x2b30, 0x2b30, 0x2b30, 0x2b30,
     0x2b30, 0x2b30, 0x2b30, 0x2b30, 0x2b30, 0x2b30, 0x2b30, 0x2b30,
     0x2b31, 0x2b31, 0x2b31, 0x2b31, 0x2b31, 0x2b31, 0x2b31, 0x2b31,
     0x2b31, 0x2b31, 0x2b31, 0x2b31, 0x2b31, 0x2b31, 0x2b31, 0x2b31,
     0x2b32, 0x2b32, 0x2b32, 0x2b32, 0x2b32, 0x2b32, 0x2b32, 0x2b32,
     0x2b32, 0x2b32, 0x2b32, 0x2b32, 0x2b32, 0x2b32, 0x2b32, 0x2b32,
     0x2b33, 0x2b33, 0x2b33, 0x2b33, 0x2b33, 0x2b33, 0x2b33, 0x2b33,
     0x2b33, 0x2b33, 0x2b33, 0x2b33, 0x2b33, 0x2b33, 0x2b33, 0x2b33,
     0x2b34, 0x2b34, 0x2b34, 0x2b34, 0x2b34, 0x2b34, 0x2b34, 0x2b34,
     0x2b34, 0x2b34, 0x2b34, 0x2b34, 0x2b34, 0x2b34, 0x2b34, 0x2b34,
     0x2b35, 0x2b35, 0x2b35, 0x2b35, 0x2b35, 0x2b35, 0x2b35, 0x2b35,
     0x2b35, 0x2b35, 0x2b35, 0x2b35, 0x2b35, 0x2b35, 0x2b35, 0x2b35,
     0x2a39, 0x2a39, 0x2a39, 0x2a39, 0x2a39, 0x3939, 0x3839, 0x3739,
     0x3639, 0x3539, 0x3439, 0x3339, 0x3239, 0x3139, 0x3039, 0x2a39,
     0x2a38, 0x2a38, 0x2a38, 0x2a38, 0x2a38, 0x3938, 0x3838, 0x3738,
     0x3638, 0x3538, 0x3438, 0x3338, 0x3238, 0x3138, 0x3038, 0x2a38,
     0x2a37, 0x2a37, 0x2a37, 0x2a37, 0x2a37, 0x3937, 0x3837, 0x3737,
     0x3637, 0x3537, 0x3437, 0x3337, 0x3237, 0x3137, 0x3037, 0x2a37,
     0x2a36, 0x2a36, 0x2a36, 0x2a36, 0x2a36, 0x3936, 0x3836, 0x3736,
     0x3636, 0x3536, 0x3436, 0x3336, 0x3236, 0x3136, 0x3036, 0x2a36,
     0x2a35, 0x2a35, 0x2a35, 0x2a35, 0x2a35, 0x3935, 0x3835, 0x3735,
     0x3635, 0x3535, 0x3435, 0x3335, 0x3235, 0x3135, 0x3035, 0x2a35,
     0x2a34, 0x2a34, 0x2a34, 0x2a34, 0x2a34, 0x3934, 0x3834, 0x3734,
     0x3634, 0x3534, 0x3434, 0x3334, 0x3234, 0x3134, 0x3034, 0x2a34,
     0x2a33, 0x2a33, 0x2a33, 0x2a33, 0x2a33, 0x3933, 0x3833, 0x3733,
     0x3633, 0x3533, 0x3433, 0x3333, 0x3233, 0x3133, 0x3033, 0x2a33,
     0x2a32, 0x2a32, 0x2a32, 0x2a32, 0x2a32, 0x3932, 0x3832, 0x3732,
     0x3632, 0x3532, 0x3432, 0x3332, 0x3232, 0x3132, 0x3032, 0x2a32,
     0x2a31, 0x2a31, 0x2a31, 0x2a31, 0x2a31, 0x3931, 0x3831, 0x3731,
     0x3631, 0x3531, 0x3431, 0x3331, 0x3231, 0x3131, 0x3031, 0x2a31,
     0x2a30, 0x2a30, 0x2a30, 0x2a30, 0x2a30, 0x3930, 0x3830, 0x3730,
     0x3630, 0x3530, 0x3430, 0x3330, 0x3230, 0x3130, 0x3030, 0x2a30]"

text \<open>\<open>PUT_USHORT (targ, tbl_ptr[ch])\<close>: the bytes of an entry; \<open>tbl_ptr\<close> is one before the table for positive numbers.\<close>

definition two_digits :: "bool \<Rightarrow> byte \<Rightarrow> mstr res" where
  "two_digits neg ch =
     res_bind (if neg then rd dneg (uint ch) else rd dpos (uint ch - 1)) (\<lambda>v. Inr [word_of_int (v mod 256), word_of_int (v div 256)])"

section \<open>Writing to a buffer\<close>

definition put :: "nat \<Rightarrow> mstr \<Rightarrow> mstr \<Rightarrow> mstr res" where
  "put len targ bs = (if length targ + length bs \<le> len then Inr (targ @ bs) else Inl OutOfBounds)"

text \<open>\<open>do *targ++ = '0'; while (((signed char)ch-- > 0) && (targ < targ_end));\<close>\<close>

function gv_leading_zeros :: "nat \<Rightarrow> int \<Rightarrow> mstr \<Rightarrow> mstr res" where
  "gv_leading_zeros len ch targ =
     res_bind (put len targ [ch_zero]) (\<lambda>targ. if ch > 0 \<and> length targ < len then gv_leading_zeros len (ch - 1) targ else Inr targ)"
  by pat_completeness auto
termination
  by (relation "measure (\<lambda>(len, ch, targ). nat ch)") auto

declare gv_leading_zeros.simps [simp del]

abbreviation (input) LARGE_EXP :: int where "LARGE_EXP \<equiv> 10000"

text \<open>The loop over the pairs of digits; the dot comes before a pair or between its digits. A key without delimiter is read past its end.\<close>

fun convert_digits :: "nat \<Rightarrow> bool \<Rightarrow> byte \<Rightarrow> byte list \<Rightarrow> int \<Rightarrow> mstr \<Rightarrow> (int \<times> mstr) res" where
  "convert_digits len neg trail_ch [] expon targ = Inl OutOfBounds"
| "convert_digits len neg trail_ch (ch # sub) expon targ =
     (if ch \<noteq> 0 \<and> ch \<noteq> trail_ch \<and> length targ < len then
        res_bind (two_digits neg ch) (\<lambda>ds.
          let expon = expon - 2 in
          if 0 \<ge> expon then
            if 0 \<noteq> expon then res_bind (put len targ (ch_dot # ds)) (convert_digits len neg trail_ch sub LARGE_EXP)
            else res_bind (put len targ [ds ! 0, ch_dot, ds ! 1]) (convert_digits len neg trail_ch sub LARGE_EXP)
          else res_bind (put len targ ds) (convert_digits len neg trail_ch sub expon))
      else Inr (expon, targ))"

text \<open>\<open>while (--expon > 0 && targ < targ_end) *targ++ = '0';\<close>\<close>

function gv_trailing_zeros :: "nat \<Rightarrow> int \<Rightarrow> mstr \<Rightarrow> mstr res" where
  "gv_trailing_zeros len expon targ =
     (if expon - 1 > 0 \<and> length targ < len then res_bind (put len targ [ch_zero]) (gv_trailing_zeros len (expon - 1)) else Inr targ)"
  by pat_completeness auto
termination
  by (relation "measure (\<lambda>(len, expon, targ). nat expon)") auto

declare gv_trailing_zeros.simps [simp del]

text \<open>A zero at the end of a fraction, and a dot that nothing follows, are taken back.\<close>

definition drop_end :: "byte \<Rightarrow> mstr \<Rightarrow> mstr res" where
  "drop_end c targ = res_bind (rd targ (int (length targ) - 1)) (\<lambda>l. Inr (if l = c then butlast targ else targ))"

definition finish_text :: "nat \<Rightarrow> int \<Rightarrow> mstr \<Rightarrow> mstr res" where
  "finish_text len expon targ =
     (if LARGE_EXP - 100 < expon then res_bind (drop_end ch_zero targ) (drop_end ch_dot) else gv_trailing_zeros len expon targ)"

section \<open>Subscripts of spanning nodes\<close>

fun span_trail :: "nat \<Rightarrow> int \<Rightarrow> nat \<Rightarrow> (nat \<times> int) res" where
  "span_trail fuel num trail_zero =
     (if num mod 10 = 0 then (case fuel of 0 \<Rightarrow> Inl NoReturn | Suc n \<Rightarrow> span_trail n (num div 10) (Suc trail_zero)) else Inr (trail_zero, num))"

function span_rev :: "int \<Rightarrow> int \<Rightarrow> int" where
  "span_rev num rev_num = (if num > 0 then span_rev (num div 10) (rev_num * 10 + num mod 10) else rev_num)"
  by pat_completeness auto
termination
  by (relation "measure (\<lambda>(num, rev_num). nat num)") auto

function span_digits :: "nat \<Rightarrow> int \<Rightarrow> mstr \<Rightarrow> mstr res" where
  "span_digits len rev_num targ =
     (if rev_num > 0 \<and> length targ < len then res_bind (put len targ [dig (rev_num mod 10)]) (span_digits len (rev_num div 10)) else Inr targ)"
  by pat_completeness auto
termination
  by (relation "measure (\<lambda>(len, rev_num, targ). nat rev_num)") auto

declare span_trail.simps [simp del] span_rev.simps [simp del] span_digits.simps [simp del]

text \<open>\<open>#SPAN\<close> and the number of the block, counted from 1; a star if the key goes on. The fuel is the number of digits of an \<open>int\<close>.\<close>

definition gvsub2str_span :: "nat \<Rightarrow> byte list \<Rightarrow> mstr res" where
  "gvsub2str_span len sub =
     res_bind (put len [] [35, 83, 80, 65, 78]) (\<lambda>targ.
     res_bind (rd sub 0) (\<lambda>b_first. res_bind (rd sub 1) (\<lambda>b_sec.
       let num = (uint b_first - 1) * 255 + uint b_sec - 1 + 1 in
       res_bind (span_trail 10 num 0) (\<lambda>(trail_zero, num).
       res_bind (span_digits len (span_rev num 0) targ) (\<lambda>targ.
       res_bind (put len targ (replicate (min trail_zero (len - length targ)) ch_zero)) (\<lambda>targ.
       res_bind (rd sub 2) (\<lambda>ch. if ch \<noteq> 0 then put len targ [42] else Inr targ)))))))"

section \<open>Numbers\<close>

definition gvsub2str_num :: "nat \<Rightarrow> byte \<Rightarrow> byte list \<Rightarrow> mstr res" where
  "gvsub2str_num len ch sub =
     (if ch = SUBSCRIPT_ZERO then put len [] [ch_zero]
      else if ch = 2 then gvsub2str_span len sub
      else
        let neg = (0 \<le> sint ch \<and> 0 < len);
            trail_ch = (if neg then NEG_MNTSSA_END else KEY_DELIMITER);
            ch = (if neg then NOT ch else ch);
            targ = (if neg then [ch_minus] else []);
            ch = ch - word_of_int (SUBSCRIPT_BIAS - 1)
        in
          res_bind (if 0 \<ge> sint ch then res_bind (put len targ [ch_dot]) (gv_leading_zeros len (sint (- ch))) else Inr targ) (\<lambda>targ.
          res_bind (convert_digits len neg trail_ch sub (if 0 \<ge> sint ch then LARGE_EXP else uint ch) targ) (\<lambda>(expon, targ).
            finish_text len expon targ)))"

definition gvsub2str :: "nat \<Rightarrow> byte list \<Rightarrow> mstr res" where
  "gvsub2str len sub =
     (case sub of [] \<Rightarrow> Inl OutOfBounds
      | ch # sub' \<Rightarrow>
          if ch = STR_SUB_PREFIX \<or> (ch = SUBSCRIPT_STDCOL_NULL \<and> (case sub' of [] \<Rightarrow> False | c # _ \<Rightarrow> c = KEY_DELIMITER))
          then gvsub2str_copy len sub'
          else gvsub2str_num len ch sub')"

section \<open>The loops on lists of digits\<close>

definition pair_digits :: "int \<Rightarrow> int list" where
  "pair_digits p = [p div 10, p mod 10]"

abbreviation pairs_digits :: "int list \<Rightarrow> int list" where
  "pairs_digits ps \<equiv> concat (map pair_digits ps)"

lemma length_pairs [simp]: "length (pairs_digits ps) = 2 * length ps"
  by (induction ps) (simp_all add: pair_digits_def)

definition trail_of :: "bool \<Rightarrow> byte" where
  "trail_of neg = (if neg then NEG_MNTSSA_END else KEY_DELIMITER)"

text \<open>Every pair is written as its two digits.\<close>

lemma two_digits_table:
  "list_all (\<lambda>p. list_all (\<lambda>neg. two_digits neg (pair_code neg (int p)) = Inr (map dig (pair_digits (int p))) \<and> pair_code neg (int p) \<noteq> 0
     \<and> pair_code neg (int p) \<noteq> trail_of neg) [False, True]) [0..<100]"
  by code_simp

lemma two_digits_code:
  assumes "0 \<le> p" "p < 100"
  shows "two_digits neg (pair_code neg p) = Inr [dig (p div 10), dig (p mod 10)]" "pair_code neg p \<noteq> 0" "pair_code neg p \<noteq> trail_of neg"
proof -
  have "nat p < 100" "int (nat p) = p" using assms by auto
  then show "two_digits neg (pair_code neg p) = Inr [dig (p div 10), dig (p mod 10)]" "pair_code neg p \<noteq> 0" "pair_code neg p \<noteq> trail_of neg"
    using two_digits_table by (cases neg; force simp: list_all_iff pair_digits_def)+
qed

lemma put_room: "length targ + length bs \<le> len \<Longrightarrow> put len targ bs = Inr (targ @ bs)"
  by (simp add: put_def)

abbreviation pairs :: "int list \<Rightarrow> bool" where
  "pairs ps \<equiv> \<forall>p \<in> set ps. 0 \<le> p \<and> p < 100"

text \<open>After the point, and before it.\<close>

lemma convert_fraction:
  assumes "pairs ps" "length targ + 2 * length ps < len" "2 * int (length ps) < expon" "stop = trail_of neg \<or> stop = 0"
  shows "convert_digits len neg (trail_of neg) (map (pair_code neg) ps @ stop # rest) expon targ
    = Inr (expon - 2 * int (length ps), targ @ map dig (pairs_digits ps))"
  using assms(1-3)
proof (induction ps arbitrary: targ expon)
  case Nil
  then show ?case using assms(4) by auto
next
  case (Cons p ps)
  have "convert_digits len neg (trail_of neg) (map (pair_code neg) ps @ stop # rest) (expon - 2) (targ @ [dig (p div 10), dig (p mod 10)])
      = Inr (expon - 2 - 2 * int (length ps), (targ @ [dig (p div 10), dig (p mod 10)]) @ map dig (pairs_digits ps))"
    using Cons.prems by (intro Cons.IH) auto
  then show ?case using Cons.prems two_digits_code [of p neg] by (simp add: put_room pair_digits_def [of p] Let_def)
qed

lemma convert_integral:
  assumes "pairs ps" "length targ + 2 * length ps + 1 < len" "length ps \<le> 9" "stop = trail_of neg \<or> stop = 0"
  shows "convert_digits len neg (trail_of neg) (map (pair_code neg) ps @ stop # rest) (int n + 1) targ
    = (if 2 * length ps \<le> n then Inr (int n + 1 - 2 * int (length ps), targ @ map dig (pairs_digits ps))
       else Inr (LARGE_EXP - 2 * int (length ps - 1 - n div 2), targ @ map dig (take n (pairs_digits ps)) @ ch_dot # map dig (drop n (pairs_digits ps))))"
  using assms(1-3)
proof (induction ps arbitrary: targ n)
  case Nil
  then show ?case using assms(4) by auto
next
  case (Cons p ps)
  have p: "two_digits neg (pair_code neg p) = Inr [dig (p div 10), dig (p mod 10)]" "pair_code neg p \<noteq> 0" "pair_code neg p \<noteq> trail_of neg"
    using Cons.prems two_digits_code [of p neg] by auto
  have room: "length targ < len" "length targ + 3 \<le> len" "length targ + 3 + 2 * length ps < len" "length targ + 2 \<le> len" using Cons.prems(2) by auto
  have fr: "convert_digits len neg (trail_of neg) (map (pair_code neg) ps @ stop # rest) LARGE_EXP t = Inr (LARGE_EXP - 2 * int (length ps), t @ map dig (pairs_digits ps))"
    if "length t = length targ + 3" for t using Cons.prems room that by (intro convert_fraction [OF _ _ _ assms(4)]) auto
  consider "n = 0" | "n = 1" | m where "n = Suc (Suc m)" by (metis One_nat_def not0_implies_Suc)
  then show ?case
  proof cases
    case 1
    then show ?thesis using p room fr [of "targ @ [ch_dot, dig (p div 10), dig (p mod 10)]"] by (simp add: put_room Let_def pair_digits_def [of p])
  next
    case 2
    then show ?thesis using p room fr [of "targ @ [dig (p div 10), ch_dot, dig (p mod 10)]"] by (simp add: put_room Let_def pair_digits_def [of p])
  next
    case 3
    have "convert_digits len neg (trail_of neg) (map (pair_code neg) (p # ps) @ stop # rest) (int n + 1) targ
        = convert_digits len neg (trail_of neg) (map (pair_code neg) ps @ stop # rest) (int m + 1) (targ @ [dig (p div 10), dig (p mod 10)])"
      using 3 p room by (simp add: put_room Let_def add.commute)
    also have "\<dots> = (if 2 * length ps \<le> m then Inr (int m + 1 - 2 * int (length ps), (targ @ [dig (p div 10), dig (p mod 10)]) @ map dig (pairs_digits ps))
       else Inr (LARGE_EXP - 2 * int (length ps - 1 - m div 2), (targ @ [dig (p div 10), dig (p mod 10)]) @ map dig (take m (pairs_digits ps)) @ ch_dot # map dig (drop m (pairs_digits ps))))"
      using Cons.prems by (intro Cons.IH) auto
    finally show ?thesis using 3 by (simp add: pair_digits_def [of p])
  qed
qed

lemma leading_spec:
  assumes "length targ + n + 1 \<le> len"
  shows "gv_leading_zeros len (int n) targ = Inr (targ @ replicate (Suc n) ch_zero)"
  using assms
proof (induction n arbitrary: targ)
  case 0
  then show ?case by (subst gv_leading_zeros.simps) (simp add: put_room)
next
  case (Suc n)
  then show ?case by (subst gv_leading_zeros.simps) (simp add: put_room)
qed

lemma trailing_spec:
  assumes "length targ + n \<le> len"
  shows "gv_trailing_zeros len (int n + 1) targ = Inr (targ @ replicate n ch_zero)"
  using assms
proof (induction n arbitrary: targ)
  case 0
  then show ?case by (subst gv_trailing_zeros.simps) simp
next
  case (Suc n)
  then show ?case by (subst gv_trailing_zeros.simps) (simp add: put_room add.commute)
qed

section \<open>The end of the text\<close>

lemma drop_end_snoc: "drop_end c (xs @ [x]) = Inr (if x = c then xs else xs @ [x])"
  by (simp add: drop_end_def nth_append)

text \<open>At most one zero stands at the end of the pairs of a number.\<close>

definition nearly :: "int list \<Rightarrow> bool" where
  "nearly ds \<longleftrightarrow> ds \<noteq> [] \<and> digits ds \<and> (last ds = 0 \<longrightarrow> last_ok (butlast ds))"

lemma strip0_id: "last_ok ds \<Longrightarrow> strip0 ds = ds"
  by (induction ds) (auto simp: last_ok_def split: if_splits)

lemma strip0_snoc: "strip0 (ds @ [d]) = (if d = 0 then strip0 ds else ds @ [d])"
  by (induction ds) auto

lemma drop_ends:
  assumes "nearly ds"
  shows "res_bind (drop_end ch_zero (targ @ ch_dot # map dig ds)) (drop_end ch_dot) = Inr (targ @ frac_text (strip0 ds))"
proof -
  obtain xs x where ds: "ds = xs @ [x]" using assms by (cases ds rule: rev_cases) (auto simp: nearly_def)
  have x: "is_digit x" "digits xs" "x = 0 \<Longrightarrow> last_ok xs" using assms ds by (auto simp: nearly_def)
  have 1: "drop_end ch_zero (targ @ ch_dot # map dig ds) = Inr (targ @ ch_dot # map dig (if x = 0 then xs else ds))"
    using drop_end_snoc [of ch_zero "targ @ ch_dot # map dig xs" "dig x"] x(1) by (simp add: ds)
  show ?thesis
  proof (cases "x = 0 \<and> xs = []")
    case True
    then show ?thesis using 1 drop_end_snoc [of ch_dot targ ch_dot] by (simp add: ds frac_text_def)
  next
    case False
    define ys where "ys = (if x = 0 then xs else ds)"
    have ys: "ys \<noteq> []" "last_ok ys" "digits ys" "strip0 ds = ys"
      using False x by (auto simp: ys_def ds last_ok_def strip0_snoc strip0_id)
    obtain zs z where z: "ys = zs @ [z]" using ys(1) by (cases ys rule: rev_cases) auto
    have "drop_end ch_dot (targ @ ch_dot # map dig ys) = Inr (targ @ ch_dot # map dig ys)"
      using drop_end_snoc [of ch_dot "targ @ ch_dot # map dig zs" "dig z"] ys(3) by (simp add: z)
    then show ?thesis using 1 ys by (simp add: ys_def [symmetric] frac_text_def)
  qed
qed

lemma nearly_drop: "nearly ds \<Longrightarrow> n < length ds \<Longrightarrow> nearly (drop n ds)"
proof -
  assume a: "nearly ds" "n < length ds"
  then obtain xs x where ds: "ds = xs @ [x]" by (cases ds rule: rev_cases) auto
  then have "drop n ds = drop n xs @ [x]" using a(2) by simp
  then show ?thesis using a ds by (auto simp: nearly_def last_ok_def dest: in_set_dropD)
qed

lemma nearly_zeros:
  assumes "nearly ds" "hd ds \<noteq> 0"
  shows "nearly (replicate n 0 @ ds)"
proof -
  obtain xs x where ds: "ds = xs @ [x]" using assms(1) by (cases ds rule: rev_cases) (auto simp: nearly_def)
  show ?thesis
  proof (cases "x = 0")
    case True
    then have "xs \<noteq> []" using assms(2) ds by auto
    then show ?thesis using assms(1) ds by (auto simp: nearly_def last_ok_def is_digit_def butlast_append)
  qed (use assms(1) ds in \<open>auto simp: nearly_def is_digit_def\<close>)
qed

section \<open>The digits of a mantissa\<close>

lemma digval_pairs: "0 \<le> x \<Longrightarrow> x < 100 ^ k \<Longrightarrow> digval (pairs_digits (digs k x)) = x"
proof (induction k arbitrary: x)
  case (Suc k)
  define p r where "p = x div 100 ^ k" and "r = x mod 100 ^ k"
  have "digval (pairs_digits (digs k r)) = r" by (rule Suc.IH) (simp_all add: r_def)
  then have "digval (pairs_digits (digs (Suc k) x)) = p div 10 * 10 * 100 ^ k + p mod 10 * 100 ^ k + r"
    by (simp add: p_def [symmetric] r_def [symmetric] pair_digits_def [of p] power_mult)
  also have "\<dots> = (p div 10 * 10 + p mod 10) * 100 ^ k + r" by (simp only: distrib_right)
  also have "\<dots> = x" by (simp only: div_mult_mod_eq p_def r_def)
  finally show ?case .
qed simp

lemma pairs_are_digits: "pairs ps \<Longrightarrow> digits (pairs_digits ps)"
  by (induction ps) (auto simp: pair_digits_def is_digit_def)

lemma rstrip_zeros_end: "\<exists>n. ps = rstrip ps @ replicate n 0"
proof (induction ps)
  case (Cons p ps)
  then obtain n where "ps = rstrip ps @ replicate n 0" by blast
  then show ?case by (cases "p = 0 \<and> rstrip ps = []") (auto intro: exI [of _ "Suc n"] exI [of _ n])
qed simp

lemma rstrip_last: "rstrip ps \<noteq> [] \<Longrightarrow> last (rstrip ps) \<noteq> 0"
  by (induction ps) auto

lemma pairs_zeros: "pairs_digits (replicate n 0) = replicate (2 * n) 0"
  by (induction n) (simp_all add: pair_digits_def)

lemma mantissa_pairs:
  assumes "10 ^ 17 \<le> M" "M < 10 ^ 18"
  defines "D \<equiv> pairs_digits (rstrip (digs 9 M))"
  shows "pairs (rstrip (digs 9 M))" "digits D" "D \<noteq> []" "hd D \<noteq> 0" "length D \<le> 18" "digval D * 10 ^ (18 - length D) = M" "nearly D"
proof -
  define ps where "ps = rstrip (digs 9 M)"
  have M: "0 \<le> M" "M < 100 ^ 9" using assms(1,2) by simp_all
  show P: "pairs (rstrip (digs 9 M))" using digs_range [OF M] rstrip_subset [of "digs 9 M"] by blast
  then show dg: "digits D" unfolding D_def by (rule pairs_are_digits)
  have ne: "ps \<noteq> []" using rstrip_digs_Nil [OF M] assms(1) by (simp add: ps_def)
  obtain n where n: "digs 9 M = ps @ replicate n 0" using rstrip_zeros_end [of "digs 9 M"] by (auto simp: ps_def)
  have l: "length ps + n = 9" using arg_cong [OF n, of length] by simp
  have D: "D = pairs_digits ps" by (simp add: D_def ps_def)
  show "D \<noteq> []" "length D \<le> 18" using ne l by (auto simp: D pair_digits_def)
  have "digval (pairs_digits (digs 9 M)) = M" using digval_pairs [OF M] .
  then have "digval (D @ replicate (2 * n) 0) = M" unfolding n by (simp only: D map_append concat_append pairs_zeros)
  moreover have "2 * n = 18 - length D" using l by (simp add: D)
  ultimately show v: "digval D * 10 ^ (18 - length D) = M" by (simp add: digval_append)
  show "hd D \<noteq> 0"
  proof
    assume "hd D = 0"
    then obtain E where "D = 0 # E" using \<open>D \<noteq> []\<close> by (cases D) auto
    then have "digval D < 10 ^ (length D - 1)" using digval_range [of E] dg by simp
    then have "digval D * 10 ^ (18 - length D) < 10 ^ (length D - 1) * 10 ^ (18 - length D)" by simp
    also have "\<dots> = 10 ^ 17" using \<open>D \<noteq> []\<close> \<open>length D \<le> 18\<close> by (cases D) (simp_all add: power_add [symmetric])
    finally show False using v assms(1) by simp
  qed
  obtain qs q where q: "ps = qs @ [q]" using ne by (cases ps rule: rev_cases) auto
  have "q \<noteq> 0" using rstrip_last [of "digs 9 M"] ne q by (simp add: ps_def)
  moreover have "D = pairs_digits qs @ [q div 10, q mod 10]" by (simp add: D q pair_digits_def [of q])
  ultimately show "nearly D" using dg by (auto simp: nearly_def last_ok_def butlast_append)
qed

section \<open>The text of the key of a number\<close>

lemma head_table:
  "list_all (\<lambda>e. list_all (\<lambda>neg. let ch = exp_byte neg (int e + 128); c = (if neg then NOT ch else ch) - word_of_int (SUBSCRIPT_BIAS - 1) in
     ch \<noteq> SUBSCRIPT_ZERO \<and> ch \<noteq> 2 \<and> ch \<noteq> STR_SUB_PREFIX \<and> ch \<noteq> SUBSCRIPT_STDCOL_NULL \<and> (0 \<le> sint ch) = neg
     \<and> sint c = int e - 61 \<and> (if e \<le> 61 then sint (- c) = 61 - int e else uint c = int e - 61)) [False, True]) [20..<110]"
  by code_simp

lemma head_byte:
  fixes neg :: bool and e :: int
  assumes "20 \<le> e" "e < 110"
  defines "ch \<equiv> exp_byte neg (e + 128)"
  defines "c \<equiv> (if neg then NOT ch else ch) - word_of_int (SUBSCRIPT_BIAS - 1)"
  shows "ch \<noteq> SUBSCRIPT_ZERO" "ch \<noteq> 2" "ch \<noteq> STR_SUB_PREFIX" "ch \<noteq> SUBSCRIPT_STDCOL_NULL" "0 \<le> sint ch \<longleftrightarrow> neg" "sint c = e - 61"
    "e \<le> 61 \<Longrightarrow> sint (- c) = 61 - e" "61 < e \<Longrightarrow> uint c = e - 61"
proof -
  have "20 \<le> nat e" "nat e < 110" using assms(1,2) by linarith+
  then have "nat e \<in> set [20..<110]" by (simp only: set_upt atLeastLessThan_iff simp_thms)
  moreover have "neg \<in> set [False, True]" "int (nat e) = e" "nat e \<le> 61 \<longleftrightarrow> e \<le> 61" using assms(1) by auto
  ultimately have e: "nat e \<in> set [20..<110]" "neg \<in> set [False, True]" "int (nat e) = e" "nat e \<le> 61 \<longleftrightarrow> e \<le> 61" by this+
  note h = bspec [OF bspec [OF head_table [unfolded list_all_iff] e(1)] e(2), unfolded Let_def e(3,4), folded ch_def, folded c_def]
  show "ch \<noteq> SUBSCRIPT_ZERO" "ch \<noteq> 2" "ch \<noteq> STR_SUB_PREFIX" "ch \<noteq> SUBSCRIPT_STDCOL_NULL" "0 \<le> sint ch \<longleftrightarrow> neg" "sint c = e - 61"
    "e \<le> 61 \<Longrightarrow> sint (- c) = 61 - e" "61 < e \<Longrightarrow> uint c = e - 61" using h by (blast, blast, blast, blast, blast, blast, simp, simp)
qed

lemma gvsub2str_num_eval:
  fixes neg :: bool and e :: int
  assumes "20 \<le> e" "e < 110" "0 < len"
  defines "targ \<equiv> (if neg then [ch_minus] else [])"
  shows "gvsub2str_num len (exp_byte neg (e + 128)) sub =
    res_bind (if e \<le> 61 then res_bind (put len targ [ch_dot]) (gv_leading_zeros len (61 - e)) else Inr targ) (\<lambda>targ.
    res_bind (convert_digits len neg (trail_of neg) sub (if e \<le> 61 then LARGE_EXP else e - 61) targ) (\<lambda>(expon, targ). finish_text len expon targ))"
proof -
  note h = head_byte [OF assms(1,2), of neg]
  have n: "(0 \<le> sint (exp_byte neg (e + 128)) \<and> 0 < len) = neg" using h(5) assms(3) by simp
  show ?thesis
    unfolding gvsub2str_num_def if_not_P [OF h(1)] if_not_P [OF h(2)] Let_def n h(6) targ_def [symmetric] trail_of_def [symmetric]
    using h(7,8) by (cases "e \<le> 61") simp_all
qed

text \<open>Numbers below one tenth, and the others.\<close>

lemma text_fraction:
  assumes e: "20 \<le> e" "e < 110" and M: "10 ^ 17 \<le> M" "M < 10 ^ 18" and len: "64 \<le> len" and range: "e < 62"
    and ps: "ps = rstrip (digs 9 M)" and D: "D = pairs_digits ps" and targ: "targ = (if neg then [ch_minus] else [])"
  shows "\<exists>is fs. gvsub2str_num len (exp_byte neg (e + 128)) (map (pair_code neg) ps @ trail_of neg # rest) = Inr (dec_text neg is fs)
    \<and> canon is fs \<and> dec_val neg is fs = signed neg (M * 10 ^ nat e)"
proof -
  note m = mantissa_pairs [OF M, folded ps, folded D]
  have l: "length ps \<le> 9" "length targ \<le> 1" "0 < len" using m(5) len by (auto simp: D targ)
  have st: "trail_of neg = trail_of neg \<or> trail_of neg = 0" by simp
  note ev = gvsub2str_num_eval [OF e l(3), of neg "map (pair_code neg) ps @ trail_of neg # rest", folded targ]
  define n where "n = nat (62 - e)"
  have n: "0 < n" "n \<le> 42" "nat e = 62 - n" "61 - e = int (n - 1)" "e \<le> 61" using range e by (auto simp: n_def)
  define t where "t = targ @ ch_dot # replicate n ch_zero"
  have lz: "res_bind (put len targ [ch_dot]) (gv_leading_zeros len (61 - e)) = Inr t"
    using leading_spec [of "targ @ [ch_dot]" "n - 1" len] l len n(1,2) unfolding n(4) by (simp add: put_room t_def)
  have "convert_digits len neg (trail_of neg) (map (pair_code neg) ps @ trail_of neg # rest) LARGE_EXP t = Inr (LARGE_EXP - 2 * int (length ps), t @ map dig D)"
    unfolding D using l n len by (intro convert_fraction [OF m(1) _ _ st]) (auto simp: t_def)
  moreover have "t @ map dig D = targ @ ch_dot # map dig (replicate n 0 @ D)" using n by (simp add: t_def dig_def)
  moreover have "nearly (replicate n 0 @ D)" by (rule nearly_zeros [OF m(7,4)])
  note drop_ends [OF this, of targ]
  moreover have "strip0 (replicate n 0 @ D) = replicate n 0 @ strip0 D" using m(3,4) by (induction n) (auto simp: strip0_Nil hd_in_set)
  ultimately have "gvsub2str_num len (exp_byte neg (e + 128)) (map (pair_code neg) ps @ trail_of neg # rest) = Inr (dec_text neg [] (replicate n 0 @ strip0 D))"
    unfolding ev using n(5) lz l by (simp add: finish_text_def dec_text_def targ)
  moreover note c = fraction_canon [OF m(2-5) n(2)]
  have "dec_val neg [] (replicate n 0 @ strip0 D) = signed neg (M * 10 ^ nat e)" unfolding c(2) m(6) n(3) ..
  ultimately show ?thesis using c(1) by blast
qed

lemma text_integral:
  assumes e: "20 \<le> e" "e < 110" and M: "10 ^ 17 \<le> M" "M < 10 ^ 18" and len: "64 \<le> len" and range: "62 \<le> e"
    and ps: "ps = rstrip (digs 9 M)" and D: "D = pairs_digits ps" and targ: "targ = (if neg then [ch_minus] else [])"
  shows "\<exists>is fs. gvsub2str_num len (exp_byte neg (e + 128)) (map (pair_code neg) ps @ trail_of neg # rest) = Inr (dec_text neg is fs)
    \<and> canon is fs \<and> dec_val neg is fs = signed neg (M * 10 ^ nat e)"
proof -
  note m = mantissa_pairs [OF M, folded ps, folded D]
  have l: "length ps \<le> 9" "length targ \<le> 1" "0 < len" using m(5) len by (auto simp: D targ)
  have st: "trail_of neg = trail_of neg \<or> trail_of neg = 0" by simp
  note ev = gvsub2str_num_eval [OF e l(3), of neg "map (pair_code neg) ps @ trail_of neg # rest", folded targ]
  define n where "n = nat (e - 62)"
  have n: "e - 61 = int n + 1" "\<not> e \<le> 61" "n < 48" "nat e = n + 62" using range e by (auto simp: n_def)
  define ds fs where "ds = take n D @ replicate (n - length D) 0" and "fs = strip0 (drop n D)"
  note cv = convert_integral [OF m(1) _ l(1) st, of targ len rest n, folded D]
  have lD: "length D = 2 * length ps" by (simp add: D)
  have written: "gvsub2str_num len (exp_byte neg (e + 128)) (map (pair_code neg) ps @ trail_of neg # rest) = Inr (dec_text neg ds fs)"
  proof (cases "length D \<le> n")
    case True
    have x: "int (n - length D) + 1 = int n + 1 - 2 * int (length ps)" "\<not> LARGE_EXP - 100 < int n + 1 - 2 * int (length ps)" using True lD n(3) by auto
    have "gv_trailing_zeros len (int (n - length D) + 1) (targ @ map dig D) = Inr ((targ @ map dig D) @ replicate (n - length D) ch_zero)"
      using True l n len m(5) by (intro trailing_spec) auto
    then have f: "finish_text len (int n + 1 - 2 * int (length ps)) (targ @ map dig D) = Inr ((targ @ map dig D) @ replicate (n - length D) ch_zero)"
      using x by (simp add: finish_text_def)
    have c: "convert_digits len neg (trail_of neg) (map (pair_code neg) ps @ trail_of neg # rest) (int n + 1) targ = Inr (int n + 1 - 2 * int (length ps), targ @ map dig D)"
      using cv True lD l len by simp
    show ?thesis unfolding ev n(1) if_not_P [OF n(2)] res_bind_simps c prod.case f
      using True by (simp add: dec_text_def targ ds_def fs_def frac_text_def dig_def)
  next
    case False
    define x where "x = LARGE_EXP - 2 * int (length ps - 1 - n div 2)"
    have "LARGE_EXP - 100 < x" using l(1) by (simp add: x_def)
    moreover have "nearly (drop n D)" using nearly_drop [OF m(7)] False by simp
    note drop_ends [OF this, of "targ @ map dig (take n D)"]
    ultimately have f: "finish_text len x (targ @ map dig (take n D) @ ch_dot # map dig (drop n D)) = Inr (targ @ map dig (take n D) @ frac_text fs)"
      by (simp add: finish_text_def fs_def)
    have c: "convert_digits len neg (trail_of neg) (map (pair_code neg) ps @ trail_of neg # rest) (int n + 1) targ
        = Inr (x, targ @ map dig (take n D) @ ch_dot # map dig (drop n D))"
      using cv False lD l len by (simp add: x_def)
    show ?thesis unfolding ev n(1) if_not_P [OF n(2)] res_bind_simps c prod.case f
      using False by (simp add: dec_text_def targ ds_def)
  qed
  have "canon ds fs \<and> dec_val neg ds fs = signed neg (M * 10 ^ nat e)"
  proof (cases "n = 0")
    case True
    then show ?thesis using fraction_canon(1,2) [OF m(2-5), of 0] m(6) n(4) by (simp add: ds_def fs_def)
  next
    case False
    then show ?thesis using integral_canon [OF m(2-5) _ n(3)] unfolding ds_def fs_def m(6) n(4) by simp
  qed
  then show ?thesis using written by blast
qed

lemma gvsub2str_num_spec:
  assumes "20 \<le> e" "e < 110" "10 ^ 17 \<le> M" "M < 10 ^ 18" "64 \<le> len"
  shows "\<exists>is fs. gvsub2str_num len (exp_byte neg (e + 128)) (map (pair_code neg) (rstrip (digs 9 M)) @ trail_of neg # rest) = Inr (dec_text neg is fs)
    \<and> canon is fs \<and> dec_val neg is fs = signed neg (M * 10 ^ nat e)"
  using text_fraction [OF assms _ refl refl refl] text_integral [OF assms _ refl refl refl] by (cases "e < 62") simp_all

section \<open>The text of a spanning subscript\<close>

lemma digval_snoc: "is_digit d \<Longrightarrow> digval (ds @ [d]) mod 10 = d \<and> digval (ds @ [d]) div 10 = digval ds"
  by (simp add: digval_append is_digit_def)

lemma digval_pos: "digits ds \<Longrightarrow> d \<in> set ds \<Longrightarrow> d \<noteq> 0 \<Longrightarrow> 0 < digval ds"
  using digval_range [of ds] digval_zero_iff [of ds] by force

lemma span_trail_spec:
  assumes "digits us" "us \<noteq> []" "last us \<noteq> 0"
  shows "z \<le> fuel \<Longrightarrow> span_trail fuel (digval (us @ replicate z 0)) t = Inr (t + z, digval us)"
proof (induction z arbitrary: fuel t)
  case 0
  have "digval us mod 10 \<noteq> 0" using assms digval_snoc [of "last us" "butlast us"] by simp
  then show ?case by (subst span_trail.simps) simp
next
  case (Suc z)
  have d: "digval (us @ replicate (Suc z) 0) = digval (us @ replicate z 0) * 10" by (simp add: digval_append)
  obtain n where "fuel = Suc n" "z \<le> n" using Suc.prems by (cases fuel) auto
  then show ?case using Suc.IH [of n "Suc t"] unfolding d by (subst span_trail.simps) simp
qed

lemma span_rev_spec: "digits us \<Longrightarrow> us = [] \<or> hd us \<noteq> 0 \<Longrightarrow> span_rev (digval us) r = r * 10 ^ length us + digval (rev us)"
proof (induction us arbitrary: r rule: rev_induct)
  case Nil
  then show ?case by (subst span_rev.simps) simp
next
  case (snoc d us)
  have "0 < digval (us @ [d])" using snoc.prems by (intro digval_pos [OF _ hd_in_set]) auto
  moreover have "us = [] \<or> hd us \<noteq> 0" using snoc.prems(2) by (cases us) auto
  moreover note digval_snoc [of d us]
  ultimately show ?case using snoc by (subst span_rev.simps) (simp add: algebra_simps)
qed

lemma span_digits_spec:
  assumes "digits us" "us = [] \<or> last us \<noteq> 0" "length targ + length us \<le> len"
  shows "span_digits len (digval (rev us)) targ = Inr (targ @ map dig us)"
  using assms
proof (induction us arbitrary: targ)
  case Nil
  then show ?case by (subst span_digits.simps) simp
next
  case (Cons d us)
  have "0 < digval (rev (d # us))" using Cons.prems by (intro digval_pos [of _ "last (d # us)"]) auto
  moreover have "us = [] \<or> last us \<noteq> 0" using Cons.prems(2) by auto
  moreover note digval_snoc [of d "rev us"]
  ultimately show ?case using Cons by (subst span_digits.simps) (simp add: put_room)
qed

text \<open>The block with number \<open>k\<close>, from 0 on, is shown as \<open>#SPAN\<close> and \<open>k + 1\<close>.\<close>

lemma gvsub2str_span_text:
  assumes "0 \<le> k" "k < 255 * 255" "16 \<le> len"
  shows "gvsub2str len (2 # word_of_int (k div 255 + 1) # word_of_int (k mod 255 + 1) # ch # rest)
    = Inr ([35, 83, 80, 65, 78] @ int_digits (k + 1) (if ch \<noteq> 0 then [42] else []))"
proof -
  have q: "0 \<le> k div 255" "k div 255 < 255" "0 \<le> k mod 255" "k mod 255 < 255" using assms(1,2) by (auto simp: pos_imp_zdiv_nonneg_iff)
  then have b: "uint (word_of_int (k div 255 + 1) :: byte) = k div 255 + 1" "uint (word_of_int (k mod 255 + 1) :: byte) = k mod 255 + 1"
    by (simp_all add: uint_word_of_int del: wi_hom_add wi_hom_syms of_int_add)
  define bf bs :: byte where "bf = word_of_int (k div 255 + 1)" and "bs = word_of_int (k mod 255 + 1)"
  have num: "(uint bf - 1) * 255 + uint bs - 1 + 1 = k + 1" unfolding bf_def bs_def b by simp
  have r: "rd (bf # bs # ch # rest) 0 = Inr bf" "rd (bf # bs # ch # rest) 1 = Inr bs" "rd (bf # bs # ch # rest) 2 = Inr ch" by (simp_all add: rd_def)
  have p: "put len [] [35, 83, 80, 65, 78] = Inr [35, 83, 80, 65, 78]" using assms(3) by (simp add: put_def)
  obtain ds where ds: "\<forall>cp. int_digits (k + 1) cp = map dig ds @ cp" "digits ds" "digval ds = k + 1" "ds = [] \<or> hd ds \<noteq> 0"
    using int_digits_spec [of "k + 1"] assms(1) by auto
  define us z where "us = strip0 ds" and "z = length ds - length (strip0 ds)"
  have u: "ds = us @ replicate z 0" "digits us" "last_ok us" using strip0_zeros [of ds] strip0_digits [OF ds(2)] strip0_last [of ds] by (simp_all add: us_def z_def)
  have ne: "us \<noteq> []" using u(1) ds(3) assms(1) by auto
  have l: "length us + z \<le> 5" using digits_length_le [OF ds(2,4), of 5] ds(3) assms(2) arg_cong [OF u(1), of length] by simp
  have t: "span_trail 10 (k + 1) 0 = Inr (z, digval us)"
    using span_trail_spec [OF u(2) ne, of z 10 0] u(1,3) ne l ds(3) by (simp add: last_ok_def)
  have "span_rev (digval us) 0 = digval (rev us)" using span_rev_spec [OF u(2), of 0] ne ds(4) u(1) by simp
  moreover have "span_digits len (digval (rev us)) [35, 83, 80, 65, 78] = Inr ([35, 83, 80, 65, 78] @ map dig us)"
    using u ne l assms(3) by (intro span_digits_spec) (auto simp: last_ok_def)
  moreover have "map dig ds = map dig us @ replicate z ch_zero" by (subst u(1)) (simp add: dig_def)
  ultimately have "gvsub2str_span len (bf # bs # ch # rest) = Inr ([35, 83, 80, 65, 78] @ int_digits (k + 1) (if ch \<noteq> 0 then [42] else []))"
    unfolding gvsub2str_span_def Let_def p r num res_bind_simps t prod.case using l assms(3) ds(1) by (simp add: put_def)
  then show ?thesis unfolding bf_def [symmetric] bs_def [symmetric] by (simp add: gvsub2str_def gvsub2str_num_def)
qed

section \<open>Reading back\<close>

text \<open>The text of a subscript: a string itself, a number as \<open>n2s\<close> writes it.\<close>

fun subs_text :: "mval \<Rightarrow> mstr" where
  "subs_text (MV_num n) = n2s n"
| "subs_text (MV_str s) = s"
| "subs_text _ = []"

fun subs_valid :: "mval \<Rightarrow> bool" where
  "subs_valid (MV_num n) \<longleftrightarrow> num_ok n"
| "subs_valid (MV_str s) \<longleftrightarrow> True"
| "subs_valid _ \<longleftrightarrow> False"

lemma num_ok_subs: "num_ok n \<Longrightarrow> num_subs_ok n"
  using num_ok_mnum [of n] by (cases n) (auto simp: num_subs_ok_def)

lemma subs_valid_ok: "subs_valid v \<Longrightarrow> subs_ok v"
  by (cases v) (auto simp: num_ok_subs)

lemma gvsub2str_number:
  assumes "num_ok n" "64 \<le> len"
  shows "gvsub2str len (subsc_bytes std (MV_num n) @ 0 # rest) = Inr (n2s n)"
  using subsc_num_cases [OF num_ok_subs [OF assms(1)]]
proof (elim disjE exE conjE)
  assume "mnum_val n = 0" "subsc_num n = Inr [SUBSCRIPT_ZERO]"
  then show ?thesis using n2s_canon [OF assms(1)] assms(2) by (simp add: subsc_bytes_def gvsub2str_def gvsub2str_num_def put_room)
next
  fix s e M
  assume n: "subsc_num n = Inr (enc_num s e M)" "20 \<le> e" "e < 110" "10 ^ 17 \<le> M" "M < 10 ^ 18" "mnum_val n = (if s then -1 else 1) * (M * 10 ^ nat e)"
  define tail where "tail = (if s then 0 # rest else rest)"
  have b: "subsc_bytes std (MV_num n) @ 0 # rest = exp_byte s (e + 128) # map (pair_code s) (rstrip (digs 9 M)) @ trail_of s # tail"
    using n(1) by (simp add: subsc_bytes_def enc_num_def tail_def trail_of_def)
  obtain ds fs where t: "gvsub2str_num len (exp_byte s (e + 128)) (map (pair_code s) (rstrip (digs 9 M)) @ trail_of s # tail) = Inr (dec_text s ds fs)"
    "canon ds fs" "dec_val s ds fs = signed s (M * 10 ^ nat e)" using gvsub2str_num_spec [OF n(2-5) assms(2)] by blast
  have v: "mnum_val n = dec_val s ds fs" using n(6) t(3) by (cases s) simp_all
  have "0 < M * 10 ^ nat e" using n(4) by simp
  then have "mnum_val n \<noteq> 0" using n(6) by (cases s) auto
  then obtain s' ds' fs' where "n2s n = dec_text s' ds' fs'" "canon ds' fs'" "dec_val s' ds' fs' = mnum_val n" using n2s_canon [OF assms(1)] by auto
  then have "n2s n = dec_text s ds fs" using canon_unique [OF t(2), of ds' fs' s s'] v by simp
  then show ?thesis using t(1) head_byte(3,4) [OF n(2,3), of s] unfolding b by (simp add: gvsub2str_def)
qed

lemma gvsub2str_string:
  "gvsub2str len (subsc_bytes std (MV_str s) @ 0 # rest) = (if length s \<le> len then Inr s else Inl OutOfBounds)"
  using copy_escape [of len s rest] by (auto simp: gvsub2str_def str_bytes)

text \<open>
  C13: Subscripts are read back from keys. \<open>gvsub2str\<close> on the subscript that \<open>mval2subsc\<close> has added to a key returns the string, null
  collation included, or the text that \<open>n2s\<close> writes for the number, whatever its representation. In a buffer of at least 64 bytes it does
  not leave the buffer for a number; for a string it leaves the buffer exactly if the string is longer.
\<close>

theorem gvsub2str_inverts:
  assumes "gvkey_ok key" "int (key_top key) - int (key_end key) \<ge> int MAX_GVKEY_PADDING_LEN + 1" "subs_valid v"
    and "mval2subsc None v key std = Inr key'" "64 \<le> len"
  shows "gvsub2str len (drop (key_prev key') (key_base key')) =
    (case v of MV_str s \<Rightarrow> if length s \<le> len then Inr (subs_text v) else Inl OutOfBounds | _ \<Rightarrow> Inr (subs_text v))"
proof -
  have "key_base key' = take (key_end key) (key_base key) @ subsc_bytes std v @ [0, 0]" "key_prev key' = key_end key"
    using mval2subsc_result [OF assms(1) subs_valid_ok [OF assms(3)] assms(2), of std] assms(4) by (auto simp: Let_def split: if_splits)
  moreover have "length (take (key_end key) (key_base key)) = key_end key" using assms(1) by (simp add: gvkey_ok_def)
  ultimately have "drop (key_prev key') (key_base key') = subsc_bytes std v @ 0 # [0]" by simp
  then show ?thesis using assms(3,5) gvsub2str_number [of _ len std "[0]"] gvsub2str_string [of len std _ "[0]"] by (cases v) auto
qed

theorem gvsub2str_inverts_witness:
  "\<exists>key'. mval2subsc None (MV_num (MV_int (- 1500))) sample_key False = Inr key'
    \<and> gvsub2str 64 (drop (key_prev key') (key_base key')) = Inr [45, 49, 46, 53]"
proof -
  have "\<not> isl (mval2subsc None (MV_num (MV_int (- 1500))) sample_key False)" by code_simp
  then obtain key' where k: "mval2subsc None (MV_num (MV_int (- 1500))) sample_key False = Inr key'" by (auto dest!: not_isl_Inr)
  moreover have "n2s (MV_int (- 1500)) = [45, 49, 46, 53]" by code_simp
  ultimately show ?thesis using gvsub2str_inverts [OF sample_key_ok _ k, of 64] by simp
qed

end
