(* ===== verification/Hashtab.thy ===== *)
theory Hashtab
  imports Bitmap
begin

text \<open>
  The hash tables of \<open>sr_port/hashtab_implementation.h\<close>: open addressing with double hashing, deletion marks that are avoided for
  entries no probe has passed, growth and compaction by rehashing into a table of the next suitable prime size, and the handling of
  failing allocations. The C file is a template; its instances (\<open>hashtab_int4\<close>, \<open>hashtab_int8\<close>, \<open>hashtab_addr\<close>, \<open>hashtab_mname\<close>,
  \<open>hashtab_str\<close>) differ in the key type, the hash and the test for an empty entry, which are collected in a record.
\<close>

section \<open>The parameters of the template\<close>

type_synonym 'k ht_ent = "'k \<times> 64 word"

abbreviation HT_DELETED_ENTRY :: "64 word" where "HT_DELETED_ENTRY \<equiv> - 1"

text \<open>\<open>FIND_HASH\<close>, \<open>HTENT_EMPTY\<close>, \<open>HTENT_MARK_EMPTY\<close> and the key that \<open>memset\<close> to zero leaves; \<open>HTENT_KEY_MATCH\<close> is equality.\<close>

record 'k ht_class =
  find_hash :: "'k \<Rightarrow> nat"
  htent_empty :: "'k ht_ent \<Rightarrow> bool"
  htent_mark_empty :: "'k ht_ent \<Rightarrow> 'k ht_ent"
  zero_key :: 'k

definition int4_class :: "32 word ht_class" where
  "int4_class = \<lparr>find_hash = unat, htent_empty = (\<lambda>(k, v). v = 0), htent_mark_empty = (\<lambda>(k, v). (k, 0)), zero_key = 0\<rparr>"

definition compute_hash_int8 :: "64 word \<Rightarrow> 64 word" where
  "compute_hash_int8 k = (k AND 0xFFFFFFFF) XOR drop_bit 31 k"

definition int8_class :: "64 word ht_class" where
  "int8_class = \<lparr>find_hash = (\<lambda>k. unat (compute_hash_int8 k)), htent_empty = (\<lambda>(k, v). v = 0),
     htent_mark_empty = (\<lambda>(k, v). (k, 0)), zero_key = 0\<rparr>"

text \<open>Addresses are hashed like eight-byte integers, but the hash is cut to four bytes.\<close>

definition addr_class :: "64 word ht_class" where
  "addr_class = \<lparr>find_hash = (\<lambda>k. unat (ucast (compute_hash_int8 k) :: 32 word)), htent_empty = (\<lambda>(k, v). v = 0),
     htent_mark_empty = (\<lambda>(k, v). (k, 0)), zero_key = 0\<rparr>"

record mname_entry =
  var_name :: mstr
  hash_code :: "32 word"

definition mname_class :: "mname_entry ht_class" where
  "mname_class = \<lparr>find_hash = (\<lambda>k. unat (hash_code k)), htent_empty = (\<lambda>(k, v). var_name k = []),
     htent_mark_empty = (\<lambda>(k, v). (k\<lparr>var_name := []\<rparr>, v)), zero_key = \<lparr>var_name = [], hash_code = 0\<rparr>\<rparr>"

text \<open>The keys of \<open>hashtab_str\<close> have the same two parts, but an entry is empty only if both are zero.\<close>

definition str_class :: "mname_entry ht_class" where
  "str_class = \<lparr>find_hash = (\<lambda>k. unat (hash_code k)), htent_empty = (\<lambda>(k, v). hash_code k = 0 \<and> var_name k = []),
     htent_mark_empty = (\<lambda>(k, v). (\<lparr>var_name = [], hash_code = 0\<rparr>, v)), zero_key = \<lparr>var_name = [], hash_code = 0\<rparr>\<rparr>"

section \<open>The table\<close>

text \<open>
  \<open>ht_passed\<close> is the bit vector \<open>entry_passed_thru\<close>. Of the spare array only the size and whether it is there matter, since it is
  cleared before it is used again. Counters are unsigned four-byte integers.
\<close>

record 'k hash_table =
  ht_base :: "'k ht_ent list"
  ht_passed :: mstr
  ht_size :: nat
  initial_size :: nat
  spare_base :: bool
  spare_base_size :: nat
  ht_count :: nat
  del_count :: nat
  exp_trigger_size :: nat
  cmp_trigger_size :: nat
  dont_compact :: bool
  dont_keep_spare_table :: bool
  defer_base_release :: bool
  ht_active :: bool

definition uint_inc :: "nat \<Rightarrow> nat" where "uint_inc n = (n + 1) mod 2 ^ 32"

definition uint_dec :: "nat \<Rightarrow> nat" where "uint_dec n = (n + (2 ^ 32 - 1)) mod 2 ^ 32"

definition htent_valid :: "'k ht_class \<Rightarrow> 'k ht_ent \<Rightarrow> bool" where
  "htent_valid cls e \<longleftrightarrow> \<not> htent_empty cls e \<and> snd e \<noteq> HT_DELETED_ENTRY"

definition default_ht_sizes :: "nat list" where
  "default_ht_sizes = [
     13, 37, 53, 97, 193, 389, 769, 1543, 3079, 6151, 12289, 24593, 49157,
     62501, 102503, 154981, 218459, 290047, 366077, 442861, 517151,
     603907, 705247, 823541, 961729, 1123079, 1311473, 1531499, 1788443,
     2088497, 2438881, 2848057, 3325901, 3883903, 4535483, 5296409, 6185021,
     7222661, 8434427, 9849503, 11502019, 13431661, 15685133, 18316643, 21389671,
     24978257, 29168903, 34062629, 39777391, 46450931, 54244103,
     0]"

definition extended_ht_sizes :: "nat list" where
  "extended_ht_sizes = [
     13, 37, 53, 97, 193, 389, 769, 1543, 3079, 6151, 12289, 24593, 49157,
     62501, 102503, 154981, 218459, 290047, 366077, 442861, 517151,
     603907, 705247, 823541, 961729, 1123079, 1311473, 1531499, 1788443,
     2088497, 2438881, 2848057, 3325901, 3883903, 4535483, 5296409, 6185021,
     7222661, 8434427, 9849503, 11502019, 13431661, 15685133, 18316643, 21389671,
     24978257, 29168903, 34062629, 39777391, 46450931, 54244103,
     100663319, 201326611, 402653189, 805306457, 1610612741,
     0]"

section \<open>The size of a table\<close>

text \<open>The loop \<open>for (...; cur_ht_size && cur_ht_size < minsize; index++) cur_ht_size = ht_sizes[index];\<close> on the rest of \<open>ht_sizes\<close>.\<close>

fun pick_size :: "nat list \<Rightarrow> nat \<Rightarrow> nat \<Rightarrow> nat res" where
  "pick_size rest cur_ht_size minsize =
     (if cur_ht_size \<noteq> 0 \<and> cur_ht_size < minsize
      then (case rest of [] \<Rightarrow> Inl OutOfBounds | x # xs \<Rightarrow> pick_size xs x minsize)
      else Inr cur_ht_size)"

fun pick_prior :: "nat list \<Rightarrow> nat \<Rightarrow> nat \<Rightarrow> nat \<Rightarrow> nat \<Rightarrow> nat res" where
  "pick_prior rest before cur_ht_size prior_size old_size =
     (if cur_ht_size \<noteq> 0 \<and> cur_ht_size < old_size
      then (case rest of [] \<Rightarrow> Inl OutOfBounds | x # xs \<Rightarrow> pick_prior xs x x before old_size)
      else Inr prior_size)"

declare pick_size.simps [simp del] and pick_prior.simps [simp del]

definition first_size :: "nat list \<Rightarrow> nat \<Rightarrow> nat res" where
  "first_size ht_sizes minsize = res_bind (rd ht_sizes 0) (\<lambda>cur. pick_size ht_sizes cur minsize)"

definition new_ht_size :: "nat list \<Rightarrow> nat \<Rightarrow> 'k hash_table option \<Rightarrow> nat res" where
  "new_ht_size ht_sizes minsize old_table =
     (case old_table of
        None \<Rightarrow> first_size ht_sizes minsize
      | Some old \<Rightarrow>
          if minsize > ht_size old div 2 then first_size ht_sizes minsize
          else
            res_bind (rd ht_sizes 0) (\<lambda>prior. res_bind (rd ht_sizes 1) (\<lambda>cur.
              res_bind (pick_prior (tl ht_sizes) prior cur prior (ht_size old)) (\<lambda>prior_size.
                Inr (if prior_size > initial_size old then prior_size else initial_size old)))))"

section \<open>Initialization\<close>

definition ht_fields_common_init :: "'k hash_table \<Rightarrow> 'k hash_table" where
  "ht_fields_common_init t = t\<lparr>exp_trigger_size := ht_size t * 50 div 100, cmp_trigger_size := ht_size t * 25 div 100,
     ht_active := True, ht_count := 0, del_count := 0\<rparr>"

definition round_up8 :: "nat \<Rightarrow> nat" where
  "round_up8 n = (n + 7) div 8 * 8"

definition fresh_table :: "'k ht_class \<Rightarrow> nat \<Rightarrow> 'k hash_table \<Rightarrow> 'k hash_table" where
  "fresh_table cls n t =
     ht_fields_common_init (t\<lparr>ht_base := replicate n (zero_key cls, 0), ht_passed := replicate (round_up8 n) 0, ht_size := n\<rparr>)"

text \<open>
  \<open>INIT_HASHTAB_INTL\<close>: the old table without the spare array that was used or freed, and the new table or the error. The argument
  \<open>mem\<close> tells whether a \<open>malloc\<close> succeeds.
\<close>

definition init_hashtab_intl ::
  "'k ht_class \<Rightarrow> nat list \<Rightarrow> bool \<Rightarrow> 'k hash_table \<Rightarrow> nat \<Rightarrow> 'k hash_table option \<Rightarrow> 'k hash_table option \<times> 'k hash_table res" where
  "init_hashtab_intl cls ht_sizes mem table minsize old_table =
     (case new_ht_size ht_sizes minsize old_table of
        Inl e \<Rightarrow> (old_table, Inl e)
      | Inr cur_ht_size \<Rightarrow>
          if cur_ht_size = 0 then (old_table, Inl ERR_HTOFLOW)
          else
            let table = table\<lparr>spare_base := False, spare_base_size := 0\<rparr>;
                use_spare = (case old_table of None \<Rightarrow> False
                  | Some old \<Rightarrow> \<not> dont_keep_spare_table old \<and> spare_base old \<and> spare_base_size old = cur_ht_size);
                old_table = map_option (\<lambda>old. if dont_keep_spare_table old then old
                  else if spare_base_size old = cur_ht_size \<or> spare_base old
                  then old\<lparr>spare_base := False, spare_base_size := 0\<rparr> else old) old_table
            in if \<not> use_spare \<and> \<not> mem then (old_table, Inl ERR_MEMORY)
               else
                 let table = (case old_table of None \<Rightarrow> table
                   | Some old \<Rightarrow> table\<lparr>initial_size := initial_size old, dont_compact := dont_compact old,
                       dont_keep_spare_table := dont_keep_spare_table old, defer_base_release := defer_base_release old\<rparr>)
                 in (old_table, Inr (fresh_table cls cur_ht_size table)))"

definition init_hashtab :: "'k ht_class \<Rightarrow> nat list \<Rightarrow> bool \<Rightarrow> 'k hash_table \<Rightarrow> nat \<Rightarrow> bool \<Rightarrow> bool \<Rightarrow> 'k hash_table res" where
  "init_hashtab cls ht_sizes mem table minsize dont_compact' dont_keep_spare_table' =
     res_bind (first_size ht_sizes minsize) (\<lambda>n.
       snd (init_hashtab_intl cls ht_sizes mem
         (table\<lparr>initial_size := (if n \<noteq> 0 then n else minsize), dont_compact := dont_compact',
            dont_keep_spare_table := dont_keep_spare_table', defer_base_release := False, ht_active := True\<rparr>) minsize None))"

definition reinitialize_hashtab :: "'k ht_class \<Rightarrow> 'k hash_table \<Rightarrow> 'k hash_table" where
  "reinitialize_hashtab cls t =
     ht_fields_common_init (t\<lparr>ht_base := replicate (ht_size t) (zero_key cls, 0),
       ht_passed := replicate (ht_size t div 8 + 1) 0 @ drop (ht_size t div 8 + 1) (ht_passed t)\<rparr>)"

section \<open>Probing\<close>

definition rehash_factor :: "nat \<Rightarrow> nat \<Rightarrow> nat" where
  "rehash_factor hash prime = 1 + hash mod (prime - 1)"

definition rehash_index :: "nat \<Rightarrow> nat \<Rightarrow> nat \<Rightarrow> nat" where
  "rehash_index ht_index rhfact prime = (if ht_index + rhfact \<ge> prime then ht_index + rhfact - prime else ht_index + rhfact)"

text \<open>\<open>RETURN_IF_LOOKUP_DONE\<close>: \<open>Some\<close> result to return, or \<open>None\<close> to go on.\<close>

definition return_if_lookup_done :: "'k ht_class \<Rightarrow> 'k hash_table \<Rightarrow> 'k \<Rightarrow> nat \<Rightarrow> nat option option res" where
  "return_if_lookup_done cls t key i =
     res_bind (rd (ht_base t) (int i)) (\<lambda>e.
       Inr (if htent_empty cls e then Some None
            else if snd e \<noteq> HT_DELETED_ENTRY \<and> fst e = key then Some (Some i) else None))"

text \<open>
  The loop \<open>do ... while (ht_index != save_ht_index)\<close> of lookup and deletion, with a bound on its rounds. An entry is
  given by its index.
\<close>

fun lookup_loop :: "'k ht_class \<Rightarrow> 'k hash_table \<Rightarrow> 'k \<Rightarrow> nat \<Rightarrow> nat \<Rightarrow> nat \<Rightarrow> nat \<Rightarrow> nat option res" where
  "lookup_loop cls t key rhfact save_ht_index 0 ht_index = Inl NoReturn"
| "lookup_loop cls t key rhfact save_ht_index (Suc n) ht_index =
     res_bind (return_if_lookup_done cls t key ht_index) (\<lambda>r. case r of
         Some x \<Rightarrow> Inr x
       | None \<Rightarrow>
           let next_index = rehash_index ht_index rhfact (ht_size t)
           in if next_index = save_ht_index then Inr None
              else lookup_loop cls t key rhfact save_ht_index n next_index)"

definition lookup_hashtab :: "'k ht_class \<Rightarrow> 'k hash_table \<Rightarrow> 'k \<Rightarrow> nat option res" where
  "lookup_hashtab cls t key =
     (let prime = ht_size t; hash = find_hash cls key; ht_index = hash mod prime
      in res_bind (return_if_lookup_done cls t key ht_index) (\<lambda>r. case r of
           Some x \<Rightarrow> Inr x
         | None \<Rightarrow>
             let rhfact = rehash_factor hash prime
             in lookup_loop cls t key rhfact ht_index prime (rehash_index ht_index rhfact prime)))"

section \<open>Adding an entry\<close>

definition insert_htent :: "'k hash_table \<Rightarrow> nat \<Rightarrow> 'k \<Rightarrow> 64 word \<Rightarrow> 'k hash_table res" where
  "insert_htent t i key v =
     res_bind (rd (ht_base t) (int i)) (\<lambda>e.
       Inr (t\<lparr>del_count := (if snd e = HT_DELETED_ENTRY then uint_dec (del_count t) else del_count t),
              ht_base := (ht_base t)[i := (key, v)], ht_count := uint_inc (ht_count t)\<rparr>))"

text \<open>\<open>RETURN_IF_ADDED\<close>: the result of the function, or the value of \<open>first_del_ent\<close> with which the search goes on.\<close>

definition return_if_added ::
  "'k ht_class \<Rightarrow> 'k hash_table \<Rightarrow> 'k \<Rightarrow> 64 word \<Rightarrow> nat option \<Rightarrow> nat \<Rightarrow> ((bool \<times> nat \<times> 'k hash_table) + nat option) res" where
  "return_if_added cls t key v first_del_ent i =
     res_bind (rd (ht_base t) (int i)) (\<lambda>e.
       if htent_empty cls e
       then (let j = (case first_del_ent of Some d \<Rightarrow> d | None \<Rightarrow> i)
             in res_bind (insert_htent t j key v) (\<lambda>t. Inr (Inl (True, j, t))))
       else if snd e \<noteq> HT_DELETED_ENTRY
       then (if fst e = key then Inr (Inl (False, i, t)) else Inr (Inr first_del_ent))
       else Inr (Inr (case first_del_ent of None \<Rightarrow> Some i | Some d \<Rightarrow> Some d)))"

definition pass_thru :: "'k hash_table \<Rightarrow> nat \<Rightarrow> 'k hash_table res" where
  "pass_thru t i = res_bind (bit_set i (ht_passed t)) (\<lambda>(_, p). Inr (t\<lparr>ht_passed := p\<rparr>))"

fun add_loop ::
  "'k ht_class \<Rightarrow> 'k \<Rightarrow> 64 word \<Rightarrow> nat \<Rightarrow> nat \<Rightarrow> nat \<Rightarrow> 'k hash_table \<Rightarrow> nat option \<Rightarrow> nat \<Rightarrow> (bool \<times> nat \<times> 'k hash_table) res" where
  "add_loop cls key v rhfact save_ht_index 0 t first_del_ent ht_index = Inl NoReturn"
| "add_loop cls key v rhfact save_ht_index (Suc n) t first_del_ent ht_index =
     res_bind (return_if_added cls t key v first_del_ent ht_index) (\<lambda>r. case r of
         Inl x \<Rightarrow> Inr x
       | Inr first_del_ent \<Rightarrow>
           res_bind (pass_thru t ht_index) (\<lambda>t.
             let next_index = rehash_index ht_index rhfact (ht_size t)
             in if next_index = save_ht_index
                then (case first_del_ent of
                        Some d \<Rightarrow> res_bind (insert_htent t d key v) (\<lambda>t. Inr (True, d, t))
                      | None \<Rightarrow> Inl AssertFailed)
                else add_loop cls key v rhfact save_ht_index n t first_del_ent next_index))"

text \<open>\<open>ADD_HASHTAB_INTL\<close> after the test for an expansion, which is skipped while entries move to a new table.\<close>

definition add_probe :: "'k ht_class \<Rightarrow> 'k hash_table \<Rightarrow> 'k \<Rightarrow> 64 word \<Rightarrow> (bool \<times> nat \<times> 'k hash_table) res" where
  "add_probe cls t key v =
     (let prime = ht_size t; hash = find_hash cls key; ht_index = hash mod prime
      in res_bind (return_if_added cls t key v None ht_index) (\<lambda>r. case r of
           Inl x \<Rightarrow> Inr x
         | Inr first_del_ent \<Rightarrow>
             res_bind (pass_thru t ht_index) (\<lambda>t.
               let rhfact = rehash_factor hash prime
               in add_loop cls key v rhfact ht_index prime t first_del_ent (rehash_index ht_index rhfact prime))))"

fun move_entries :: "'k ht_class \<Rightarrow> 'k ht_ent list \<Rightarrow> 'k hash_table \<Rightarrow> 'k hash_table res" where
  "move_entries cls [] t = Inr t"
| "move_entries cls (e # es) t =
     (if htent_valid cls e then res_bind (add_probe cls t (fst e) (snd e)) (\<lambda>(_, _, t). move_entries cls es t)
      else move_entries cls es t)"

text \<open>
  \<open>EXPAND_HASHTAB\<close>. The flag of the result tells whether the table has a new base; the condition handler \<open>hashtab_rehash_ch\<close> ends
  the function with the old table when no new one can be had. Its third error, \<open>ERR_MEMORYRECURSIVE\<close> of an allocation inside of an
  allocation, and the exit of a threaded process are not modelled.
\<close>

definition expand_hashtab :: "'k ht_class \<Rightarrow> nat list \<Rightarrow> bool \<Rightarrow> 'k hash_table \<Rightarrow> nat \<Rightarrow> (bool \<times> 'k hash_table) res" where
  "expand_hashtab cls ht_sizes mem table minsize =
     (case init_hashtab_intl cls ht_sizes mem table minsize (Some table) of
        (old, Inl e) \<Rightarrow> if e = ERR_HTOFLOW \<or> e = ERR_MEMORY then Inr (False, the old) else Inl e
      | (old, Inr newtable) \<Rightarrow>
          res_bind (if 0 < ht_count table then move_entries cls (ht_base table) newtable else Inr newtable) (\<lambda>t.
            Inr (True, if dont_keep_spare_table t then t\<lparr>spare_base := False, spare_base_size := 0\<rparr>
                       else t\<lparr>spare_base := True, spare_base_size := ht_size table\<rparr>)))"

text \<open>\<open>ADD_HASHTAB\<close>: whether the entry is new, its index and the table.\<close>

definition add_hashtab ::
  "'k ht_class \<Rightarrow> nat list \<Rightarrow> bool \<Rightarrow> 'k hash_table \<Rightarrow> 'k \<Rightarrow> 64 word \<Rightarrow> (bool \<times> nat \<times> 'k hash_table) res" where
  "add_hashtab cls ht_sizes mem t key v =
     (if ht_count t \<ge> exp_trigger_size t
      then res_bind (expand_hashtab cls ht_sizes mem t (ht_size t + 1)) (\<lambda>(moved, t).
        if moved then add_probe cls t key v
        else if exp_trigger_size t \<ge> ht_size t then Inl ERR_MEMORY
        else add_probe cls (t\<lparr>exp_trigger_size := ht_size t\<rparr>) key v)
      else add_probe cls t key v)"

section \<open>Deleting an entry\<close>

definition delete_htent :: "'k ht_class \<Rightarrow> 'k hash_table \<Rightarrow> nat \<Rightarrow> 'k hash_table res" where
  "delete_htent cls t i =
     res_bind (rd (ht_base t) (int i)) (\<lambda>e.
       res_bind (rd (ht_passed t) (int (i div 8))) (\<lambda>b.
         Inr (if push_bit (i mod 8) 1 AND b \<noteq> 0
              then t\<lparr>ht_base := (ht_base t)[i := (fst e, HT_DELETED_ENTRY)], del_count := uint_inc (del_count t),
                     ht_count := uint_dec (ht_count t)\<rparr>
              else t\<lparr>ht_base := (ht_base t)[i := htent_mark_empty cls e], ht_count := uint_dec (ht_count t)\<rparr>)))"

definition compact_needed :: "'k hash_table \<Rightarrow> bool" where
  "compact_needed t \<longleftrightarrow> \<not> dont_compact t \<and> (del_count t > cmp_trigger_size t
     \<or> (initial_size t < ht_size t \<and> ht_count t < cmp_trigger_size t div 2))"

definition rehash_table_size :: "nat \<Rightarrow> nat \<Rightarrow> nat" where
  "rehash_table_size sz n = min sz (n * 4 mod 2 ^ 32)"

definition compact_hashtab :: "'k ht_class \<Rightarrow> nat list \<Rightarrow> bool \<Rightarrow> 'k hash_table \<Rightarrow> 'k hash_table res" where
  "compact_hashtab cls ht_sizes mem t =
     (if dont_compact t then Inr t
      else res_bind (expand_hashtab cls ht_sizes mem t (rehash_table_size (ht_size t) (ht_count t))) (\<lambda>(moved, t).
        Inr (if moved then t else t\<lparr>cmp_trigger_size := ht_size t\<rparr>)))"

definition delete_hashtab :: "'k ht_class \<Rightarrow> nat list \<Rightarrow> bool \<Rightarrow> 'k hash_table \<Rightarrow> 'k \<Rightarrow> (bool \<times> 'k hash_table) res" where
  "delete_hashtab cls ht_sizes mem t key =
     res_bind (lookup_hashtab cls t key) (\<lambda>r. case r of
         None \<Rightarrow> Inr (False, t)
       | Some i \<Rightarrow>
           res_bind (delete_htent cls t i) (\<lambda>t.
             res_bind (if compact_needed t then compact_hashtab cls ht_sizes mem t else Inr t) (\<lambda>t. Inr (True, t))))"

end
