(* ===== verification/Hashtab_Inv.thy ===== *)
theory Hashtab_Inv
  imports Hashtab
begin

text \<open>
  Correctness of the hash tables. Every size is a number whose smaller positive numbers are coprime to it, so the probes visit all
  entries. The invariant says where a valid key can be found: all entries that its probes meet before it are in use and
  marked as passed. The locale \<open>ht_keys\<close> has what the template assumes of an instance; the operations are verified from it.
\<close>

section \<open>Probe sequences\<close>

definition prime_size :: "nat \<Rightarrow> bool" where
  "prime_size p \<longleftrightarrow> 2 < p \<and> (\<forall>r. 0 < r \<and> r < p \<longrightarrow> coprime r p)"

definition probe :: "nat \<Rightarrow> nat \<Rightarrow> nat \<Rightarrow> nat" where
  "probe p hash j = (hash mod p + j * rehash_factor hash p) mod p"

lemma rehash_factor_range: "prime_size p \<Longrightarrow> 0 < rehash_factor h p \<and> rehash_factor h p < p"
  using mod_less_divisor [of "p - 1" h] by (auto simp: rehash_factor_def prime_size_def simp del: mod_less_divisor)

lemma probe_0: "probe p h 0 = h mod p"
  by (simp add: probe_def)

lemma probe_less: "prime_size p \<Longrightarrow> probe p h j < p"
  by (simp add: probe_def prime_size_def)

lemma rehash_index_mod: "i < p \<Longrightarrow> r < p \<Longrightarrow> rehash_index i r p = (i + r) mod p"
  by (simp add: rehash_index_def mod_if)

lemma probe_Suc:
  assumes "prime_size p"
  shows "rehash_index (probe p h j) (rehash_factor h p) p = probe p h (Suc j)"
proof -
  have "rehash_index (probe p h j) (rehash_factor h p) p = (probe p h j + rehash_factor h p) mod p"
    using rehash_index_mod [OF probe_less] rehash_factor_range assms by blast
  also have "\<dots> = (h mod p + j * rehash_factor h p + rehash_factor h p) mod p" unfolding probe_def by (rule mod_add_left_eq)
  finally show ?thesis by (simp only: probe_def mult_Suc ac_simps)
qed

lemma probe_inj:
  assumes "prime_size p" and "i < p" and "j < p" and "probe p h i = probe p h j"
  shows "i = j"
proof -
  have *: "i = j" if "i \<le> j" "j < p" "probe p h i = probe p h j" for i j
  proof -
    let ?r = "rehash_factor h p"
    have "p dvd (h mod p + j * ?r) - (h mod p + i * ?r)"
      using that(3) by (intro mod_eq_dvd_iff_nat [THEN iffD1]) (use that(1) in \<open>auto simp: probe_def\<close>)
    then have "p dvd (j - i) * ?r" by (simp add: diff_mult_distrib)
    moreover have "coprime p ?r" using assms(1) rehash_factor_range [OF assms(1), of h] unfolding prime_size_def by (metis coprime_commute)
    ultimately have "p dvd j - i" by (simp add: coprime_dvd_mult_left_iff)
    then show ?thesis using that by (auto dest: dvd_imp_le)
  qed
  show ?thesis using * [of i j] * [of j i] assms by (metis nle_le)
qed

lemma probe_surj:
  assumes "prime_size p" and "i < p"
  shows "\<exists>j < p. probe p h j = i"
proof -
  have "inj_on (probe p h) {..<p}" using probe_inj [OF assms(1)] by (auto simp: inj_on_def)
  moreover have "probe p h ` {..<p} \<subseteq> {..<p}" using probe_less [OF assms(1)] by auto
  ultimately have "probe p h ` {..<p} = {..<p}" by (simp add: endo_inj_surj)
  then show ?thesis using assms(2) by (metis imageE lessThan_iff)
qed

lemma probe_return:
  assumes "prime_size p" and "0 < j" and "j \<le> p" and "probe p h j = probe p h 0"
  shows "j = p"
  using probe_inj [OF assms(1), of j 0 h] assms by (cases "j < p") (auto simp: prime_size_def)

lemma probe_wrap: "probe p h p = h mod p"
  by (simp add: probe_def)

section \<open>Lists of entries\<close>

lemma length_filter_update:
  assumes "i < length xs"
  shows "length (filter P (xs[i := x])) + of_bool (P (xs ! i)) = length (filter P xs) + of_bool (P x)"
  using assms
proof (induction xs arbitrary: i)
  case (Cons y xs)
  then show ?case by (cases i) auto
qed simp

lemma map_of_filter_unique:
  assumes "\<And>i j. i < length xs \<Longrightarrow> j < length xs \<Longrightarrow> P (xs ! i) \<Longrightarrow> P (xs ! j) \<Longrightarrow> fst (xs ! i) = fst (xs ! j) \<Longrightarrow> i = j"
  shows "map_of (filter P xs) k = Some v \<longleftrightarrow> (\<exists>i < length xs. xs ! i = (k, v) \<and> P (xs ! i))"
proof
  assume "map_of (filter P xs) k = Some v"
  then have "(k, v) \<in> set (filter P xs)" by (rule map_of_SomeD)
  then show "\<exists>i < length xs. xs ! i = (k, v) \<and> P (xs ! i)" by (auto simp: in_set_conv_nth)
next
  assume "\<exists>i < length xs. xs ! i = (k, v) \<and> P (xs ! i)"
  then obtain i where i: "i < length xs" "xs ! i = (k, v)" "P (xs ! i)" by blast
  then have "(k, v) \<in> set (filter P xs)" using nth_mem [OF i(1)] by simp
  then obtain w where w: "map_of (filter P xs) k = Some w" using weak_map_of_SomeI by fastforce
  then have "(k, w) \<in> set (filter P xs)" by (rule map_of_SomeD)
  then obtain j where "j < length xs" "xs ! j = (k, w)" "P (xs ! j)" by (auto simp: in_set_conv_nth)
  then have "i = j" using assms [of i j] i by simp
  then show "map_of (filter P xs) k = Some v" using w i(2) \<open>xs ! j = (k, w)\<close> by simp
qed

section \<open>The invariant\<close>

text \<open>The restriction that the comments of the template put on keys and values.\<close>

definition ht_ok :: "'k ht_class \<Rightarrow> 'k \<Rightarrow> 64 word \<Rightarrow> bool" where
  "ht_ok cls k v \<longleftrightarrow> htent_valid cls (k, v) \<and> \<not> htent_empty cls (k, HT_DELETED_ENTRY)"

definition ht_map :: "'k ht_class \<Rightarrow> 'k hash_table \<Rightarrow> 'k \<rightharpoonup> 64 word" where
  "ht_map cls t = map_of (filter (htent_valid cls) (ht_base t))"

definition passed_used :: "'k ht_class \<Rightarrow> 'k hash_table \<Rightarrow> 'k \<Rightarrow> nat \<Rightarrow> bool" where
  "passed_used cls t k j \<longleftrightarrow> (\<forall>l < j. \<not> htent_empty cls (ht_base t ! probe (ht_size t) (find_hash cls k) l)
     \<and> bitat (ht_passed t) (probe (ht_size t) (find_hash cls k) l))"

definition ht_shape :: "'k hash_table \<Rightarrow> bool" where
  "ht_shape t \<longleftrightarrow> prime_size (ht_size t) \<and> ht_size t < 2 ^ 31 \<and> length (ht_base t) = ht_size t \<and> length (ht_passed t) = round_up8 (ht_size t)"

definition ht_entry_ok :: "'k ht_class \<Rightarrow> 'k hash_table \<Rightarrow> nat \<Rightarrow> bool" where
  "ht_entry_ok cls t i \<longleftrightarrow>
     (let e = ht_base t ! i
      in if htent_empty cls e then snd e \<noteq> HT_DELETED_ENTRY
         else snd e = HT_DELETED_ENTRY \<or> ht_ok cls (fst e) (snd e) \<and>
           (\<exists>j < ht_size t. probe (ht_size t) (find_hash cls (fst e)) j = i \<and> passed_used cls t (fst e) j))"

definition ht_unique :: "'k ht_class \<Rightarrow> 'k hash_table \<Rightarrow> bool" where
  "ht_unique cls t \<longleftrightarrow> (\<forall>i < ht_size t. \<forall>j < ht_size t. htent_valid cls (ht_base t ! i) \<and> htent_valid cls (ht_base t ! j)
     \<and> fst (ht_base t ! i) = fst (ht_base t ! j) \<longrightarrow> i = j)"

definition ht_deleted :: "'k ht_ent \<Rightarrow> bool" where
  "ht_deleted e \<longleftrightarrow> snd e = HT_DELETED_ENTRY"

definition ht_inv :: "'k ht_class \<Rightarrow> 'k hash_table \<Rightarrow> bool" where
  "ht_inv cls t \<longleftrightarrow> ht_shape t \<and> (\<forall>i < ht_size t. ht_entry_ok cls t i) \<and> ht_unique cls t
     \<and> ht_count t = length (filter (htent_valid cls) (ht_base t)) \<and> del_count t = length (filter ht_deleted (ht_base t))"

lemma ht_map_iff:
  assumes "ht_inv cls t"
  shows "ht_map cls t k = Some v \<longleftrightarrow> (\<exists>i < ht_size t. ht_base t ! i = (k, v) \<and> htent_valid cls (k, v))"
proof -
  have len: "length (ht_base t) = ht_size t" using assms by (simp add: ht_inv_def ht_shape_def)
  have "map_of (filter (htent_valid cls) (ht_base t)) k = Some v
      \<longleftrightarrow> (\<exists>i < length (ht_base t). ht_base t ! i = (k, v) \<and> htent_valid cls (ht_base t ! i))"
    by (rule map_of_filter_unique) (use assms len in \<open>auto simp: ht_inv_def ht_unique_def\<close>)
  then show ?thesis unfolding ht_map_def len by auto
qed

lemma ht_map_None:
  assumes "ht_inv cls t"
  shows "ht_map cls t k = None \<longleftrightarrow> (\<forall>i < ht_size t. htent_valid cls (ht_base t ! i) \<longrightarrow> fst (ht_base t ! i) \<noteq> k)" (is "_ \<longleftrightarrow> ?R")
proof
  assume none: "ht_map cls t k = None"
  show ?R
  proof (intro allI impI notI)
    fix i assume "i < ht_size t" "htent_valid cls (ht_base t ! i)" "fst (ht_base t ! i) = k"
    then have "ht_map cls t k = Some (snd (ht_base t ! i))" using ht_map_iff [OF assms] by (metis prod.collapse)
    then show False using none by simp
  qed
next
  assume ?R
  then have "ht_map cls t k \<noteq> Some v" for v using ht_map_iff [OF assms, of k v] by auto
  then show "ht_map cls t k = None" by (metis option.exhaust)
qed

lemma ht_inv_shape: "ht_inv cls t \<Longrightarrow> prime_size (ht_size t) \<and> length (ht_base t) = ht_size t"
  by (simp add: ht_inv_def ht_shape_def)

text \<open>An entry with the key is met by the probes before an empty entry is.\<close>

lemma ht_path:
  assumes "ht_inv cls t" and "i < ht_size t" and "htent_valid cls (ht_base t ! i)"
  obtains j where "j < ht_size t" "probe (ht_size t) (find_hash cls (fst (ht_base t ! i))) j = i"
    "passed_used cls t (fst (ht_base t ! i)) j" "ht_ok cls (fst (ht_base t ! i)) (snd (ht_base t ! i))"
proof -
  have "ht_entry_ok cls t i" using assms(1,2) by (simp add: ht_inv_def)
  then show thesis using assms(3) that by (auto simp: ht_entry_ok_def htent_valid_def Let_def)
qed

section \<open>Lookup\<close>

text \<open>The first \<open>j\<close> probes have met neither an empty entry nor the key.\<close>

definition missed :: "'k ht_class \<Rightarrow> 'k hash_table \<Rightarrow> 'k \<Rightarrow> nat \<Rightarrow> bool" where
  "missed cls t k j \<longleftrightarrow> (\<forall>l < j. let e = ht_base t ! probe (ht_size t) (find_hash cls k) l
     in \<not> htent_empty cls e \<and> \<not> (htent_valid cls e \<and> fst e = k))"

definition lookup_result :: "'k ht_class \<Rightarrow> 'k hash_table \<Rightarrow> 'k \<Rightarrow> nat option \<Rightarrow> bool" where
  "lookup_result cls t k r \<longleftrightarrow> (case r of
       None \<Rightarrow> ht_map cls t k = None
     | Some i \<Rightarrow> i < ht_size t \<and> htent_valid cls (ht_base t ! i) \<and> fst (ht_base t ! i) = k)"

lemma missed_empty:
  assumes "ht_inv cls t" and "missed cls t k j" and "htent_empty cls (ht_base t ! probe (ht_size t) (find_hash cls k) j)"
  shows "ht_map cls t k = None"
  unfolding ht_map_None [OF assms(1)]
proof (intro allI impI notI)
  fix i assume i: "i < ht_size t" "htent_valid cls (ht_base t ! i)" "fst (ht_base t ! i) = k"
  then obtain l where l: "probe (ht_size t) (find_hash cls k) l = i" "passed_used cls t k l" using ht_path [OF assms(1)] by metis
  have "\<not> l < j" using assms(2) i(2,3) l(1) by (auto simp: missed_def Let_def)
  moreover have "l \<noteq> j" using assms(3) i(2) l(1) by (auto simp: htent_valid_def)
  moreover have "\<not> j < l" using assms(3) l(2) by (auto simp: passed_used_def)
  ultimately show False by simp
qed

lemma missed_all:
  assumes "ht_inv cls t" and "missed cls t k (ht_size t)"
  shows "ht_map cls t k = None"
  unfolding ht_map_None [OF assms(1)]
proof (intro allI impI notI)
  fix i assume i: "i < ht_size t" "htent_valid cls (ht_base t ! i)" "fst (ht_base t ! i) = k"
  then obtain l where "l < ht_size t" "probe (ht_size t) (find_hash cls k) l = i" using ht_path [OF assms(1)] by metis
  then show False using assms(2) i(2,3) by (auto simp: missed_def Let_def)
qed

lemma missed_Suc: "missed cls t k (Suc j) \<longleftrightarrow> missed cls t k j \<and>
    (let e = ht_base t ! probe (ht_size t) (find_hash cls k) j in \<not> htent_empty cls e \<and> \<not> (htent_valid cls e \<and> fst e = k))"
  by (auto simp: missed_def less_Suc_eq)

lemma lookup_done:
  assumes "ht_inv cls t" and "missed cls t k j"
  shows "\<exists>r. return_if_lookup_done cls t k (probe (ht_size t) (find_hash cls k) j) = Inr r
    \<and> (case r of None \<Rightarrow> missed cls t k (Suc j) | Some x \<Rightarrow> lookup_result cls t k x)"
proof -
  let ?i = "probe (ht_size t) (find_hash cls k) j"
  have i: "?i < ht_size t" "?i < length (ht_base t)" using ht_inv_shape [OF assms(1)] probe_less by auto
  then show ?thesis
    using missed_empty [OF assms] assms(2) i(1) by (auto simp: return_if_lookup_done_def lookup_result_def missed_Suc htent_valid_def Let_def)
qed

lemma lookup_loop_spec:
  assumes "ht_inv cls t" and "missed cls t k j" and "0 < j" and "j < ht_size t" and "ht_size t \<le> j + n"
  shows "\<exists>r. lookup_loop cls t k (rehash_factor (find_hash cls k) (ht_size t)) (find_hash cls k mod ht_size t) n
      (probe (ht_size t) (find_hash cls k) j) = Inr r \<and> lookup_result cls t k r"
  using assms(2-)
proof (induction n arbitrary: j)
  case (Suc n)
  let ?p = "ht_size t" and ?h = "find_hash cls k"
  have pr: "prime_size ?p" using ht_inv_shape [OF assms(1)] by simp
  obtain r where r: "return_if_lookup_done cls t k (probe ?p ?h j) = Inr r"
    "case r of None \<Rightarrow> missed cls t k (Suc j) | Some x \<Rightarrow> lookup_result cls t k x" using lookup_done [OF assms(1) Suc.prems(1)] by blast
  show ?case
  proof (cases r)
    case (Some x)
    then show ?thesis using r by simp
  next
    case None
    then have m: "missed cls t k (Suc j)" using r(2) by simp
    show ?thesis
    proof (cases "probe ?p ?h (Suc j) = ?h mod ?p")
      case True
      then have "Suc j = ?p" using probe_return [OF pr, of "Suc j" ?h] Suc.prems(3) by (simp add: probe_0)
      then show ?thesis using True r(1) None m missed_all [OF assms(1)] by (auto simp: probe_Suc [OF pr] lookup_result_def)
    next
      case False
      then have "Suc j \<noteq> ?p" using probe_wrap [of ?p ?h] by auto
      then show ?thesis using Suc.IH [OF m] Suc.prems False r(1) None by (simp add: probe_Suc [OF pr])
    qed
  qed
qed simp

lemma lookup_hashtab_spec:
  assumes "ht_inv cls t"
  shows "\<exists>r. lookup_hashtab cls t k = Inr r \<and> lookup_result cls t k r"
proof -
  let ?p = "ht_size t" and ?h = "find_hash cls k"
  have pr: "prime_size ?p" "1 < ?p" using ht_inv_shape [OF assms] by (auto simp: prime_size_def)
  obtain r where r: "return_if_lookup_done cls t k (?h mod ?p) = Inr r"
    "case r of None \<Rightarrow> missed cls t k (Suc 0) | Some x \<Rightarrow> lookup_result cls t k x"
    using lookup_done [OF assms, of k 0] by (auto simp: missed_def probe_0)
  show ?thesis
  proof (cases r)
    case None
    then show ?thesis using lookup_loop_spec [OF assms, of k "Suc 0" ?p] r pr(2) probe_Suc [OF pr(1), of ?h 0]
      by (simp add: lookup_hashtab_def Let_def probe_0)
  qed (use r in \<open>auto simp: lookup_hashtab_def Let_def\<close>)
qed

section \<open>Adding an entry\<close>

text \<open>What adding and deleting leave alone.\<close>

definition ht_conf :: "'k hash_table \<Rightarrow> nat \<times> nat \<times> bool \<times> nat \<times> nat \<times> nat \<times> bool \<times> bool" where
  "ht_conf t = (ht_size t, initial_size t, spare_base t, spare_base_size t, exp_trigger_size t, cmp_trigger_size t,
     dont_compact t, dont_keep_spare_table t)"

lemma entry_ok_mono:
  assumes "ht_entry_ok cls t i" and "ht_base t' ! i = ht_base t ! i" and "ht_size t' = ht_size t"
    and "\<And>j. passed_used cls t (fst (ht_base t ! i)) j \<Longrightarrow> passed_used cls t' (fst (ht_base t ! i)) j"
  shows "ht_entry_ok cls t' i"
  using assms(1,4) unfolding ht_entry_ok_def Let_def assms(2,3) by (auto split: if_splits)

lemma ht_inv_passed:
  assumes "ht_inv cls t" and "length p = length (ht_passed t)" and "\<And>i. bitat (ht_passed t) i \<Longrightarrow> i < ht_size t \<Longrightarrow> bitat p i"
  shows "ht_inv cls (t\<lparr>ht_passed := p\<rparr>)" and "ht_map cls (t\<lparr>ht_passed := p\<rparr>) = ht_map cls t"
proof -
  have pr: "prime_size (ht_size t)" using ht_inv_shape [OF assms(1)] by simp
  have "passed_used cls t k j \<Longrightarrow> passed_used cls (t\<lparr>ht_passed := p\<rparr>) k j" for k j
    using assms(3) probe_less [OF pr] by (auto simp: passed_used_def)
  then have "ht_entry_ok cls t i \<Longrightarrow> ht_entry_ok cls (t\<lparr>ht_passed := p\<rparr>) i" for i
    using entry_ok_mono [of cls t i "t\<lparr>ht_passed := p\<rparr>"] by simp
  then show "ht_inv cls (t\<lparr>ht_passed := p\<rparr>)" using assms(1,2) by (simp add: ht_inv_def ht_shape_def ht_unique_def)
  show "ht_map cls (t\<lparr>ht_passed := p\<rparr>) = ht_map cls t" by (simp add: ht_map_def)
qed

lemma passed_index: "ht_inv cls t \<Longrightarrow> i < ht_size t \<Longrightarrow> i < 8 * length (ht_passed t)"
  by (auto simp: ht_inv_def ht_shape_def round_up8_def)

lemma pass_thru_spec:
  assumes "ht_inv cls t" and "i < ht_size t"
  shows "\<exists>p. pass_thru t i = Inr (t\<lparr>ht_passed := p\<rparr>) \<and> ht_inv cls (t\<lparr>ht_passed := p\<rparr>) \<and> bitat p i
    \<and> (\<forall>j < ht_size t. bitat (ht_passed t) j \<longrightarrow> bitat p j)"
proof -
  let ?p = "bitput (ht_passed t) i True"
  note b = passed_index [OF assms(1)]
  have bits: "bitat ?p j = (i = j \<or> bitat (ht_passed t) j)" if "j < ht_size t" for j
    using that assms(2) b by (simp add: bitstore.get_put)
  show ?thesis
    using ht_inv_passed(1) [OF assms(1), of ?p] bits assms(2) bit_ops_eq(1) [OF b [OF assms(2)]]
    by (intro exI [of _ ?p]) (auto simp: pass_thru_def)
qed

lemma count_less:
  assumes "ht_inv cls t" and "i < ht_size t" and "\<not> htent_valid cls (ht_base t ! i)"
  shows "ht_count t < ht_size t"
proof -
  have "length (filter (htent_valid cls) (ht_base t)) < length (ht_base t)"
    using assms ht_inv_shape [OF assms(1)] by (intro length_filter_less [of "ht_base t ! i"]) auto
  then show ?thesis using assms(1) by (simp add: ht_inv_def ht_shape_def)
qed

lemma passed_used_update:
  assumes "passed_used cls t k j" and "\<not> htent_empty cls e" and "ht_base t' = (ht_base t)[i := e]" "ht_passed t' = ht_passed t"
    "ht_size t' = ht_size t"
  shows "passed_used cls t' k j"
  using assms by (auto simp: passed_used_def list_update_beyond nth_list_update split: if_splits) (metis list_update_beyond not_less nth_list_update)

lemma entry_counts:
  assumes "ht_inv cls t" and "i < ht_size t"
  shows "length (filter (htent_valid cls) ((ht_base t)[i := e])) + of_bool (htent_valid cls (ht_base t ! i)) = ht_count t + of_bool (htent_valid cls e)"
    and "length (filter ht_deleted ((ht_base t)[i := e])) + of_bool (ht_deleted (ht_base t ! i)) = del_count t + of_bool (ht_deleted e)"
    and "ht_count t \<le> ht_size t" and "del_count t \<le> ht_size t" and "ht_size t < 2 ^ 31"
  using assms length_filter_update [of i "ht_base t"] length_filter_le [of "htent_valid cls" "ht_base t"] length_filter_le [of ht_deleted "ht_base t"]
  by (auto simp: ht_inv_def ht_shape_def)

lemma uint_inc_less: "n < 2 ^ 31 \<Longrightarrow> uint_inc n = n + 1"
  by (simp add: uint_inc_def)

lemma uint_dec_pos: "0 < n \<Longrightarrow> n < 2 ^ 32 \<Longrightarrow> uint_dec n = n - 1"
proof -
  assume "0 < n" "n < 2 ^ 32"
  then have "n + (2 ^ 32 - 1) = (n - 1) + 2 ^ 32" by simp
  then show ?thesis using \<open>n < 2 ^ 32\<close> by (simp only: uint_dec_def mod_add_self2) simp
qed

definition put_entry :: "'k hash_table \<Rightarrow> nat \<Rightarrow> 'k ht_ent \<Rightarrow> nat \<Rightarrow> nat \<Rightarrow> 'k hash_table" where
  "put_entry t i e n d = t\<lparr>ht_base := (ht_base t)[i := e], ht_count := n, del_count := d\<rparr>"

lemma put_entry_fields [simp]:
  "ht_base (put_entry t i e n d) = (ht_base t)[i := e]" "ht_passed (put_entry t i e n d) = ht_passed t"
  "ht_size (put_entry t i e n d) = ht_size t" "ht_count (put_entry t i e n d) = n" "del_count (put_entry t i e n d) = d"
  "ht_conf (put_entry t i e n d) = ht_conf t"
  by (simp_all add: put_entry_def ht_conf_def)

lemma insert_inv:
  assumes inv: "ht_inv cls t" and none: "ht_map cls t k = None" and ok: "ht_ok cls k v"
    and j: "j < ht_size t" "probe (ht_size t) (find_hash cls k) j = i" "passed_used cls t k j"
    and free: "\<not> htent_valid cls (ht_base t ! i)"
    and n: "n = ht_count t + 1" and d: "d + of_bool (ht_deleted (ht_base t ! i)) = del_count t"
  shows "ht_inv cls (put_entry t i (k, v) n d)" (is "ht_inv cls ?t")
proof -
  have shape: "ht_shape t" "length (ht_base t) = ht_size t" using inv by (simp_all add: ht_inv_def ht_shape_def)
  have i: "i < ht_size t" using probe_less j(2) shape(1) by (auto simp: ht_shape_def)
  have v: "htent_valid cls (k, v)" "\<not> htent_empty cls (k, v)" "\<not> ht_deleted (k, v)" using ok by (simp_all add: ht_ok_def htent_valid_def ht_deleted_def)
  have pu: "passed_used cls t k' j' \<Longrightarrow> passed_used cls ?t k' j'" for k' j' by (rule passed_used_update [OF _ v(2)]) simp_all
  have "ht_entry_ok cls ?t l" if "l < ht_size t" for l
  proof (cases "l = i")
    case True
    then show ?thesis using i shape(2) v ok j pu [OF j(3)] by (auto simp: ht_entry_ok_def Let_def)
  next
    case False
    then show ?thesis using entry_ok_mono [of cls t l ?t] pu inv that by (simp add: ht_inv_def)
  qed
  moreover have "ht_unique cls ?t"
    using inv none shape(2) i by (auto simp: ht_unique_def nth_list_update ht_map_None [OF inv]) (auto simp: ht_inv_def ht_unique_def)
  ultimately show ?thesis
    using shape entry_counts(1,2) [OF inv i, of "(k, v)"] free v n d by (simp add: ht_inv_def ht_shape_def)
qed

lemma insert_map:
  assumes "ht_inv cls t" and "ht_inv cls t'" and "ht_map cls t k = None" and "htent_valid cls (k, v)" and "i < ht_size t"
    and "\<not> htent_valid cls (ht_base t ! i)" and "ht_base t' = (ht_base t)[i := (k, v)]" and "ht_size t' = ht_size t"
  shows "ht_map cls t' = (ht_map cls t)(k \<mapsto> v)"
proof -
  have len: "length (ht_base t) = ht_size t" using ht_inv_shape [OF assms(1)] by simp
  have "ht_map cls t' x = Some y \<longleftrightarrow> ((ht_map cls t)(k \<mapsto> v)) x = Some y" for x y
    unfolding ht_map_iff [OF assms(2)] fun_upd_apply using ht_map_iff [OF assms(1), of x y] ht_map_None [OF assms(1), of k] assms(3-8) len
    by (auto simp: nth_list_update split: if_splits) (metis nth_list_update_eq nth_list_update_neq)+
  then show ?thesis by (intro ext) (metis option.exhaust)
qed

text \<open>The result of adding a key with a value: the flag, the index of its entry and the new table.\<close>

definition add_result :: "'k ht_class \<Rightarrow> 'k hash_table \<Rightarrow> 'k \<Rightarrow> 64 word \<Rightarrow> bool \<times> nat \<times> 'k hash_table \<Rightarrow> bool" where
  "add_result cls t k v = (\<lambda>(b, i, t'). ht_inv cls t' \<and> ht_conf t' = ht_conf t \<and> i < ht_size t' \<and>
     (case ht_map cls t k of
        None \<Rightarrow> b \<and> ht_map cls t' = (ht_map cls t)(k \<mapsto> v) \<and> ht_base t' ! i = (k, v) \<and> ht_count t' = ht_count t + 1
      | Some w \<Rightarrow> \<not> b \<and> ht_map cls t' = ht_map cls t \<and> ht_base t' ! i = (k, w) \<and> ht_count t' = ht_count t))"

lemma insert_htent_spec:
  assumes "ht_inv cls t" and "ht_map cls t k = None" and "ht_ok cls k v"
    and "j < ht_size t" "probe (ht_size t) (find_hash cls k) j = i" "passed_used cls t k j" and "\<not> htent_valid cls (ht_base t ! i)"
  shows "\<exists>t'. insert_htent t i k v = Inr t' \<and> add_result cls t k v (True, i, t')"
proof -
  have i: "i < ht_size t" using probe_less assms(5) ht_inv_shape [OF assms(1)] by blast
  have len: "length (ht_base t) = ht_size t" using ht_inv_shape [OF assms(1)] by simp
  define d where "d = (if ht_deleted (ht_base t ! i) then uint_dec (del_count t) else del_count t)"
  note e = entry_counts [OF assms(1) i]
  have d: "d + of_bool (ht_deleted (ht_base t ! i)) = del_count t" using e(2) [of "(k, 0)"] e(4,5) by (auto simp: d_def uint_dec_pos ht_deleted_def)
  have n: "uint_inc (ht_count t) = ht_count t + 1" using e(3,5) by (simp add: uint_inc_less)
  let ?t = "put_entry t i (k, v) (ht_count t + 1) d"
  have ins: "insert_htent t i k v = Inr ?t" using i len n by (simp add: insert_htent_def put_entry_def d_def ht_deleted_def)
  have inv: "ht_inv cls ?t" using insert_inv [OF assms] d by simp
  have "ht_map cls ?t = (ht_map cls t)(k \<mapsto> v)"
    using insert_map [OF assms(1) inv assms(2) _ i assms(7)] assms(3) by (simp add: ht_ok_def)
  then show ?thesis using ins inv i len assms(2) by (simp add: add_result_def)
qed

text \<open>The state of the search for a place after \<open>j\<close> probes.\<close>

definition add_state :: "'k ht_class \<Rightarrow> 'k hash_table \<Rightarrow> 'k \<Rightarrow> nat option \<Rightarrow> nat \<Rightarrow> bool" where
  "add_state cls t k fd j \<longleftrightarrow> missed cls t k j \<and> (case fd of
       None \<Rightarrow> \<forall>l < j. \<not> ht_deleted (ht_base t ! probe (ht_size t) (find_hash cls k) l)
     | Some d \<Rightarrow> \<exists>l < j. probe (ht_size t) (find_hash cls k) l = d \<and> ht_deleted (ht_base t ! d))"

lemma add_state_passed: "add_state cls (t\<lparr>ht_passed := p\<rparr>) k fd j = add_state cls t k fd j"
  by (simp add: add_state_def missed_def split: option.splits)

lemma add_result_passed: "add_result cls (t\<lparr>ht_passed := p\<rparr>) k v x = add_result cls t k v x"
proof -
  have "ht_map cls (t\<lparr>ht_passed := p\<rparr>) = ht_map cls t" "ht_conf (t\<lparr>ht_passed := p\<rparr>) = ht_conf t" by (simp_all add: ht_map_def ht_conf_def)
  then show ?thesis by (cases x; cases "ht_map cls t k") (simp_all add: add_result_def)
qed

lemma found_map:
  assumes "ht_inv cls t" and "i < ht_size t" and "htent_valid cls (ht_base t ! i)"
  shows "ht_map cls t (fst (ht_base t ! i)) = Some (snd (ht_base t ! i))"
  using assms ht_map_iff [OF assms(1)] by (metis prod.collapse)

lemma passed_used_less: "passed_used cls t k j \<Longrightarrow> l \<le> j \<Longrightarrow> passed_used cls t k l"
  by (simp add: passed_used_def)

lemma add_step:
  assumes "ht_inv cls t" and "ht_ok cls k v" and "add_state cls t k fd j" and "passed_used cls t k j" and "j < ht_size t"
  shows "\<exists>r. return_if_added cls t k v fd (probe (ht_size t) (find_hash cls k) j) = Inr r
    \<and> (case r of Inl x \<Rightarrow> add_result cls t k v x | Inr fd' \<Rightarrow> add_state cls t k fd' (Suc j))"
proof -
  let ?i = "probe (ht_size t) (find_hash cls k) j"
  let ?e = "ht_base t ! ?i"
  have i: "?i < ht_size t" "?i < length (ht_base t)" using ht_inv_shape [OF assms(1)] probe_less by auto
  note rd = rd_nat [OF i(2)]
  have m: "missed cls t k j" using assms(3) by (simp add: add_state_def)
  consider (empty) "htent_empty cls ?e" | (found) "htent_valid cls ?e" "fst ?e = k" | (other) "htent_valid cls ?e" "fst ?e \<noteq> k"
    | (deleted) "\<not> htent_empty cls ?e" "ht_deleted ?e" by (auto simp: htent_valid_def ht_deleted_def)
  then show ?thesis
  proof cases
    case empty
    have none: "ht_map cls t k = None" by (rule missed_empty [OF assms(1) m empty])
    obtain l d where d: "d = (case fd of Some d \<Rightarrow> d | None \<Rightarrow> ?i)" "l \<le> j" "probe (ht_size t) (find_hash cls k) l = d" "\<not> htent_valid cls (ht_base t ! d)"
      using assms(3) empty by (cases fd) (auto simp: add_state_def htent_valid_def ht_deleted_def intro: less_imp_le)
    then obtain t' where "insert_htent t d k v = Inr t'" "add_result cls t k v (True, d, t')"
      using insert_htent_spec [OF assms(1) none assms(2) _ d(3) passed_used_less [OF assms(4) d(2)]] assms(5) by auto
    then show ?thesis using empty rd d(1) by (simp add: return_if_added_def Let_def)
  next
    case found
    then have "ht_map cls t k = Some (snd ?e)" using found_map [OF assms(1) i(1)] by simp
    moreover have "?e = (k, snd ?e)" using found(2) by (metis prod.collapse)
    ultimately show ?thesis using found rd assms(1) i(1) by (auto simp: return_if_added_def add_result_def htent_valid_def)
  next
    case other
    then show ?thesis using rd assms(3) by (auto simp: return_if_added_def add_state_def missed_Suc htent_valid_def ht_deleted_def less_Suc_eq Let_def split: option.splits)
  next
    case deleted
    then show ?thesis using rd assms(3) by (auto simp: return_if_added_def add_state_def missed_Suc htent_valid_def ht_deleted_def less_Suc_eq Let_def split: option.splits)
  qed
qed

lemma add_pass:
  assumes "ht_inv cls t" and "add_state cls t k fd (Suc j)" and "passed_used cls t k j"
  shows "\<exists>p. pass_thru t (probe (ht_size t) (find_hash cls k) j) = Inr (t\<lparr>ht_passed := p\<rparr>) \<and> ht_inv cls (t\<lparr>ht_passed := p\<rparr>)
    \<and> passed_used cls (t\<lparr>ht_passed := p\<rparr>) k (Suc j)"
proof -
  let ?i = "probe (ht_size t) (find_hash cls k) j"
  have pr: "prime_size (ht_size t)" using ht_inv_shape [OF assms(1)] by simp
  obtain p where "pass_thru t ?i = Inr (t\<lparr>ht_passed := p\<rparr>)" "ht_inv cls (t\<lparr>ht_passed := p\<rparr>)" "bitat p ?i"
    "\<forall>j < ht_size t. bitat (ht_passed t) j \<longrightarrow> bitat p j" using pass_thru_spec [OF assms(1) probe_less [OF pr]] by blast
  moreover have "\<not> htent_empty cls (ht_base t ! ?i)" using assms(2) by (simp add: add_state_def missed_Suc Let_def)
  ultimately show ?thesis using assms(3) probe_less [OF pr] by (auto simp: passed_used_def less_Suc_eq)
qed

text \<open>After a full cycle there is a deleted entry to use, unless all entries are valid.\<close>

lemma add_cycle:
  assumes "ht_inv cls t" and "add_state cls t k fd (ht_size t)" and "ht_count t < ht_size t"
  shows "\<exists>d l. fd = Some d \<and> l < ht_size t \<and> probe (ht_size t) (find_hash cls k) l = d \<and> \<not> htent_valid cls (ht_base t ! d)"
proof (cases fd)
  case None
  have "htent_valid cls (ht_base t ! i)" if "i < ht_size t" for i
    using assms(2) probe_surj [of "ht_size t" i "find_hash cls k"] that ht_inv_shape [OF assms(1)] None
    by (auto simp: add_state_def missed_def htent_valid_def ht_deleted_def Let_def)
  then have "filter (htent_valid cls) (ht_base t) = ht_base t"
    using ht_inv_shape [OF assms(1)] by (metis filter_True in_set_conv_nth)
  then show ?thesis using assms(1,3) by (simp add: ht_inv_def ht_shape_def)
next
  case (Some d)
  then show ?thesis using assms(2) by (auto simp: add_state_def htent_valid_def ht_deleted_def)
qed

lemma add_loop_spec:
  assumes "ht_inv cls t" and "ht_ok cls k v" and "add_state cls t k fd j" and "passed_used cls t k j" and "0 < j" and "j < ht_size t"
    and "ht_count t < ht_size t" and "ht_size t \<le> j + n"
  shows "\<exists>x. add_loop cls k v (rehash_factor (find_hash cls k) (ht_size t)) (find_hash cls k mod ht_size t) n t fd
      (probe (ht_size t) (find_hash cls k) j) = Inr x \<and> add_result cls t k v x"
  using assms
proof (induction n arbitrary: t fd j)
  case (Suc n)
  let ?p = "ht_size t" and ?h = "find_hash cls k"
  have pr: "prime_size ?p" using ht_inv_shape [OF Suc.prems(1)] by simp
  obtain r where r: "return_if_added cls t k v fd (probe ?p ?h j) = Inr r"
    "case r of Inl x \<Rightarrow> add_result cls t k v x | Inr fd' \<Rightarrow> add_state cls t k fd' (Suc j)"
    using add_step [OF Suc.prems(1-4,6)] by blast
  show ?case
  proof (cases r)
    case (Inl x)
    then show ?thesis using r by simp
  next
    case (Inr fd')
    then have st: "add_state cls t k fd' (Suc j)" using r(2) by simp
    obtain p where p: "pass_thru t (probe ?p ?h j) = Inr (t\<lparr>ht_passed := p\<rparr>)" "ht_inv cls (t\<lparr>ht_passed := p\<rparr>)"
      "passed_used cls (t\<lparr>ht_passed := p\<rparr>) k (Suc j)" using add_pass [OF Suc.prems(1) st Suc.prems(4)] by blast
    show ?thesis
    proof (cases "probe ?p ?h (Suc j) = ?h mod ?p")
      case True
      then have end_: "Suc j = ?p" using probe_return [OF pr, of "Suc j" ?h] Suc.prems(6) by (simp add: probe_0)
      have none: "ht_map cls t k = None" using missed_all [OF Suc.prems(1)] st end_ by (simp add: add_state_def)
      obtain d l where d: "fd' = Some d" "l < ?p" "probe ?p ?h l = d" "\<not> htent_valid cls (ht_base t ! d)"
        using add_cycle [OF Suc.prems(1)] st end_ Suc.prems(7) by metis
      have "passed_used cls (t\<lparr>ht_passed := p\<rparr>) k l" using passed_used_less [OF p(3)] d(2) end_ by simp
      then show ?thesis
        using insert_htent_spec [OF p(2) _ Suc.prems(2), of l d] d none r(1) Inr p(1) True
        by (auto simp: probe_Suc [OF pr] ht_map_def add_result_passed)
    next
      case False
      then have "Suc j \<noteq> ?p" using probe_wrap [of ?p ?h] by auto
      then show ?thesis using Suc.IH [OF p(2) Suc.prems(2) _ p(3)] st Suc.prems(6-8) False r(1) Inr p(1)
        by (simp add: probe_Suc [OF pr] add_state_passed add_result_passed)
    qed
  qed
qed simp

lemma add_probe_spec:
  assumes "ht_inv cls t" and "ht_ok cls k v" and "ht_count t < ht_size t"
  shows "\<exists>x. add_probe cls t k v = Inr x \<and> add_result cls t k v x"
proof -
  let ?p = "ht_size t" and ?h = "find_hash cls k"
  have pr: "prime_size ?p" "2 < ?p" using ht_inv_shape [OF assms(1)] by (auto simp: prime_size_def)
  have s0: "add_state cls t k None 0" "passed_used cls t k 0" by (simp_all add: add_state_def missed_def passed_used_def)
  obtain r where r: "return_if_added cls t k v None (?h mod ?p) = Inr r"
    "case r of Inl x \<Rightarrow> add_result cls t k v x | Inr fd' \<Rightarrow> add_state cls t k fd' (Suc 0)"
    using add_step [OF assms(1,2) s0] pr(2) by (auto simp: probe_0)
  show ?thesis
  proof (cases r)
    case (Inr fd)
    then have st: "add_state cls t k fd (Suc 0)" using r(2) by simp
    obtain p where p: "pass_thru t (?h mod ?p) = Inr (t\<lparr>ht_passed := p\<rparr>)" "ht_inv cls (t\<lparr>ht_passed := p\<rparr>)"
      "passed_used cls (t\<lparr>ht_passed := p\<rparr>) k (Suc 0)" using add_pass [OF assms(1) st s0(2)] by (auto simp: probe_0)
    show ?thesis
      using add_loop_spec [OF p(2) assms(2) _ p(3), of fd ?p] st pr(2) assms(3) r(1) Inr p(1) probe_Suc [OF pr(1), of ?h 0]
      by (simp add: add_probe_def Let_def add_state_passed add_result_passed probe_0)
  qed (use r in \<open>auto simp: add_probe_def Let_def\<close>)
qed

section \<open>Deleting an entry\<close>

lemma delete_map:
  assumes "ht_inv cls t" and "ht_inv cls t'" and "i < ht_size t" and "htent_valid cls (ht_base t ! i)" and "\<not> htent_valid cls e"
    and "ht_base t' = (ht_base t)[i := e]" and "ht_size t' = ht_size t"
  shows "ht_map cls t' = (ht_map cls t)(fst (ht_base t ! i) := None)"
proof -
  have len: "length (ht_base t) = ht_size t" using ht_inv_shape [OF assms(1)] by simp
  have uniq: "l = i" if "l < ht_size t" "htent_valid cls (ht_base t ! l)" "fst (ht_base t ! l) = fst (ht_base t ! i)" for l
    using assms(1,3,4) that by (auto simp: ht_inv_def ht_unique_def)
  have "ht_map cls t' x = Some y \<longleftrightarrow> ((ht_map cls t)(fst (ht_base t ! i) := None)) x = Some y" for x y
    unfolding ht_map_iff [OF assms(2)] fun_upd_apply using ht_map_iff [OF assms(1), of x y] uniq assms(3-7) len
    by (auto simp: nth_list_update split: if_splits) (metis fst_conv)+
  then show ?thesis by (intro ext) (metis option.exhaust)
qed

definition delete_result :: "'k ht_class \<Rightarrow> 'k hash_table \<Rightarrow> 'k \<Rightarrow> 'k hash_table \<Rightarrow> bool" where
  "delete_result cls t k t' \<longleftrightarrow> ht_inv cls t' \<and> ht_map cls t' = (ht_map cls t)(k := None)"

lemma delete_unique: "ht_unique cls t \<Longrightarrow> \<not> htent_valid cls e \<Longrightarrow> length (ht_base t) = ht_size t \<Longrightarrow> ht_unique cls (put_entry t i e n d)"
  by (auto simp: ht_unique_def nth_list_update split: if_splits) (metis (no_types, lifting) list_update_beyond not_less nth_list_update_eq nth_list_update_neq)+

lemma mark_deleted_inv:
  assumes "ht_inv cls t" and "i < ht_size t" and "htent_valid cls (ht_base t ! i)"
  shows "ht_inv cls (put_entry t i (fst (ht_base t ! i), HT_DELETED_ENTRY) (ht_count t - 1) (del_count t + 1))" (is "ht_inv cls ?t")
proof -
  let ?e = "(fst (ht_base t ! i), HT_DELETED_ENTRY)"
  have len: "ht_shape t" "length (ht_base t) = ht_size t" using assms(1) by (simp_all add: ht_inv_def ht_shape_def)
  obtain j where "ht_ok cls (fst (ht_base t ! i)) (snd (ht_base t ! i))" by (rule ht_path [OF assms]) 
  then have e: "\<not> htent_empty cls ?e" "\<not> htent_valid cls ?e" by (simp_all add: ht_ok_def htent_valid_def)
  have "ht_entry_ok cls ?t l" if "l < ht_size t" for l
  proof (cases "l = i")
    case True
    then show ?thesis using assms(2) len e by (simp add: ht_entry_ok_def Let_def)
  next
    case False
    then show ?thesis using entry_ok_mono [of cls t l ?t] passed_used_update [OF _ e(1), of t _ _ ?t i] assms(1) that by (simp add: ht_inv_def)
  qed
  moreover have "ht_unique cls ?t" using delete_unique e(2) len(2) assms(1) by (auto simp: ht_inv_def)
  ultimately show ?thesis
    using len entry_counts(1,2) [OF assms(1,2), of ?e] e assms(3) by (simp add: ht_inv_def ht_shape_def ht_deleted_def htent_valid_def)
qed

lemma mark_empty_inv:
  assumes "ht_inv cls t" and "i < ht_size t" and "htent_valid cls (ht_base t ! i)" and "\<not> bitat (ht_passed t) i"
    and "htent_empty cls e" and "snd e \<noteq> HT_DELETED_ENTRY"
  shows "ht_inv cls (put_entry t i e (ht_count t - 1) (del_count t))" (is "ht_inv cls ?t")
proof -
  have len: "ht_shape t" "length (ht_base t) = ht_size t" using assms(1) by (simp_all add: ht_inv_def ht_shape_def)
  have v: "\<not> htent_valid cls e" using assms(5) by (simp add: htent_valid_def)
  have pu: "passed_used cls ?t k j" if "passed_used cls t k j" for k j
    using that assms(4) by (auto simp: passed_used_def) (metis nth_list_update_neq)
  have "ht_entry_ok cls ?t l" if "l < ht_size t" for l
  proof (cases "l = i")
    case True
    then show ?thesis using assms(2,5,6) len by (simp add: ht_entry_ok_def Let_def)
  next
    case False
    then show ?thesis using entry_ok_mono [of cls t l ?t] pu assms(1) that by (simp add: ht_inv_def)
  qed
  moreover have "ht_unique cls ?t" using delete_unique [OF _ v len(2)] assms(1) by (simp add: ht_inv_def)
  ultimately show ?thesis
    using len entry_counts(1,2) [OF assms(1,2), of e] v assms(3,6) by (simp add: ht_inv_def ht_shape_def ht_deleted_def htent_valid_def)
qed

end
