(* ===== verification/Hashtab_Map.thy ===== *)
theory Hashtab_Map
  imports Hashtab_Inv
begin

text \<open>
  The hash tables implement maps. The locale \<open>ht_keys\<close> is the contract between the template and its instances: which entries count as
  empty. From it follow the laws of adding, deleting, growing and compacting; it is interpreted on the five instances.
\<close>

section \<open>The sizes\<close>

text \<open>
  Sizes are primes up to the terminating zero, grow by more than one and at most fourfold and stay so small that four times the number
  of entries does not overflow.
\<close>

fun sizes_chain :: "nat list \<Rightarrow> bool" where
  "sizes_chain [] \<longleftrightarrow> False"
| "sizes_chain [x] \<longleftrightarrow> x = 0"
| "sizes_chain (x # y # zs) \<longleftrightarrow> prime_size x \<and> x < 2 ^ 30 \<and> (y \<noteq> 0 \<longrightarrow> x + 1 < y \<and> y \<le> 4 * x) \<and> sizes_chain (y # zs)"

definition sizes_ok :: "nat list \<Rightarrow> bool" where
  "sizes_ok ht_sizes \<longleftrightarrow> sizes_chain ht_sizes \<and> 2 < length ht_sizes"

lemma chain_member: "sizes_chain hs \<Longrightarrow> n \<in> set hs \<Longrightarrow> n \<noteq> 0 \<Longrightarrow> prime_size n \<and> n < 2 ^ 30"
  by (induction hs rule: sizes_chain.induct) auto

lemma chain_zero: "sizes_chain (0 # zs) \<Longrightarrow> zs = []"
  by (cases zs) (auto simp: prime_size_def)

lemma chain_above: "sizes_chain (x # zs) \<Longrightarrow> n \<in> set zs \<Longrightarrow> n \<noteq> 0 \<Longrightarrow> x + 1 < n"
proof (induction zs arbitrary: x)
  case (Cons y zs)
  show ?case
  proof (cases "y = 0")
    case True
    then have "zs = []" using Cons.prems(1) by (intro chain_zero) auto
    then show ?thesis using Cons.prems True by auto
  next
    case False
    then show ?thesis using Cons.IH [of y] Cons.prems by auto
  qed
qed simp

lemma pick_size_spec:
  assumes "sizes_chain (cur # rest)"
  shows "\<exists>n. pick_size rest cur m = Inr n \<and> (n \<noteq> 0 \<longrightarrow> n \<in> set (cur # rest) \<and> m \<le> n)"
  using assms
proof (induction rest arbitrary: cur)
  case Nil
  then show ?case by (simp add: pick_size.simps)
next
  case (Cons x xs)
  then show ?case using Cons.IH [of x] by (subst pick_size.simps) auto
qed

lemma first_size_spec:
  assumes "sizes_ok hs"
  shows "\<exists>n. first_size hs m = Inr n \<and> (n \<noteq> 0 \<longrightarrow> n \<in> set hs \<and> m \<le> n)"
proof -
  obtain x zs where hs: "hs = x # zs" "sizes_chain hs" using assms by (cases hs) (auto simp: sizes_ok_def)
  have "pick_size hs x m = (if x \<noteq> 0 \<and> x < m then pick_size zs x m else Inr x)" unfolding hs(1) by (subst pick_size.simps) simp
  moreover have "\<exists>n. pick_size zs x m = Inr n \<and> (n \<noteq> 0 \<longrightarrow> n \<in> set hs \<and> m \<le> n)" using pick_size_spec [of x zs m] hs by simp
  ultimately show ?thesis using hs(1) by (auto simp: first_size_def rd_def split: if_splits)
qed

lemma pick_prior_spec:
  assumes "sizes_chain (prior # cur # rest)" and "old \<in> set (cur # rest) \<or> old \<le> 4 * prior" and "old \<noteq> 0"
  shows "\<exists>n. pick_prior rest cur cur prior old = Inr n \<and> n \<noteq> 0 \<and> n \<in> set (prior # cur # rest) \<and> old \<le> 4 * n"
  using assms
proof (induction rest arbitrary: prior cur)
  case Nil
  then show ?case by (auto simp: pick_prior.simps prime_size_def)
next
  case (Cons x xs)
  have p0: "prior \<noteq> 0" using Cons.prems(1) by (auto simp: prime_size_def)
  show ?case
  proof (cases "cur \<noteq> 0 \<and> cur < old")
    case True
    have "old \<in> set (x # xs) \<or> old \<le> 4 * cur" using Cons.prems(1,2) True by auto
    then show ?thesis using Cons.IH [of cur x] Cons.prems True by (subst pick_prior.simps) auto
  next
    case False
    have "old \<le> 4 * prior"
    proof (cases "cur = 0")
      case True
      then show ?thesis using Cons.prems chain_zero [of "x # xs"] by auto
    next
      case nz: False
      then show ?thesis using Cons.prems(1) False by auto
    qed
    then show ?thesis using False p0 by (subst pick_prior.simps) auto
  qed
qed

lemma new_ht_size_spec:
  assumes "sizes_ok hs" and "ht_size t \<in> set hs" and "ht_size t \<noteq> 0" and "initial_size t \<in> set hs"
  shows "\<exists>n. new_ht_size hs m (Some t) = Inr n \<and> (n \<noteq> 0 \<longrightarrow> n \<in> set hs \<and> (if m > ht_size t div 2 then m \<le> n else ht_size t \<le> 4 * n))"
proof (cases "m > ht_size t div 2")
  case True
  then show ?thesis using first_size_spec [OF assms(1), of m] by (auto simp: new_ht_size_def)
next
  case False
  obtain x y zs where hs: "hs = x # y # zs" "zs \<noteq> []" "sizes_chain hs"
    using assms(1) by (cases hs rule: sizes_chain.cases) (auto simp: sizes_ok_def)
  have first: "pick_prior (y # zs) x y x (ht_size t) = (if y \<noteq> 0 \<and> y < ht_size t then pick_prior zs y y x (ht_size t) else Inr x)"
    by (subst pick_prior.simps) simp
  have y: "y \<noteq> 0" using hs chain_zero [of zs] by auto
  have "\<exists>n. pick_prior (y # zs) x y x (ht_size t) = Inr n \<and> n \<noteq> 0 \<and> n \<in> set hs \<and> ht_size t \<le> 4 * n"
  proof (cases "y < ht_size t")
    case True
    then have "ht_size t \<in> set (y # zs)" using assms(2) hs y by auto
    then show ?thesis using pick_prior_spec [of x y zs "ht_size t"] hs assms(3) first True y by auto
  next
    case False
    then show ?thesis using first hs y by (auto simp: prime_size_def)
  qed
  then show ?thesis using False hs(1) assms(4) by (auto simp: new_ht_size_def rd_def)
qed

lemma chain_gap: "sizes_chain hs \<Longrightarrow> a \<in> set hs \<Longrightarrow> b \<in> set hs \<Longrightarrow> a < b \<Longrightarrow> a \<noteq> 0 \<Longrightarrow> a + 1 < b"
proof (induction hs)
  case (Cons x hs)
  then show ?case using chain_above [of x hs] by (cases hs) (auto dest: less_trans)
qed simp

section \<open>The contract of an instance\<close>

definition ht_good :: "'k ht_class \<Rightarrow> nat list \<Rightarrow> 'k hash_table \<Rightarrow> bool" where
  "ht_good cls hs t \<longleftrightarrow> ht_inv cls t \<and> ht_size t \<in> set hs \<and> initial_size t \<in> set hs \<and> exp_trigger_size t \<le> ht_size t
     \<and> (exp_trigger_size t < ht_size t \<longrightarrow> ht_count t < ht_size t)"

lemma ht_good_size: "ht_good cls hs t \<Longrightarrow> ht_size t \<noteq> 0 \<and> 2 < ht_size t"
  by (auto simp: ht_good_def ht_inv_def ht_shape_def prime_size_def)

lemma ht_inv_cong:
  assumes "ht_inv cls t" and "ht_base t' = ht_base t" "ht_passed t' = ht_passed t" "ht_size t' = ht_size t" "ht_count t' = ht_count t" "del_count t' = del_count t"
  shows "ht_inv cls t'" and "ht_map cls t' = ht_map cls t"
proof -
  have pu: "passed_used cls t' = passed_used cls t" using assms by (intro ext) (simp add: passed_used_def)
  show "ht_inv cls t'" using assms(1) unfolding ht_inv_def ht_shape_def ht_entry_ok_def ht_unique_def pu assms(2-) .
  show "ht_map cls t' = ht_map cls t" using assms by (simp add: ht_map_def)
qed

lemma distinct_filter_keys:
  assumes "\<And>i j. i < length xs \<Longrightarrow> j < length xs \<Longrightarrow> P (xs ! i) \<Longrightarrow> P (xs ! j) \<Longrightarrow> fst (xs ! i) = fst (xs ! j) \<Longrightarrow> i = j"
  shows "distinct (map fst (filter P xs))"
  using assms
proof (induction xs)
  case (Cons x xs)
  have "fst x \<notin> fst ` set (filter P xs)" if "P x"
  proof
    assume "fst x \<in> fst ` set (filter P xs)"
    then obtain j where "j < length xs" "P (xs ! j)" "fst (xs ! j) = fst x" by (auto simp: in_set_conv_nth)
    then show False using Cons.prems [of 0 "Suc j"] that by simp
  qed
  moreover have "distinct (map fst (filter P xs))"
  proof (rule Cons.IH)
    fix i j assume "i < length xs" "j < length xs" "P (xs ! i)" "P (xs ! j)" "fst (xs ! i) = fst (xs ! j)"
    then show "i = j" using Cons.prems [of "Suc i" "Suc j"] by simp
  qed
  ultimately show ?case by simp
qed simp

lemma ht_valid_ok: "ht_inv cls t \<Longrightarrow> e \<in> set (ht_base t) \<Longrightarrow> htent_valid cls e \<Longrightarrow> ht_ok cls (fst e) (snd e)"
  using ht_path [of cls t] ht_inv_shape [of cls t] by (metis in_set_conv_nth)

text \<open>The result of rehashing a table for a requested size: the same map, in a larger or not much smaller table.\<close>

definition same_map :: "'k ht_class \<Rightarrow> 'k hash_table \<Rightarrow> 'k hash_table \<Rightarrow> bool" where
  "same_map cls t t' \<longleftrightarrow> ht_inv cls t' \<and> ht_map cls t' = ht_map cls t \<and> ht_count t' = ht_count t \<and> initial_size t' = initial_size t"

definition expand_result :: "'k ht_class \<Rightarrow> nat list \<Rightarrow> 'k hash_table \<Rightarrow> nat \<Rightarrow> bool \<times> 'k hash_table \<Rightarrow> bool" where
  "expand_result cls hs t m = (\<lambda>(moved, t'). same_map cls t t' \<and>
     (if moved then ht_size t' \<in> set hs \<and> exp_trigger_size t' = ht_size t' * 50 div 100 \<and> ht_count t' < ht_size t'
        \<and> (ht_size t div 2 < m \<longrightarrow> m \<le> ht_size t')
      else ht_size t' = ht_size t \<and> exp_trigger_size t' = exp_trigger_size t))"

definition add_ok :: "'k ht_class \<Rightarrow> nat list \<Rightarrow> 'k hash_table \<Rightarrow> 'k \<Rightarrow> 64 word \<Rightarrow> bool \<times> nat \<times> 'k hash_table \<Rightarrow> bool" where
  "add_ok cls hs t k v = (\<lambda>(b, i, t'). ht_good cls hs t' \<and> i < ht_size t' \<and>
     (case ht_map cls t k of
        None \<Rightarrow> b \<and> ht_map cls t' = (ht_map cls t)(k \<mapsto> v) \<and> ht_base t' ! i = (k, v)
      | Some w \<Rightarrow> \<not> b \<and> ht_map cls t' = ht_map cls t \<and> ht_base t' ! i = (k, w)))"

locale ht_keys =
  fixes cls :: "'k ht_class"
  assumes zero_empty: "htent_empty cls (zero_key cls, 0)"
    and mark_empty: "htent_valid cls e \<Longrightarrow> htent_empty cls (htent_mark_empty cls e) \<and> snd (htent_mark_empty cls e) \<noteq> HT_DELETED_ENTRY"
begin

lemma delete_htent_spec:
  assumes "ht_inv cls t" and "i < ht_size t" and "htent_valid cls (ht_base t ! i)"
  shows "\<exists>t'. delete_htent cls t i = Inr t' \<and> delete_result cls t (fst (ht_base t ! i)) t' \<and> ht_conf t' = ht_conf t \<and> ht_count t' + 1 = ht_count t"
proof -
  let ?e = "ht_base t ! i"
  have len: "length (ht_base t) = ht_size t" using ht_inv_shape [OF assms(1)] by simp
  have b: "i < 8 * length (ht_passed t)" by (rule passed_index [OF assms(1,2)])
  then have "i div 8 < length (ht_passed t)" by (simp add: less_mult_imp_div_less mult.commute)
  then have rd: "rd (ht_base t) (int i) = Inr ?e" "rd (ht_passed t) (int (i div 8)) = Inr (ht_passed t ! (i div 8))"
    using assms(2) len rd_nat [of i "ht_base t"] rd_nat [of "i div 8" "ht_passed t"] by simp_all
  have bit: "(push_bit (i mod 8) 1 AND ht_passed t ! (i div 8) \<noteq> 0) = bitat (ht_passed t) i" by (simp add: bitat_def exp_and_bit push_bit_eq_mult)
  note e = entry_counts [OF assms(1,2)]
  have "0 < ht_count t" using entry_counts(1) [OF assms(1,2), of "(zero_key cls, 0)"] assms(3) zero_empty by (simp add: htent_valid_def)
  then have n: "uint_dec (ht_count t) = ht_count t - 1" "uint_inc (del_count t) = del_count t + 1" "0 < ht_count t"
    using e(3-5) by (simp_all add: uint_dec_pos uint_inc_less)
  define t' where "t' = (if bitat (ht_passed t) i then put_entry t i (fst ?e, HT_DELETED_ENTRY) (ht_count t - 1) (del_count t + 1)
    else put_entry t i (htent_mark_empty cls ?e) (ht_count t - 1) (del_count t))"
  have inv: "ht_inv cls t'" using mark_deleted_inv [OF assms] mark_empty_inv [OF assms] mark_empty [OF assms(3)] by (simp add: t'_def)
  have "delete_htent cls t i = Inr t'" using rd bit n by (auto simp: delete_htent_def t'_def put_entry_def)
  moreover have "ht_map cls t' = (ht_map cls t)(fst ?e := None)"
    using delete_map [OF assms(1) inv assms(2,3), of "if bitat (ht_passed t) i then (fst ?e, HT_DELETED_ENTRY) else htent_mark_empty cls ?e"]
      mark_empty [OF assms(3)] by (simp add: t'_def htent_valid_def)
  ultimately show ?thesis using inv n(3) by (simp add: delete_result_def t'_def)
qed

lemma fresh_inv:
  assumes "prime_size n" and "n < 2 ^ 31"
  shows "ht_inv cls (fresh_table cls n t)" and "ht_map cls (fresh_table cls n t) = Map.empty" and "ht_count (fresh_table cls n t) = 0"
    and "ht_size (fresh_table cls n t) = n"
  using assms zero_empty
  by (auto simp: ht_inv_def ht_shape_def ht_entry_ok_def ht_unique_def ht_map_def htent_valid_def ht_deleted_def fresh_table_def
      ht_fields_common_init_def filter_empty_conv)

lemma move_entries_spec:
  assumes "ht_inv cls t" and "\<And>e. e \<in> set es \<Longrightarrow> htent_valid cls e \<Longrightarrow> ht_ok cls (fst e) (snd e) \<and> ht_map cls t (fst e) = None"
    and "distinct (map fst (filter (htent_valid cls) es))" and "ht_count t + length (filter (htent_valid cls) es) \<le> ht_size t"
  shows "\<exists>t'. move_entries cls es t = Inr t' \<and> ht_inv cls t' \<and> ht_conf t' = ht_conf t
    \<and> ht_map cls t' = ht_map cls t ++ map_of (filter (htent_valid cls) es)
    \<and> ht_count t' = ht_count t + length (filter (htent_valid cls) es)"
  using assms
proof (induction es arbitrary: t)
  case (Cons e es)
  show ?case
  proof (cases "htent_valid cls e")
    case False
    then show ?thesis using Cons.IH [of t] Cons.prems by simp
  next
    case True
    obtain k v where e: "e = (k, v)" by (cases e)
    have ok: "ht_ok cls k v" "ht_map cls t k = None" using Cons.prems(2) [of e] True e by simp_all
    obtain b i t1 where t1: "add_probe cls t k v = Inr (b, i, t1)" "add_result cls t k v (b, i, t1)"
      using add_probe_spec [OF Cons.prems(1) ok(1)] Cons.prems(4) True by auto
    then have t1': "ht_inv cls t1" "ht_conf t1 = ht_conf t" "ht_map cls t1 = (ht_map cls t)(k \<mapsto> v)" "ht_count t1 = ht_count t + 1"
      using ok(2) by (simp_all add: add_result_def)
    have size: "ht_size t1 = ht_size t" using t1'(2) by (simp add: ht_conf_def)
    have new: "k \<notin> dom (map_of (filter (htent_valid cls) es))" using Cons.prems(3) True e by (auto simp: dom_map_of_conv_image_fst)
    have "\<exists>t'. move_entries cls es t1 = Inr t' \<and> ht_inv cls t' \<and> ht_conf t' = ht_conf t1
      \<and> ht_map cls t' = ht_map cls t1 ++ map_of (filter (htent_valid cls) es) \<and> ht_count t' = ht_count t1 + length (filter (htent_valid cls) es)"
    proof (rule Cons.IH [OF t1'(1)])
      fix e' assume e': "e' \<in> set es" "htent_valid cls e'"
      then have "fst e' \<noteq> k" using new by (auto simp: dom_map_of_conv_image_fst)
      then show "ht_ok cls (fst e') (snd e') \<and> ht_map cls t1 (fst e') = None" using Cons.prems(2) [of e'] e' t1'(3) by simp
    qed (use Cons.prems(3,4) True t1'(4) size in auto)
    then obtain t' where t': "move_entries cls es t1 = Inr t'" "ht_inv cls t'" "ht_conf t' = ht_conf t1"
      "ht_map cls t' = ht_map cls t1 ++ map_of (filter (htent_valid cls) es)" "ht_count t' = ht_count t1 + length (filter (htent_valid cls) es)" by blast
    have "(ht_map cls t)(k \<mapsto> v) ++ map_of (filter (htent_valid cls) es) = ht_map cls t ++ map_of (filter (htent_valid cls) (e # es))"
      using new True e by (intro ext) (auto simp: map_add_def dom_def split: option.splits)
    then have "ht_map cls t' = ht_map cls t ++ map_of (filter (htent_valid cls) (e # es))" unfolding t'(4) t1'(3) .
    moreover have "move_entries cls (e # es) t = Inr t'" "ht_count t' = ht_count t + length (filter (htent_valid cls) (e # es))"
      using t' t1(1) t1'(4) True e by simp_all
    ultimately show ?thesis using t'(2,3) t1'(2) by (metis (no_types, lifting))
  qed
qed simp

lemma expand_spec:
  assumes "sizes_ok hs" and "ht_good cls hs t" and "ht_size t div 2 < m \<longrightarrow> ht_count t < m" and "\<not> ht_size t div 2 < m \<longrightarrow> 8 * ht_count t \<le> ht_size t"
  shows "\<exists>x. expand_hashtab cls hs mem t m = Inr x \<and> expand_result cls hs t m x"
proof -
  note g = assms(2) [unfolded ht_good_def]
  obtain n where n: "new_ht_size hs m (Some t) = Inr n"
    "n \<noteq> 0 \<longrightarrow> n \<in> set hs \<and> (if m > ht_size t div 2 then m \<le> n else ht_size t \<le> 4 * n)"
    using new_ht_size_spec [OF assms(1), of t m] g ht_good_size [OF assms(2)] by auto
  have failed: "expand_result cls hs t m (False, t')" if "t' = t \<or> t' = t\<lparr>spare_base := False, spare_base_size := 0\<rparr>" for t'
    using that g ht_inv_cong [of cls t t'] by (auto simp: expand_result_def same_map_def)
  show ?thesis
  proof (cases "n = 0 \<or> \<not> mem \<and> \<not> (\<not> dont_keep_spare_table t \<and> spare_base t \<and> spare_base_size t = n)")
    case True
    have "\<exists>t'. expand_hashtab cls hs mem t m = Inr (False, t') \<and> (t' = t \<or> t' = t\<lparr>spare_base := False, spare_base_size := 0\<rparr>)"
    proof (cases "n = 0")
      case True
      then show ?thesis using n(1) by (simp add: expand_hashtab_def init_hashtab_intl_def)
    next
      case nz: False
      then show ?thesis using n(1) True by (simp add: expand_hashtab_def init_hashtab_intl_def Let_def)
    qed
    then show ?thesis using failed by blast
  next
    case False
    then have n0: "n \<in> set hs" "n \<noteq> 0" using n(2) by auto
    then have pn: "prime_size n" "n < 2 ^ 30" using chain_member assms(1) by (auto simp: sizes_ok_def)
    have cn: "ht_count t < n" using n(2) n0 assms(3,4) by (auto split: if_splits)
    define nt where "nt = fresh_table cls n (t\<lparr>spare_base := False, spare_base_size := 0, initial_size := initial_size t,
      dont_compact := dont_compact t, dont_keep_spare_table := dont_keep_spare_table t, defer_base_release := defer_base_release t\<rparr>)"
    have init: "snd (init_hashtab_intl cls hs mem t m (Some t)) = Inr nt"
      using False n(1) by (cases t) (auto simp: init_hashtab_intl_def Let_def nt_def)
    have f: "ht_inv cls nt" "ht_map cls nt = Map.empty" "ht_count nt = 0" "ht_size nt = n" using fresh_inv pn by (auto simp: nt_def)
    have conf: "initial_size nt = initial_size t" "exp_trigger_size nt = n * 50 div 100" by (simp_all add: nt_def fresh_table_def ht_fields_common_init_def)
    have cnt: "ht_count t = length (filter (htent_valid cls) (ht_base t))" using g by (simp add: ht_inv_def)
    have len: "length (ht_base t) = ht_size t" using g ht_inv_shape by blast
    have ok: "ht_ok cls (fst e) (snd e)" if "e \<in> set (ht_base t)" "htent_valid cls e" for e using ht_valid_ok g that by blast
    have dis: "distinct (map fst (filter (htent_valid cls) (ht_base t)))"
      by (rule distinct_filter_keys) (use g len in \<open>auto simp: ht_inv_def ht_unique_def\<close>)
    have "\<exists>t'. move_entries cls (ht_base t) nt = Inr t' \<and> ht_inv cls t' \<and> ht_conf t' = ht_conf nt \<and> ht_map cls t' = ht_map cls t \<and> ht_count t' = ht_count t"
      using move_entries_spec [OF f(1), of "ht_base t"] ok f dis cn cnt by (simp add: ht_map_def)
    moreover have "ht_map cls nt = ht_map cls t" if "ht_count t = 0" using that f(2) cnt by (simp add: ht_map_def)
    ultimately obtain t' where t': "(if 0 < ht_count t then move_entries cls (ht_base t) nt else Inr nt) = Inr t'" "ht_inv cls t'"
      "ht_conf t' = ht_conf nt" "ht_map cls t' = ht_map cls t" "ht_count t' = ht_count t" using f by (cases "0 < ht_count t") auto
    define t2 where "t2 = (if dont_keep_spare_table t' then t'\<lparr>spare_base := False, spare_base_size := 0\<rparr> else t'\<lparr>spare_base := True, spare_base_size := ht_size t\<rparr>)"
    have "expand_hashtab cls hs mem t m = Inr (True, t2)" using init t'(1) by (auto simp: expand_hashtab_def t2_def split: prod.split)
    moreover have "expand_result cls hs t m (True, t2)"
      using t' f(4) conf n n0 cn ht_inv_cong [of cls t' t2] by (auto simp: expand_result_def same_map_def t2_def ht_conf_def split: if_splits)
    ultimately show ?thesis by blast
  qed
qed

lemma good_after_add:
  assumes "sizes_ok hs" and "same_map cls t t1" and "ht_size t1 \<in> set hs" and "initial_size t \<in> set hs" and "exp_trigger_size t1 \<le> ht_size t1"
    and "exp_trigger_size t1 < ht_size t1 \<Longrightarrow> ht_count t1 + 1 < ht_size t1" and "add_result cls t1 k v x"
  shows "add_ok cls hs t k v x"
proof -
  obtain b i t' where x: "x = (b, i, t')" by (cases x)
  have "ht_inv cls t'" "ht_size t' = ht_size t1" "initial_size t' = initial_size t1" "exp_trigger_size t' = exp_trigger_size t1"
    using assms(7) x by (simp_all add: add_result_def ht_conf_def)
  moreover have "ht_count t' \<le> ht_count t1 + 1" using assms(7) x by (auto simp: add_result_def split: option.splits)
  ultimately have "ht_good cls hs t'" using assms(2-6) by (auto simp: ht_good_def same_map_def)
  then show ?thesis using assms(2,7) x by (auto simp: add_ok_def add_result_def same_map_def split: option.splits)
qed

lemma add_hashtab_spec:
  assumes "sizes_ok hs" and "ht_good cls hs t" and "ht_ok cls k v"
  shows "(\<exists>x. add_hashtab cls hs mem t k v = Inr x \<and> add_ok cls hs t k v x)
    \<or> add_hashtab cls hs mem t k v = Inl ERR_MEMORY \<and> ht_count t = ht_size t
      \<and> (\<exists>t'. expand_hashtab cls hs mem t (ht_size t + 1) = Inr (False, t'))"
proof -
  note g = assms(2) [unfolded ht_good_def]
  have le: "ht_count t \<le> ht_size t" using g length_filter_le [of "htent_valid cls" "ht_base t"] by (simp add: ht_inv_def ht_shape_def)
  show ?thesis
  proof (cases "exp_trigger_size t \<le> ht_count t")
    case False
    then have "ht_count t < ht_size t" using g by simp
    then obtain x where x: "add_probe cls t k v = Inr x" "add_result cls t k v x" using add_probe_spec [of cls t k v] g assms(3) by auto
    have "add_ok cls hs t k v x"
      by (rule good_after_add [OF assms(1) _ _ _ _ _ x(2)]) (use g False in \<open>auto simp: same_map_def\<close>)
    then show ?thesis using False x(1) by (simp add: add_hashtab_def)
  next
    case True
    have half: "ht_size t div 2 < ht_size t + 1" by (simp add: less_Suc_eq_le)
    then obtain moved t1 where e: "expand_hashtab cls hs mem t (ht_size t + 1) = Inr (moved, t1)" "expand_result cls hs t (ht_size t + 1) (moved, t1)"
      using expand_spec [OF assms(1,2), of "ht_size t + 1" mem] le by auto
    have sm: "same_map cls t t1" using e(2) by (simp add: expand_result_def)
    show ?thesis
    proof (cases moved)
      case True
      then have r: "ht_size t1 \<in> set hs" "exp_trigger_size t1 = ht_size t1 * 50 div 100" "ht_count t1 < ht_size t1" "ht_size t < ht_size t1"
        using e(2) half by (simp_all add: expand_result_def)
      have "ht_size t + 1 < ht_size t1" using chain_gap [of hs "ht_size t" "ht_size t1"] assms(1) g r ht_good_size [OF assms(2)] by (simp add: sizes_ok_def)
      then have room: "ht_count t1 + 1 < ht_size t1" using le sm by (simp add: same_map_def)
      obtain x where x: "add_probe cls t1 k v = Inr x" "add_result cls t1 k v x" using add_probe_spec [of cls t1 k v] sm assms(3) r(3) by (auto simp: same_map_def)
      have "add_ok cls hs t k v x" by (rule good_after_add [OF assms(1) sm r(1) _ _ _ x(2)]) (use g r room in auto)
      then show ?thesis using \<open>exp_trigger_size t \<le> ht_count t\<close> True e(1) x(1) by (simp add: add_hashtab_def)
    next
      case False
      then have r: "ht_size t1 = ht_size t" "exp_trigger_size t1 = exp_trigger_size t" using e(2) by (simp_all add: expand_result_def)
      show ?thesis
      proof (cases "exp_trigger_size t < ht_size t")
        case full: False
        then show ?thesis using \<open>exp_trigger_size t \<le> ht_count t\<close> False e(1) r g le by (auto simp: add_hashtab_def)
      next
        case less: True
        let ?t = "t1\<lparr>exp_trigger_size := ht_size t1\<rparr>"
        have sm': "same_map cls t ?t" using sm ht_inv_cong [of cls t1 ?t] by (simp add: same_map_def)
        obtain x where x: "add_probe cls ?t k v = Inr x" "add_result cls ?t k v x"
          using add_probe_spec [of cls ?t k v] sm' assms(3) less r g by (auto simp: same_map_def)
        have "add_ok cls hs t k v x" by (rule good_after_add [OF assms(1) sm' _ _ _ _ x(2)]) (use g r in auto)
        then show ?thesis using \<open>exp_trigger_size t \<le> ht_count t\<close> False less r e(1) x(1) by (simp add: add_hashtab_def)
      qed
    qed
  qed
qed

lemma compact_spec:
  assumes "sizes_ok hs" and "ht_good cls hs t" and "ht_count t < ht_size t"
  shows "\<exists>t'. compact_hashtab cls hs mem t = Inr t' \<and> ht_good cls hs t' \<and> ht_map cls t' = ht_map cls t"
proof (cases "dont_compact t")
  case False
  note g = assms(2) [unfolded ht_good_def]
  let ?m = "rehash_table_size (ht_size t) (ht_count t)"
  have "ht_size t < 2 ^ 30" using chain_member [of hs "ht_size t"] assms(1) g ht_good_size [OF assms(2)] by (simp add: sizes_ok_def)
  then have m: "?m = min (ht_size t) (4 * ht_count t)" using assms(3) by (simp add: rehash_table_size_def mult.commute)
  obtain moved t1 where e: "expand_hashtab cls hs mem t ?m = Inr (moved, t1)" "expand_result cls hs t ?m (moved, t1)"
    using expand_spec [OF assms(1,2), of ?m mem] assms(3) ht_good_size [OF assms(2)] unfolding m by fastforce
  let ?t = "if moved then t1 else t1\<lparr>cmp_trigger_size := ht_size t1\<rparr>"
  have "ht_good cls hs ?t" using e(2) g ht_inv_cong [of cls t1 "t1\<lparr>cmp_trigger_size := ht_size t1\<rparr>"]
    by (auto simp: ht_good_def expand_result_def same_map_def split: if_splits)
  moreover have "ht_map cls ?t = ht_map cls t" using e(2) by (auto simp: expand_result_def same_map_def ht_map_def split: if_splits)
  ultimately show ?thesis using False e(1) by (auto simp: compact_hashtab_def)
qed (use assms in \<open>simp add: compact_hashtab_def\<close>)

lemma delete_hashtab_spec:
  assumes "sizes_ok hs" and "ht_good cls hs t"
  shows "\<exists>t'. delete_hashtab cls hs mem t k = Inr (ht_map cls t k \<noteq> None, t') \<and> ht_good cls hs t' \<and> ht_map cls t' = (ht_map cls t)(k := None)"
proof -
  note g = assms(2) [unfolded ht_good_def]
  obtain r where r: "lookup_hashtab cls t k = Inr r" "lookup_result cls t k r" using lookup_hashtab_spec [of cls t k] g by auto
  show ?thesis
  proof (cases r)
    case None
    then have "ht_map cls t k = None" using r(2) by (simp add: lookup_result_def)
    then show ?thesis using r(1) None assms(2) by (auto simp: delete_hashtab_def fun_upd_idem)
  next
    case (Some i)
    then have i: "i < ht_size t" "htent_valid cls (ht_base t ! i)" "fst (ht_base t ! i) = k" using r(2) by (simp_all add: lookup_result_def)
    have found: "ht_map cls t k \<noteq> None" using found_map [of cls t i] g i by simp
    obtain t1 where t1: "delete_htent cls t i = Inr t1" "delete_result cls t k t1" "ht_conf t1 = ht_conf t" "ht_count t1 + 1 = ht_count t"
      using delete_htent_spec [of t i] g i by auto
    have good: "ht_good cls hs t1" "ht_count t1 < ht_size t1"
      using t1 g length_filter_le [of "htent_valid cls" "ht_base t"]
      by (auto simp: ht_good_def delete_result_def ht_conf_def ht_inv_def ht_shape_def)
    obtain t2 where "(if compact_needed t1 then compact_hashtab cls hs mem t1 else Inr t1) = Inr t2" "ht_good cls hs t2" "ht_map cls t2 = ht_map cls t1"
      using compact_spec [OF assms(1) good] good by (cases "compact_needed t1") auto
    then show ?thesis using r(1) Some t1 found by (auto simp: delete_hashtab_def delete_result_def)
  qed
qed

lemma init_hashtab_spec:
  assumes "sizes_ok hs"
  shows "(\<exists>t'. init_hashtab cls hs mem t m dc ds = Inr t' \<and> ht_good cls hs t' \<and> ht_map cls t' = Map.empty)
    \<or> (init_hashtab cls hs mem t m dc ds = Inl ERR_MEMORY \<and> \<not> mem)
    \<or> (init_hashtab cls hs mem t m dc ds = Inl ERR_HTOFLOW \<and> first_size hs m = Inr 0)"
proof -
  obtain n where n: "first_size hs m = Inr n" "n \<noteq> 0 \<longrightarrow> n \<in> set hs" using first_size_spec [OF assms, of m] by blast
  show ?thesis
  proof (cases "n = 0 \<or> \<not> mem")
    case True
    then show ?thesis using n(1) by (auto simp: init_hashtab_def init_hashtab_intl_def new_ht_size_def Let_def)
  next
    case False
    then have p: "prime_size n" "n < 2 ^ 31" using chain_member [of hs n] n(2) assms by (auto simp: sizes_ok_def)
    obtain u where u: "init_hashtab cls hs mem t m dc ds = Inr (fresh_table cls n u)" "initial_size u = n"
      using False n(1) by (auto simp: init_hashtab_def init_hashtab_intl_def new_ht_size_def Let_def)
    have "initial_size (fresh_table cls n u) = n" "exp_trigger_size (fresh_table cls n u) = n * 50 div 100"
      using u(2) by (simp_all add: fresh_table_def ht_fields_common_init_def)
    then have "ht_good cls hs (fresh_table cls n u)" using fresh_inv [OF p, of u] n(2) False by (auto simp: ht_good_def)
    then show ?thesis using u(1) fresh_inv(2) [OF p] by auto
  qed
qed

lemma reinitialize_spec:
  assumes "ht_good cls hs t"
  shows "ht_good cls hs (reinitialize_hashtab cls t)" and "ht_map cls (reinitialize_hashtab cls t) = Map.empty"
proof -
  have "ht_size t div 8 + 1 \<le> length (ht_passed t)" using assms by (auto simp: ht_good_def ht_inv_def ht_shape_def round_up8_def prime_size_def)
  then show "ht_good cls hs (reinitialize_hashtab cls t)" using assms zero_empty
    by (auto simp: ht_good_def ht_inv_def ht_shape_def ht_entry_ok_def ht_unique_def htent_valid_def ht_deleted_def reinitialize_hashtab_def
        ht_fields_common_init_def filter_empty_conv)
  show "ht_map cls (reinitialize_hashtab cls t) = Map.empty" using zero_empty
    by (auto simp: ht_map_def htent_valid_def reinitialize_hashtab_def ht_fields_common_init_def filter_empty_conv)
qed

end

end
