(* ===== verification/Ht_Primes.thy ===== *)
theory Ht_Primes
  imports Hashtab_Inv
begin

text \<open>
  Certificates for the sizes of hash tables: a number is prime if some element has the full multiplicative order, which is checked
  for the prime factors of the order.
\<close>

section \<open>Powers\<close>

function power_mod_int :: "int \<Rightarrow> int \<Rightarrow> int \<Rightarrow> int" where
  "power_mod_int a n p = (if n \<le> 0 then 1
     else if n mod 2 = 0 then power_mod_int (a * a mod p) (n div 2) p
     else a * power_mod_int (a * a mod p) (n div 2) p mod p)"
  by pat_completeness auto
termination
  by (relation "measure (\<lambda>(a, n, p). nat n)") auto

declare power_mod_int.simps [simp del]

lemma power_mod_int_eq: "1 < p \<Longrightarrow> power_mod_int a (int n) p = a ^ n mod p"
proof (induction n arbitrary: a rule: less_induct)
  case (less n)
  show ?case
  proof (cases "n = 0")
    case True
    then show ?thesis using less.prems by (simp add: power_mod_int.simps)
  next
    case False
    then have IH: "power_mod_int (a * a mod p) (int (n div 2)) p = (a * a) ^ (n div 2) mod p"
      using less.IH [of "n div 2" "a * a mod p"] less.prems by (simp add: power_mod)
    have n: "n = 2 * (n div 2) + n mod 2" by simp
    have sq: "(a * a) ^ (n div 2) = a ^ (2 * (n div 2))" by (simp add: power_mult power2_eq_square)
    have "int n mod 2 = int (n mod 2)" "int n div 2 = int (n div 2)" by (simp_all add: zmod_int zdiv_int)
    then have "power_mod_int a (int n) p = (if n mod 2 = 0 then a ^ (2 * (n div 2)) mod p else a * (a ^ (2 * (n div 2)) mod p) mod p)"
      using False IH sq by (subst power_mod_int.simps) auto
    also have "\<dots> = a ^ (2 * (n div 2) + n mod 2) mod p"
      by (auto simp: mod_mult_right_eq mod2_eq_if simp flip: power_Suc)
    finally show ?thesis using n by simp
  qed
qed

section \<open>Prime factors\<close>

definition irreducible_nat :: "nat \<Rightarrow> bool" where
  "irreducible_nat q \<longleftrightarrow> 1 < q \<and> (\<forall>d. d dvd q \<longrightarrow> d = 1 \<or> d = q)"

lemma prime_size_irreducible: "prime_size q \<Longrightarrow> irreducible_nat q"
  unfolding prime_size_def irreducible_nat_def
proof (intro conjI allI impI)
  fix d assume a: "2 < q \<and> (\<forall>r. 0 < r \<and> r < q \<longrightarrow> coprime r q)" "d dvd q"
  show "d = 1 \<or> d = q"
  proof (cases "d < q")
    case True
    moreover have "0 < d" using a by (metis dvd_0_left_iff gr0I not_less_zero)
    ultimately have "coprime d q" using a(1) by simp
    then show ?thesis using a(2) by (metis coprime_common_divisor_nat dvd_refl)
  qed (use a in \<open>auto dest!: dvd_imp_le\<close>)
qed simp

lemma irreducible_two: "irreducible_nat 2"
  unfolding irreducible_nat_def
proof (intro conjI allI impI)
  fix d :: nat assume "d dvd 2"
  then have "d \<le> 2" "d \<noteq> 0" by (auto dest: dvd_imp_le intro: gr0I)
  then show "d = 1 \<or> d = 2" by linarith
qed simp

lemma irreducible_divisor:
  assumes "1 < (k :: nat)"
  obtains d where "irreducible_nat d" "d dvd k"
proof -
  define d where "d = (LEAST d. 1 < d \<and> d dvd k)"
  have d: "1 < d" "d dvd k" using LeastI [of "\<lambda>d. 1 < d \<and> d dvd k" k] assms by (auto simp: d_def)
  have "e = 1 \<or> e = d" if "e dvd d" for e
  proof (cases "1 < e")
    case True
    have "e dvd k" using that d(2) by (rule dvd_trans)
    then have "d \<le> e" unfolding d_def using True by (intro Least_le) auto
    then show ?thesis using that d(1) by (auto dest: dvd_imp_le)
  next
    case False
    then show ?thesis using that d(1) by (cases e) auto
  qed
  then show thesis using that d by (auto simp: irreducible_nat_def)
qed

lemma irreducible_dvd_prod:
  assumes "irreducible_nat d" and "d dvd prod_list qs"
  shows "\<exists>q \<in> set qs. d dvd q"
  using assms(2)
proof (induction qs)
  case Nil
  then show ?case using assms(1) by (simp add: irreducible_nat_def)
next
  case (Cons q qs)
  have "gcd d q = 1 \<or> gcd d q = d" using assms(1) by (simp add: irreducible_nat_def)
  then show ?case
  proof
    assume "gcd d q = 1"
    then have "coprime d q" by (simp add: coprime_iff_gcd_eq_1)
    then show ?thesis using Cons by (auto simp: coprime_dvd_mult_right_iff)
  qed (metis gcd_dvd2 list.set_intros(1))
qed

section \<open>Elements of full order\<close>

lemma power_mod_1: "1 < p \<Longrightarrow> a ^ m mod p = 1 \<Longrightarrow> a ^ (m * c) mod p = (1 :: nat)"
  by (metis mod_less power_mod power_mult power_one)

lemma power_drop: "1 < p \<Longrightarrow> a ^ m mod p = 1 \<Longrightarrow> a ^ (m * c + r) mod p = (a ^ r mod p :: nat)"
  by (metis mod_mult_left_eq mult_1 power_add power_mod_1)

lemma order_dvd:
  assumes "1 < p" and "a ^ n mod p = (1 :: nat)" and "0 < n"
  obtains m where "0 < m" "a ^ m mod p = 1" "\<And>j. 0 < j \<Longrightarrow> j < m \<Longrightarrow> a ^ j mod p \<noteq> 1" "m dvd n"
proof -
  define m where "m = (LEAST m. 0 < m \<and> a ^ m mod p = 1)"
  have m: "0 < m" "a ^ m mod p = 1" using LeastI [of "\<lambda>m. 0 < m \<and> a ^ m mod p = 1" n] assms by (auto simp: m_def)
  have least: "a ^ j mod p \<noteq> 1" if "0 < j" "j < m" for j using that not_less_Least [of j "\<lambda>m. 0 < m \<and> a ^ m mod p = 1"] by (auto simp: m_def)
  have "a ^ (n mod m) mod p = 1" using power_drop [OF assms(1) m(2), of "n div m" "n mod m"] assms(2) by simp
  then have "n mod m = 0" using least [of "n mod m"] m(1) by (cases "n mod m = 0") auto
  then show thesis using that m least by auto
qed

lemma full_order:
  assumes "1 < p" and "a ^ (p - 1) mod p = 1" and "p - 1 = prod_list qs"
    and "\<And>q. q \<in> set qs \<Longrightarrow> irreducible_nat q \<and> a ^ ((p - 1) div q) mod p \<noteq> 1" and "0 < j" and "j < p - 1"
  shows "a ^ j mod p \<noteq> 1"
proof -
  have pos: "0 < p - 1" using assms(5,6) by simp
  obtain m where m: "0 < m" "a ^ m mod p = 1" "\<And>j. 0 < j \<Longrightarrow> j < m \<Longrightarrow> a ^ j mod p \<noteq> 1" "m dvd p - 1"
    using order_dvd [OF assms(1,2) pos] by metis
  have "m = p - 1"
  proof (rule ccontr)
    assume ne: "m \<noteq> p - 1"
    obtain k where k: "p - 1 = m * k" using m(4) by blast
    then have "1 < k" using ne assms(5,6) by (cases k) auto
    then obtain d where d: "irreducible_nat d" "d dvd k" by (rule irreducible_divisor)
    then obtain q where q: "q \<in> set qs" "d dvd q" using irreducible_dvd_prod [OF d(1), of qs] assms(3) k by auto
    then have "q = d" using assms(4) [OF q(1)] d(1) by (auto simp: irreducible_nat_def)
    then obtain c where c: "k = q * c" using d(2) by blast
    have "0 < q" using d(1) \<open>q = d\<close> by (simp add: irreducible_nat_def)
    then have "(p - 1) div q = m * c" using k c by simp
    then show False using assms(4) [OF q(1)] power_mod_1 [OF assms(1) m(2), of c] by simp
  qed
  then show ?thesis using m(3) [OF assms(5)] assms(6) by simp
qed

lemma unit_powers:
  assumes "1 < p" and "a ^ n mod p = (1 :: nat)" and "i \<le> n"
  shows "coprime (a ^ i mod p) p"
proof -
  have "a ^ i * a ^ (n - i) mod p = 1" using assms(2,3) by (simp flip: power_add)
  then have "coprime (a ^ i * a ^ (n - i) mod p) p" by simp
  then have "coprime (a ^ i * a ^ (n - i)) p" using assms(1) by (metis coprime_mod_left_iff not_less_zero)
  then have "coprime (a ^ i) p" by (simp only: coprime_mult_left_iff)
  then show ?thesis using assms(1) by (metis coprime_mod_left_iff not_less_zero)
qed

lemma full_order_prime:
  assumes "2 < p" and "a ^ (p - 1) mod p = 1" and full: "\<And>j. 0 < j \<Longrightarrow> j < p - 1 \<Longrightarrow> a ^ j mod p \<noteq> 1"
  shows "prime_size p"
proof -
  let ?f = "\<lambda>i. a ^ i mod p"
  have p: "1 < p" using assms(1) by simp
  have ne: "?f i \<noteq> ?f j" if "i < j" "j < p - 1" for i j
  proof
    assume eq: "?f i = ?f j"
    have "a ^ ((p - 1 - i) + i) mod p = a ^ ((p - 1 - i) + j) mod p" using eq unfolding power_add by (metis mod_mult_right_eq)
    moreover have "(p - 1 - i) + i = p - 1" "(p - 1 - i) + j = (p - 1) * 1 + (j - i)" using that by simp_all
    ultimately have "a ^ (j - i) mod p = 1" using power_drop [OF p assms(2), of 1 "j - i"] assms(2) by simp
    moreover have "0 < j - i" "j - i < p - 1" using that by linarith+
    ultimately show False using full by blast
  qed
  have "inj_on ?f {..<p - 1}" unfolding inj_on_def using ne by (metis lessThan_iff linorder_neqE_nat)
  then have card: "card (?f ` {..<p - 1}) = p - 1" by (simp add: card_image)
  have cop: "coprime (?f i) p" if "i < p - 1" for i using unit_powers [OF p assms(2), of i] that by simp
  have "?f ` {..<p - 1} \<subseteq> {0<..<p}"
  proof
    fix x assume "x \<in> ?f ` {..<p - 1}"
    then obtain i where i: "i < p - 1" "x = ?f i" by auto
    have "x \<noteq> 0" using cop [OF i(1)] p unfolding i(2) [symmetric] by (cases "x = 0") (simp_all del: coprime_mod_left_iff)
    then show "x \<in> {0<..<p}" using i p by simp
  qed
  moreover have "card {0<..<p} = p - 1" by simp
  ultimately have "?f ` {..<p - 1} = {0<..<p}" using card by (intro card_subset_eq) auto
  then have img: "r \<in> ?f ` {..<p - 1}" if "0 < r" "r < p" for r using that by auto
  have "coprime r p" if "0 < r" "r < p" for r using img [OF that] cop by auto
  then show ?thesis using assms(1) by (simp add: prime_size_def)
qed

section \<open>Certificates\<close>

definition pratt_check :: "int \<Rightarrow> int \<Rightarrow> int list \<Rightarrow> bool" where
  "pratt_check p a qs \<longleftrightarrow> prod_list qs = p - 1 \<and> power_mod_int a (p - 1) p = 1
     \<and> list_all (\<lambda>q. power_mod_int a ((p - 1) div q) p \<noteq> 1) (remdups qs)"

lemma pratt_prime:
  assumes "2 < p" and "pratt_check (int p) (int a) (map int qs)" and "\<And>q. q \<in> set qs \<Longrightarrow> q = 2 \<or> prime_size q"
  shows "prime_size p"
proof (rule full_order_prime [OF assms(1)])
  have p: "1 < p" "1 < int p" "int p - 1 = int (p - 1)" using assms(1) by simp_all
  have pw: "power_mod_int (int a) (int n) (int p) = int (a ^ n mod p)" for n
    using power_mod_int_eq [OF p(2), of "int a" n] by (simp only: zmod_int of_nat_power)
  have "int (prod_list qs) = prod_list (map int qs)" by (induction qs) simp_all
  moreover have "prod_list (map int qs) = int (p - 1)" using assms(2) unfolding pratt_check_def p(3) by blast
  ultimately have prod: "p - 1 = prod_list qs" by (simp only: of_nat_eq_iff)
  have "int (a ^ (p - 1) mod p) = 1" using assms(2) unfolding pratt_check_def p(3) pw by blast
  then show one: "a ^ (p - 1) mod p = 1" by (simp only: of_nat_eq_1_iff)
  have "power_mod_int (int a) (int (p - 1) div int q) (int p) \<noteq> 1" if "q \<in> set qs" for q
    using assms(2) that unfolding pratt_check_def list_all_iff p(3) by auto
  then have "int (a ^ ((p - 1) div q) mod p) \<noteq> 1" if "q \<in> set qs" for q using that by (metis pw zdiv_int)
  then have fact: "irreducible_nat q \<and> a ^ ((p - 1) div q) mod p \<noteq> 1" if "q \<in> set qs" for q
    using assms(3) [OF that] that irreducible_two prime_size_irreducible by (metis of_nat_1)
  show "a ^ j mod p \<noteq> 1" if "0 < j" "j < p - 1" for j by (rule full_order [OF p(1) one prod fact that])
qed

text \<open>A list of certificates: a number, an element of full order and the prime factors of the order, which are two, known or certified before.\<close>

fun certs_valid :: "int list \<Rightarrow> (int \<times> int \<times> int list) list \<Rightarrow> bool" where
  "certs_valid known [] \<longleftrightarrow> True"
| "certs_valid known ((p, a, qs) # cs) \<longleftrightarrow> 2 < p \<and> 0 \<le> a \<and> list_all (\<lambda>q. q = 2 \<or> q \<in> set known) qs
     \<and> pratt_check p a qs \<and> certs_valid (p # known) cs"

lemma certs_prime:
  assumes "certs_valid known cs" and "list_all (\<lambda>q. prime_size (nat q)) known"
  shows "list_all (\<lambda>p. prime_size (nat p)) (map fst cs)"
  using assms
proof (induction known cs rule: certs_valid.induct)
  case (2 known p a qs cs)
  have q: "q = 2 \<or> prime_size (nat q)" if "q \<in> set qs" for q
    using 2(2,3) that by (auto simp: list_all_iff)
  then have pos: "0 \<le> q" if "q \<in> set qs" for q using that by (fastforce simp: prime_size_def)
  have "prime_size (nat p)"
  proof (rule pratt_prime [of _ "nat a" "map nat qs"])
    have "map (int \<circ> nat) qs = qs" using pos by (simp add: map_idI)
    then show "pratt_check (int (nat p)) (int (nat a)) (map int (map nat qs))" using 2(2) by simp
    show "x = 2 \<or> prime_size x" if "x \<in> set (map nat qs)" for x using that q by fastforce
  qed (use 2(2) in auto)
  then show ?case using 2 by simp
qed simp

section \<open>The sizes of hash tables\<close>

lemma certs_1: "certs_valid [] [
    (3, 2, [2]), (5, 2, [2, 2]), (7, 3, [2, 3]), (11, 2, [2, 5]), (13, 2, [2, 2, 3]), (17, 3, [2, 2, 2, 2]), (19, 2, [2, 3, 3]),
    (23, 5, [2, 11]), (29, 2, [2, 2, 7]), (31, 3, [2, 3, 5]), (37, 2, [2, 2, 3, 3]), (41, 6, [2, 2, 2, 5]), (47, 5, [2, 23]),
    (53, 2, [2, 2, 13]), (59, 2, [2, 29]), (61, 2, [2, 2, 3, 5]), (71, 7, [2, 5, 7]), (73, 5, [2, 2, 2, 3, 3]),
    (79, 3, [2, 3, 13]), (83, 2, [2, 41]), (89, 3, [2, 2, 2, 11]), (97, 5, [2, 2, 2, 2, 2, 3]), (103, 5, [2, 3, 17]),
    (127, 3, [2, 3, 3, 7]), (131, 2, [2, 5, 13]), (149, 2, [2, 2, 37]), (151, 6, [2, 3, 5, 5]), (163, 2, [2, 3, 3, 3, 3]),
    (179, 2, [2, 89]), (191, 19, [2, 5, 19]), (193, 5, [2, 2, 2, 2, 2, 2, 3]), (229, 6, [2, 2, 3, 19]), (251, 6, [2, 5, 5, 5]),
    (257, 3, [2, 2, 2, 2, 2, 2, 2, 2]), (263, 5, [2, 131]), (271, 6, [2, 3, 3, 3, 5]), (281, 3, [2, 2, 2, 5, 7]),
    (293, 2, [2, 2, 73]), (311, 17, [2, 5, 31]), (313, 10, [2, 2, 2, 3, 13]), (359, 7, [2, 179]), (383, 5, [2, 191]),
    (389, 2, [2, 2, 97]), (401, 3, [2, 2, 2, 2, 5, 5]), (421, 2, [2, 2, 3, 5, 7]), (433, 5, [2, 2, 2, 2, 3, 3, 3]),
    (563, 2, [2, 281]), (653, 2, [2, 2, 163])]"
  by code_simp

lemma primes_1: "list_all (\<lambda>p. prime_size (nat p)) [
    3, 5, 7, 11, 13, 17, 19, 23, 29, 31, 37, 41, 47, 53, 59, 61, 71, 73, 79, 83, 89, 97, 103, 127, 131, 149, 151, 163, 179,
    191, 193, 229, 251, 257, 263, 271, 281, 293, 311, 313, 359, 383, 389, 401, 421, 433, 563, 653]"
  using certs_prime [OF certs_1] by simp

lemma certs_2: "certs_valid [3, 59, 359, 5, 19, 71, 7, 23, 103, 17, 31, 257, 149, 151, 271, 313] [
    (709, 2, [2, 2, 3, 59]), (719, 11, [2, 359]), (761, 6, [2, 2, 2, 5, 19]), (769, 11, [2, 2, 2, 2, 2, 2, 2, 2, 3]),
    (853, 2, [2, 2, 3, 71]), (967, 5, [2, 3, 7, 23]), (1237, 2, [2, 2, 3, 103]), (1289, 6, [2, 2, 2, 7, 23]),
    (1361, 3, [2, 2, 2, 2, 5, 17]), (1427, 2, [2, 23, 31]), (1543, 5, [2, 3, 257]), (1789, 6, [2, 2, 3, 149]),
    (2417, 3, [2, 2, 2, 2, 151]), (2473, 5, [2, 2, 2, 3, 103]), (2711, 7, [2, 5, 271]), (3079, 6, [2, 3, 3, 3, 3, 19]),
    (3413, 2, [2, 2, 853]), (5009, 3, [2, 2, 2, 2, 313])]"
  by code_simp

lemma primes_2: "list_all (\<lambda>p. prime_size (nat p)) [
    709, 719, 761, 769, 853, 967, 1237, 1289, 1361, 1427, 1543, 1789, 2417, 2473, 2711, 3079, 3413, 5009]"
  using certs_prime [OF certs_2] primes_1 by simp

lemma certs_3: "certs_valid [5, 127, 31, 83, 11, 47, 3, 41, 563, 7, 311, 2711] [
    (5081, 3, [2, 2, 2, 5, 127]), (5147, 2, [2, 31, 83]), (5171, 2, [2, 5, 11, 47]), (5281, 7, [2, 2, 2, 2, 2, 3, 5, 11]),
    (6151, 3, [2, 3, 5, 5, 41]), (10343, 5, [2, 5171]), (11261, 2, [2, 2, 5, 563]),
    (12289, 11, [2, 2, 2, 2, 2, 2, 2, 2, 2, 2, 2, 2, 3]), (13063, 5, [2, 3, 7, 311]), (16267, 3, [2, 3, 2711])]"
  by code_simp

lemma primes_3: "list_all (\<lambda>p. prime_size (nat p)) [
    5081, 5147, 5171, 5281, 6151, 10343, 11261, 12289, 13063, 16267]"
  using certs_prime [OF certs_3] primes_1 primes_2 by simp

lemma certs_4: "certs_valid [29, 53, 3, 163, 5, 1427, 5147, 293, 17, 263, 2417, 12289] [
    (24593, 3, [2, 2, 2, 2, 29, 53]), (26407, 5, [2, 3, 3, 3, 3, 163]), (28541, 2, [2, 2, 5, 1427]),
    (41177, 3, [2, 2, 2, 5147]), (42193, 15, [2, 2, 2, 2, 3, 3, 293]), (44711, 7, [2, 5, 17, 263]), (48341, 3, [2, 2, 5, 2417]),
    (49157, 2, [2, 2, 12289])]"
  by code_simp

lemma primes_4: "list_all (\<lambda>p. prime_size (nat p)) [
    24593, 26407, 28541, 41177, 42193, 44711, 48341, 49157]"
  using certs_prime [OF certs_4] primes_1 primes_2 primes_3 by simp

lemma certs_5: "certs_valid [5, 3, 19, 719, 53, 967, 7, 47, 83, 653] [
    (62501, 2, [2, 2, 5, 5, 5, 5, 5, 5]), (81967, 5, [2, 3, 19, 719]), (102503, 5, [2, 53, 967]),
    (109229, 2, [2, 2, 7, 47, 83]), (117541, 10, [2, 2, 3, 3, 5, 653])]"
  by code_simp

lemma primes_5: "list_all (\<lambda>p. prime_size (nat p)) [
    62501, 81967, 102503, 109229, 117541]"
  using certs_prime [OF certs_5] primes_1 primes_2 by simp

lemma certs_6: "certs_valid [3, 11, 29, 31, 83, 127, 5, 19, 229, 7, 41] [
    (118669, 2, [2, 2, 3, 11, 29, 31]), (126493, 5, [2, 2, 3, 83, 127]), (130531, 10, [2, 3, 5, 19, 229]),
    (154981, 2, [2, 2, 3, 3, 3, 5, 7, 41])]"
  by code_simp

lemma primes_6: "list_all (\<lambda>p. prime_size (nat p)) [
    118669, 126493, 130531, 154981]"
  using certs_prime [OF certs_6] primes_1 by simp

lemma certs_7: "certs_valid [109229, 3, 48341, 5, 1237, 71, 1289, 193, 229] [
    (218459, 2, [2, 109229]), (290047, 3, [2, 3, 48341]), (309251, 2, [2, 5, 5, 5, 1237]), (366077, 2, [2, 2, 71, 1289]),
    (441971, 2, [2, 5, 193, 229])]"
  by code_simp

lemma primes_7: "list_all (\<lambda>p. prime_size (nat p)) [
    218459, 290047, 309251, 366077, 441971]"
  using certs_prime [OF certs_7] primes_1 primes_2 primes_4 primes_5 by simp

lemma certs_8: "certs_valid [3, 5, 11, 61, 7, 1789, 10343, 251, 401] [
    (442861, 2, [2, 2, 3, 5, 11, 11, 61]), (500921, 3, [2, 2, 2, 5, 7, 1789]), (517151, 13, [2, 5, 5, 10343]),
    (603907, 2, [2, 3, 251, 401])]"
  by code_simp

lemma primes_8: "list_all (\<lambda>p. prime_size (nat p)) [
    442861, 500921, 517151, 603907]"
  using certs_prime [OF certs_8] primes_1 primes_2 primes_3 by simp

lemma certs_9: "certs_valid [3, 117541, 17, 11261, 5, 41177, 44711] [
    (705247, 3, [2, 3, 117541]), (765749, 2, [2, 2, 17, 11261]), (823541, 2, [2, 2, 5, 41177]), (894221, 2, [2, 2, 5, 44711])]"
  by code_simp

lemma primes_9: "list_all (\<lambda>p. prime_size (nat p)) [
    705247, 765749, 823541, 894221]"
  using certs_prime [OF certs_9] primes_1 primes_3 primes_4 primes_5 by simp

lemma certs_10: "certs_valid [3, 5009, 11, 71, 719, 81967, 765749] [
    (961729, 11, [2, 2, 2, 2, 2, 2, 3, 5009]), (1123079, 11, [2, 11, 71, 719]), (1311473, 3, [2, 2, 2, 2, 81967]),
    (1531499, 2, [2, 765749])]"
  by code_simp

lemma primes_10: "list_all (\<lambda>p. prime_size (nat p)) [
    961729, 1123079, 1311473, 1531499]"
  using certs_prime [OF certs_10] primes_1 primes_2 primes_5 primes_9 by simp

lemma certs_11: "certs_valid [894221, 130531, 3, 5, 5081] [
    (1788443, 2, [2, 894221]), (2088497, 3, [2, 2, 2, 2, 130531]), (2438881, 17, [2, 2, 2, 2, 2, 3, 5, 5081])]"
  by code_simp

lemma primes_11: "list_all (\<lambda>p. prime_size (nat p)) [
    1788443, 2088497, 2438881]"
  using certs_prime [OF certs_11] primes_1 primes_3 primes_6 primes_9 by simp

lemma certs_12: "certs_valid [3, 5, 761, 118669, 79, 421] [
    (2465641, 11, [2, 2, 2, 3, 3, 3, 3, 5, 761]), (2848057, 5, [2, 2, 2, 3, 118669]), (3325901, 3, [2, 2, 5, 5, 79, 421])]"
  by code_simp

lemma primes_12: "list_all (\<lambda>p. prime_size (nat p)) [
    2465641, 2848057, 3325901]"
  using certs_prime [OF certs_12] primes_1 primes_2 primes_6 by simp

lemma certs_13: "certs_valid [3, 11, 83, 709, 7, 131, 2473] [
    (3883903, 3, [2, 3, 11, 83, 709]), (4535483, 2, [2, 7, 131, 2473])]"
  by code_simp

lemma primes_13: "list_all (\<lambda>p. prime_size (nat p)) [
    3883903, 4535483]"
  using certs_prime [OF certs_13] primes_1 primes_2 by simp

lemma certs_14: "certs_valid [13, 127, 401, 5, 309251] [
    (5296409, 3, [2, 2, 2, 13, 127, 401]), (6185021, 2, [2, 2, 5, 309251])]"
  by code_simp

lemma primes_14: "list_all (\<lambda>p. prime_size (nat p)) [
    5296409, 6185021]"
  using certs_prime [OF certs_14] primes_1 primes_7 by simp

lemma certs_15: "certs_valid [5, 19, 83, 229, 7, 11, 13, 383] [
    (7222661, 2, [2, 2, 5, 19, 83, 229]), (8434427, 2, [2, 7, 11, 11, 13, 383])]"
  by code_simp

lemma primes_15: "list_all (\<lambda>p. prime_size (nat p)) [
    7222661, 8434427]"
  using certs_prime [OF certs_15] primes_1 by simp

lemma certs_16: "certs_valid [13, 29, 13063, 3, 11, 5281] [
    (9849503, 5, [2, 13, 29, 13063]), (11502019, 3, [2, 3, 3, 11, 11, 5281])]"
  by code_simp

lemma primes_16: "list_all (\<lambda>p. prime_size (nat p)) [
    9849503, 11502019]"
  using certs_prime [OF certs_16] primes_1 primes_3 by simp

lemma certs_17: "certs_valid [3, 5, 11, 47, 433, 31, 126493] [
    (13431661, 17, [2, 2, 3, 5, 11, 47, 433]), (15685133, 2, [2, 2, 31, 126493])]"
  by code_simp

lemma primes_17: "list_all (\<lambda>p. prime_size (nat p)) [
    13431661, 15685133]"
  using certs_prime [OF certs_17] primes_1 primes_6 by simp

lemma certs_18: "certs_valid [563, 16267, 3, 5, 26407] [
    (18316643, 2, [2, 563, 16267]), (21389671, 3, [2, 3, 3, 3, 3, 5, 26407])]"
  by code_simp

lemma primes_18: "list_all (\<lambda>p. prime_size (nat p)) [
    18316643, 21389671]"
  using certs_prime [OF certs_18] primes_1 primes_3 primes_4 by simp

lemma certs_19: "certs_valid [37, 42193, 7, 73, 28541] [
    (24978257, 3, [2, 2, 2, 2, 37, 42193]), (29168903, 5, [2, 7, 73, 28541])]"
  by code_simp

lemma primes_19: "list_all (\<lambda>p. prime_size (nat p)) [
    24978257, 29168903]"
  using certs_prime [OF certs_19] primes_1 primes_4 by simp

lemma certs_20: "certs_valid [17, 500921, 3, 5, 441971] [
    (34062629, 2, [2, 2, 17, 500921]), (39777391, 11, [2, 3, 3, 5, 441971])]"
  by code_simp

lemma primes_20: "list_all (\<lambda>p. prime_size (nat p)) [
    34062629, 39777391]"
  using certs_prime [OF certs_20] primes_1 primes_7 primes_8 by simp

lemma certs_21: "certs_valid [5, 1361, 3413, 11, 2465641] [
    (46450931, 2, [2, 5, 1361, 3413]), (54244103, 5, [2, 11, 2465641])]"
  by code_simp

lemma primes_21: "list_all (\<lambda>p. prime_size (nat p)) [
    46450931, 54244103]"
  using certs_prime [OF certs_21] primes_1 primes_2 primes_12 by simp

lemmas size_primes = primes_1 primes_2 primes_3 primes_4 primes_5 primes_6 primes_7 primes_8 primes_9 primes_10 primes_11 primes_12 primes_13 primes_14 primes_15 primes_16 primes_17 primes_18 primes_19 primes_20 primes_21

lemma default_sizes_prime: "list_all (\<lambda>p. p = 0 \<or> prime_size p) default_ht_sizes"
  using size_primes by (simp add: default_ht_sizes_def)

end
