(* ===== verification/Hashtab_Props.thy ===== *)
theory Hashtab_Props
  imports Hashtab_Map Ht_Primes
begin

text \<open>
  The properties of the hash tables: interpretations of the contract for the instances of the template, refinement of maps by
  arbitrary sequences of operations, and the errors of an addition.
\<close>

section \<open>The instances\<close>

interpretation int4_tab: ht_keys int4_class
  by unfold_locales (auto simp: int4_class_def)

interpretation int8_tab: ht_keys int8_class
  by unfold_locales (auto simp: int8_class_def)

interpretation addr_tab: ht_keys addr_class
  by unfold_locales (auto simp: addr_class_def)

interpretation mname_tab: ht_keys mname_class
  by unfold_locales (auto simp: mname_class_def htent_valid_def)

interpretation str_tab: ht_keys str_class
  by unfold_locales (auto simp: str_class_def htent_valid_def)

lemma default_sizes_ok: "sizes_ok default_ht_sizes"
  using default_sizes_prime by (simp add: sizes_ok_def default_ht_sizes_def)

section \<open>Sequences of operations\<close>

text \<open>An operation with, where it may allocate, whether memory is available.\<close>

datatype 'k ht_op = Ht_add 'k "64 word" bool | Ht_delete 'k bool | Ht_reinit

fun ht_step :: "'k ht_class \<Rightarrow> nat list \<Rightarrow> 'k ht_op \<Rightarrow> 'k hash_table \<Rightarrow> 'k hash_table res" where
  "ht_step cls hs (Ht_add k v mem) t = res_bind (add_hashtab cls hs mem t k v) (\<lambda>(_, _, t). Inr t)"
| "ht_step cls hs (Ht_delete k mem) t = res_bind (delete_hashtab cls hs mem t k) (\<lambda>(_, t). Inr t)"
| "ht_step cls hs Ht_reinit t = Inr (reinitialize_hashtab cls t)"

fun ht_run :: "'k ht_class \<Rightarrow> nat list \<Rightarrow> 'k ht_op list \<Rightarrow> 'k hash_table \<Rightarrow> 'k hash_table res" where
  "ht_run cls hs [] t = Inr t"
| "ht_run cls hs (x # xs) t = res_bind (ht_step cls hs x t) (ht_run cls hs xs)"

text \<open>The same operations on maps; a key that is present keeps its value.\<close>

fun map_step :: "'k ht_op \<Rightarrow> ('k \<rightharpoonup> 64 word) \<Rightarrow> ('k \<rightharpoonup> 64 word)" where
  "map_step (Ht_add k v mem) m = (case m k of None \<Rightarrow> m(k \<mapsto> v) | Some _ \<Rightarrow> m)"
| "map_step (Ht_delete k mem) m = m(k := None)"
| "map_step Ht_reinit m = Map.empty"

fun ht_op_ok :: "'k ht_class \<Rightarrow> 'k ht_op \<Rightarrow> bool" where
  "ht_op_ok cls (Ht_add k v mem) \<longleftrightarrow> ht_ok cls k v"
| "ht_op_ok cls _ \<longleftrightarrow> True"

text \<open>The value that a lookup finds.\<close>

definition lookup_value :: "'k ht_class \<Rightarrow> 'k hash_table \<Rightarrow> 'k \<Rightarrow> 64 word option res" where
  "lookup_value cls t k = res_bind (lookup_hashtab cls t k) (\<lambda>r. Inr (map_option (\<lambda>i. snd (ht_base t ! i)) r))"

text \<open>
  An addition cannot be done: all entries of the table are in use, no larger table can be had, and this is because no memory is available or
  because the table has the largest size already.
\<close>

definition add_refused :: "'k ht_class \<Rightarrow> nat list \<Rightarrow> bool \<Rightarrow> 'k hash_table \<Rightarrow> bool" where
  "add_refused cls hs mem t \<longleftrightarrow> ht_count t = ht_size t \<and> (\<forall>e \<in> set (ht_base t). htent_valid cls e)
     \<and> (\<exists>t'. expand_hashtab cls hs mem t (ht_size t + 1) = Inr (False, t')) \<and> (\<not> mem \<or> first_size hs (ht_size t + 1) = Inr 0)"

text \<open>
  From a new table every sequence of operations leads to a table in which lookups find what the map has, or it ends with the memory
  error in an addition that cannot be done, after operations that did what they do on the map.
\<close>

definition ht_refines :: "'k ht_class \<Rightarrow> nat list \<Rightarrow> bool" where
  "ht_refines cls hs \<longleftrightarrow> (\<forall>t n dc ds t0 ops. init_hashtab cls hs True t n dc ds = Inr t0 \<longrightarrow> list_all (ht_op_ok cls) ops \<longrightarrow>
     (\<exists>t'. ht_run cls hs ops t0 = Inr t' \<and> (\<forall>k. lookup_value cls t' k = Inr (fold map_step ops Map.empty k)))
     \<or> (\<exists>xs k v mem ys t1. ht_run cls hs ops t0 = Inl ERR_MEMORY \<and> ops = xs @ Ht_add k v mem # ys \<and> ht_run cls hs xs t0 = Inr t1
         \<and> (\<forall>k. lookup_value cls t1 k = Inr (fold map_step xs Map.empty k)) \<and> add_refused cls hs mem t1))"

lemma lookup_value_eq:
  assumes "ht_inv cls t"
  shows "lookup_value cls t k = Inr (ht_map cls t k)"
proof -
  obtain r where r: "lookup_hashtab cls t k = Inr r" "lookup_result cls t k r" using lookup_hashtab_spec [OF assms] by blast
  then show ?thesis using found_map [OF assms] by (cases r) (auto simp: lookup_value_def lookup_result_def)
qed

context ht_keys
begin

lemma add_refusedI:
  assumes hs: "sizes_ok hs" and "ht_good cls hs t" and "ht_count t = ht_size t" and e: "expand_hashtab cls hs mem t (ht_size t + 1) = Inr (False, t')"
  shows "add_refused cls hs mem t"
proof -
  have g: "ht_inv cls t" using assms(2) by (simp add: ht_good_def)
  have "length (filter (htent_valid cls) (ht_base t)) = length (ht_base t)"
    using g assms(3) ht_inv_shape [OF g] by (simp add: ht_inv_def)
  then have "\<forall>x \<in> set (ht_base t). htent_valid cls x" using length_filter_less [of _ "ht_base t" "htent_valid cls"] by fastforce
  moreover have "ht_size t div 2 < ht_size t + 1" by (simp add: less_Suc_eq_le)
  then have "first_size hs (ht_size t + 1) = Inr 0" if mem
    using e that first_size_spec [OF hs, of "ht_size t + 1"]
    by (auto simp: expand_hashtab_def init_hashtab_intl_def new_ht_size_def Let_def res_bind_def split: sum.splits if_splits)
  ultimately show ?thesis using assms(3) e by (auto simp: add_refused_def)
qed

lemma ht_step_spec:
  assumes "sizes_ok hs" and "ht_good cls hs t" and "ht_op_ok cls x"
  shows "(\<exists>t'. ht_step cls hs x t = Inr t' \<and> ht_good cls hs t' \<and> ht_map cls t' = map_step x (ht_map cls t))
    \<or> (\<exists>k v mem. ht_step cls hs x t = Inl ERR_MEMORY \<and> x = Ht_add k v mem \<and> add_refused cls hs mem t)"
proof (cases x)
  case (Ht_add k v mem)
  then consider (ok) r where "add_hashtab cls hs mem t k v = Inr r" "add_ok cls hs t k v r"
    | (err) "add_hashtab cls hs mem t k v = Inl ERR_MEMORY" "add_refused cls hs mem t"
    using add_hashtab_spec [OF assms(1,2), of k v mem] assms(3) add_refusedI [OF assms(1,2)] by auto
  then show ?thesis
  proof cases
    case ok
    then show ?thesis using Ht_add by (cases r) (auto simp: add_ok_def split: option.splits)
  next
    case err
    then show ?thesis using Ht_add by auto
  qed
next
  case (Ht_delete k mem)
  then show ?thesis using delete_hashtab_spec [OF assms(1,2), of mem k] by auto
next
  case Ht_reinit
  then show ?thesis using reinitialize_spec [OF assms(2)] by simp
qed

lemma ht_run_spec:
  assumes "sizes_ok hs" and "ht_good cls hs t" and "list_all (ht_op_ok cls) ops"
  shows "(\<exists>t'. ht_run cls hs ops t = Inr t' \<and> ht_good cls hs t' \<and> ht_map cls t' = fold map_step ops (ht_map cls t))
    \<or> (\<exists>xs k v mem ys t1. ht_run cls hs ops t = Inl ERR_MEMORY \<and> ops = xs @ Ht_add k v mem # ys \<and> ht_run cls hs xs t = Inr t1
        \<and> ht_good cls hs t1 \<and> ht_map cls t1 = fold map_step xs (ht_map cls t) \<and> add_refused cls hs mem t1)"
  using assms(2,3)
proof (induction ops arbitrary: t)
  case (Cons x ops)
  then consider (ok) t1 where "ht_step cls hs x t = Inr t1" "ht_good cls hs t1" "ht_map cls t1 = map_step x (ht_map cls t)"
    | (err) k v mem where "ht_step cls hs x t = Inl ERR_MEMORY" "x = Ht_add k v mem" "add_refused cls hs mem t"
    using ht_step_spec [OF assms(1) Cons.prems(1), of x] by auto
  then show ?case
  proof cases
    case ok
    have run: "ht_run cls hs (x # zs) t = ht_run cls hs zs t1" for zs using ok(1) by simp
    consider (fin) t' where "ht_run cls hs ops t1 = Inr t'" "ht_good cls hs t'" "ht_map cls t' = fold map_step ops (ht_map cls t1)"
      | (stop) xs k v mem ys t2 where "ht_run cls hs ops t1 = Inl ERR_MEMORY" "ops = xs @ Ht_add k v mem # ys" "ht_run cls hs xs t1 = Inr t2"
        "ht_good cls hs t2" "ht_map cls t2 = fold map_step xs (ht_map cls t1)" "add_refused cls hs mem t2"
      using Cons.IH [OF ok(2)] Cons.prems(2) by auto
    then show ?thesis
    proof cases
      case fin
      then show ?thesis using run ok(3) by simp
    next
      case stop
      show ?thesis
        by (rule disjI2, intro exI [of _ "x # xs"] exI [of _ k] exI [of _ v] exI [of _ mem] exI [of _ ys] exI [of _ t2])
          (unfold run, use stop ok(3) in simp)
    qed
  next
    case err
    show ?thesis
      by (rule disjI2, intro exI [of _ "[]"] exI [of _ k] exI [of _ v] exI [of _ mem] exI [of _ ops] exI [of _ t])
        (use err Cons.prems(1) in simp)
  qed
qed simp

lemma refines: "sizes_ok hs \<Longrightarrow> ht_refines cls hs"
  unfolding ht_refines_def
proof (intro allI impI)
  fix t n dc ds t0 ops
  assume hs: "sizes_ok hs" and init: "init_hashtab cls hs True t n dc ds = Inr t0" and ops: "list_all (ht_op_ok cls) ops"
  have t0: "ht_good cls hs t0" "ht_map cls t0 = Map.empty" using init_hashtab_spec [OF hs, of True t n dc ds] init by auto
  have lv: "ht_good cls hs t' \<Longrightarrow> lookup_value cls t' k = Inr (ht_map cls t' k)" for t' k
    using lookup_value_eq by (auto simp: ht_good_def)
  show "(\<exists>t'. ht_run cls hs ops t0 = Inr t' \<and> (\<forall>k. lookup_value cls t' k = Inr (fold map_step ops Map.empty k)))
     \<or> (\<exists>xs k v mem ys t1. ht_run cls hs ops t0 = Inl ERR_MEMORY \<and> ops = xs @ Ht_add k v mem # ys \<and> ht_run cls hs xs t0 = Inr t1
         \<and> (\<forall>k. lookup_value cls t1 k = Inr (fold map_step xs Map.empty k)) \<and> add_refused cls hs mem t1)"
    using ht_run_spec [OF hs t0(1) ops] unfolding t0(2)
  proof (elim disjE exE conjE)
    fix t'
    assume "ht_run cls hs ops t0 = Inr t'" "ht_good cls hs t'" "ht_map cls t' = fold map_step ops Map.empty"
    then show ?thesis using lv by (intro disjI1 exI [of _ t']) simp
  next
    fix xs k v mem ys t1
    assume "ht_run cls hs ops t0 = Inl ERR_MEMORY" "ops = xs @ Ht_add k v mem # ys" "ht_run cls hs xs t0 = Inr t1"
      "ht_good cls hs t1" "ht_map cls t1 = fold map_step xs Map.empty" "add_refused cls hs mem t1"
    then show ?thesis using lv
      by (intro disjI2 exI [of _ xs] exI [of _ k] exI [of _ v] exI [of _ mem] exI [of _ ys] exI [of _ t1]) simp
  qed
qed

end

section \<open>Properties\<close>

text \<open>C2: The hash tables for four-byte and eight-byte integers, addresses, variable names and strings (five of the six instances: the one
  for object code is not modelled), with the default sizes, refine maps. From a new table, any sequence of additions of proper
  entries, deletions and reinitializations, whichever of the allocations fail, ends without a failed assertion, an endless loop or an access
  outside of the table, and lookups then find exactly what the map has. The only other outcome is the memory error in an addition: the
  operations before it did what they do on the map, every entry of the table is in use, and no larger table can be had, because no memory is
  available or because the table has the largest size.\<close>

theorem hashtab_refines_map:
  "ht_refines int4_class default_ht_sizes \<and> ht_refines int8_class default_ht_sizes \<and> ht_refines addr_class default_ht_sizes
   \<and> ht_refines mname_class default_ht_sizes \<and> ht_refines str_class default_ht_sizes"
  using int4_tab.refines int8_tab.refines addr_tab.refines mname_tab.refines str_tab.refines default_sizes_ok by blast

definition no_table :: "'k hash_table" where
  "no_table = \<lparr>ht_base = [], ht_passed = [], ht_size = 0, initial_size = 0, spare_base = False, spare_base_size = 0, ht_count = 0, del_count = 0,
     exp_trigger_size = 0, cmp_trigger_size = 0, dont_compact = False, dont_keep_spare_table = False, defer_base_release = False, ht_active = False\<rparr>"

text \<open>C21: Adding a name to a table: the result is the entry of the name, whose value is the new one or the one that it had, and
  the table has the name added; the memory error arises only if all entries are in use and no larger table can be had.\<close>

theorem add_hashtab_mname:
  assumes "ht_good mname_class default_ht_sizes t" and "var_name k \<noteq> []" and "v \<noteq> HT_DELETED_ENTRY"
  shows "(\<exists>b i t'. add_hashtab mname_class default_ht_sizes mem t k v = Inr (b, i, t') \<and> ht_good mname_class default_ht_sizes t'
      \<and> b = (ht_map mname_class t k = None) \<and> ht_base t' ! i = (k, if b then v else the (ht_map mname_class t k))
      \<and> ht_map mname_class t' = (if b then (ht_map mname_class t)(k \<mapsto> v) else ht_map mname_class t))
    \<or> (add_hashtab mname_class default_ht_sizes mem t k v = Inl ERR_MEMORY \<and> ht_count t = ht_size t
      \<and> (\<exists>t'. expand_hashtab mname_class default_ht_sizes mem t (ht_size t + 1) = Inr (False, t')))"
proof -
  have "ht_ok mname_class k v" using assms(2,3) by (simp add: ht_ok_def htent_valid_def mname_class_def)
  then show ?thesis using mname_tab.add_hashtab_spec [OF default_sizes_ok assms(1), of k v mem]
    by (auto simp: add_ok_def split: option.splits)
qed

theorem add_hashtab_mname_witness:
  "\<exists>t b i t'. init_hashtab mname_class default_ht_sizes True no_table 1 False False = Inr t
    \<and> add_hashtab mname_class default_ht_sizes True t \<lparr>var_name = [0x78], hash_code = 7\<rparr> 5 = Inr (b, i, t')
    \<and> ht_map mname_class t' \<lparr>var_name = [0x78], hash_code = 7\<rparr> = Some 5"
proof -
  obtain t where t: "init_hashtab mname_class default_ht_sizes True no_table 1 False False = Inr t" "ht_good mname_class default_ht_sizes t"
    "ht_map mname_class t = Map.empty"
    using mname_tab.init_hashtab_spec [OF default_sizes_ok, of True no_table 1 False False] by (auto simp: first_size_def default_ht_sizes_def pick_size.simps)
  have "ht_count t \<noteq> ht_size t"
    using t(1) by (auto simp: init_hashtab_def init_hashtab_intl_def new_ht_size_def first_size_def default_ht_sizes_def pick_size.simps rd_def
        fresh_table_def ht_fields_common_init_def Let_def)
  then show ?thesis using add_hashtab_mname [OF t(2), of "\<lparr>var_name = [0x78], hash_code = 7\<rparr>" 5 True] t by auto
qed

text \<open>With the extended sizes the size requested for a compaction overflows: at the largest size with \<open>2\<^sup>30\<close> entries four times the
  number of entries is taken for zero, and the table chosen for them is too small to hold them.\<close>

lemma compaction_size_overflow:
  assumes "ht_size t = 1610612741" and "initial_size t = 13" and "ht_count t = 2 ^ 30" and "del_count t = 402653186"
    and "cmp_trigger_size t = 402653185" and "\<not> dont_compact t"
  shows "compact_needed t \<and> rehash_table_size (ht_size t) (ht_count t) = 0
    \<and> new_ht_size extended_ht_sizes (rehash_table_size (ht_size t) (ht_count t)) (Some t) = Inr 805306457 \<and> 805306457 < ht_count t"
  using assms by (simp add: compact_needed_def rehash_table_size_def new_ht_size_def rd_def extended_ht_sizes_def pick_prior.simps)

end
