(* ===== verification/Piece.thy ===== *)
theory Piece
  imports Ydb_Prelude
begin

text \<open>
  Pieces of strings: the functions behind \<open>$ZPIECE\<close>, \<open>SET $ZPIECE\<close>, \<open>$ZLENGTH\<close> with a delimiter and \<open>$ZFIND\<close> (\<open>sr_port/op_fnzp1.c\<close>,
  \<open>op_fnzpiece.c\<close>, \<open>op_setzp1.c\<close>, \<open>op_setzpiece.c\<close>, \<open>op_fnzpopulation.c\<close>, \<open>op_fnfind.c\<close>, \<open>matchc.c\<close>), with the cache of piece positions
  (\<open>fnpc.h\<close>). Strings lie in a memory, a list of bytes to which new strings are appended, and an mval refers to one by address and length; the
  cache identifies a string by its address and length alone.
\<close>

section \<open>Searching a delimiter string\<close>

text \<open>\<open>matchb\<close>: the source string from the pointer on is a list. The inner loop compares with the delimiter.\<close>

datatype mb_result = MB_found mstr | MB_end | MB_lost

fun matchb_at :: "mstr \<Rightarrow> mstr \<Rightarrow> mb_result" where
  "matchb_at (d # ds) (c # cs) = (if c = d then (if ds = [] then MB_found cs else if cs = [] then MB_end else matchb_at ds cs) else MB_lost)"
| "matchb_at _ _ = MB_lost"

fun matchb_skip :: "byte \<Rightarrow> mstr \<Rightarrow> mstr" where
  "matchb_skip d [] = []"
| "matchb_skip d (c # cs) = (if c \<noteq> d then matchb_skip d cs else c # cs)"

lemma matchb_skip_length: "length (matchb_skip d s) \<le> length s"
  by (induction s) auto

lemma matchb_at_length: "matchb_at del s = MB_found r \<Longrightarrow> length r < length s"
  by (induction del s rule: matchb_at.induct) (fastforce split: if_splits)+

text \<open>
  The rest of the string after the last match, whether all matches were found, and the number of those that were not. The code asserts that
  \<open>numpcs\<close> is positive; from zero on it would go on to the end of the string, and does so here.
\<close>

function matchb_loop :: "mstr \<Rightarrow> mstr \<Rightarrow> nat \<Rightarrow> mstr \<times> bool \<times> nat" where
  "matchb_loop del s numpcs_unmatched =
     (if s = [] then ([], False, numpcs_unmatched)
      else
        let src = matchb_skip (hd del) s in
        if src = [] then ([], False, numpcs_unmatched)
        else (case matchb_at del src of
            MB_found r \<Rightarrow> if numpcs_unmatched = 1 then (r, True, 0) else matchb_loop del r (numpcs_unmatched - 1)
          | MB_end \<Rightarrow> ([], False, numpcs_unmatched)
          | MB_lost \<Rightarrow> matchb_loop del (tl src) numpcs_unmatched))"
  by pat_completeness auto
termination
proof (relation "measure (\<lambda>(del, s, n). length s)", goal_cases)
  case (2 del s n src r)
  then show ?case using matchb_skip_length [of "hd del" s] matchb_at_length [of del src r] by simp
next
  case (3 del s n src)
  then show ?case using matchb_skip_length [of "hd del" s] by (cases "matchb_skip (hd del) s") auto
qed simp

declare matchb_loop.simps [simp del]

text \<open>\<open>matchb\<close> returns the offset of its pointer, \<open>res\<close> and \<open>numpcs\<close>.\<close>

definition matchb :: "mstr \<Rightarrow> mstr \<Rightarrow> nat \<Rightarrow> nat \<times> nat \<times> nat" where
  "matchb del src numpcs =
     (if del = [] then (0, 1, 0)
      else if length src < length del then (length src, 0, numpcs)
      else (case matchb_loop del src numpcs of
              (r, found, n) \<Rightarrow> let off = length src - length r in if found then (off, 1 + off, 0) else (length src, 0, n)))"

definition op_fnzfind :: "mstr \<Rightarrow> mstr \<Rightarrow> int \<Rightarrow> int" where
  "op_fnzfind src del first =
     (let first = (if 0 < first then first - 1 else 0) in
      if del = [] then first + 1
      else if int (length src) > first
      then (case matchb del (drop (nat first) src) 1 of (_, match_res, _) \<Rightarrow> if match_res \<noteq> 0 then first + int match_res else 0)
      else 0)"

section \<open>The cache of piece positions\<close>

abbreviation (input) FNPC_MAX :: nat where "FNPC_MAX \<equiv> 50"
abbreviation (input) FNPC_ELEM_MAX :: nat where "FNPC_ELEM_MAX \<equiv> 80"

definition MAX_STRLEN :: int where
  "MAX_STRLEN = 1048576"

record fnpc =
  last_addr :: nat
  last_len :: nat
  delim :: int
  npcs :: nat
  indx :: nat
  byte_oriented :: bool
  pstart :: "nat list"

record fnpc_area =
  fnpcsteal :: nat
  fnpcs :: "fnpc list"

text \<open>A string mval and the string it refers to.\<close>

record smval =
  str_addr :: nat
  str_len :: nat
  fnpc_indx :: nat

definition slice :: "mstr \<Rightarrow> nat \<Rightarrow> nat \<Rightarrow> mstr" where
  "slice mem a l = take l (drop a mem)"

abbreviation str_of :: "mstr \<Rightarrow> smval \<Rightarrow> mstr" where
  "str_of mem v \<equiv> slice mem (str_addr v) (str_len v)"

text \<open>The cache at start up, and after a garbage collection.\<close>

definition fnpc_init :: fnpc_area where
  "fnpc_init = \<lparr>fnpcsteal = 0, fnpcs = map (\<lambda>i. \<lparr>last_addr = 0, last_len = 0, delim = 0, npcs = 0, indx = i, byte_oriented = False,
     pstart = replicate (FNPC_ELEM_MAX + 1) 0\<rparr>) [0..<FNPC_MAX]\<rparr>"

definition fnpc_clear :: "fnpc_area \<Rightarrow> fnpc_area" where
  "fnpc_clear area = area\<lparr>fnpcs := map (\<lambda>c. c\<lparr>last_addr := 0, last_len := 0, delim := 0\<rparr>) (fnpcs area)\<rparr>"

text \<open>The next element to steal.\<close>

definition fnpc_steal :: "fnpc_area \<Rightarrow> nat \<times> fnpc_area" where
  "fnpc_steal area =
     (let cfnpc = (if FNPC_MAX - 1 < fnpcsteal area then 0 else fnpcsteal area)
      in (cfnpc, area\<lparr>fnpcsteal := cfnpc + 1\<rparr>))"

text \<open>\<open>unsigned int fnpc_indx = src->fnpc_indx - 1\<close>, and the test for a valid entry.\<close>

definition cache_index :: "smval \<Rightarrow> nat" where
  "cache_index src = nat ((int (fnpc_indx src) - 1) mod 2 ^ 32)"

definition fnpc_valid :: "fnpc_area \<Rightarrow> smval \<Rightarrow> int \<Rightarrow> bool" where
  "fnpc_valid area src dl =
     (FNPC_MAX > cache_index src \<and>
      (let cfnpc = fnpcs area ! cache_index src
       in last_addr cfnpc = str_addr src \<and> last_len cfnpc = str_len src \<and> delim cfnpc = dl \<and> byte_oriented cfnpc))"

definition dlmc :: "int \<Rightarrow> byte" where
  "dlmc dl = word_of_int dl"

section \<open>One piece\<close>

text \<open>\<open>while (last != end && *last != dlmc) last++\<close>\<close>

function scan_delim :: "mstr \<Rightarrow> byte \<Rightarrow> nat \<Rightarrow> nat" where
  "scan_delim s d lst = (if lst < length s \<and> s ! lst \<noteq> d then scan_delim s d (Suc lst) else lst)"
  by pat_completeness auto
termination
  by (relation "measure (\<lambda>(s, d, lst). length s - lst)") auto

declare scan_delim.simps [simp del]

lemma scan_delim_ge: "lst \<le> scan_delim s d lst"
  by (induction s d lst rule: scan_delim.induct) (subst scan_delim.simps, auto)

text \<open>The scan of \<open>op_fnzp1\<close>: piece count, start of the piece, end of it, position in \<open>pstart\<close>.\<close>

function fnzp1_scan :: "mstr \<Rightarrow> byte \<Rightarrow> nat \<Rightarrow> nat \<Rightarrow> nat \<Rightarrow> nat \<Rightarrow> nat \<Rightarrow> nat list \<Rightarrow> nat \<times> nat \<times> nat \<times> nat \<times> nat list" where
  "fnzp1_scan s d trgpcidx cpcidx first lst pcoff ps =
     (if cpcidx \<le> trgpcidx \<and> lst < length s then
        let first = lst;
            lst = Suc (scan_delim s d lst);
            (pcoff, ps) = (if pcoff < FNPC_ELEM_MAX then (Suc pcoff, ps[pcoff := first]) else (pcoff, ps));
            (pcoff, ps) = (if pcoff = FNPC_ELEM_MAX then (Suc pcoff, ps[pcoff := lst]) else (pcoff, ps))
        in fnzp1_scan s d trgpcidx (Suc cpcidx) first lst pcoff ps
      else (cpcidx, first, lst, pcoff, ps))"
  by pat_completeness auto
termination
  by (relation "measure (\<lambda>(s, d, trgpcidx, cpcidx, first, lst, pcoff, ps). Suc trgpcidx - cpcidx)") auto

declare fnzp1_scan.simps [simp del]

text \<open>The result is the new cache, the source with its index into the cache, and address and length of the piece.\<close>

definition fnzp1_search :: "mstr \<Rightarrow> fnpc_area \<Rightarrow> smval \<Rightarrow> int \<Rightarrow> nat \<Rightarrow> nat \<Rightarrow> fnpc \<Rightarrow> nat \<Rightarrow> nat \<Rightarrow> nat \<Rightarrow> fnpc_area \<times> smval \<times> nat \<times> nat" where
  "fnzp1_search mem area src dl trgpcidx i cfnpc cpcidx first pcoff =
     (case fnzp1_scan (str_of mem src) (dlmc dl) trgpcidx cpcidx first first pcoff (pstart cfnpc) of
        (cpcidx', first', lst, pcoff', ps) \<Rightarrow>
          if cpcidx \<noteq> cpcidx' then
            (area\<lparr>fnpcs := (fnpcs area)[i := cfnpc\<lparr>npcs := min (npcs cfnpc + cpcidx' - cpcidx) FNPC_ELEM_MAX,
                pstart := (if pcoff' < FNPC_ELEM_MAX then ps[pcoff' := lst] else ps)\<rparr>]\<rparr>,
             src, str_addr src + first', if trgpcidx < cpcidx' then lst - 1 - first' else 0)
          else (area\<lparr>fnpcs := (fnpcs area)[i := cfnpc]\<rparr>, src, str_addr src + first', 0))"

definition op_fnzp1 :: "mstr \<Rightarrow> fnpc_area \<Rightarrow> smval \<Rightarrow> int \<Rightarrow> int \<Rightarrow> fnpc_area \<times> smval \<times> nat \<times> nat" where
  "op_fnzp1 mem area src dl trgpcidx =
     (if 0 \<ge> trgpcidx \<or> 0 = str_len src then (area, src, str_addr src, 0)
      else if fnpc_valid area src dl then
        let i = cache_index src; cfnpc = fnpcs area ! i in
        if nat trgpcidx \<le> npcs cfnpc
        then (area, src, str_addr src + pstart cfnpc ! (nat trgpcidx - 1), pstart cfnpc ! nat trgpcidx - pstart cfnpc ! (nat trgpcidx - 1) - 1)
        else fnzp1_search mem area src dl (nat trgpcidx) i cfnpc (Suc (npcs cfnpc)) (pstart cfnpc ! npcs cfnpc)
               (if npcs cfnpc = FNPC_ELEM_MAX then Suc (npcs cfnpc) else npcs cfnpc)
      else
        let (i, area) = fnpc_steal area;
            cfnpc = (fnpcs area ! i)\<lparr>last_addr := str_addr src, last_len := str_len src, delim := dl, npcs := 0, byte_oriented := True\<rparr>
        in fnzp1_search mem area (src\<lparr>fnpc_indx := indx cfnpc + 1\<rparr>) dl (nat trgpcidx) i cfnpc 1 0 0)"

section \<open>Several pieces, any delimiter\<close>

definition op_fnzpiece :: "mstr \<Rightarrow> fnpc_area \<Rightarrow> smval \<Rightarrow> mstr \<Rightarrow> int \<Rightarrow> int \<Rightarrow> fnpc_area \<times> smval \<times> nat \<times> nat" where
  "op_fnzpiece mem area src del first lst =
     (let first = (if first - 1 < 0 then 0 else first - 1); piece_cnt = lst - first; s = str_of mem src in
      if piece_cnt < 1 then (area, src, str_addr src, 0)
      else if length del = 1 \<and> piece_cnt = 1 then op_fnzp1 mem area src (uint (hd del)) lst
      else
        let (start, match_res, _) = (if first \<noteq> 0 then matchb del s (nat first) else (0, 1, 0)) in
        if match_res = 0 then (area, src, str_addr src, 0)
        else (case matchb del (drop start s) (nat piece_cnt) of
                (off, match_res, _) \<Rightarrow> (area, src, str_addr src + start, if match_res \<noteq> 0 then off - length del else off)))"

section \<open>Setting one piece\<close>

text \<open>The scan beyond the cached pieces; \<open>lc\<close> is the last character read.\<close>

function scan_lc :: "mstr \<Rightarrow> byte \<Rightarrow> nat \<Rightarrow> byte \<Rightarrow> nat \<times> byte" where
  "scan_lc s d start_sfx lc =
     (if start_sfx < length s then (let lc = s ! start_sfx in if lc \<noteq> d then scan_lc s d (Suc start_sfx) lc else (start_sfx, lc)) else (start_sfx, lc))"
  by pat_completeness auto
termination
  by (relation "measure (\<lambda>(s, d, start_sfx, lc). length s - start_sfx)") auto

declare scan_lc.simps [simp del]

function setzp1_loop :: "mstr \<Rightarrow> byte \<Rightarrow> nat \<Rightarrow> nat \<Rightarrow> byte \<Rightarrow> nat \<times> nat \<times> nat \<times> byte" where
  "setzp1_loop s d start_sfx delim_cnt lc =
     (let end_pfx = start_sfx;
          (start_sfx, lc) = scan_lc s d start_sfx lc;
          start_sfx = Suc start_sfx;
          delim_cnt = delim_cnt - 1
      in if 0 < delim_cnt \<and> start_sfx < length s then setzp1_loop s d start_sfx delim_cnt lc else (end_pfx, start_sfx, delim_cnt, lc))"
  by pat_completeness auto
termination
  by (relation "measure (\<lambda>(s, d, start_sfx, delim_cnt, lc). delim_cnt)") auto

declare setzp1_loop.simps [simp del]

text \<open>Length of the prefix, delimiters to insert, start and length of the suffix.\<close>

definition setzp1_scan :: "mstr \<Rightarrow> byte \<Rightarrow> nat \<Rightarrow> nat \<Rightarrow> nat \<times> nat \<times> nat \<times> nat" where
  "setzp1_scan s d pfx_scan_offset delim_cnt =
     (let (end_pfx, start_sfx, delim_cnt) =
        (if 0 < delim_cnt \<and> pfx_scan_offset < length s then
           let (end_pfx, start_sfx, delim_cnt, lc) = setzp1_loop s d pfx_scan_offset delim_cnt 0;
               start_sfx = (if delim_cnt = 0 \<or> start_sfx < length s \<or> lc \<noteq> d then start_sfx - 1 else start_sfx)
           in if start_sfx \<ge> length s \<and> 0 < delim_cnt
              then (start_sfx, start_sfx, if lc = d then delim_cnt - 1 else delim_cnt)
              else (end_pfx, start_sfx, delim_cnt)
         else (pfx_scan_offset, pfx_scan_offset, delim_cnt - 1))
      in (end_pfx, delim_cnt, start_sfx, length s - start_sfx))"

text \<open>
  Where the new piece goes in a string that is not empty: length of the prefix, delimiters to insert, start and length of the suffix, number of
  cache lines that stay valid, and the cache entry of the source.
\<close>

definition setzp1_place :: "mstr \<Rightarrow> fnpc_area \<Rightarrow> smval \<Rightarrow> int \<Rightarrow> int \<Rightarrow> (fnpc_area \<times> smval \<times> nat \<times> nat \<times> nat \<times> nat \<times> nat) res" where
  "setzp1_place mem area src dl ind =
     (case op_fnzp1 mem area src dl (min ind (int FNPC_ELEM_MAX)) of
        (area, src, _, _) \<Rightarrow>
          res_bind (rd (fnpcs area) (int (fnpc_indx src) - 1)) (\<lambda>cfnpc. Inr (area, src,
            if int FNPC_ELEM_MAX \<ge> ind then
              if int (npcs cfnpc) \<ge> ind then
                let pfx_str_len = pstart cfnpc ! (nat ind - 1);
                    rep_str_len = pstart cfnpc ! nat ind - pstart cfnpc ! (nat ind - 1) - 1
                in (pfx_str_len, 0, pstart cfnpc ! nat ind - 1, str_len src - pfx_str_len - rep_str_len, nat ind - 1)
              else (pstart cfnpc ! npcs cfnpc - 1, nat ind - npcs cfnpc, 0, 0, npcs cfnpc)
            else if FNPC_ELEM_MAX > npcs cfnpc
            then (pstart cfnpc ! npcs cfnpc - 1, nat ind - npcs cfnpc, 0, 0, npcs cfnpc)
            else if pstart cfnpc ! FNPC_ELEM_MAX < str_len src
            then (case setzp1_scan (str_of mem src) (dlmc dl) (pstart cfnpc ! FNPC_ELEM_MAX) (nat ind - FNPC_ELEM_MAX) of
                    (pfx_str_len, delim_cnt, sfx_start_offset, sfx_str_len) \<Rightarrow> (pfx_str_len, delim_cnt, sfx_start_offset, sfx_str_len, FNPC_ELEM_MAX))
            else (pstart cfnpc ! FNPC_ELEM_MAX - 1, nat ind - FNPC_ELEM_MAX, 0, 0, FNPC_ELEM_MAX))))"

text \<open>\<open>do ... while (cfnpc == pfnpc)\<close>\<close>

function steal_other :: "nat \<Rightarrow> fnpc_area \<Rightarrow> nat \<times> fnpc_area" where
  "steal_other pfnpc area = (case fnpc_steal area of (cfnpc, area) \<Rightarrow> if cfnpc = pfnpc then steal_other pfnpc area else (cfnpc, area))"
  by pat_completeness auto
termination
  by (relation "measure (\<lambda>(pfnpc, area). if fst (fnpc_steal area) = pfnpc then 1 else 0)") (auto simp: fnpc_steal_def Let_def split: if_splits)

declare steal_other.simps [simp del]

text \<open>The cache for the new string starts with the lines of the source that describe the prefix.\<close>

definition setzp1_cache :: "fnpc_area \<Rightarrow> nat \<Rightarrow> nat \<Rightarrow> nat \<Rightarrow> int \<Rightarrow> nat \<Rightarrow> fnpc_area \<times> smval" where
  "setzp1_cache area cpy_cache_lines a l dl pfnpc =
     (if 0 < cpy_cache_lines then
        let (i, area) = steal_other pfnpc area;
            cfnpc = fnpcs area ! i;
            cfnpc = cfnpc\<lparr>last_addr := a, last_len := l, delim := dl, npcs := cpy_cache_lines, byte_oriented := True,
              pstart := take (cpy_cache_lines + 1) (pstart (fnpcs area ! pfnpc)) @ drop (cpy_cache_lines + 1) (pstart cfnpc)\<rparr>
        in (area\<lparr>fnpcs := (fnpcs area)[i := cfnpc]\<rparr>, \<lparr>str_addr = a, str_len = l, fnpc_indx = indx cfnpc + 1\<rparr>)
      else (area, \<lparr>str_addr = a, str_len = l, fnpc_indx = 255\<rparr>))"

text \<open>\<open>src\<close> is \<open>None\<close> if it is not defined. The length is computed in \<open>size_t\<close>. The result is the memory, the
  cache, the source and the new string.\<close>

definition setzp1_build :: "mstr \<Rightarrow> byte \<Rightarrow> smval \<Rightarrow> mstr \<Rightarrow> nat \<Rightarrow> int \<Rightarrow> nat \<Rightarrow> nat \<Rightarrow> mstr res" where
  "setzp1_build mem d expr s pfx_str_len delim_cnt sfx_start_offset sfx_str_len =
     (if (int (str_len expr) + int pfx_str_len + delim_cnt + int sfx_str_len) mod 2 ^ 64 > MAX_STRLEN then Inl ERR_MAXSTRLEN
      else Inr (mem @ take pfx_str_len s @ replicate (nat delim_cnt) d @ str_of mem expr @ take sfx_str_len (drop sfx_start_offset s)))"

definition op_setzp1 :: "mstr \<Rightarrow> fnpc_area \<Rightarrow> smval option \<Rightarrow> int \<Rightarrow> smval \<Rightarrow> int \<Rightarrow> (mstr \<times> fnpc_area \<times> smval option \<times> smval) res" where
  "op_setzp1 mem area src dl expr ind =
     (case src of
        None \<Rightarrow>
          res_bind (setzp1_build mem (dlmc dl) expr [] 0 ((ind - 1) mod 2 ^ 64) 0 0) (\<lambda>mem'.
            case setzp1_cache area 0 (length mem) (length mem' - length mem) dl 0 of (area, dst) \<Rightarrow> Inr (mem', area, None, dst))
      | Some src \<Rightarrow>
          if str_len src = 0 then
            res_bind (setzp1_build mem (dlmc dl) expr [] 0 (if 0 < ind then ind - 1 else 0) 0 0) (\<lambda>mem'.
              case setzp1_cache area 0 (length mem) (length mem' - length mem) dl 0 of (area, dst) \<Rightarrow> Inr (mem', area, Some src, dst))
          else
            res_bind (setzp1_place mem area src dl ind) (\<lambda>(area, src, pfx_str_len, delim_cnt, sfx_start_offset, sfx_str_len, cpy_cache_lines).
            res_bind (setzp1_build mem (dlmc dl) expr (str_of mem src) pfx_str_len (int delim_cnt) sfx_start_offset sfx_str_len) (\<lambda>mem'.
              case setzp1_cache area cpy_cache_lines (length mem) (length mem' - length mem) dl (fnpc_indx src - 1) of
                (area, dst) \<Rightarrow> Inr (mem', area, Some src, dst))))"

section \<open>Setting several pieces\<close>

text \<open>\<open>op_cat\<close> on strings: a first string at the end of the memory is not copied.\<close>

fun cat_length :: "smval list \<Rightarrow> int \<Rightarrow> int res" where
  "cat_length [] maxlen = Inr maxlen"
| "cat_length (v # vs) maxlen = (let maxlen = maxlen + int (str_len v) in if maxlen > MAX_STRLEN then Inl ERR_MAXSTRLEN else cat_length vs maxlen)"

definition op_cat :: "mstr \<Rightarrow> smval list \<Rightarrow> (mstr \<times> nat \<times> nat) res" where
  "op_cat mem ins =
     res_bind (cat_length ins 0) (\<lambda>_.
       let v = hd ins;
           (base, ins) = (if str_addr v + str_len v = length mem then (str_addr v, tl ins) else (length mem, ins));
           mem' = mem @ concat (map (str_of mem) ins)
       in Inr (mem', base, length mem' - base))"

definition op_setzpiece :: "mstr \<Rightarrow> fnpc_area \<Rightarrow> smval option \<Rightarrow> mstr \<Rightarrow> smval \<Rightarrow> int \<Rightarrow> int \<Rightarrow> (mstr \<times> fnpc_area \<times> smval option \<times> nat \<times> nat) res" where
  "op_setzpiece mem area src del expr first lst =
     (let first = (if 0 > first - 1 then 0 else first - 1); second_src_ind = lst - first in
      if del = [] then
        if first \<noteq> 0 \<and> src \<noteq> None then res_bind (op_cat mem [the src, expr]) (\<lambda>(mem', a, l). Inr (mem', area, src, a, l))
        else Inr (mem, area, src, str_addr expr, str_len expr)
      else if src \<noteq> None \<and> second_src_ind = 1 \<and> length del = 1 then
        res_bind (op_setzp1 mem area src (uint (hd del)) expr lst) (\<lambda>(mem', area', src', dst). Inr (mem', area', src', str_addr dst, str_len dst))
      else
        let s = (case src of None \<Rightarrow> [] | Some v \<Rightarrow> str_of mem v);
            (first_src_ind, second_src_ind, delim_cnt) = (case src of
                None \<Rightarrow> (0, None, nat first)
              | Some v \<Rightarrow>
                  let (off, match_res, numpcs) = (if first \<noteq> 0 then matchb del s (nat first) else (0, 1, 0)) in
                  if match_res = 0 then (off, None, numpcs)
                  else (case matchb del (drop off s) (nat second_src_ind) of
                          (off2, match_res, _) \<Rightarrow> (off, if match_res = 0 then None else Some (off + off2 - length del), numpcs)));
            len = int (str_len expr) + (int first_src_ind + int (length del) * int delim_cnt) + (case second_src_ind of None \<Rightarrow> 0 | Some i \<Rightarrow> int (length s) - int i)
        in if MAX_STRLEN < len then Inl ERR_MAXSTRLEN
           else
             let new = take first_src_ind s @ concat (replicate delim_cnt del) @ str_of mem expr @ (case second_src_ind of None \<Rightarrow> [] | Some i \<Rightarrow> drop i s)
             in Inr (mem @ new, area, src, length mem, length new))"

section \<open>Counting pieces\<close>

function count_rest :: "mstr \<Rightarrow> byte \<Rightarrow> nat \<Rightarrow> nat \<Rightarrow> nat" where
  "count_rest s d lst piececnt = (if lst < length s then count_rest s d (Suc (scan_delim s d lst)) (Suc piececnt) else piececnt)"
  by pat_completeness auto
termination
proof (relation "measure (\<lambda>(s, d, lst, piececnt). length s - lst)", goal_cases)
  case (2 s d lst piececnt)
  then show ?case using scan_delim_ge [of lst s d] by simp
qed simp

declare count_rest.simps [simp del]

text \<open>The recursion is at most \<open>FNPC_RECURR_MAX\<close> deep, the fuel of the model.\<close>

fun zlength_count :: "nat \<Rightarrow> mstr \<Rightarrow> fnpc_area \<Rightarrow> smval \<Rightarrow> byte \<Rightarrow> (fnpc_area \<times> smval \<times> nat) res" where
  "zlength_count 0 mem area src d = Inl NoReturn"
| "zlength_count (Suc n) mem area src d =
     (if fnpc_valid area src (uint d) then
        let cfnpc = fnpcs area ! cache_index src in
        if pstart cfnpc ! npcs cfnpc \<ge> str_len src then Inr (area, src, npcs cfnpc)
        else if npcs cfnpc \<noteq> FNPC_ELEM_MAX
        then (case op_fnzp1 mem area src (uint d) (int FNPC_ELEM_MAX) of (area, src, _, _) \<Rightarrow> zlength_count n mem area src d)
        else Inr (area, src, count_rest (str_of mem src) d (pstart cfnpc ! FNPC_ELEM_MAX) (npcs cfnpc))
      else (case op_fnzp1 mem area src (uint d) (int FNPC_ELEM_MAX) of (area, src, _, _) \<Rightarrow> zlength_count n mem area src d))"

text \<open>Delimiters of several bytes are counted by \<open>$ZFIND\<close>; the search moves on with every round.\<close>

function count_finds :: "mstr \<Rightarrow> mstr \<Rightarrow> int \<Rightarrow> int \<Rightarrow> nat \<Rightarrow> int res" where
  "count_finds src del charidx piececnt n =
     (if charidx = 0 then Inr piececnt
      else if n = 0 then Inl NoReturn
      else count_finds src del (op_fnzfind src del charidx) (piececnt + 1) (n - 1))"
  by pat_completeness auto
termination
  by (relation "measure (\<lambda>(src, del, charidx, piececnt, n). n)") auto

declare count_finds.simps [simp del]

definition op_fnzpopulation :: "mstr \<Rightarrow> fnpc_area \<Rightarrow> smval \<Rightarrow> mstr \<Rightarrow> (fnpc_area \<times> smval \<times> int) res" where
  "op_fnzpopulation mem area src del =
     (let s = str_of mem src in
      if 0 < str_len src then
        if length del = 0 then Inr (area, src, 0)
        else if length del = 1 then
          res_bind (zlength_count 2 mem area src (hd del)) (\<lambda>(area, src, piececnt).
            Inr (area, src, int piececnt + (if hd del = last s then 1 else 0)))
        else res_bind (count_finds s del 1 0 (length s + 2)) (\<lambda>piececnt. Inr (area, src, piececnt))
      else Inr (area, src, if 0 < length del then 1 else 0))"

end
