(* ===== verification/Piece_Spec.thy ===== *)
theory Piece_Spec
  imports Piece
begin

text \<open>
  The pieces of a string, as a list, and the search for delimiters: \<open>matchb\<close> finds the leftmost occurrences, one after the other, and says how
  many are missing. \<open>$ZPIECE\<close> and \<open>SET $ZPIECE\<close> with delimiters of any length take and replace parts of the list of pieces.
\<close>

section \<open>Pieces\<close>

text \<open>The string before and after the leftmost occurrence of a delimiter.\<close>

fun cut :: "mstr \<Rightarrow> mstr \<Rightarrow> (mstr \<times> mstr) option" where
  "cut del [] = (if del = [] then Some ([], []) else None)"
| "cut del (c # cs) = (if take (length del) (c # cs) = del then Some ([], drop (length del) (c # cs)) else map_option (apfst (Cons c)) (cut del cs))"

lemma cut_Some: "cut del s = Some (p, r) \<Longrightarrow> s = p @ del @ r"
proof (induction s arbitrary: p)
  case (Cons c cs)
  show ?case
  proof (cases "take (length del) (c # cs) = del")
    case True
    then show ?thesis using Cons.prems append_take_drop_id [of "length del" "c # cs"] by auto
  next
    case False
    then show ?thesis using Cons by auto
  qed
qed (auto split: if_splits)

lemma cut_short: "length s < length del \<Longrightarrow> cut del s = None"
  by (cases "cut del s") (auto dest: cut_Some)

function pieces :: "mstr \<Rightarrow> mstr \<Rightarrow> mstr list" where
  "pieces del s = (if del = [] then [s] else (case cut del s of None \<Rightarrow> [s] | Some (p, r) \<Rightarrow> p # pieces del r))"
  by pat_completeness auto
termination
  by (relation "measure (\<lambda>(del, s). length s)") (auto dest: cut_Some)

declare pieces.simps [simp del]

definition glue :: "mstr \<Rightarrow> mstr list \<Rightarrow> mstr" where
  "glue del ps = concat (map (\<lambda>p. del @ p) ps)"

lemma glue_simps [simp]: "glue del [] = []" "glue del (p # ps) = del @ p @ glue del ps" "glue del (ps @ qs) = glue del ps @ glue del qs"
  by (simp_all add: glue_def)

fun join :: "mstr \<Rightarrow> mstr list \<Rightarrow> mstr" where
  "join del [] = []"
| "join del (p # ps) = p @ glue del ps"

lemma join_append: "ps \<noteq> [] \<Longrightarrow> join del (ps @ qs) = join del ps @ glue del qs"
  by (cases ps) simp_all

lemma glue_join: "qs \<noteq> [] \<Longrightarrow> glue del qs = del @ join del qs"
  by (cases qs) simp_all

lemma pieces_ne [simp]: "pieces del s \<noteq> []"
  by (subst pieces.simps) (simp split: option.splits)

lemma join_pieces [simp]: "join del (pieces del s) = s"
proof (induction del s rule: pieces.induct)
  case (1 del s)
  show ?case
  proof (cases "del = [] \<or> cut del s = None")
    case True
    then show ?thesis by (subst pieces.simps) auto
  next
    case False
    then obtain p r where c: "cut del s = Some (p, r)" by auto
    then have "pieces del s = p # pieces del r" using False by (subst pieces.simps) simp
    then show ?thesis using 1 [OF _ c] False cut_Some [OF c] glue_join [OF pieces_ne, of del del r] by simp
  qed
qed

text \<open>The string after the first \<open>n\<close> delimiters.\<close>

fun rest_after :: "mstr \<Rightarrow> mstr \<Rightarrow> nat \<Rightarrow> mstr option" where
  "rest_after del s 0 = Some s"
| "rest_after del s (Suc n) = (case cut del s of None \<Rightarrow> None | Some (p, r) \<Rightarrow> rest_after del r n)"

lemma pieces_cut:
  assumes "del \<noteq> []"
  shows "pieces del s = (case cut del s of None \<Rightarrow> [s] | Some (p, r) \<Rightarrow> p # pieces del r)"
  using assms by (subst pieces.simps) simp

lemma rest_after_pieces:
  assumes "del \<noteq> []"
  shows "rest_after del s n = (if n < length (pieces del s) then Some (join del (drop n (pieces del s))) else None)"
proof (induction n arbitrary: s)
  case (Suc n)
  show ?case by (cases "cut del s") (auto simp: pieces_cut [OF assms, of s] Suc.IH)
qed simp

lemma pieces_rest:
  assumes "del \<noteq> []" "n < length (pieces del s)"
  shows "pieces del (join del (drop n (pieces del s))) = drop n (pieces del s)"
  using assms(2)
proof (induction n arbitrary: s)
  case (Suc n)
  then obtain p r where "cut del s = Some (p, r)" by (cases "cut del s") (auto simp: pieces_cut [OF assms(1), of s])
  then have "pieces del s = p # pieces del r" by (simp add: pieces_cut [OF assms(1)])
  then show ?case using Suc by simp
qed simp

section \<open>The search\<close>

lemma cut_skip: "del \<noteq> [] \<Longrightarrow> map_option snd (cut del (matchb_skip (hd del) s)) = map_option snd (cut del s)"
proof (induction s)
  case (Cons c s)
  show ?case
  proof (cases "c = hd del")
    case False
    then have "take (length del) (c # s) \<noteq> del" using Cons.prems by (cases del) auto
    then show ?thesis using False Cons by (simp add: option.map_comp o_def)
  qed simp
qed simp

lemma matchb_at_spec:
  assumes "del \<noteq> []" "s \<noteq> []"
  shows "case matchb_at del s of
      MB_found r \<Rightarrow> take (length del) s = del \<and> r = drop (length del) s
    | MB_end \<Rightarrow> length s < length del
    | MB_lost \<Rightarrow> take (length del) s \<noteq> del"
  using assms
proof (induction del s rule: matchb_at.induct)
  case (1 d ds c cs)
  then show ?case by (cases "ds = []"; cases "cs = []") (auto split: mb_result.splits)
qed simp_all

lemma matchb_loop_cut:
  assumes "del \<noteq> []"
  shows "matchb_loop del s n = (case cut del s of None \<Rightarrow> ([], False, n) | Some (p, r) \<Rightarrow> if n = 1 then (r, True, 0) else matchb_loop del r (n - 1))"
proof (induction s rule: length_induct)
  case (1 s)
  show ?case
  proof (cases "s = []")
    case True
    then show ?thesis using assms by (subst matchb_loop.simps) simp
  next
    case False
    define src where "src = matchb_skip (hd del) s"
    have sk: "map_option snd (cut del src) = map_option snd (cut del s)" unfolding src_def by (rule cut_skip [OF assms])
    show ?thesis
    proof (cases "src = []")
      case True
      then have "cut del s = None" using sk assms by simp
      then show ?thesis using False True by (subst matchb_loop.simps) (simp add: src_def)
    next
      case ne: False
      have l: "length (tl src) < length s" using ne matchb_skip_length [of "hd del" s] by (cases src) (auto simp: src_def)
      have m: "matchb_loop del s n = (case matchb_at del src of
          MB_found r \<Rightarrow> if n = 1 then (r, True, 0) else matchb_loop del r (n - 1) | MB_end \<Rightarrow> ([], False, n) | MB_lost \<Rightarrow> matchb_loop del (tl src) n)"
        using False ne unfolding src_def by (subst matchb_loop.simps) (simp add: Let_def)
      have at: "matchb_at del src = MB_found r \<Longrightarrow> map_option snd (cut del src) = Some r"
        "matchb_at del src = MB_end \<Longrightarrow> cut del src = None"
        "matchb_at del src = MB_lost \<Longrightarrow> map_option snd (cut del src) = map_option snd (cut del (tl src))" for r
        using matchb_at_spec [OF assms ne] ne by (cases src; auto simp: cut_short option.map_comp o_def)+
      show ?thesis
      proof (cases "matchb_at del src")
        case (MB_found r)
        then show ?thesis using m at(1) sk by (cases "cut del s") auto
      next
        case MB_end
        then show ?thesis using m at(2) sk by (cases "cut del s") auto
      next
        case MB_lost
        then have "map_option snd (cut del s) = map_option snd (cut del (tl src))" using at(3) sk by simp
        then show ?thesis using m MB_lost 1 [rule_format, OF l] by (cases "cut del s"; cases "cut del (tl src)") auto
      qed
    qed
  qed
qed

lemma matchb_loop_spec:
  assumes "del \<noteq> []" "0 < n"
  shows "matchb_loop del s n = (if n < length (pieces del s) then (join del (drop n (pieces del s)), True, 0) else ([], False, n + 1 - length (pieces del s)))"
  using assms(2)
proof (induction n arbitrary: s)
  case (Suc n)
  show ?case
  proof (cases "cut del s")
    case None
    then show ?thesis by (simp add: matchb_loop_cut [OF assms(1), of s] pieces_cut [OF assms(1), of s])
  next
    case (Some pr)
    then obtain p r where c: "cut del s = Some (p, r)" by (cases pr) auto
    then have p: "pieces del s = p # pieces del r" by (simp add: pieces_cut [OF assms(1)])
    show ?thesis using Suc.IH [of r] c unfolding p by (cases "n = 0") (simp_all add: matchb_loop_cut [OF assms(1), of s])
  qed
qed simp

lemma join_split:
  assumes "0 < n" "n < length ps"
  shows "join del ps = join del (take n ps) @ del @ join del (drop n ps)"
proof -
  have "join del (take n ps @ drop n ps) = join del (take n ps) @ glue del (drop n ps)" using assms by (intro join_append) auto
  then show ?thesis using glue_join [of "drop n ps" del] assms(2) by simp
qed

text \<open>\<open>matchb\<close> on the pieces: the offset after \<open>n\<close> delimiters, or the end of the string and the number of delimiters that are missing.\<close>

lemma matchb_spec:
  assumes "del \<noteq> []" "0 < n"
  shows "matchb del s n = (let ps = pieces del s in
    if n < length ps then (length (join del (take n ps)) + length del, 1 + (length (join del (take n ps)) + length del), 0)
    else (length s, 0, n + 1 - length ps))"
proof (cases "length s < length del")
  case True
  then show ?thesis using assms by (simp add: matchb_def pieces_cut cut_short)
next
  case False
  have "length s = length (join del (take n (pieces del s))) + length del + length (join del (drop n (pieces del s)))" if "n < length (pieces del s)"
    using join_split [OF assms(2) that, of del] by (metis add.assoc join_pieces length_append)
  then show ?thesis using False assms(1) matchb_loop_spec [OF assms, of s] by (auto simp: matchb_def Let_def)
qed

lemma drop_join:
  assumes "0 < n" "n < length (pieces del s)"
  shows "drop (length (join del (take n (pieces del s))) + length del) s = join del (drop n (pieces del s))"
  using join_split [OF assms, of del] by (metis append.assoc append_eq_conv_conj join_pieces length_append)

section \<open>Delimiters of any length\<close>

text \<open>The specification of \<open>$ZPIECE\<close>: the pieces \<open>first\<close> to \<open>lst\<close>, joined.\<close>

definition get_pieces :: "mstr \<Rightarrow> int \<Rightarrow> int \<Rightarrow> mstr \<Rightarrow> mstr" where
  "get_pieces del first lst s = join del (take (nat (lst - max 0 (first - 1))) (drop (nat (first - 1)) (pieces del s)))"

text \<open>
  The specification of \<open>SET $ZPIECE\<close>: the pieces \<open>first\<close> to \<open>lst\<close> are replaced by one, after empty pieces if the string is too short.
\<close>

definition set_pieces :: "mstr \<Rightarrow> int \<Rightarrow> int \<Rightarrow> mstr \<Rightarrow> mstr \<Rightarrow> mstr" where
  "set_pieces del first lst e s =
     (let ps = pieces del s; n = nat (first - 1) in join del (take n ps @ replicate (n - length ps) [] @ e # drop (nat lst) ps))"

lemma glue_empty: "glue del (replicate n []) = concat (replicate n del)"
  by (induction n) simp_all

lemma concat_snoc: "concat (replicate n xs) @ xs = xs @ concat (replicate n xs)"
  by (induction n) simp_all

text \<open>The string before a piece that is set.\<close>

lemma join_before:
  assumes "ps \<noteq> []"
  shows "join del (take n ps @ replicate (n - length ps) [] @ e # qs) =
    (if n = 0 then e else if n < length ps then join del (take n ps) @ del @ e
     else join del ps @ concat (replicate (n + 1 - length ps) del) @ e) @ glue del qs"
proof -
  consider "n = 0" | "0 < n" "n < length ps" | "length ps \<le> n" by linarith
  then show ?thesis
  proof cases
    case 2
    then have "take n ps \<noteq> []" using assms by auto
    then show ?thesis using 2 join_append [of "take n ps" del "e # qs"] by simp
  next
    case 3
    then have "0 < n" using assms by (cases ps) simp_all
    moreover have "n + 1 - length ps = Suc (n - length ps)" using 3 by simp
    ultimately show ?thesis using 3 assms join_append [OF assms, of del "replicate (n - length ps) [] @ e # qs"] concat_snoc [of "n - length ps" del]
      by (simp add: glue_empty)
  qed simp
qed

lemma slice_slice:
  assumes "a + l \<le> length mem" "i + k \<le> l"
  shows "slice mem (a + i) k = take k (drop i (slice mem a l))"
  using assms by (simp add: slice_def drop_take take_take min_def add.commute)

lemma slice_length [simp]: "a + l \<le> length mem \<Longrightarrow> length (slice mem a l) = l"
  by (simp add: slice_def)

lemma slice_append [simp]: "a + l \<le> length mem \<Longrightarrow> slice (mem @ new) a l = slice mem a l"
  by (simp add: slice_def)

lemma slice_new [simp]: "slice (mem @ new) (length mem) (length new) = new"
  by (simp add: slice_def)

lemma slice_zero [simp]: "slice mem a 0 = []"
  by (simp add: slice_def)

abbreviation in_mem :: "mstr \<Rightarrow> smval \<Rightarrow> bool" where
  "in_mem mem v \<equiv> str_addr v + str_len v \<le> length mem"

text \<open>\<open>op_fnzpiece\<close> where it does not call \<open>op_fnzp1\<close>.\<close>

lemma matchb_pieces:
  assumes "del \<noteq> []" "0 < n" "matchb del s n = (off, res, n')"
  shows "take (if res \<noteq> 0 then off - length del else off) s = join del (take n (pieces del s)) \<and> off \<le> length s"
proof (cases "n < length (pieces del s)")
  case True
  then have m: "off = length (join del (take n (pieces del s))) + length del" "res \<noteq> 0" using assms matchb_spec [OF assms(1,2), of s] by (auto simp: Let_def)
  have s: "s = join del (take n (pieces del s)) @ del @ join del (drop n (pieces del s))" using join_split [OF assms(2) True, of del] by simp
  have "take (length (join del (take n (pieces del s)))) s = join del (take n (pieces del s))" by (subst (2) s) simp
  moreover have "off \<le> length s" unfolding m(1) by (subst (2) s) simp
  ultimately show ?thesis using m by simp
next
  case False
  then show ?thesis using assms matchb_spec [OF assms(1,2), of s] by (auto simp: Let_def)
qed

lemma fnzpiece_general:
  assumes "in_mem mem src" "del \<noteq> []" "\<not> (length del = 1 \<and> lst - max 0 (first - 1) = 1)"
  shows "\<exists>a l. op_fnzpiece mem area src del first lst = (area, src, a, l) \<and> slice mem a l = get_pieces del first lst (str_of mem src)"
proof -
  define f where "f = max 0 (first - 1)"
  define cnt where "cnt = lst - f"
  define s where "s = str_of mem src"
  have c: "(if first - 1 < 0 then 0 else first - 1) = f" "nat (first - 1) = nat f" "0 \<le> f" by (auto simp: f_def)
  have g: "get_pieces del first lst s = join del (take (nat cnt) (drop (nat f) (pieces del s)))" by (simp add: get_pieces_def c(2) cnt_def f_def)
  have ls: "length s = str_len src" using assms(1) by (simp add: s_def)
  show ?thesis
  proof (cases "cnt < 1")
    case True
    then show ?thesis using g unfolding op_fnzpiece_def Let_def c(1) cnt_def [symmetric] s_def by simp
  next
    case False
    define start res where "start = fst (if f \<noteq> 0 then matchb del s (nat f) else (0, 1, 0))" and "res = fst (snd (if f \<noteq> 0 then matchb del s (nat f) else (0, 1, 0)))"
    have ev: "op_fnzpiece mem area src del first lst = (if res = 0 then (area, src, str_addr src, 0)
        else (case matchb del (drop start s) (nat cnt) of
                (off, match_res, _) \<Rightarrow> (area, src, str_addr src + start, if match_res \<noteq> 0 then off - length del else off)))"
      using False assms(3) unfolding op_fnzpiece_def Let_def c(1) cnt_def [symmetric] s_def [symmetric] f_def [symmetric] start_def res_def
      by (auto split: prod.splits)
    show ?thesis
    proof (cases "nat f < length (pieces del s)")
      case no: False
      then have "f \<noteq> 0" by (cases "pieces del s") auto
      then have "res = 0" using no c(3) matchb_spec [OF assms(2), of "nat f" s] by (simp add: res_def Let_def)
      then show ?thesis using ev g no by (simp add: s_def)
    next
      case yes: True
      have r: "res \<noteq> 0" "drop start s = join del (drop (nat f) (pieces del s))" "start \<le> length s"
      proof -
        show "res \<noteq> 0" using yes c(3) matchb_spec [OF assms(2), of "nat f" s] by (auto simp: res_def Let_def)
        show "drop start s = join del (drop (nat f) (pieces del s))" using yes c(3) matchb_spec [OF assms(2), of "nat f" s] drop_join [of "nat f" del s]
          by (auto simp: start_def Let_def)
        show "start \<le> length s" using matchb_pieces [OF assms(2), of "nat f" s] c(3) by (cases "matchb del s (nat f)") (auto simp: start_def)
      qed
      obtain off res2 n2 where m: "matchb del (drop start s) (nat cnt) = (off, res2, n2)" by (metis prod_cases3)
      have p: "pieces del (drop start s) = drop (nat f) (pieces del s)" unfolding r(2) by (rule pieces_rest [OF assms(2) yes])
      define l where "l = (if res2 \<noteq> 0 then off - length del else off)"
      have t: "take l (drop start s) = join del (take (nat cnt) (drop (nat f) (pieces del s)))" "off \<le> length (drop start s)"
        using matchb_pieces [OF assms(2) _ m] False unfolding p l_def by auto
      have "start + l \<le> str_len src" using t(2) r(3) ls by (auto simp: l_def)
      then have "slice mem (str_addr src + start) l = take l (drop start s)" using slice_slice [OF assms(1), of start l] by (simp add: s_def)
      then show ?thesis using ev r(1) m g t(1) by (simp add: l_def s_def)
    qed
  qed
qed

text \<open>\<open>op_setzpiece\<close> where it does not call \<open>op_setzp1\<close>: the prefix it copies, the delimiters it inserts and the suffix.\<close>

definition set_first :: "mstr \<Rightarrow> mstr \<Rightarrow> nat \<Rightarrow> nat \<times> nat \<times> nat" where
  "set_first del s n = (if n \<noteq> 0 then matchb del s n else (0, 1, 0))"

definition set_second :: "mstr \<Rightarrow> mstr \<Rightarrow> nat \<Rightarrow> nat \<Rightarrow> nat \<Rightarrow> nat option" where
  "set_second del s off res cnt =
     (if res = 0 then None else (case matchb del (drop off s) cnt of (off2, res2, _) \<Rightarrow> if res2 = 0 then None else Some (off + off2 - length del)))"

lemma set_parts:
  assumes "del \<noteq> []" "0 < cnt" "set_first del s n = (off, res, num)"
  shows "off \<le> length s"
    and "case set_second del s off res cnt of None \<Rightarrow> True | Some i \<Rightarrow> i \<le> length s"
    and "take off s @ concat (replicate num del) @ e @ (case set_second del s off res cnt of None \<Rightarrow> [] | Some i \<Rightarrow> drop i s)
      = join del (take n (pieces del s) @ replicate (n - length (pieces del s)) [] @ e # drop (n + cnt) (pieces del s))"
proof -
  define ps where "ps = pieces del s"
  have s: "s = join del ps" by (simp add: ps_def)
  have goal: "off \<le> length s \<and> (case set_second del s off res cnt of None \<Rightarrow> True | Some i \<Rightarrow> i \<le> length s)
    \<and> take off s @ concat (replicate num del) @ e @ (case set_second del s off res cnt of None \<Rightarrow> [] | Some i \<Rightarrow> drop i s)
      = join del (take n ps @ replicate (n - length ps) [] @ e # drop (n + cnt) ps)"
  proof (cases "n < length ps")
    case True
    define p where "p = (if n = 0 then [] else join del (take n ps) @ del)"
    have sp: "s = p @ join del (drop n ps)" using join_split [of n ps del] True by (auto simp: p_def s)
    have f: "off = length p" "res \<noteq> 0" "num = 0"
      using assms(3) True matchb_spec [OF assms(1), of n s] by (auto simp: set_first_def p_def Let_def ps_def [symmetric] split: if_splits)
    have d: "drop off s = join del (drop n ps)" "take off s = p" unfolding f(1) by (subst sp, simp)+
    have p1: "pieces del (drop off s) = drop n ps" unfolding d(1) unfolding ps_def by (rule pieces_rest [OF assms(1)]) (use True in \<open>simp add: ps_def\<close>)
    have j: "join del (take n ps @ replicate (n - length ps) [] @ e # drop (n + cnt) ps) = p @ e @ glue del (drop (n + cnt) ps)"
      using join_before [of ps del n e "drop (n + cnt) ps"] True by (cases "ps = []") (auto simp: p_def)
    show ?thesis
    proof (cases "cnt < length (drop n ps)")
      case more: True
      define q where "q = join del (take cnt (drop n ps))"
      have "join del (drop n ps) = q @ glue del (drop (n + cnt) ps)"
        using join_split [OF assms(2) more, of del] glue_join [of "drop cnt (drop n ps)" del] more by (simp add: q_def add.commute)
      then have s2: "s = (p @ q) @ glue del (drop (n + cnt) ps)" using sp by simp
      have "set_second del s off res cnt = Some (length (p @ q))"
        using matchb_spec [OF assms(1,2), of "drop off s"] more f unfolding p1 by (auto simp: set_second_def Let_def q_def)
      moreover have "drop (length (p @ q)) s = glue del (drop (n + cnt) ps)" "length (p @ q) \<le> length s" by (subst s2, simp)+
      ultimately show ?thesis using j f d(2) sp by simp
    next
      case False
      then have "set_second del s off res cnt = None" using matchb_spec [OF assms(1,2), of "drop off s"] f unfolding p1 by (simp add: set_second_def)
      moreover have "drop (n + cnt) ps = []" using False by simp
      moreover have "off \<le> length s" unfolding f(1) by (subst sp) simp
      ultimately show ?thesis using j f d(2) by simp
    qed
  next
    case False
    moreover have "ps \<noteq> []" by (simp add: ps_def)
    ultimately have n: "0 < n" "length ps \<le> n" "drop (n + cnt) ps = []" by (cases ps; simp)+
    then have "off = length s" "res = 0" "num = n + 1 - length ps"
      using assms(3) matchb_spec [OF assms(1), of n s] False by (auto simp: set_first_def Let_def ps_def [symmetric])
    then show ?thesis using join_before [of ps del n e "drop (n + cnt) ps"] n False \<open>ps \<noteq> []\<close> s by (simp add: set_second_def)
  qed
  then show "off \<le> length s" "case set_second del s off res cnt of None \<Rightarrow> True | Some i \<Rightarrow> i \<le> length s"
    "take off s @ concat (replicate num del) @ e @ (case set_second del s off res cnt of None \<Rightarrow> [] | Some i \<Rightarrow> drop i s)
      = join del (take n (pieces del s) @ replicate (n - length (pieces del s)) [] @ e # drop (n + cnt) (pieces del s))"
    unfolding ps_def by blast+
qed

text \<open>A string that is not defined is treated as the empty string.\<close>

lemma set_first_empty:
  assumes "del \<noteq> []"
  shows "set_first del [] n = (0, if n = 0 then 1 else 0, n)" "set_second del [] 0 res cnt = None \<or> cnt = 0"
  using assms matchb_spec [OF assms, of n "[]"] matchb_spec [OF assms, of cnt "[]"]
  by (auto simp: set_first_def set_second_def pieces_cut Let_def)

lemma setzpiece_general:
  assumes "\<And>v. src = Some v \<Longrightarrow> in_mem mem v" "in_mem mem expr" "del \<noteq> []" "\<not> (src \<noteq> None \<and> lst - max 0 (first - 1) = 1 \<and> length del = 1)"
    "0 < lst" "first \<le> lst"
  shows "op_setzpiece mem area src del expr first lst =
    (let new = set_pieces del first lst (str_of mem expr) (case src of None \<Rightarrow> [] | Some v \<Rightarrow> str_of mem v)
     in if MAX_STRLEN < int (length new) then Inl ERR_MAXSTRLEN else Inr (mem @ new, area, src, length mem, length new))"
proof -
  define f where "f = max 0 (first - 1)"
  define s where "s = (case src of None \<Rightarrow> [] | Some v \<Rightarrow> str_of mem v)"
  define cnt where "cnt = nat (lst - f)"
  have c: "(if 0 > first - 1 then 0 else first - 1) = f" "nat (first - 1) = nat f" "0 \<le> f" "nat lst = nat f + cnt" "0 < cnt"
    using assms(5,6) by (auto simp: f_def cnt_def)
  obtain off res num where fs: "set_first del s (nat f) = (off, res, num)" by (metis prod_cases3)
  define snd_ind where "snd_ind = set_second del s off res cnt"
  note parts = set_parts [OF assms(3) c(5) fs, folded snd_ind_def]
  define new where "new = take off s @ concat (replicate num del) @ str_of mem expr @ (case snd_ind of None \<Rightarrow> [] | Some i \<Rightarrow> drop i s)"
  have sp: "new = set_pieces del first lst (str_of mem expr) s" unfolding new_def parts(3) by (simp add: set_pieces_def Let_def c(2,4))
  have len: "int (str_len expr) + (int off + int (length del) * int num) + (case snd_ind of None \<Rightarrow> 0 | Some i \<Rightarrow> int (length s) - int i) = int (length new)"
    using parts(1,2) assms(2) by (auto simp: new_def length_concat sum_list_replicate split: option.splits)
  have tup: "(case src of None \<Rightarrow> (0, None, nat f)
      | Some v \<Rightarrow> let (off, match_res, numpcs) = (if f \<noteq> 0 then matchb del s (nat f) else (0, 1, 0)) in
          if match_res = 0 then (off, None, numpcs)
          else (case matchb del (drop off s) (nat (lst - f)) of (off2, match_res, _) \<Rightarrow> (off, if match_res = 0 then None else Some (off + off2 - length del), numpcs)))
    = (off, snd_ind, num)"
  proof (cases src)
    case None
    then have "off = 0" "num = nat f" "snd_ind = set_second del [] 0 res cnt" using fs set_first_empty(1) [OF assms(3)] by (auto simp: s_def snd_ind_def)
    then show ?thesis using None set_first_empty(2) [OF assms(3), of res cnt] c(5) by simp
  next
    case (Some v)
    have "(if f \<noteq> 0 then matchb del s (nat f) else (0, 1, 0)) = (off, res, num)" using fs c(3) by (simp add: set_first_def)
    then show ?thesis using Some by (auto simp: snd_ind_def set_second_def cnt_def split: prod.splits)
  qed
  have nz: "\<not> (src \<noteq> None \<and> lst - f = 1 \<and> length del = 1)" using assms(4) by (simp add: f_def)
  show ?thesis unfolding op_setzpiece_def Let_def c(1) if_not_P [OF assms(3)] if_not_P [OF nz] s_def [symmetric] tup [unfolded Let_def] prod.case len
    unfolding new_def [symmetric] sp ..
qed

end
