(* ===== verification/Piece_Cache.thy ===== *)
theory Piece_Cache
  imports Piece_Spec
begin

text \<open>
  \<open>$ZPIECE\<close> with a delimiter of one byte and its cache. The invariant of the cache relates the positions of an entry to the pieces of the string at
  the address the entry has; under it \<open>op_fnzp1\<close> returns the piece, whether it takes it from the cache, continues a scan or starts one.
\<close>

section \<open>Positions of pieces\<close>

fun off :: "mstr \<Rightarrow> byte \<Rightarrow> nat \<Rightarrow> nat" where
  "off s d 0 = 0"
| "off s d (Suc k) = Suc (scan_delim s d (off s d k))"

lemma off_less: "off s d k < off s d (Suc k)"
  using scan_delim_ge [of "off s d k" s d] by simp

lemma off_mono: "i \<le> j \<Longrightarrow> off s d i \<le> off s d j"
  by (rule lift_Suc_mono_le [where f = "off s d"]) (use off_less in \<open>auto intro: less_imp_le\<close>)

lemma off_pos: "0 < k \<Longrightarrow> 0 < off s d k"
  by (cases k) simp_all

lemma cut_scan:
  assumes "i \<le> length s"
  shows "scan_delim s d i \<le> length s \<and>
    cut [d] (drop i s) = (if scan_delim s d i < length s then Some (take (scan_delim s d i - i) (drop i s), drop (Suc (scan_delim s d i)) s) else None)"
  using assms
proof (induction s d i rule: scan_delim.induct)
  case (1 s d i)
  show ?case
  proof (cases "i < length s")
    case True
    then have c: "drop i s = s ! i # drop (Suc i) s" by (simp add: Cons_nth_drop_Suc)
    show ?thesis
    proof (cases "s ! i = d")
      case eq: True
      then have "scan_delim s d i = i" by (subst scan_delim.simps) simp
      then show ?thesis using True eq by (simp add: c)
    next
      case False
      then have sc: "scan_delim s d i = scan_delim s d (Suc i)" using True by (subst scan_delim.simps) simp
      then have "Suc i \<le> scan_delim s d i" using scan_delim_ge [of "Suc i" s d] by simp
      then show ?thesis using 1 True False unfolding sc c by (simp add: take_Cons' Suc_diff_le)
    qed
  next
    case False
    then have "scan_delim s d i = i" by (subst scan_delim.simps) simp
    then show ?thesis using False "1.prems" by simp
  qed
qed

lemma pieces_scan:
  assumes "i \<le> length s"
  shows "pieces [d] (drop i s) = take (scan_delim s d i - i) (drop i s) # (if scan_delim s d i < length s then pieces [d] (drop (Suc (scan_delim s d i)) s) else [])"
proof -
  have "take (scan_delim s d i - i) (drop i s) = drop i s" if "\<not> scan_delim s d i < length s" using that by simp
  then show ?thesis using cut_scan [OF assms, of d] by (simp add: pieces_cut)
qed

lemma pieces_off: "drop k (pieces [d] s) = (if off s d k \<le> length s then pieces [d] (drop (off s d k) s) else [])"
proof (induction k)
  case (Suc k)
  have "drop (Suc k) (pieces [d] s) = tl (drop k (pieces [d] s))" by (simp add: drop_Suc tl_drop)
  then show ?case
  proof (cases "off s d k \<le> length s")
    case True
    then show ?thesis using \<open>drop (Suc k) (pieces [d] s) = tl (drop k (pieces [d] s))\<close> Suc.IH pieces_scan [OF True, of d] cut_scan [OF True, of d] by auto
  next
    case False
    then show ?thesis using \<open>drop (Suc k) (pieces [d] s) = tl (drop k (pieces [d] s))\<close> Suc.IH off_less [of s d k] by (simp del: off.simps)
  qed
qed simp

lemma piece_exists: "k < length (pieces [d] s) \<longleftrightarrow> off s d k \<le> length s"
  using pieces_off [of k d s] by (metis drop_eq_Nil linorder_not_le pieces_ne)

lemma piece_nth:
  assumes "off s d k \<le> length s"
  shows "pieces [d] s ! k = take (off s d (Suc k) - 1 - off s d k) (drop (off s d k) s)"
proof -
  have "pieces [d] s ! k = hd (drop k (pieces [d] s))" using assms by (simp add: hd_drop_conv_nth piece_exists)
  then show ?thesis using assms pieces_off [of k d s] pieces_scan [OF assms, of d] by simp
qed

text \<open>What \<open>$ZPIECE\<close> of one piece returns.\<close>

lemma get_piece:
  assumes "0 < t"
  shows "get_pieces [d] (int t) (int t) s = (if off s d (t - 1) \<le> length s then take (off s d t - 1 - off s d (t - 1)) (drop (off s d (t - 1)) s) else [])"
proof -
  have t: "nat (int t - 1) = t - 1" "int t - max 0 (int t - 1) = 1" using assms by auto
  have "get_pieces [d] (int t) (int t) s = join [d] (take 1 (drop (t - 1) (pieces [d] s)))" unfolding get_pieces_def t by simp
  also have "\<dots> = (if t - 1 < length (pieces [d] s) then pieces [d] s ! (t - 1) else [])"
    by (cases "drop (t - 1) (pieces [d] s)") (auto simp: hd_drop_conv_nth [symmetric])
  finally show ?thesis using assms piece_nth [of s d "t - 1"] by (simp add: piece_exists)
qed

section \<open>The invariant of the cache\<close>

definition entry_ok :: "mstr \<Rightarrow> fnpc \<Rightarrow> bool" where
  "entry_ok mem c \<longleftrightarrow> length (pstart c) = FNPC_ELEM_MAX + 1 \<and>
     (last_len c = 0 \<or> \<not> byte_oriented c \<or>
      (let s = slice mem (last_addr c) (last_len c); d = dlmc (delim c) in
       last_addr c + last_len c \<le> length mem \<and> 0 < npcs c \<and> npcs c \<le> FNPC_ELEM_MAX \<and>
       (\<forall>k \<le> npcs c. pstart c ! k = off s d k) \<and> off s d (npcs c - 1) < last_len c))"

definition area_ok :: "mstr \<Rightarrow> fnpc_area \<Rightarrow> bool" where
  "area_ok mem area \<longleftrightarrow> length (fnpcs area) = FNPC_MAX \<and> (\<forall>i < FNPC_MAX. indx (fnpcs area ! i) = i \<and> entry_ok mem (fnpcs area ! i))"

lemma area_ok_init: "area_ok mem fnpc_init"
  by (simp add: area_ok_def fnpc_init_def entry_ok_def)

lemma area_ok_clear: "area_ok mem area \<Longrightarrow> area_ok mem' (fnpc_clear area)"
  by (simp add: area_ok_def fnpc_clear_def entry_ok_def)

lemma area_ok_append: "area_ok mem area \<Longrightarrow> area_ok (mem @ new) area"
  by (auto simp: area_ok_def entry_ok_def Let_def)

lemma area_ok_update:
  assumes "area_ok mem area" "fnpcs area' = (fnpcs area)[i := c]" "entry_ok mem c" "i < FNPC_MAX \<Longrightarrow> indx c = i"
  shows "area_ok mem area'"
proof (cases "i < FNPC_MAX")
  case True
  then show ?thesis using assms by (auto simp: area_ok_def nth_list_update)
next
  case False
  then show ?thesis using assms(1,2) by (simp add: area_ok_def)
qed

lemma fnpc_steal_spec:
  "fnpcs (snd (fnpc_steal area)) = fnpcs area" "fst (fnpc_steal area) < FNPC_MAX"
  by (simp_all add: fnpc_steal_def Let_def)

section \<open>The scan\<close>

text \<open>The positions in \<open>pstart\<close> before the piece number \<open>cpcidx\<close> is read.\<close>

definition filled :: "mstr \<Rightarrow> byte \<Rightarrow> nat \<Rightarrow> nat \<Rightarrow> nat list \<Rightarrow> bool" where
  "filled s d cpcidx pcoff ps \<longleftrightarrow> length ps = FNPC_ELEM_MAX + 1 \<and>
     (if cpcidx - 1 < FNPC_ELEM_MAX then pcoff = cpcidx - 1 \<and> (\<forall>k < cpcidx - 1. ps ! k = off s d k)
      else pcoff = FNPC_ELEM_MAX + 1 \<and> (\<forall>k \<le> FNPC_ELEM_MAX. ps ! k = off s d k))"

lemma filled_step:
  assumes "filled s d c p ps" "0 < c"
    and "(p1, ps1) = (if p < FNPC_ELEM_MAX then (Suc p, ps[p := off s d (c - 1)]) else (p, ps))"
    and "(p2, ps2) = (if p1 = FNPC_ELEM_MAX then (Suc p1, ps1[p1 := off s d c]) else (p1, ps1))"
  shows "filled s d (Suc c) p2 ps2"
proof (cases "c - 1 < FNPC_ELEM_MAX")
  case True
  then have "p1 = c" "ps1 = ps[c - 1 := off s d (c - 1)]" using assms by (auto simp: filled_def)
  moreover have "\<forall>k < c. ps1 ! k = off s d k" using assms(1,2) True calculation by (auto simp: filled_def nth_list_update less_Suc_eq)
  ultimately show ?thesis using assms(1,2,4) True by (auto simp: filled_def nth_list_update split: if_splits)
next
  case False
  then show ?thesis using assms by (auto simp: filled_def)
qed

lemma fnzp1_scan_spec:
  assumes "filled s d c p ps" "0 < c" "lst = off s d (c - 1)" "c \<le> Suc t"
  shows "\<exists>c' first' p' ps'. fnzp1_scan s d t c first lst p ps = (c', first', off s d (c' - 1), p', ps') \<and> c \<le> c' \<and> c' \<le> Suc t
    \<and> filled s d c' p' ps' \<and> (c' = Suc t \<or> length s \<le> off s d (c' - 1)) \<and> (c < c' \<longrightarrow> off s d (c' - 2) < length s)
    \<and> first' = (if c = c' then first else off s d (c' - 2))"
  using assms
proof (induction s d t c first lst p ps rule: fnzp1_scan.induct)
  case (1 s d t c first lst p ps)
  show ?case
  proof (cases "c \<le> t \<and> lst < length s")
    case True
    define p1 ps1 where "p1 = (if p < FNPC_ELEM_MAX then Suc p else p)" and "ps1 = (if p < FNPC_ELEM_MAX then ps[p := lst] else ps)"
    define p2 ps2 where "p2 = (if p1 = FNPC_ELEM_MAX then Suc p1 else p1)" and "ps2 = (if p1 = FNPC_ELEM_MAX then ps1[p1 := Suc (scan_delim s d lst)] else ps1)"
    have o: "Suc (scan_delim s d lst) = off s d c" using "1.prems"(2,3) by (cases c) simp_all
    have f: "filled s d (Suc c) p2 ps2"
      by (rule filled_step [of s d c p ps p1 ps1, OF "1.prems"(1,2)]) (use "1.prems"(3) o in \<open>auto simp: p1_def ps1_def p2_def ps2_def\<close>)
    have ev: "fnzp1_scan s d t c first lst p ps = fnzp1_scan s d t (Suc c) lst (off s d c) p2 ps2"
      using True by (subst fnzp1_scan.simps) (auto simp: Let_def o p1_def ps1_def p2_def ps2_def)
    have "\<exists>c' first' p' ps'. fnzp1_scan s d t (Suc c) lst (off s d c) p2 ps2 = (c', first', off s d (c' - 1), p', ps') \<and> Suc c \<le> c' \<and> c' \<le> Suc t
      \<and> filled s d c' p' ps' \<and> (c' = Suc t \<or> length s \<le> off s d (c' - 1)) \<and> (Suc c < c' \<longrightarrow> off s d (c' - 2) < length s)
      \<and> first' = (if Suc c = c' then lst else off s d (c' - 2))"
      by (rule "1.IH" [OF True, of lst "off s d c" "(p1, ps1)" p1 ps1 "(p2, ps2)" p2 ps2])
        (use True f o "1.prems"(3) in \<open>auto simp: p1_def ps1_def p2_def ps2_def\<close>)
    then obtain c' first' p' ps' where r: "fnzp1_scan s d t (Suc c) lst (off s d c) p2 ps2 = (c', first', off s d (c' - 1), p', ps')" "Suc c \<le> c'" "c' \<le> Suc t"
      "filled s d c' p' ps'" "c' = Suc t \<or> length s \<le> off s d (c' - 1)" "Suc c < c' \<longrightarrow> off s d (c' - 2) < length s"
      "first' = (if Suc c = c' then lst else off s d (c' - 2))" by blast
    have "off s d (c' - 2) < length s" using r(2,6) True "1.prems"(3) by (cases "Suc c = c'") auto
    moreover have "first' = off s d (c' - 2)" using r(7) "1.prems"(3) by auto
    ultimately show ?thesis using ev r by (intro exI [of _ c'] exI [of _ first'] exI [of _ p'] exI [of _ ps']) auto
  next
    case False
    then have "fnzp1_scan s d t c first lst p ps = (c, first, off s d (c - 1), p, ps)" using "1.prems"(3) by (subst fnzp1_scan.simps) auto
    moreover have "c = Suc t \<or> length s \<le> off s d (c - 1)" using False "1.prems"(3,4) by auto
    ultimately show ?thesis using "1.prems" by auto
  qed
qed

section \<open>One piece\<close>

definition belongs :: "fnpc \<Rightarrow> smval \<Rightarrow> int \<Rightarrow> bool" where
  "belongs c src dl \<longleftrightarrow> last_addr c = str_addr src \<and> last_len c = str_len src \<and> delim c = dl \<and> byte_oriented c"

text \<open>The cache entry of a string covers the first \<open>t\<close> pieces, as far as it has room and the string has them.\<close>

definition cached :: "mstr \<Rightarrow> fnpc_area \<Rightarrow> smval \<Rightarrow> int \<Rightarrow> nat \<Rightarrow> bool" where
  "cached mem area src dl t \<longleftrightarrow> (\<exists>i < FNPC_MAX. fnpc_indx src = i + 1 \<and> belongs (fnpcs area ! i) src dl \<and>
     (t \<le> npcs (fnpcs area ! i) \<or> npcs (fnpcs area ! i) = FNPC_ELEM_MAX \<or> str_len src \<le> off (str_of mem src) (dlmc dl) (npcs (fnpcs area ! i))))"

lemma entry_belongs:
  assumes "belongs c src dl" "0 < str_len src"
  shows "entry_ok mem c \<longleftrightarrow> length (pstart c) = FNPC_ELEM_MAX + 1 \<and> in_mem mem src \<and> 0 < npcs c \<and> npcs c \<le> FNPC_ELEM_MAX \<and>
    (\<forall>k \<le> npcs c. pstart c ! k = off (str_of mem src) (dlmc dl) k) \<and> off (str_of mem src) (dlmc dl) (npcs c - 1) < str_len src"
  using assms by (auto simp: entry_ok_def belongs_def Let_def)

lemma filled_entry:
  assumes "filled s d c p ps" "1 < c"
  defines "ps' \<equiv> if p < FNPC_ELEM_MAX then ps[p := off s d (c - 1)] else ps"
  shows "length ps' = FNPC_ELEM_MAX + 1" "\<forall>k \<le> min (c - 1) FNPC_ELEM_MAX. ps' ! k = off s d k"
proof -
  show "length ps' = FNPC_ELEM_MAX + 1" using assms(1) by (simp add: filled_def ps'_def)
  show "\<forall>k \<le> min (c - 1) FNPC_ELEM_MAX. ps' ! k = off s d k"
  proof (cases "c - 1 < FNPC_ELEM_MAX")
    case True
    then show ?thesis using assms(1) by (auto simp: filled_def ps'_def nth_list_update)
  next
    case False
    then show ?thesis using assms(1) by (simp add: filled_def ps'_def)
  qed
qed

text \<open>The piece between two positions.\<close>

lemma slice_piece:
  assumes "in_mem mem src" "off (str_of mem src) d (t - 1) < str_len src" "0 < t"
  shows "slice mem (str_addr src + off (str_of mem src) d (t - 1)) (off (str_of mem src) d t - 1 - off (str_of mem src) d (t - 1))
    = get_pieces [d] (int t) (int t) (str_of mem src)"
proof -
  let ?s = "str_of mem src"
  have "scan_delim ?s d (off ?s d (t - 1)) \<le> length ?s" using assms cut_scan [of "off ?s d (t - 1)" ?s d] by simp
  then have "off ?s d t - 1 \<le> str_len src" using assms by (cases t) simp_all
  then have "off ?s d (t - 1) + (off ?s d t - 1 - off ?s d (t - 1)) \<le> str_len src" using assms(2) by linarith
  then show ?thesis using assms get_piece [OF assms(3), of d ?s] slice_slice [OF assms(1)] by simp
qed

lemma fnzp1_search_spec:
  assumes a: "area_ok mem area" "i < FNPC_MAX" "indx c = i" "fnpc_indx src = i + 1" and m: "in_mem mem src" "0 < str_len src" and b: "belongs c src dl"
    and f: "filled (str_of mem src) (dlmc dl) (Suc (npcs c)) pcoff (pstart c)" and n: "npcs c < t" "npcs c \<le> FNPC_ELEM_MAX" "npcs c = 0 \<or> entry_ok mem c"
  shows "\<exists>area' a' l. fnzp1_search mem area src dl t i c (Suc (npcs c)) (off (str_of mem src) (dlmc dl) (npcs c)) pcoff = (area', src, a', l)
    \<and> area_ok mem area' \<and> cached mem area' src dl t \<and> slice mem a' l = get_pieces [dlmc dl] (int t) (int t) (str_of mem src)"
proof -
  define s d where "s = str_of mem src" and "d = dlmc dl"
  have ls: "length s = str_len src" using m(1) by (simp add: s_def)
  obtain c' first' p' ps' where sc: "fnzp1_scan s d t (Suc (npcs c)) (off s d (npcs c)) (off s d (npcs c)) pcoff (pstart c) = (c', first', off s d (c' - 1), p', ps')"
    "Suc (npcs c) \<le> c'" "c' \<le> Suc t" "filled s d c' p' ps'" "c' = Suc t \<or> length s \<le> off s d (c' - 1)" "Suc (npcs c) < c' \<longrightarrow> off s d (c' - 2) < length s"
    "first' = (if Suc (npcs c) = c' then off s d (npcs c) else off s d (c' - 2))"
    using fnzp1_scan_spec [of s d "Suc (npcs c)" pcoff "pstart c" "off s d (npcs c)" t "off s d (npcs c)"] f n(1) by (auto simp: s_def d_def)
  note lst = fnzp1_search_def [of mem area src dl t i c "Suc (npcs c)", folded s_def d_def, unfolded sc(1) prod.case]
  show ?thesis
  proof (cases "Suc (npcs c) = c'")
    case True
    then have e: "length s \<le> off s d (npcs c)" using sc(5) n(1) by auto
    then have "npcs c \<noteq> 0" using m(2) ls by (cases "npcs c") auto
    then have ok: "entry_ok mem c" using n(3) by simp
    define area' where "area' = area\<lparr>fnpcs := (fnpcs area)[i := c]\<rparr>"
    have "fnzp1_search mem area src dl t i c (Suc (npcs c)) (off s d (npcs c)) pcoff = (area', src, str_addr src + first', 0)"
      using sc(1) True by (simp add: fnzp1_search_def s_def [symmetric] d_def [symmetric] area'_def)
    moreover have "area_ok mem area'" by (rule area_ok_update [OF a(1) _ ok]) (use a in \<open>simp_all add: area'_def\<close>)
    moreover have "fnpcs area' ! i = c" using a(1,2) by (simp add: area'_def area_ok_def)
    then have "cached mem area' src dl t" using a(2,4) b e ls by (auto simp: cached_def s_def d_def)
    moreover have "length s \<le> off s d (t - 1)" using e n(1) off_mono [of "npcs c" "t - 1" s d] by linarith
    then have "get_pieces [d] (int t) (int t) s = []" using get_piece [of t d s] n(1) by simp
    ultimately show ?thesis by (auto simp: s_def d_def)
  next
    case False
    then have c': "Suc (npcs c) < c'" using sc(2) by simp
    define ps'' where "ps'' = (if p' < FNPC_ELEM_MAX then ps'[p' := off s d (c' - 1)] else ps')"
    define c2 where "c2 = c\<lparr>npcs := min (npcs c + c' - Suc (npcs c)) FNPC_ELEM_MAX, pstart := ps''\<rparr>"
    define area' where "area' = area\<lparr>fnpcs := (fnpcs area)[i := c2]\<rparr>"
    have np: "npcs c2 = min (c' - 1) FNPC_ELEM_MAX" using c' by (simp add: c2_def)
    have bl: "belongs c2 src dl" "indx c2 = i" using b a(3) by (simp_all add: belongs_def c2_def)
    have "off s d (npcs c2 - 1) \<le> off s d (c' - 2)" by (rule off_mono) (use np in simp)
    then have lt: "off s d (npcs c2 - 1) < length s" using sc(6) c' by simp
    have fe: "length ps'' = FNPC_ELEM_MAX + 1" "\<forall>k \<le> npcs c2. ps'' ! k = off s d k" using filled_entry [OF sc(4)] c' unfolding np ps''_def by simp_all
    have ok: "entry_ok mem c2" using m lt fe np c' ls unfolding entry_belongs [OF bl(1) m(2)] s_def [symmetric] d_def [symmetric]
      by (simp add: c2_def)
    have ev: "fnzp1_search mem area src dl t i c (Suc (npcs c)) (off s d (npcs c)) pcoff = (area', src, str_addr src + first', if t < c' then off s d (c' - 1) - 1 - first' else 0)"
      using sc(1) False by (simp add: fnzp1_search_def s_def [symmetric] d_def [symmetric] area'_def c2_def ps''_def)
    have "area_ok mem area'" by (rule area_ok_update [OF a(1) _ ok]) (use bl in \<open>simp_all add: area'_def\<close>)
    moreover have "fnpcs area' ! i = c2" using a(1,2) by (simp add: area'_def area_ok_def)
    then have "cached mem area' src dl t"
      using a(2,4) bl(1) sc(3,5) np ls c' unfolding cached_def s_def [symmetric] d_def [symmetric] by (intro exI [of _ i]) (auto simp: min_def)
    moreover have "slice mem (str_addr src + first') (if t < c' then off s d (c' - 1) - 1 - first' else 0) = get_pieces [d] (int t) (int t) s"
    proof (cases "t < c'")
      case True
      then have "c' = Suc t" using sc(3) by simp
      moreover from this have "first' = off s d (t - 1)" using sc(7) False by simp
      ultimately have "c' = Suc t" "first' = off s d (t - 1)" .
      then show ?thesis using slice_piece [OF m(1), of d t] sc(6) c' ls n(1) by (simp add: s_def)
    next
      case no: False
      then have "off s d (c' - 1) \<le> off s d (t - 1)" "length s \<le> off s d (c' - 1)" using sc(5) by (auto intro: off_mono)
      then have "length s \<le> off s d (t - 1)" by linarith
      then show ?thesis using no get_piece [of t d s] n(1) by simp
    qed
    ultimately show ?thesis using ev unfolding s_def [symmetric] d_def [symmetric] by blast
  qed
qed

lemma cache_index_valid:
  assumes "cache_index src < FNPC_MAX" "fnpc_indx src < 256"
  shows "fnpc_indx src = cache_index src + 1"
proof (cases "fnpc_indx src")
  case 0
  then show ?thesis using assms by (simp add: cache_index_def)
next
  case (Suc n)
  then show ?thesis using assms(2) by (simp add: cache_index_def)
qed

lemma fnpc_valid_belongs: "fnpc_valid area src dl \<longleftrightarrow> cache_index src < FNPC_MAX \<and> belongs (fnpcs area ! cache_index src) src dl"
  by (simp add: fnpc_valid_def belongs_def Let_def)

text \<open>\<open>op_fnzp1\<close> returns the piece and keeps the cache valid, whatever the cache holds.\<close>

lemma op_fnzp1_spec:
  assumes a: "area_ok mem area" and m: "in_mem mem src" "fnpc_indx src < 256"
  shows "\<exists>area' src' a' l. op_fnzp1 mem area src dl t = (area', src', a', l) \<and> area_ok mem area' \<and> slice mem a' l = get_pieces [dlmc dl] t t (str_of mem src)
    \<and> str_addr src' = str_addr src \<and> str_len src' = str_len src \<and> fnpc_indx src' < 256 \<and> (0 < t \<and> 0 < str_len src \<longrightarrow> cached mem area' src' dl (nat t))"
proof -
  let ?s = "str_of mem src" and ?d = "dlmc dl"
  consider (none) "t \<le> 0 \<or> str_len src = 0" | (hit) "0 < t" "0 < str_len src" "fnpc_valid area src dl" | (miss) "0 < t" "0 < str_len src" "\<not> fnpc_valid area src dl" by fastforce
  then show ?thesis
  proof cases
    case none
    have "get_pieces [?d] t t ?s = []"
    proof (cases "t \<le> 0")
      case True
      then show ?thesis by (simp add: get_pieces_def)
    next
      case False
      then have "get_pieces [?d] (int (nat t)) (int (nat t)) ?s = []" using none get_piece [of "nat t" ?d ?s] by (simp del: int_nat_eq)
      then show ?thesis using False by simp
    qed
    then show ?thesis using none a m by (auto simp: op_fnzp1_def)
  next
    case hit
    define i c where "i = cache_index src" and "c = fnpcs area ! i"
    have i: "i < FNPC_MAX" "belongs c src dl" "fnpc_indx src = i + 1" using hit(3) m(2) cache_index_valid by (simp_all add: fnpc_valid_belongs i_def c_def)
    have ok: "entry_ok mem c" "indx c = i" using a i(1) by (simp_all add: area_ok_def c_def)
    note e = ok(1) [unfolded entry_belongs [OF i(2) hit(2)]]
    show ?thesis
    proof (cases "nat t \<le> npcs c")
      case True
      have o: "pstart c ! (nat t - 1) = off ?s ?d (nat t - 1)" "pstart c ! nat t = off ?s ?d (nat t)" using e True by simp_all
      have ev: "op_fnzp1 mem area src dl t = (area, src, str_addr src + off ?s ?d (nat t - 1), off ?s ?d (nat t) - 1 - off ?s ?d (nat t - 1))"
        using hit True o unfolding op_fnzp1_def Let_def i_def [symmetric] c_def [symmetric] by simp
      have "off ?s ?d (nat t - 1) \<le> off ?s ?d (npcs c - 1)" by (rule off_mono) (use True in simp)
      then have "off ?s ?d (nat t - 1) < str_len src" using e by simp
      then have "slice mem (str_addr src + off ?s ?d (nat t - 1)) (off ?s ?d (nat t) - 1 - off ?s ?d (nat t - 1)) = get_pieces [?d] t t ?s"
        using slice_piece [OF m(1), of ?d "nat t"] hit(1) by simp
      moreover have "cached mem area src dl (nat t)" using i True by (auto simp: cached_def c_def)
      ultimately show ?thesis using ev a m by simp
    next
      case False
      have ev: "op_fnzp1 mem area src dl t = fnzp1_search mem area src dl (nat t) i c (Suc (npcs c)) (off ?s ?d (npcs c))
          (if npcs c = FNPC_ELEM_MAX then Suc (npcs c) else npcs c)"
        using hit False e unfolding op_fnzp1_def Let_def i_def [symmetric] c_def [symmetric] by simp
      have "filled ?s ?d (Suc (npcs c)) (if npcs c = FNPC_ELEM_MAX then Suc (npcs c) else npcs c) (pstart c)" using e by (auto simp: filled_def)
      from fnzp1_search_spec [OF a i(1) ok(2) i(3) m(1) hit(2) i(2) this, of "nat t"] show ?thesis using ev False e ok(1) m(2) hit(1) by fastforce
    qed
  next
    case miss
    define i area1 where "i = fst (fnpc_steal area)" and "area1 = snd (fnpc_steal area)"
    define c where "c = (fnpcs area1 ! i)\<lparr>last_addr := str_addr src, last_len := str_len src, delim := dl, npcs := 0, byte_oriented := True\<rparr>"
    have i: "i < FNPC_MAX" "fnpcs area1 = fnpcs area" using fnpc_steal_spec [of area] by (simp_all add: i_def area1_def)
    then have a1: "area_ok mem area1" "indx c = i" "length (pstart c) = FNPC_ELEM_MAX + 1" using a by (auto simp: area_ok_def c_def entry_ok_def)
    define src' where "src' = src\<lparr>fnpc_indx := i + 1\<rparr>"
    have s': "str_of mem src' = ?s" "in_mem mem src'" "0 < str_len src'" "fnpc_indx src' = i + 1" "belongs c src' dl" "npcs c = 0"
      using m(1) miss(2) by (simp_all add: src'_def belongs_def c_def)
    have ev: "op_fnzp1 mem area src dl t = fnzp1_search mem area1 src' dl (nat t) i c (Suc (npcs c)) (off (str_of mem src') ?d (npcs c)) 0"
      using miss a1(2) s'(6) unfolding op_fnzp1_def Let_def by (auto simp: i_def area1_def c_def src'_def split: prod.splits)
    have "filled (str_of mem src') ?d (Suc (npcs c)) 0 (pstart c)" using a1(3) s'(6) by (simp add: filled_def)
    from fnzp1_search_spec [OF a1(1) i(1) a1(2) s'(4,2,3,5) this, of "nat t"] show ?thesis
      using ev miss(1) s' i(1) by (fastforce simp: src'_def)
  qed
qed

end
