(* ===== verification/Piece_Set.thy ===== *)
theory Piece_Set
  imports Piece_Cache
begin

text \<open>
  \<open>SET $ZPIECE\<close> with a delimiter of one byte: \<open>op_setzp1\<close> builds the string in which one piece is replaced, and the cache entry it copies for the
  new string is valid.
\<close>

section \<open>Strings from pieces\<close>

lemma pieces_no_delim: "p \<in> set (pieces [d] s) \<Longrightarrow> d \<notin> set p"
proof (induction "[d]" s rule: pieces.induct)
  case (1 s)
  have sc: "d \<notin> set (take (scan_delim t d i - i) (drop i t))" for t i
  proof (induction t d i rule: scan_delim.induct)
    case (1 t d i)
    show ?case
    proof (cases "i < length t \<and> t ! i \<noteq> d")
      case True
      then have "scan_delim t d i = scan_delim t d (Suc i)" by (subst scan_delim.simps) simp
      moreover have "drop i t = t ! i # drop (Suc i) t" using True by (simp add: Cons_nth_drop_Suc)
      ultimately show ?thesis using 1 True by (auto simp: take_Cons')
    next
      case False
      then have "scan_delim t d i = i" by (subst scan_delim.simps) auto
      then show ?thesis by simp
    qed
  qed
  have p: "pieces [d] s = take (scan_delim s d 0) s # (if scan_delim s d 0 < length s then pieces [d] (drop (Suc (scan_delim s d 0)) s) else [])"
    using pieces_scan [of 0 s d] by simp
  have "cut [d] s = Some (take (scan_delim s d 0) s, drop (Suc (scan_delim s d 0)) s)" if "scan_delim s d 0 < length s"
    using that cut_scan [of 0 s d] by simp
  then show ?case using 1 sc [of s 0] p by (auto split: if_splits)
qed

lemma cut_byte: "d \<notin> set p \<Longrightarrow> cut [d] (p @ d # r) = Some (p, r)"
  by (induction p) auto

lemma pieces_glue:
  assumes "\<forall>p \<in> set ps. d \<notin> set p" "ps \<noteq> []"
  shows "pieces [d] (join [d] ps @ d # r) = ps @ pieces [d] r"
  using assms
proof (induction ps)
  case (Cons p ps)
  show ?case
  proof (cases "ps = []")
    case True
    then show ?thesis using Cons.prems by (simp add: pieces_cut [of "[d]" "p @ d # r"] cut_byte)
  next
    case False
    then have "join [d] (p # ps) @ d # r = p @ d # (join [d] ps @ d # r)" using glue_join [of ps "[d]"] by simp
    then show ?thesis using Cons False by (simp add: pieces_cut [of "[d]" "p @ d # (join [d] ps @ d # r)"] cut_byte)
  qed
qed simp

section \<open>Positions and pieces\<close>

lemma length_join_off:
  assumes "0 < k" "k \<le> length (pieces [d] s)"
  shows "length (join [d] (take k (pieces [d] s))) = off s d k - 1"
  using assms
proof (induction k rule: nat_induct_non_zero)
  case 1
  have "take 1 (pieces [d] s) = [pieces [d] s ! 0]" using 1 by (cases "pieces [d] s") simp_all
  then show ?case using piece_nth [of s d 0] cut_scan [of 0 s d] by simp
next
  case (Suc k)
  have o: "off s d k \<le> length s" using Suc(3) piece_exists [of k d s] by simp
  have "take (Suc k) (pieces [d] s) = take k (pieces [d] s) @ [pieces [d] s ! k]" using Suc(3) by (simp add: take_Suc_conv_app_nth)
  moreover have "take k (pieces [d] s) \<noteq> []" using Suc by auto
  ultimately have "length (join [d] (take (Suc k) (pieces [d] s))) = (off s d k - 1) + 1 + length (pieces [d] s ! k)"
    using Suc by (simp add: join_append)
  also have "length (pieces [d] s ! k) = off s d (Suc k) - 1 - off s d k" using piece_nth [OF o] conjunct1 [OF cut_scan [OF o, of d]] by simp
  finally show ?case using off_pos [OF Suc(1), of s d] scan_delim_ge [of "off s d k" s d] by simp
qed

lemma join_off:
  assumes "0 < k" "k \<le> length (pieces [d] s)"
  shows "take (off s d k - 1) s = join [d] (take k (pieces [d] s))" "drop (off s d k - 1) s = glue [d] (drop k (pieces [d] s))" "off s d k - 1 \<le> length s"
proof -
  have s: "s = join [d] (take k (pieces [d] s)) @ glue [d] (drop k (pieces [d] s))"
    using join_append [of "take k (pieces [d] s)" "[d]" "drop k (pieces [d] s)"] assms by auto
  note l = length_join_off [OF assms]
  show "take (off s d k - 1) s = join [d] (take k (pieces [d] s))" "drop (off s d k - 1) s = glue [d] (drop k (pieces [d] s))" "off s d k - 1 \<le> length s"
    unfolding l [symmetric] by (subst (2) s, simp)+
qed

text \<open>The prefix before a piece, with its delimiter.\<close>

lemma take_off:
  assumes "0 < k" "off s d k \<le> length s"
  shows "take (off s d k) s = join [d] (take k (pieces [d] s)) @ [d]"
proof -
  have k: "k < length (pieces [d] s)" using assms(2) by (simp add: piece_exists)
  have "off s d k = Suc (off s d k - 1)" using off_pos [OF assms(1), of s d] by simp
  then have "take (off s d k) s = take (off s d k - 1) s @ take 1 (drop (off s d k - 1) s)" by (metis add.commute plus_1_eq_Suc take_add)
  then show ?thesis using join_off [OF assms(1), of d s] k glue_join [of "drop k (pieces [d] s)" "[d]"] by simp
qed

text \<open>A string that starts with the first \<open>k\<close> pieces of another has them at the same positions.\<close>

lemma off_prefix:
  assumes "0 < k" "k \<le> length (pieces [d] s)" and s'_def: "s' = join [d] (take k (pieces [d] s)) @ d # r"
  shows "\<forall>j \<le> k. off s' d j = off s d j" "off s' d (k - 1) < length s'"
proof -
  have p: "pieces [d] s' = take k (pieces [d] s) @ pieces [d] r" unfolding s'_def
    by (rule pieces_glue) (use assms(1,2) pieces_no_delim in \<open>auto dest: in_set_takeD\<close>)
  show eq: "\<forall>j \<le> k. off s' d j = off s d j"
  proof (intro allI impI)
    fix j
    assume "j \<le> k"
    show "off s' d j = off s d j"
    proof (cases "j = 0")
      case False
      have "take j (pieces [d] s') = take j (pieces [d] s)" using \<open>j \<le> k\<close> assms(2) by (simp add: p min_def)
      then have "off s' d j - 1 = off s d j - 1" using length_join_off [of j d s'] length_join_off [of j d s] False \<open>j \<le> k\<close> assms(2) by (simp add: p)
      then show ?thesis using off_pos [of j s' d] off_pos [of j s d] False by simp
    qed simp
  qed
  have "off s' d (k - 1) < off s' d k" using off_less [of s' d "k - 1"] assms(1) by simp
  also have "off s' d k \<le> length s'" using eq length_join_off [OF assms(1,2)] off_pos [OF assms(1), of s d] by (simp add: s'_def)
  finally show "off s' d (k - 1) < length s'" .
qed

section \<open>Replacing a piece\<close>

lemma set_piece_join:
  assumes "0 < t"
  shows "set_pieces [d] (int t) (int t) e s =
    (if t = 1 then e else if t - 1 < length (pieces [d] s) then join [d] (take (t - 1) (pieces [d] s)) @ [d] @ e
     else s @ replicate (t - length (pieces [d] s)) d @ e) @ glue [d] (drop t (pieces [d] s))"
proof -
  have "nat (int t - 1) = t - 1" "t - 1 + 1 = t" using assms by auto
  moreover have "concat (replicate n [d]) = replicate n d" for n by (induction n) simp_all
  ultimately show ?thesis using assms join_before [OF pieces_ne, of "[d]" "t - 1" "[d]" s e "drop t (pieces [d] s)"]
    by (simp add: set_pieces_def Let_def)
qed

lemma replace_present:
  assumes "0 < t" "off s d (t - 1) \<le> length s"
  shows "take (off s d (t - 1)) s @ e @ drop (off s d t - 1) s = set_pieces [d] (int t) (int t) e s"
proof -
  have t: "t - 1 < length (pieces [d] s)" using assms(2) by (simp add: piece_exists)
  then have "drop (off s d t - 1) s = glue [d] (drop t (pieces [d] s))" using assms(1) by (intro join_off) auto
  moreover have "take (off s d (t - 1)) s = (if t = 1 then [] else join [d] (take (t - 1) (pieces [d] s)) @ [d])"
    using take_off [of "t - 1" s d] assms by auto
  ultimately show ?thesis using set_piece_join [OF assms(1), of d e s] t by auto
qed

lemma replace_missing:
  assumes "0 < n" "n \<le> length (pieces [d] s)" "length s \<le> off s d n" "n < t"
  shows "take (off s d n - 1) s @ replicate (t - n) d @ e = set_pieces [d] (int t) (int t) e s"
proof -
  let ?P = "pieces [d] s"
  have t: "0 < t" "t \<noteq> 1" using assms(1,4) by simp_all
  show ?thesis
  proof (cases "off s d n = length s")
    case True
    then have n: "n < length ?P" by (simp add: piece_exists)
    have e: "drop n ?P = [[]]" using pieces_off [of n d s] True by (simp add: pieces_cut)
    then have P: "length ?P = n + 1" "?P = take n ?P @ [[]]" using n append_take_drop_id [of n ?P] by (metis length_drop length_append_singleton One_nat_def Suc_eq_plus1 add.commute append_take_drop_id le_add_diff_inverse less_imp_le list.size(3) list.size(4) plus_1_eq_Suc, simp)
    have s: "s = take (off s d n - 1) s @ [d]" using take_off [OF assms(1), of s d] True join_off(1) [OF assms(1,2)] by simp
    have "set_pieces [d] (int t) (int t) e s = (if t = n + 1 then take (off s d n - 1) s @ [d] @ e else s @ replicate (t - (n + 1)) d @ e)"
      using set_piece_join [OF t(1), of d e s] t P(1) assms(4) join_off(1) [OF assms(1,2)] by auto
    moreover have "s @ replicate (t - (n + 1)) d = take (off s d n - 1) s @ replicate (t - n) d" if "t \<noteq> n + 1"
    proof -
      have "t - n = Suc (t - (n + 1))" using assms(4) by simp
      then show ?thesis by (subst s) (simp del: take_append)
    qed
    ultimately show ?thesis by (auto simp flip: append_assoc)
  next
    case False
    then have "\<not> n < length ?P" using assms(3) by (simp add: piece_exists)
    then have "length ?P = n" using assms(2) by simp
    moreover have "\<not> t - 1 < n" using assms(4) by simp
    ultimately show ?thesis using set_piece_join [OF t(1), of d e s] t assms(4) join_off(1) [OF assms(1,2)] by simp
  qed
qed

section \<open>The scan beyond the cache\<close>

lemma nth_end:
  assumes "i < length s" "\<not> Suc i < length s"
  shows "s ! i = last s"
proof -
  have "s \<noteq> []" "length s - 1 = i" using assms by auto
  then show ?thesis by (simp add: last_conv_nth)
qed

lemma scan_lc_spec:
  assumes "i \<le> length s"
  shows "scan_lc s d i lc = (scan_delim s d i, if scan_delim s d i < length s then d else if i < length s then last s else lc)"
  using assms
proof (induction s d i lc rule: scan_lc.induct)
  case (1 s d i lc)
  show ?case
  proof (cases "i < length s \<and> s ! i \<noteq> d")
    case True
    then have "scan_delim s d i = scan_delim s d (Suc i)" by (subst scan_delim.simps) simp
    moreover have "scan_lc s d i lc = scan_lc s d (Suc i) (s ! i)" using True by (subst scan_lc.simps) simp
    ultimately show ?thesis using "1.IH" [of "s ! i"] True nth_end [of i s] by simp
  next
    case False
    then have "scan_delim s d i = i" by (subst scan_delim.simps) auto
    then show ?thesis using False "1.prems" by (subst scan_lc.simps) (auto simp: Let_def)
  qed
qed

lemma scan_to_end: "scan_delim s d i = length s \<Longrightarrow> i < length s \<Longrightarrow> last s \<noteq> d"
proof (induction s d i rule: scan_delim.induct)
  case (1 s d i)
  then have ne: "s ! i \<noteq> d" by (subst (asm) scan_delim.simps) (auto split: if_splits)
  then have sc: "scan_delim s d i = scan_delim s d (Suc i)" using 1 by (subst scan_delim.simps) simp
  show ?case
  proof (cases "Suc i < length s")
    case True
    then show ?thesis using 1 ne sc by simp
  next
    case False
    then show ?thesis using ne nth_end [of i s] 1 by simp
  qed
qed

lemma setzp1_loop_spec:
  assumes "off s d n < length s" "0 < cnt"
  shows "\<exists>j. 0 < j \<and> j \<le> cnt \<and> setzp1_loop s d (off s d n) cnt lc = (off s d (n + j - 1), off s d (n + j), cnt - j, if off s d (n + j) \<le> length s then d else last s)
    \<and> off s d (n + j - 1) < length s \<and> (j = cnt \<or> length s \<le> off s d (n + j)) \<and> (length s < off s d (n + j) \<longrightarrow> last s \<noteq> d)"
  using assms
proof (induction cnt arbitrary: n lc)
  case (Suc cnt)
  have sc: "scan_lc s d (off s d n) lc = (scan_delim s d (off s d n), if off s d (Suc n) \<le> length s then d else last s)"
    and ld: "length s < off s d (Suc n) \<longrightarrow> last s \<noteq> d"
    using scan_lc_spec [of "off s d n" s d lc] cut_scan [of "off s d n" s d] scan_to_end [of s d "off s d n"] Suc.prems(1) by auto
  show ?case
  proof (cases "0 < cnt \<and> off s d (Suc n) < length s")
    case True
    then obtain j where j: "0 < j" "j \<le> cnt"
      "setzp1_loop s d (off s d (Suc n)) cnt (if off s d (Suc n) \<le> length s then d else last s)
        = (off s d (Suc n + j - 1), off s d (Suc n + j), cnt - j, if off s d (Suc n + j) \<le> length s then d else last s)"
      "off s d (Suc n + j - 1) < length s" "j = cnt \<or> length s \<le> off s d (Suc n + j)" "length s < off s d (Suc n + j) \<longrightarrow> last s \<noteq> d"
      using Suc.IH [of "Suc n"] by blast
    have "setzp1_loop s d (off s d n) (Suc cnt) lc = setzp1_loop s d (off s d (Suc n)) cnt (if off s d (Suc n) \<le> length s then d else last s)"
      using True by (subst setzp1_loop.simps) (simp add: sc)
    then show ?thesis using j by (intro exI [of _ "Suc j"]) simp
  next
    case False
    then have "setzp1_loop s d (off s d n) (Suc cnt) lc = (off s d n, off s d (Suc n), cnt, if off s d (Suc n) \<le> length s then d else last s)"
      by (subst setzp1_loop.simps) (auto simp: sc)
    then show ?thesis using False Suc.prems ld by (intro exI [of _ 1]) auto
  qed
qed simp

text \<open>What is built from the parts of a string: \<open>n\<close> pieces are kept in front.\<close>

definition places :: "mstr \<Rightarrow> byte \<Rightarrow> nat \<Rightarrow> nat \<times> nat \<times> nat \<times> nat \<Rightarrow> bool" where
  "places s d t = (\<lambda>(pfx, cnt, sfx, sl). pfx \<le> length s \<and> cnt \<le> t \<and> sfx + sl \<le> length s \<and>
     (\<forall>e. take pfx s @ replicate cnt d @ e @ take sl (drop sfx s) = set_pieces [d] (int t) (int t) e s))"

lemma places_present:
  assumes "0 < t" "off s d (t - 1) \<le> length s"
  shows "places s d t (off s d (t - 1), 0, off s d t - 1, length s - (off s d t - 1))"
proof -
  have "off s d t - 1 \<le> length s" using assms piece_exists [of "t - 1" d s] by (intro join_off) auto
  then show ?thesis using assms replace_present [OF assms] by (simp add: places_def)
qed

lemma places_missing:
  assumes "0 < n" "off s d (n - 1) \<le> length s" "length s \<le> off s d n" "n < t"
  shows "places s d t (off s d n - 1, t - n, 0, 0)"
proof -
  have n: "n \<le> length (pieces [d] s)" using assms(1,2) piece_exists [of "n - 1" d s] by simp
  then have "off s d n - 1 \<le> length s" using assms(1) by (intro join_off)
  then show ?thesis using replace_missing [OF assms(1) n assms(3,4)] by (simp add: places_def)
qed

lemma setzp1_scan_spec:
  assumes "0 < n" "off s d n < length s" "n < t"
  shows "places s d t (setzp1_scan s d (off s d n) (t - n)) \<and> off s d n \<le> fst (setzp1_scan s d (off s d n) (t - n))"
proof -
  obtain j where j: "0 < j" "j \<le> t - n"
    "setzp1_loop s d (off s d n) (t - n) 0 = (off s d (n + j - 1), off s d (n + j), t - n - j, if off s d (n + j) \<le> length s then d else last s)"
    "off s d (n + j - 1) < length s" "j = t - n \<or> length s \<le> off s d (n + j)" "length s < off s d (n + j) \<longrightarrow> last s \<noteq> d"
    using setzp1_loop_spec [OF assms(2), of "t - n" 0] assms(3) by auto
  have c: "0 < t - n \<and> off s d n < length s" using assms by simp
  note def = setzp1_scan_def [of s d "off s d n" "t - n", unfolded if_P [OF c] j(3) Let_def prod.case]
  have m: "off s d n \<le> off s d (n + j - 1)" using j(1) by (intro off_mono) simp
  show ?thesis
  proof (cases "j = t - n")
    case True
    then have "n + j = t" using assms(3) by simp
    then have "setzp1_scan s d (off s d n) (t - n) = (off s d (t - 1), 0, off s d t - 1, length s - (off s d t - 1))" using def True by simp
    then show ?thesis using places_present [of t s d] j(4) m assms(3) \<open>n + j = t\<close> by simp
  next
    case False
    then have l: "length s \<le> off s d (n + j)" "0 < t - n - j" "n + j < t" using j(2,5) by auto
    have pm: "places s d t (off s d (n + j) - 1, t - (n + j), 0, 0)" by (rule places_missing) (use j l in auto)
    show ?thesis
    proof (cases "off s d (n + j) = length s")
      case True
      then have ev: "setzp1_scan s d (off s d n) (t - n) = (length s, t - n - j - 1, length s, 0)" using def l by simp
      have "s = take (off s d (n + j) - 1) s @ [d]" using take_off [of "n + j" s d] join_off(1) [of "n + j" d s] True assms(1) piece_exists [of "n + j" d s] by simp
      moreover have "t - (n + j) = Suc (t - n - j - 1)" using l(3) by simp
      ultimately have q: "take (off s d (n + j) - 1) s @ replicate (t - (n + j)) d @ e = s @ replicate (t - n - j - 1) d @ e" for e
        by (metis append.assoc append_Cons append_Nil replicate_Suc)
      have "take (off s d (n + j) - 1) s @ replicate (t - (n + j)) d @ e = set_pieces [d] (int t) (int t) e s" for e using pm by (simp add: places_def)
      then have "s @ replicate (t - n - j - 1) d @ e = set_pieces [d] (int t) (int t) e s" for e unfolding q [symmetric] .
      then have "places s d t (length s, t - n - j - 1, length s, 0)" by (simp add: places_def)
      then show ?thesis using ev assms(2) by simp
    next
      case no: False
      then have o: "off s d (n + j) - 1 = length s" using l(1) join_off(3) [of "n + j" d s] assms(1) piece_exists [of "n + j - 1" d s] j(1,4) by force
      then have "setzp1_scan s d (off s d n) (t - n) = (length s, t - n - j, length s, 0)" using def l no j(6) by (simp split: if_splits)
      moreover have "places s d t (length s, t - n - j, length s, 0)" using pm o by (simp add: places_def)
      ultimately show ?thesis using assms(2) by simp
    qed
  qed
qed

section \<open>The new string and its cache entry\<close>

text \<open>The first \<open>k\<close> pieces stay in front of whatever is inserted.\<close>

definition keeps :: "mstr \<Rightarrow> byte \<Rightarrow> nat \<Rightarrow> mstr \<Rightarrow> bool" where
  "keeps s d k new \<longleftrightarrow> k = 0 \<or> k \<le> length (pieces [d] s) \<and> (\<exists>r. new = join [d] (take k (pieces [d] s)) @ d # r)"

lemma keeps_take:
  assumes "off s d k \<le> pfx" "off s d k \<le> length s"
  shows "keeps s d k (take pfx s @ r)"
proof (cases "k = 0")
  case False
  have "take pfx s = take (off s d k) s @ drop (off s d k) (take pfx s)" using assms(1) by (metis append_take_drop_id min.absorb1 take_take)
  then have "take pfx s @ r = join [d] (take k (pieces [d] s)) @ d # (drop (off s d k) (take pfx s) @ r)"
    using take_off [of k s d] False assms(2) by (metis append.assoc append_Cons append_Nil neq0_conv)
  moreover have "k \<le> length (pieces [d] s)" using assms(2) piece_exists [of k d s] by simp
  ultimately show ?thesis unfolding keeps_def by blast
qed (simp add: keeps_def)

lemma keeps_delims:
  assumes "0 < n" "off s d (n - 1) \<le> length s" "0 < cnt"
  shows "keeps s d n (take (off s d n - 1) s @ replicate cnt d @ r)"
proof -
  have n: "n \<le> length (pieces [d] s)" using assms(1,2) piece_exists [of "n - 1" d s] by simp
  then show ?thesis using join_off(1) [OF assms(1) n] assms(3) by (cases cnt) (auto simp: keeps_def)
qed

lemma setzp1_place_spec:
  assumes a: "area_ok mem area" and m: "in_mem mem src" "fnpc_indx src < 256" "0 < str_len src" and t: "0 < t"
    and s_def: "s = str_of mem src" and d_def: "d = dlmc dl"
  shows "\<exists>area' src' pfx cnt sfx sl cpy i. setzp1_place mem area src dl (int t) = Inr (area', src', pfx, cnt, sfx, sl, cpy) \<and> area_ok mem area'
    \<and> str_addr src' = str_addr src \<and> str_len src' = str_len src \<and> fnpc_indx src' = i + 1 \<and> i < FNPC_MAX \<and> places s d t (pfx, cnt, sfx, sl)
    \<and> cpy \<le> npcs (fnpcs area' ! i) \<and> belongs (fnpcs area' ! i) src' dl \<and> (\<forall>r. keeps s d cpy (take pfx s @ replicate cnt d @ r))"
proof -
  obtain area' src' a' l where f: "op_fnzp1 mem area src dl (min (int t) (int FNPC_ELEM_MAX)) = (area', src', a', l)" "area_ok mem area'" "str_addr src' = str_addr src"
    "str_len src' = str_len src" "cached mem area' src' dl (nat (min (int t) 80))"
    using op_fnzp1_spec [OF a m(1,2), of dl "min (int t) 80"] m(3) t by auto
  have s': "str_of mem src' = s" "in_mem mem src'" "0 < str_len src'" "length s = str_len src'" using f(3,4) m by (simp_all add: s_def)
  obtain i where i: "i < FNPC_MAX" "fnpc_indx src' = i + 1" "belongs (fnpcs area' ! i) src' dl"
    "nat (min (int t) 80) \<le> npcs (fnpcs area' ! i) \<or> npcs (fnpcs area' ! i) = 80 \<or> str_len src' \<le> off s d (npcs (fnpcs area' ! i))"
    using f(5) unfolding cached_def s'(1) d_def [symmetric] by blast
  define c where "c = fnpcs area' ! i"
  define n where "n = npcs c"
  have ok: "entry_ok mem c" using f(2) i(1) by (simp add: area_ok_def c_def)
  have e: "0 < n" "n \<le> 80" "\<forall>k \<le> n. pstart c ! k = off s d k" "off s d (n - 1) < length s"
    using ok [unfolded entry_belongs [OF i(3) [folded c_def] s'(3)]] s'(1,4) by (simp_all add: n_def d_def)
  have rd: "rd (fnpcs area') (int (fnpc_indx src') - 1) = Inr c" using i(1,2) f(2) by (simp add: rd_def c_def area_ok_def)
  define res where "res = (if 80 \<ge> t then
              if n \<ge> t then (off s d (t - 1), 0, off s d t - 1, length s - off s d (t - 1) - (off s d t - off s d (t - 1) - 1), t - 1)
              else (off s d n - 1, t - n, 0, 0, n)
            else if 80 > n then (off s d n - 1, t - n, 0, 0, n)
            else if off s d 80 < length s
            then (case setzp1_scan s d (off s d 80) (t - 80) of (pfx, cnt, sfx, sl) \<Rightarrow> (pfx, cnt, sfx, sl, 80))
            else (off s d 80 - 1, t - 80, 0, 0, 80))"
  have ev: "setzp1_place mem area src dl (int t) = Inr (area', src', res)"
    unfolding setzp1_place_def f(1) prod.case rd res_bind_simps s'(1) d_def [symmetric] res_def Let_def using e s'(4) t
    by (simp add: n_def [symmetric] nat_le_iff)
  have "\<exists>pfx cnt sfx sl cpy. res = (pfx, cnt, sfx, sl, cpy) \<and> places s d t (pfx, cnt, sfx, sl) \<and> cpy \<le> n \<and> (\<forall>r. keeps s d cpy (take pfx s @ replicate cnt d @ r))"
  proof -
    consider (present) "t \<le> n" | (missing) "n < t" "length s \<le> off s d n" | (scan) "n = 80" "80 < t" "off s d 80 < length s"
      using i(4) e(2) s'(4) unfolding c_def [symmetric] n_def [symmetric] by (cases "t \<le> n"; cases "length s \<le> off s d n") (auto simp: nat_le_iff min_def split: if_splits)
    then show ?thesis
    proof cases
      case present
      have "off s d (t - 1) \<le> off s d (n - 1)" by (rule off_mono) (use present in simp)
      then have o: "off s d (t - 1) < length s" using e(4) by simp
      have "off s d (t - 1) < off s d t" using off_less [of s d "t - 1"] t by simp
      then have "length s - off s d (t - 1) - (off s d t - off s d (t - 1) - 1) = length s - (off s d t - 1)" by simp
      then have "res = (off s d (t - 1), 0, off s d t - 1, length s - (off s d t - 1), t - 1)" using present e(2) by (simp add: res_def)
      then show ?thesis using places_present [OF t, of s d] o keeps_take [of s d "t - 1" "off s d (t - 1)"] present by auto
    next
      case missing
      then have "res = (off s d n - 1, t - n, 0, 0, n)" using e(2) by (auto simp: res_def)
      then show ?thesis using places_missing [OF e(1) _ missing(2,1)] keeps_delims [OF e(1), of s d "t - n"] e(4) missing(1) by auto
    next
      case scan
      obtain pfx cnt sfx sl where sc: "setzp1_scan s d (off s d 80) (t - 80) = (pfx, cnt, sfx, sl)" by (metis prod_cases4)
      then have "res = (pfx, cnt, sfx, sl, 80)" using scan by (simp add: res_def)
      then show ?thesis using setzp1_scan_spec [of 80 s d t] scan sc keeps_take [of s d 80 pfx] by auto
    qed
  qed
  then show ?thesis using ev f i by (auto simp: c_def n_def)
qed

lemma steal_other_spec: "fnpcs (snd (steal_other p area)) = fnpcs area \<and> fst (steal_other p area) < FNPC_MAX \<and> fst (steal_other p area) \<noteq> p"
proof (induction p area rule: steal_other.induct)
  case (1 p area)
  obtain i area1 where st: "fnpc_steal area = (i, area1)" by fastforce
  then show ?case using 1 [OF st [symmetric]] fnpc_steal_spec [of area] by (subst (1 2 3) steal_other.simps) auto
qed

lemma setzp1_cache_spec:
  assumes a: "area_ok mem area" and p: "p < FNPC_MAX" "belongs (fnpcs area ! p) src dl" "cpy \<le> npcs (fnpcs area ! p)" "0 < str_len src"
    and k: "keeps (str_of mem src) (dlmc dl) cpy new"
  shows "\<exists>area' dst. setzp1_cache area cpy (length mem) (length new) dl p = (area', dst) \<and> area_ok (mem @ new) area'
    \<and> str_addr dst = length mem \<and> str_len dst = length new \<and> fnpc_indx dst < 256"
proof (cases "0 < cpy")
  case True
  define s d c where "s = str_of mem src" and "d = dlmc dl" and "c = fnpcs area ! p"
  have ok: "entry_ok mem c" using a p(1) by (simp add: area_ok_def c_def)
  note e = ok [unfolded entry_belongs [OF p(2) [folded c_def] p(4)]]
  obtain r where r: "cpy \<le> length (pieces [d] s)" "new = join [d] (take cpy (pieces [d] s)) @ d # r"
    using k True unfolding keeps_def s_def d_def by auto
  note o = off_prefix [OF True r]
  obtain i area1 where st: "steal_other p area = (i, area1)" by fastforce
  then have i: "fnpcs area1 = fnpcs area" "i < FNPC_MAX" using steal_other_spec [of p area] by simp_all
  define c' where "c' = (fnpcs area ! i)\<lparr>last_addr := length mem, last_len := length new, delim := dl, npcs := cpy, byte_oriented := True,
      pstart := take (cpy + 1) (pstart c) @ drop (cpy + 1) (pstart (fnpcs area ! i))\<rparr>"
  have ci: "indx c' = i" "length (pstart (fnpcs area ! i)) = 81" using a i(2) by (auto simp: area_ok_def c'_def entry_ok_def)
  have "pstart c' ! j = off new d j" if "j \<le> cpy" for j
  proof -
    have "cpy + 1 \<le> length (pstart c)" using e p(3) by (simp add: c_def)
    then have "pstart c' ! j = pstart c ! j" using that by (simp add: c'_def nth_append)
    then show ?thesis using e that p(3) o(1) by (simp add: s_def d_def c_def)
  qed
  moreover have "length (pstart c') = 81" using e ci(2) by (simp add: c'_def)
  moreover have "cpy \<le> 80" using p(3) e by (simp add: c_def)
  moreover have "last_addr c' = length mem" "last_len c' = length new" "delim c' = dl" "npcs c' = cpy" by (simp_all add: c'_def)
  ultimately have ok': "entry_ok (mem @ new) c'" using True o(2) unfolding entry_ok_def by (simp add: Let_def d_def [symmetric])
  have "fnpcs (area1\<lparr>fnpcs := (fnpcs area)[i := c']\<rparr>) = (fnpcs area)[i := c']" by simp
  from area_ok_update [OF area_ok_append [OF a] this ok' ci(1)]
  have "area_ok (mem @ new) (area1\<lparr>fnpcs := (fnpcs area)[i := c']\<rparr>)" .
  moreover have "setzp1_cache area cpy (length mem) (length new) dl p = (area1\<lparr>fnpcs := (fnpcs area)[i := c']\<rparr>, \<lparr>str_addr = length mem, str_len = length new, fnpc_indx = i + 1\<rparr>)"
    using True st i(1) ci(1) by (simp add: setzp1_cache_def Let_def c'_def c_def)
  ultimately show ?thesis using i(2) by simp
next
  case False
  then show ?thesis using area_ok_append [OF a] by (simp add: setzp1_cache_def)
qed

section \<open>Setting one piece\<close>

text \<open>Sizes are below \<open>2 ^ 31\<close>, so that the length in \<open>size_t\<close> does not wrap around.\<close>

abbreviation c_int :: "nat \<Rightarrow> bool" where
  "c_int n \<equiv> n < 2 ^ 31"

lemma setzp1_build_spec:
  assumes "in_mem mem expr" "c_int (str_len expr)" "c_int t" "c_int (length s)" "places s d t (pfx, cnt, sfx, sl)"
  shows "setzp1_build mem d expr s pfx (int cnt) sfx sl =
    (let new = set_pieces [d] (int t) (int t) (str_of mem expr) s in if MAX_STRLEN < int (length new) then Inl ERR_MAXSTRLEN else Inr (mem @ new))"
proof -
  define new where "new = take pfx s @ replicate cnt d @ str_of mem expr @ take sl (drop sfx s)"
  have p: "pfx \<le> length s" "cnt \<le> t" "sfx + sl \<le> length s" "new = set_pieces [d] (int t) (int t) (str_of mem expr) s"
    using assms(5) by (simp_all add: places_def new_def)
  have l: "int (str_len expr) + int pfx + int cnt + int sl = int (length new)" using p(1,3) assms(1) by (simp add: new_def)
  have "int (length new) < 2 ^ 64" using l p(1-3) assms(2-4) by simp
  then have "(int (str_len expr) + int pfx + int cnt + int sl) mod 2 ^ 64 = int (length new)" using l by simp
  then show ?thesis unfolding setzp1_build_def Let_def p(4) [symmetric] using new_def by simp
qed

text \<open>The empty string, and one that is not defined.\<close>

lemma places_empty:
  assumes "0 < t"
  shows "places [] d t (0, t - 1, 0, 0)"
proof -
  have "pieces [d] [] = [[]]" by (simp add: pieces_cut)
  then show ?thesis using set_piece_join [OF assms, of d _ "[]"] assms by (auto simp: places_def drop_Cons')
qed

definition src_ok :: "mstr \<Rightarrow> smval option \<Rightarrow> bool" where
  "src_ok mem src \<longleftrightarrow> (case src of None \<Rightarrow> True | Some v \<Rightarrow> in_mem mem v \<and> fnpc_indx v < 256 \<and> c_int (str_len v))"

definition src_str :: "mstr \<Rightarrow> smval option \<Rightarrow> mstr" where
  "src_str mem src = (case src of None \<Rightarrow> [] | Some v \<Rightarrow> str_of mem v)"

definition same_src :: "smval option \<Rightarrow> smval option \<Rightarrow> bool" where
  "same_src src src' \<longleftrightarrow> (case (src, src') of (None, None) \<Rightarrow> True
     | (Some v, Some v') \<Rightarrow> str_addr v' = str_addr v \<and> str_len v' = str_len v \<and> fnpc_indx v' < 256 | _ \<Rightarrow> False)"

lemma op_setzp1_spec:
  assumes a: "area_ok mem area" and s: "src_ok mem src" and e: "in_mem mem expr" "c_int (str_len expr)" and t: "0 < t" "c_int t"
  shows "let new = set_pieces [dlmc dl] (int t) (int t) (str_of mem expr) (src_str mem src) in
    if MAX_STRLEN < int (length new) then op_setzp1 mem area src dl expr (int t) = Inl ERR_MAXSTRLEN
    else \<exists>area' src' dst. op_setzp1 mem area src dl expr (int t) = Inr (mem @ new, area', src', dst) \<and> area_ok (mem @ new) area' \<and> same_src src src'
      \<and> str_addr dst = length mem \<and> str_len dst = length new \<and> fnpc_indx dst < 256"
proof -
  define d where "d = dlmc dl"
  have cz: "setzp1_cache area 0 x y dl 0 = (area, \<lparr>str_addr = x, str_len = y, fnpc_indx = 255\<rparr>)" for x y by (simp add: setzp1_cache_def)
  have t1: "(int t - 1) mod 2 ^ 64 = int (t - 1)" "(if 0 < int t then int t - 1 else 0) = int (t - 1)" using t by (auto simp: of_nat_diff)
  note b0 = setzp1_build_spec [OF e t(2) _ places_empty [OF t(1)], of d, simplified]
  show ?thesis
  proof (cases src)
    case None
    then show ?thesis using b0 area_ok_append [OF a] t1(1) unfolding op_setzp1_def d_def [symmetric] by (simp add: Let_def src_str_def cz same_src_def)
  next
    case (Some v)
    have v: "in_mem mem v" "fnpc_indx v < 256" "c_int (str_len v)" using s Some by (simp_all add: src_ok_def)
    show ?thesis
    proof (cases "str_len v = 0")
      case True
      then show ?thesis using Some b0 area_ok_append [OF a] t1(2) v(2) unfolding op_setzp1_def d_def [symmetric] by (simp add: Let_def src_str_def cz same_src_def)
    next
      case False
      define str where "str = str_of mem v"
      obtain area1 v1 pfx cnt sfx sl cpy i where p: "setzp1_place mem area v dl (int t) = Inr (area1, v1, pfx, cnt, sfx, sl, cpy)" "area_ok mem area1"
        "str_addr v1 = str_addr v" "str_len v1 = str_len v" "fnpc_indx v1 = i + 1" "i < FNPC_MAX" "places str d t (pfx, cnt, sfx, sl)"
        "cpy \<le> npcs (fnpcs area1 ! i)" "belongs (fnpcs area1 ! i) v1 dl" "\<forall>r. keeps str d cpy (take pfx str @ replicate cnt d @ r)"
        using setzp1_place_spec [OF a v(1,2) _ t(1) refl refl, of dl] False unfolding str_def d_def by auto
      define new where "new = set_pieces [d] (int t) (int t) (str_of mem expr) str"
      have l: "length str = str_len v" "str_of mem v1 = str" using v(1) p(3,4) by (simp_all add: str_def)
      have bd: "setzp1_build mem d expr str pfx (int cnt) sfx sl = (if MAX_STRLEN < int (length new) then Inl ERR_MAXSTRLEN else Inr (mem @ new))"
        using setzp1_build_spec [OF e t(2) _ p(7)] l(1) v(3) by (simp add: new_def Let_def)
      have "take pfx str @ replicate cnt d @ str_of mem expr @ take sl (drop sfx str) = new" using p(7) by (simp add: places_def new_def)
      then have k: "keeps (str_of mem v1) (dlmc dl) cpy new" using p(10) l(2) by (metis d_def)
      obtain area2 dst where c: "setzp1_cache area1 cpy (length mem) (length new) dl i = (area2, dst)" "area_ok (mem @ new) area2"
        "str_addr dst = length mem" "str_len dst = length new" "fnpc_indx dst < 256"
        using setzp1_cache_spec [OF p(2,6,9,8) _ k] False p(4) by auto
      have "op_setzp1 mem area src dl expr (int t) = (if MAX_STRLEN < int (length new) then Inl ERR_MAXSTRLEN else Inr (mem @ new, area2, Some v1, dst))"
        unfolding op_setzp1_def Some option.case if_not_P [OF False] p(1) res_bind_simps prod.case l(2) d_def [symmetric] bd
        using c(1) p(5) by simp
      moreover have "same_src src (Some v1)" using Some p(3-6) by (simp add: same_src_def)
      moreover have "src_str mem src = str" using Some by (simp add: src_str_def str_def)
      ultimately show ?thesis using c unfolding d_def [symmetric] by (simp add: Let_def new_def)
    qed
  qed
qed

end
