(* ===== verification/Piece_Props.thy ===== *)
theory Piece_Props
  imports Piece_Set
begin

text \<open>
  The properties of the piece functions. The states of memory and cache are those that any sequence of operations reaches; in all of them the
  functions return what the list of pieces of a string says.
\<close>

section \<open>Counting pieces\<close>

text \<open>The number of pieces that start before the end of the string.\<close>

definition started :: "mstr \<Rightarrow> byte \<Rightarrow> nat \<Rightarrow> bool" where
  "started s d n \<longleftrightarrow> 0 < n \<and> off s d (n - 1) < length s \<and> length s \<le> off s d n"

lemma started_pieces:
  assumes "started s d n"
  shows "length (pieces [d] s) = n + (if d = last s then 1 else 0)"
proof -
  have n: "0 < n" "off s d (n - 1) < length s" "length s \<le> off s d n" using assms by (simp_all add: started_def)
  have P: "n \<le> length (pieces [d] s)" using n piece_exists [of "n - 1" d s] by simp
  show ?thesis
  proof (cases "off s d n = length s")
    case True
    then have "drop n (pieces [d] s) = [[]]" using pieces_off [of n d s] by (simp add: pieces_cut)
    then have "length (pieces [d] s) - n = 1" by (metis length_drop length_Cons list.size(3) One_nat_def)
    moreover have "last s = d" using take_off [OF n(1), of s d] True by (metis last_snoc order_refl take_all)
    ultimately show ?thesis by simp
  next
    case False
    then have "length (pieces [d] s) = n" using P n(3) piece_exists [of n d s] by simp
    moreover have "scan_delim s d (off s d (n - 1)) = length s" using False n cut_scan [of "off s d (n - 1)" s d] by (cases n) auto
    then have "last s \<noteq> d" using n(2) by (rule scan_to_end)
    ultimately show ?thesis by simp
  qed
qed

lemma count_rest_spec:
  assumes "0 < n" "off s d (n - 1) < length s"
  shows "started s d (count_rest s d (off s d n) n)"
  using assms
proof (induction "length s - off s d n" arbitrary: n rule: less_induct)
  case less
  show ?case
  proof (cases "off s d n < length s")
    case True
    have "length s - off s d (Suc n) < length s - off s d n" using True off_less [of s d n] by (simp del: off.simps)
    then have "started s d (count_rest s d (off s d (Suc n)) (Suc n))" using True by (intro less.hyps) simp_all
    then show ?thesis using True by (subst count_rest.simps) simp
  next
    case False
    then show ?thesis using less.prems by (subst count_rest.simps) (simp add: started_def)
  qed
qed

text \<open>After \<open>op_fnzp1\<close> has been asked for the last piece of the cache no further recursion is needed.\<close>

lemma zlength_full:
  assumes a: "area_ok mem area" and m: "in_mem mem src" "fnpc_indx src < 256" "0 < str_len src" and c: "cached mem area src (uint d) FNPC_ELEM_MAX"
  shows "\<exists>n. zlength_count (Suc 0) mem area src d = Inr (area, src, n) \<and> started (str_of mem src) d n"
proof -
  let ?s = "str_of mem src"
  have dd: "dlmc (uint d) = d" by (simp add: dlmc_def)
  obtain i where i: "i < FNPC_MAX" "fnpc_indx src = i + 1" "belongs (fnpcs area ! i) src (uint d)"
    "FNPC_ELEM_MAX \<le> npcs (fnpcs area ! i) \<or> npcs (fnpcs area ! i) = FNPC_ELEM_MAX \<or> str_len src \<le> off ?s d (npcs (fnpcs area ! i))"
    using c unfolding cached_def dd by blast
  have ci: "cache_index src = i" using i(1,2) by (simp add: cache_index_def)
  define e where "e = fnpcs area ! i"
  have "entry_ok mem e" using a i(1) by (simp add: area_ok_def e_def)
  note ok = this [unfolded entry_belongs [OF i(3) [folded e_def] m(3)] dd]
  have v: "fnpc_valid area src (uint d)" using i(1,3) ci by (simp add: fnpc_valid_belongs)
  have l: "length ?s = str_len src" using m(1) by simp
  show ?thesis
  proof (cases "str_len src \<le> pstart e ! npcs e")
    case True
    then have "zlength_count (Suc 0) mem area src d = Inr (area, src, npcs e)" using v ci by (simp add: e_def Let_def)
    moreover have "started ?s d (npcs e)" using True ok l by (simp add: started_def)
    ultimately show ?thesis by blast
  next
    case False
    then have "npcs e = FNPC_ELEM_MAX" using i(4) ok by (auto simp: e_def)
    moreover from this have "pstart e ! FNPC_ELEM_MAX = off ?s d FNPC_ELEM_MAX" using ok by simp
    ultimately have "zlength_count (Suc 0) mem area src d = Inr (area, src, count_rest ?s d (off ?s d (npcs e)) (npcs e))"
      using v ci False by (simp add: e_def [symmetric] Let_def)
    then show ?thesis using count_rest_spec [of "npcs e" ?s d] ok l by auto
  qed
qed

lemma zlength_again:
  assumes "\<not> (fnpc_valid area src (uint d) \<and> (let c = fnpcs area ! cache_index src in str_len src \<le> pstart c ! npcs c \<or> npcs c = FNPC_ELEM_MAX))"
  shows "zlength_count (Suc n) mem area src d = (case op_fnzp1 mem area src (uint d) (int FNPC_ELEM_MAX) of (area, src, _, _) \<Rightarrow> zlength_count n mem area src d)"
  using assms by (auto simp: Let_def split: prod.splits)

lemma zlength_count_spec:
  assumes a: "area_ok mem area" and m: "in_mem mem src" "fnpc_indx src < 256" "0 < str_len src"
  shows "\<exists>area' src' n. zlength_count 2 mem area src d = Inr (area', src', n) \<and> started (str_of mem src) d n \<and> area_ok mem area'
    \<and> str_addr src' = str_addr src \<and> str_len src' = str_len src \<and> fnpc_indx src' < 256"
proof -
  have two: "2 = Suc (Suc 0)" by simp
  obtain area1 src1 a1 l1 where f: "op_fnzp1 mem area src (uint d) (int FNPC_ELEM_MAX) = (area1, src1, a1, l1)" "area_ok mem area1"
    "str_addr src1 = str_addr src" "str_len src1 = str_len src" "fnpc_indx src1 < 256" "cached mem area1 src1 (uint d) (nat (int FNPC_ELEM_MAX))"
    using op_fnzp1_spec [OF a m(1,2), of "uint d" "int FNPC_ELEM_MAX"] m(3) by auto
  obtain n where n: "zlength_count (Suc 0) mem area1 src1 d = Inr (area1, src1, n)" "started (str_of mem src1) d n"
    using zlength_full [OF f(2), of src1 d] f m by auto
  have r: "\<exists>area' src' n. (case op_fnzp1 mem area src (uint d) (int FNPC_ELEM_MAX) of (area, src, _, _) \<Rightarrow> zlength_count (Suc 0) mem area src d) = Inr (area', src', n)
      \<and> started (str_of mem src) d n \<and> area_ok mem area' \<and> str_addr src' = str_addr src \<and> str_len src' = str_len src \<and> fnpc_indx src' < 256"
    using f n by simp
  show ?thesis
  proof (cases "fnpc_valid area src (uint d) \<and> (let c = fnpcs area ! cache_index src in str_len src \<le> pstart c ! npcs c \<or> npcs c = FNPC_ELEM_MAX)")
    case False
    show ?thesis using r unfolding two zlength_again [OF False] .
  next
    case True
    define e where "e = fnpcs area ! cache_index src"
    have v: "cache_index src < FNPC_MAX" "belongs e src (uint d)" using True by (simp_all add: fnpc_valid_belongs e_def)
    have "entry_ok mem e" using a v(1) by (simp add: area_ok_def e_def)
    note ok = this [unfolded entry_belongs [OF v(2) m(3)]]
    have dd: "dlmc (uint d) = d" by (simp add: dlmc_def)
    have "cached mem area src (uint d) FNPC_ELEM_MAX"
      using v True ok cache_index_valid [OF v(1) m(2)] unfolding cached_def by (intro exI [of _ "cache_index src"]) (auto simp: e_def Let_def)
    from zlength_full [OF a m this] obtain k where k: "zlength_count (Suc 0) mem area src d = Inr (area, src, k)" "started (str_of mem src) d k" by blast
    have "zlength_count 2 mem area src d = zlength_count (Suc 0) mem area src d" unfolding two using True by (auto simp: Let_def e_def split: if_splits)
    then show ?thesis using k a m by simp
  qed
qed

section \<open>Counting with longer delimiters\<close>

lemma op_fnzfind_spec:
  assumes "del \<noteq> []" "pos \<le> length s"
  shows "op_fnzfind s del (int pos + 1) =
    (if length (pieces del (drop pos s)) = 1 then 0 else int pos + int (length (hd (pieces del (drop pos s))) + length del) + 1)"
proof (cases "pos = length s")
  case True
  then show ?thesis using assms by (simp add: op_fnzfind_def pieces_cut)
next
  case False
  obtain p ps where pp: "pieces del (drop pos s) = p # ps" by (cases "pieces del (drop pos s)") auto
  then show ?thesis using assms False matchb_spec [OF assms(1), of 1 "drop pos s"] by (cases ps) (simp_all add: op_fnzfind_def Let_def)
qed

lemma pieces_tl:
  assumes "del \<noteq> []" "pieces del s = p # q # ps"
  shows "pieces del (drop (length p + length del) s) = q # ps" "length p + length del \<le> length s"
proof -
  have s: "s = p @ del @ join del (q # ps)" using join_pieces [of del s] unfolding assms(2) by simp
  have "pieces del (join del (drop 1 (pieces del s))) = drop 1 (pieces del s)" using assms by (intro pieces_rest) simp_all
  moreover have "drop (length p + length del) s = join del (drop 1 (pieces del s))" unfolding assms(2) by (subst s) simp
  ultimately show "pieces del (drop (length p + length del) s) = q # ps" using assms(2) by simp
  show "length p + length del \<le> length s" by (subst s) simp
qed

lemma count_finds_spec:
  assumes "del \<noteq> []" "pos \<le> length s" "length (pieces del (drop pos s)) \<le> n"
  shows "count_finds s del (int pos + 1) k n = Inr (k + int (length (pieces del (drop pos s))))"
  using assms(2,3)
proof (induction n arbitrary: pos k)
  case (Suc n)
  obtain p ps where pp: "pieces del (drop pos s) = p # ps" by (cases "pieces del (drop pos s)") auto
  have step: "count_finds s del (int pos + 1) k (Suc n) = count_finds s del (op_fnzfind s del (int pos + 1)) (k + 1) n" by (subst count_finds.simps) simp
  show ?case
  proof (cases ps)
    case Nil
    then have "op_fnzfind s del (int pos + 1) = 0" using op_fnzfind_spec [OF assms(1) Suc.prems(1)] pp by simp
    then show ?thesis using step pp Nil by (simp add: count_finds.simps)
  next
    case (Cons q qs)
    define pos' where "pos' = pos + (length p + length del)"
    have t: "pieces del (drop pos' s) = q # qs" "pos' \<le> length s" using pieces_tl [OF assms(1) pp [unfolded Cons]] Suc.prems(1) by (simp_all add: pos'_def add.commute)
    have "op_fnzfind s del (int pos + 1) = int pos' + 1" using op_fnzfind_spec [OF assms(1) Suc.prems(1)] pp Cons by (simp add: pos'_def)
    then show ?thesis using step Suc.IH [OF t(2), of "k + 1"] t(1) pp Cons Suc.prems(2) by simp
  qed
qed simp

lemma pieces_bound: "del \<noteq> [] \<Longrightarrow> length (pieces del s) \<le> length s + 1"
proof (induction del s rule: pieces.induct)
  case (1 del s)
  show ?case
  proof (cases "cut del s")
    case None
    then show ?thesis using 1 by (simp add: pieces_cut)
  next
    case (Some pr)
    then obtain p r where c: "cut del s = Some (p, r)" by (cases pr) auto
    have "length (pieces del r) \<le> length r + 1" using 1(1) [OF 1(2) c refl 1(2)] .
    moreover have "length r + 1 \<le> length s" using cut_Some [OF c] 1 by (cases del) auto
    ultimately show ?thesis using c 1(2) by (simp add: pieces_cut [of del s])
  qed
qed

lemma op_fnzpopulation_spec:
  assumes a: "area_ok mem area" and m: "in_mem mem src" "fnpc_indx src < 256"
  shows "\<exists>area' src'. op_fnzpopulation mem area src del = Inr (area', src', if del = [] then 0 else int (length (pieces del (str_of mem src))))
    \<and> area_ok mem area' \<and> str_addr src' = str_addr src \<and> str_len src' = str_len src \<and> fnpc_indx src' < 256"
proof -
  let ?s = "str_of mem src"
  consider (none) "str_len src = 0 \<or> del = []" | (byte) d where "0 < str_len src" "del = [d]" | (long) "0 < str_len src" "1 < length del"
    by (cases del; cases "tl del") auto
  then show ?thesis
  proof cases
    case none
    then show ?thesis using a m by (auto simp: op_fnzpopulation_def Let_def pieces_cut)
  next
    case byte
    then show ?thesis using zlength_count_spec [OF a m byte(1), of d] started_pieces [of ?s d] by (auto simp: op_fnzpopulation_def Let_def)
  next
    case long
    then have "del \<noteq> []" by auto
    moreover have "length ?s = str_len src" using m(1) by simp
    ultimately have "count_finds ?s del 1 0 (str_len src + 2) = Inr (int (length (pieces del ?s)))"
      using count_finds_spec [of del 0 ?s "str_len src + 2" 0] pieces_bound [of del ?s] by simp
    then show ?thesis using long a m by (auto simp: op_fnzpopulation_def Let_def)
  qed
qed

section \<open>Any delimiter\<close>

text \<open>An empty delimiter has no pieces to select; a string is then set by appending.\<close>

definition zpiece_value :: "mstr \<Rightarrow> int \<Rightarrow> int \<Rightarrow> mstr \<Rightarrow> mstr" where
  "zpiece_value del first lst s = (if del = [] then [] else get_pieces del first lst s)"

definition setzpiece_value :: "mstr \<Rightarrow> int \<Rightarrow> int \<Rightarrow> mstr \<Rightarrow> mstr \<Rightarrow> mstr" where
  "setzpiece_value del first lst e s = (if del = [] then (if 1 < first then s @ e else e) else set_pieces del first lst e s)"

definition str_ok :: "mstr \<Rightarrow> smval \<Rightarrow> bool" where
  "str_ok mem v \<longleftrightarrow> in_mem mem v \<and> int (str_len v) \<le> MAX_STRLEN \<and> fnpc_indx v < 256"

lemma str_ok_src: "pred_option (str_ok mem) src \<Longrightarrow> src_ok mem src"
  by (cases src) (auto simp: str_ok_def src_ok_def MAX_STRLEN_def)

lemma dlmc_uint [simp]: "dlmc (uint d) = d"
  by (simp add: dlmc_def)

lemma matchb_empty [simp]: "matchb [] s n = (0, 1, 0)"
  by (simp add: matchb_def)

lemma get_pieces_one: "lst - max 0 (first - 1) = 1 \<Longrightarrow> get_pieces del first lst s = get_pieces del lst lst s"
  by (auto simp: get_pieces_def max_def split: if_splits)

lemma op_fnzpiece_spec:
  assumes a: "area_ok mem area" and m: "in_mem mem src" "fnpc_indx src < 256"
  shows "\<exists>area' src' a' l. op_fnzpiece mem area src del first lst = (area', src', a', l) \<and> area_ok mem area'
    \<and> slice mem a' l = zpiece_value del first lst (str_of mem src)"
proof -
  have c: "(if first - 1 < 0 then 0 else first - 1) = max 0 (first - 1)" by auto
  consider (none) "del = []" | (one) d where "del = [d]" "lst - max 0 (first - 1) = 1" | (general) "del \<noteq> []" "\<not> (length del = 1 \<and> lst - max 0 (first - 1) = 1)"
    by (cases del; cases "tl del") auto
  then show ?thesis
  proof cases
    case none
    then show ?thesis using a by (auto simp: op_fnzpiece_def Let_def zpiece_value_def)
  next
    case one
    have "op_fnzpiece mem area src del first lst = op_fnzp1 mem area src (uint d) lst" unfolding op_fnzpiece_def Let_def c one(2) using one(1) by simp
    then show ?thesis using op_fnzp1_spec [OF a m, of "uint d" lst] one(1) get_pieces_one [OF one(2)] by (auto simp: zpiece_value_def)
  next
    case general
    then show ?thesis using fnzpiece_general [OF m(1) general, of area] a by (auto simp: zpiece_value_def)
  qed
qed

text \<open>\<open>op_cat\<close> of two strings, at the end of the memory or elsewhere.\<close>

lemma op_cat_spec:
  assumes "in_mem mem v" "in_mem mem w" "int (str_len v) \<le> MAX_STRLEN"
  shows "if MAX_STRLEN < int (length (str_of mem v @ str_of mem w)) then op_cat mem [v, w] = Inl ERR_MAXSTRLEN
    else \<exists>new a l. op_cat mem [v, w] = Inr (mem @ new, a, l) \<and> slice (mem @ new) a l = str_of mem v @ str_of mem w \<and> a + l \<le> length (mem @ new)"
proof (cases "str_addr v + str_len v = length mem")
  case True
  then have "drop (str_addr v) mem = str_of mem v" by (simp add: slice_def)
  then have "slice (mem @ str_of mem w) (str_addr v) (str_len v + str_len w) = str_of mem v @ str_of mem w"
  proof -
    have "str_addr v + (str_len v + str_len w) - length mem = str_len w" using True by linarith
    moreover have "length (drop (str_addr v) mem) = str_len v" using True by (metis add_diff_cancel_left' length_drop)
    ultimately show ?thesis using assms(2) True by (simp add: slice_def)
  qed
  moreover have "length mem + str_len w - str_addr v = str_len v + str_len w" using True by linarith
  ultimately show ?thesis using True assms by (auto simp: op_cat_def Let_def)
next
  case False
  have "slice (mem @ str_of mem v @ str_of mem w) (length mem) (str_len v + str_len w) = str_of mem v @ str_of mem w"
    using slice_new [of mem "str_of mem v @ str_of mem w"] assms by simp
  then show ?thesis using False assms by (auto simp: op_cat_def Let_def)
qed

definition set_result :: "mstr \<Rightarrow> mstr \<Rightarrow> (mstr \<times> fnpc_area \<times> smval option \<times> nat \<times> nat) res \<Rightarrow> bool" where
  "set_result mem new r \<longleftrightarrow> (if MAX_STRLEN < int (length new) then r = Inl ERR_MAXSTRLEN
     else (case r of Inl e \<Rightarrow> False
           | Inr (mem', area', src', a, l) \<Rightarrow> (\<exists>add. mem' = mem @ add) \<and> area_ok mem' area' \<and> a + l \<le> length mem' \<and> slice mem' a l = new))"

lemma op_setzpiece_spec:
  assumes a: "area_ok mem area" and s: "pred_option (str_ok mem) src" and e: "str_ok mem expr" and l: "0 < lst" "first \<le> lst" "lst < 2 ^ 31"
  shows "set_result mem (setzpiece_value del first lst (str_of mem expr) (src_str mem src)) (op_setzpiece mem area src del expr first lst)"
proof -
  have c: "(if 0 > first - 1 then 0 else first - 1) = max 0 (first - 1)" by auto
  have em: "in_mem mem expr" "c_int (str_len expr)" "int (str_len expr) \<le> MAX_STRLEN" using e by (auto simp: str_ok_def MAX_STRLEN_def)
  consider (copy) "del = []" "first \<le> 1 \<or> src = None" | (cat) v where "del = []" "1 < first" "src = Some v"
    | (one) d where "del = [d]" "lst - max 0 (first - 1) = 1" "src \<noteq> None"
    | (general) "del \<noteq> []" "\<not> (src \<noteq> None \<and> lst - max 0 (first - 1) = 1 \<and> length del = 1)"
    by (cases del; cases "tl del"; cases src) fastforce+
  then show ?thesis
  proof cases
    case copy
    then have "op_setzpiece mem area src del expr first lst = Inr (mem, area, src, str_addr expr, str_len expr)"
      unfolding op_setzpiece_def Let_def c by auto
    moreover have "setzpiece_value del first lst (str_of mem expr) (src_str mem src) = str_of mem expr" using copy by (auto simp: setzpiece_value_def src_str_def)
    ultimately show ?thesis using a em by (simp add: set_result_def)
  next
    case cat
    have "op_setzpiece mem area src del expr first lst = res_bind (op_cat mem [v, expr]) (\<lambda>(mem', a, l). Inr (mem', area, src, a, l))"
      unfolding op_setzpiece_def Let_def c using cat by simp
    moreover have "setzpiece_value del first lst (str_of mem expr) (src_str mem src) = str_of mem v @ str_of mem expr" using cat by (simp add: setzpiece_value_def src_str_def)
    moreover have "in_mem mem v" "int (str_len v) \<le> MAX_STRLEN" using s cat by (simp_all add: str_ok_def)
    note op_cat_spec [OF this(1) em(1) this(2)]
    ultimately show ?thesis using area_ok_append [OF a] by (auto simp: set_result_def split: if_splits)
  next
    case one
    define t where "t = nat lst"
    have t: "int t = lst" "0 < t" "c_int t" using l by (auto simp: t_def)
    have n: "nat (first - 1) = nat (lst - 1)" using one(2) l by (auto simp: max_def split: if_splits)
    have "op_setzpiece mem area src del expr first lst
        = res_bind (op_setzp1 mem area src (uint d) expr lst) (\<lambda>(mem', area', src', dst). Inr (mem', area', src', str_addr dst, str_len dst))"
      unfolding op_setzpiece_def Let_def c one(2) using one by simp
    moreover have "setzpiece_value del first lst x y = set_pieces [d] lst lst x y" for x y using one(1) n by (simp add: setzpiece_value_def set_pieces_def Let_def)
    moreover note op_setzp1_spec [OF a str_ok_src [OF s] em(1,2) t(2,3), of "uint d", unfolded t(1)]
    ultimately show ?thesis by (auto simp: set_result_def Let_def split: if_splits)
  next
    case general
    have m: "\<And>v. src = Some v \<Longrightarrow> in_mem mem v" using s by (simp add: str_ok_def)
    show ?thesis using setzpiece_general [OF m em(1) general l(1,2), of area] area_ok_append [OF a] general(1)
      by (simp add: set_result_def setzpiece_value_def src_str_def Let_def)
  qed
qed

section \<open>Reading what was set\<close>

lemma pieces_join:
  assumes "\<forall>p \<in> set ps. d \<notin> set p" "ps \<noteq> []"
  shows "pieces [d] (join [d] ps) = ps"
proof -
  obtain qs q where ps: "ps = qs @ [q]" using assms(2) by (cases ps rule: rev_cases) auto
  have "cut [d] q = None" using assms(1) ps cut_Some [of "[d]" q] by (cases "cut [d] q") auto
  then have q: "pieces [d] q = [q]" by (simp add: pieces_cut)
  show ?thesis
  proof (cases "qs = []")
    case False
    then show ?thesis using pieces_glue [of qs d q] assms(1) q by (simp add: ps join_append)
  qed (use ps q in simp)
qed

lemma pieces_set:
  assumes "d \<notin> set e"
  shows "pieces [d] (set_pieces [d] first lst e s)
    = take (nat (first - 1)) (pieces [d] s) @ replicate (nat (first - 1) - length (pieces [d] s)) [] @ e # drop (nat lst) (pieces [d] s)"
  unfolding set_pieces_def Let_def
  by (rule pieces_join) (use assms pieces_no_delim [of _ d s] in \<open>auto dest!: in_set_takeD in_set_dropD\<close>)

lemma get_pieces_nth: "get_pieces del k k s = (if 0 < k \<and> nat k \<le> length (pieces del s) then pieces del s ! nat (k - 1) else [])"
proof (cases "0 < k")
  case True
  then have "nat (k - max 0 (k - 1)) = 1" "nat k \<le> length (pieces del s) \<longleftrightarrow> nat (k - 1) < length (pieces del s)" by auto
  then show ?thesis using True by (cases "drop (nat (k - 1)) (pieces del s)") (auto simp: get_pieces_def hd_drop_conv_nth [symmetric])
qed (simp add: get_pieces_def)

lemma get_after_set:
  assumes "d \<notin> set e" "0 < first" "first \<le> lst"
  shows "get_pieces [d] k k (set_pieces [d] first lst e s)
    = (if k < first then get_pieces [d] k k s else if k = first then e else get_pieces [d] (k - first + lst) (k - first + lst) s)"
proof -
  define n where "n = nat (first - 1)"
  define ps where "ps = pieces [d] s"
  have i: "nat (first - 1) = n" "int n = first - 1" using assms by (simp_all add: n_def)
  have p: "pieces [d] (set_pieces [d] first lst e s) = take n ps @ replicate (n - length ps) [] @ e # drop (nat lst) ps"
    unfolding pieces_set [OF assms(1)] i ps_def ..
  have len: "length (take n ps @ replicate (n - length ps) []) = n" by simp
  consider "k \<le> 0" | "0 < k" "k < first" | "k = first" | "first < k" by linarith
  then show ?thesis
  proof cases
    case 2
    define j where "j = nat (k - 1)"
    have j: "j < n" "nat k = Suc j" "nat (k - 1) = j" using 2 i by (auto simp: j_def)
    show ?thesis using 2 j by (auto simp: get_pieces_nth p nth_append ps_def [symmetric])
  next
    case 3
    have "nat k = Suc n" "nat (k - 1) = n" "\<not> n - length ps < n - length ps" using 3 assms(2) i by auto
    then show ?thesis using 3 assms(2) len by (auto simp: get_pieces_nth p nth_append)
  next
    case 4
    define j where "j = nat (k - first - 1)"
    have j: "nat (k - 1) = n + Suc j" "nat k = n + Suc (Suc j)" "nat (k - first + lst - 1) = nat lst + j" "nat (k - first + lst) = nat lst + Suc j"
      using 4 assms i by (auto simp: j_def)
    have q: "(take n ps @ replicate (n - length ps) [] @ e # drop (nat lst) ps) ! (n + Suc j) = drop (nat lst) ps ! j"
      using nth_append_length_plus [of "take n ps @ replicate (n - length ps) []" "e # drop (nat lst) ps" "Suc j"] len by simp
    have l: "length (take n ps @ replicate (n - length ps) [] @ e # drop (nat lst) ps) = n + Suc (length ps - nat lst)" using len by simp
    have k: "0 < k" "0 < k - first + lst" "\<not> k < first" "k \<noteq> first" using 4 assms by auto
    show ?thesis unfolding get_pieces_nth p j q l ps_def [symmetric] using k by auto
  qed (use assms in \<open>simp_all add: get_pieces_nth\<close>)
qed

section \<open>Reachable states\<close>

text \<open>
  The operations on the memory and the cache: a new string, the piece functions, and a garbage collection, which moves the strings and clears
  the cache.
\<close>

inductive zp_step :: "mstr \<times> fnpc_area \<Rightarrow> mstr \<times> fnpc_area \<Rightarrow> bool" where
  new_string: "zp_step (mem, area) (mem @ new, area)"
| get_one: "op_fnzp1 mem area src dl t = (area', src', a, l) \<Longrightarrow> str_ok mem src \<Longrightarrow> zp_step (mem, area) (mem, area')"
| get: "op_fnzpiece mem area src del first lst = (area', src', a, l) \<Longrightarrow> str_ok mem src \<Longrightarrow> zp_step (mem, area) (mem, area')"
| set_one: "op_setzp1 mem area src dl expr t = Inr (mem', area', src', dst) \<Longrightarrow> pred_option (str_ok mem) src \<Longrightarrow> str_ok mem expr
    \<Longrightarrow> 0 < t \<Longrightarrow> t < 2 ^ 31 \<Longrightarrow> zp_step (mem, area) (mem', area')"
| set: "op_setzpiece mem area src del expr first lst = Inr (mem', area', src', a, l) \<Longrightarrow> pred_option (str_ok mem) src \<Longrightarrow> str_ok mem expr
    \<Longrightarrow> 0 < lst \<Longrightarrow> first \<le> lst \<Longrightarrow> lst < 2 ^ 31 \<Longrightarrow> zp_step (mem, area) (mem', area')"
| count: "op_fnzpopulation mem area src del = Inr (area', src', n) \<Longrightarrow> str_ok mem src \<Longrightarrow> zp_step (mem, area) (mem, area')"
| collect: "zp_step (mem, area) (mem', fnpc_clear area)"

inductive_cases zp_stepE: "zp_step (mem, area) st"

definition zp_reachable :: "mstr \<Rightarrow> fnpc_area \<Rightarrow> bool" where
  "zp_reachable mem area \<longleftrightarrow> (\<exists>mem0. zp_step\<^sup>*\<^sup>* (mem0, fnpc_init) (mem, area))"

lemma str_okD: "str_ok mem v \<Longrightarrow> in_mem mem v" "str_ok mem v \<Longrightarrow> fnpc_indx v < 256"
  by (simp_all add: str_ok_def)

lemma set_one_ok:
  assumes "area_ok mem area" "op_setzp1 mem area src dl expr t = Inr (mem', area', src', dst)" "pred_option (str_ok mem) src" "str_ok mem expr" "0 < t" "t < 2 ^ 31"
  shows "area_ok mem' area'"
proof -
  have "0 < nat t" "c_int (nat t)" "int (nat t) = t" "in_mem mem expr" "c_int (str_len expr)" using assms(4-6) by (auto simp: str_ok_def MAX_STRLEN_def)
  then show ?thesis using op_setzp1_spec [OF assms(1) str_ok_src [OF assms(3)], of expr "nat t" dl] assms(2) by (auto simp: Let_def split: if_splits)
qed

lemma zp_step_ok:
  assumes "zp_step (mem, area) (mem', area')" "area_ok mem area"
  shows "area_ok mem' area'"
  using assms(1)
proof (cases rule: zp_step.cases)
  case (get_one src dl t src' a l)
  then show ?thesis using op_fnzp1_spec [OF assms(2), of src dl t] str_okD by auto
next
  case (get src del first lst src' a l)
  then show ?thesis using op_fnzpiece_spec [OF assms(2), of src del first lst] str_okD by auto
next
  case (set_one src dl expr t src' dst)
  then show ?thesis using set_one_ok [OF assms(2)] by blast
next
  case (set src del expr first lst src' a l)
  then show ?thesis using op_setzpiece_spec [OF assms(2), of src expr lst first del] by (auto simp: set_result_def split: if_splits)
next
  case (count src del src' n)
  then show ?thesis using op_fnzpopulation_spec [OF assms(2), of src del] str_okD by auto
qed (use assms(2) area_ok_append area_ok_clear in auto)

lemma zp_reachable_ok:
  assumes "zp_reachable mem area"
  shows "area_ok mem area"
proof -
  obtain mem0 where "zp_step\<^sup>*\<^sup>* (mem0, fnpc_init) (mem, area)" using assms by (auto simp: zp_reachable_def)
  then have "area_ok (fst (mem, area)) (snd (mem, area))"
  proof (induction rule: rtranclp_induct)
    case (step y z)
    then show ?case by (cases y; cases z) (auto dest: zp_step_ok)
  qed (simp add: area_ok_init)
  then show ?thesis by simp
qed

lemma zp_reachable_init: "zp_reachable mem fnpc_init"
  by (auto simp: zp_reachable_def)

lemma zp_reachable_step: "zp_reachable mem area \<Longrightarrow> zp_step (mem, area) (mem', area') \<Longrightarrow> zp_reachable mem' area'"
  by (auto simp: zp_reachable_def intro: rtranclp.rtrancl_into_rtrancl)

end
