(* ===== verification/Zpiece.thy ===== *)
theory Zpiece
  imports Piece_Props
begin

text \<open>
  What the piece functions promise in every state of memory and cache that a sequence of operations reaches: \<open>$ZPIECE\<close>, \<open>SET $ZPIECE\<close> and
  \<open>$ZLENGTH\<close> return what the list of pieces says, the cache is never seen in a result, and \<open>$ZFIND\<close> finds the leftmost occurrence.
\<close>

section \<open>Functions with a cache\<close>

text \<open>
  A function that keeps a cache: \<open>run\<close> returns the new cache and the result, \<open>spec\<close> is the function without one. Its results do not depend on the
  cache, for a single query and for a sequence of them.
\<close>

fun run_all :: "('c \<Rightarrow> 'q \<Rightarrow> 'c \<times> 'r) \<Rightarrow> 'c \<Rightarrow> 'q list \<Rightarrow> 'c \<times> 'r list" where
  "run_all f c [] = (c, [])"
| "run_all f c (q # qs) = (case f c q of (c, r) \<Rightarrow> case run_all f c qs of (c, rs) \<Rightarrow> (c, r # rs))"

locale cached_function =
  fixes inv :: "'m \<Rightarrow> 'c \<Rightarrow> bool"
    and valid :: "'m \<Rightarrow> 'q \<Rightarrow> bool"
    and run :: "'m \<Rightarrow> 'c \<Rightarrow> 'q \<Rightarrow> 'c \<times> 'r"
    and spec :: "'m \<Rightarrow> 'q \<Rightarrow> 'r"
  assumes run_inv: "inv m c \<Longrightarrow> valid m q \<Longrightarrow> inv m (fst (run m c q))"
    and run_spec: "inv m c \<Longrightarrow> valid m q \<Longrightarrow> snd (run m c q) = spec m q"
begin

lemma run_all_spec:
  "inv m c \<Longrightarrow> \<forall>q \<in> set qs. valid m q \<Longrightarrow> inv m (fst (run_all (run m) c qs)) \<and> snd (run_all (run m) c qs) = map (spec m) qs"
proof (induction qs arbitrary: c)
  case (Cons q qs)
  obtain c' r where r: "run m c q = (c', r)" by (cases "run m c q")
  then have "inv m c'" "r = spec m q" using Cons.prems run_inv [of m c q] run_spec [of m c q] by auto
  then show ?case using Cons.IH [of c'] Cons.prems(2) r by (auto split: prod.splits)
qed simp

lemma cache_irrelevant:
  assumes "inv m c" "inv m c'" "\<forall>q \<in> set qs. valid m q"
  shows "snd (run_all (run m) c qs) = snd (run_all (run m) c' qs)"
  using run_all_spec [OF assms(1,3)] run_all_spec [OF assms(2,3)] by simp

end

text \<open>The queries: \<open>$ZPIECE\<close> of one piece by its delimiter byte, of a range by any delimiter, and \<open>$ZLENGTH\<close>.\<close>

datatype zp_query = Q_zp1 smval int int | Q_zpiece smval mstr int int | Q_zlength smval mstr

fun query_ok :: "mstr \<Rightarrow> zp_query \<Rightarrow> bool" where
  "query_ok mem (Q_zp1 src dl t) = str_ok mem src"
| "query_ok mem (Q_zpiece src del first lst) = str_ok mem src"
| "query_ok mem (Q_zlength src del) = str_ok mem src"

fun run_query :: "mstr \<Rightarrow> fnpc_area \<Rightarrow> zp_query \<Rightarrow> fnpc_area \<times> (mstr + int res)" where
  "run_query mem area (Q_zp1 src dl t) = (case op_fnzp1 mem area src dl t of (area, _, a, l) \<Rightarrow> (area, Inl (slice mem a l)))"
| "run_query mem area (Q_zpiece src del first lst) = (case op_fnzpiece mem area src del first lst of (area, _, a, l) \<Rightarrow> (area, Inl (slice mem a l)))"
| "run_query mem area (Q_zlength src del) = (case op_fnzpopulation mem area src del of Inl e \<Rightarrow> (area, Inr (Inl e)) | Inr (area, _, n) \<Rightarrow> (area, Inr (Inr n)))"

fun query_spec :: "mstr \<Rightarrow> zp_query \<Rightarrow> mstr + int res" where
  "query_spec mem (Q_zp1 src dl t) = Inl (get_pieces [dlmc dl] t t (str_of mem src))"
| "query_spec mem (Q_zpiece src del first lst) = Inl (zpiece_value del first lst (str_of mem src))"
| "query_spec mem (Q_zlength src del) = Inr (Inr (if del = [] then 0 else int (length (pieces del (str_of mem src)))))"

lemma run_query_spec:
  assumes "area_ok mem area" "query_ok mem q"
  shows "area_ok mem (fst (run_query mem area q)) \<and> snd (run_query mem area q) = query_spec mem q"
proof (cases q)
  case (Q_zp1 src dl t)
  then show ?thesis using assms op_fnzp1_spec [OF assms(1), of src dl t] str_okD by auto
next
  case (Q_zpiece src del first lst)
  then show ?thesis using assms op_fnzpiece_spec [OF assms(1), of src del first lst] str_okD by auto
next
  case (Q_zlength src del)
  then show ?thesis using assms op_fnzpopulation_spec [OF assms(1), of src del] str_okD by auto
qed

interpretation zq: cached_function area_ok query_ok run_query query_spec
  by unfold_locales (simp_all add: run_query_spec)

text \<open>
  C3: The cache of piece positions cannot be seen in a result. Whatever operations led to the state of the memory and the cache (new strings,
  the piece functions themselves, garbage collections), any sequence of \<open>$ZPIECE\<close> and \<open>$ZLENGTH\<close> queries returns what it
  returns with an empty cache, and that is the list of results that the pieces of the strings prescribe.
\<close>

theorem zpiece_cache_transparent:
  assumes "zp_reachable mem area" "\<forall>q \<in> set qs. query_ok mem q"
  shows "snd (run_all (run_query mem) area qs) = snd (run_all (run_query mem) fnpc_init qs)
    \<and> snd (run_all (run_query mem) area qs) = map (query_spec mem) qs"
  using zq.cache_irrelevant [OF zp_reachable_ok [OF assms(1)] area_ok_init assms(2)] zq.run_all_spec [OF zp_reachable_ok [OF assms(1)] assms(2)] by blast

text \<open>
  C4: \<open>SET $ZPIECE\<close> in any reachable state raises \<open>MAXSTRLEN\<close> exactly if the new string is longer than \<open>MAX_STRLEN\<close>. Otherwise the
  new string has the pieces of the range replaced by the expression, with as many empty pieces before it as the string lacks; the memory that
  was in use is not changed, and the state is reachable, so that the cache is right for the new string too.
\<close>

theorem setzpiece_reachable:
  assumes "zp_reachable mem area" "pred_option (str_ok mem) src" "str_ok mem expr" "0 < lst" "first \<le> lst" "lst < 2 ^ 31"
  shows "let new = setzpiece_value del first lst (str_of mem expr) (src_str mem src) in
    if MAX_STRLEN < int (length new) then op_setzpiece mem area src del expr first lst = Inl ERR_MAXSTRLEN
    else \<exists>add area' src' a l. op_setzpiece mem area src del expr first lst = Inr (mem @ add, area', src', a, l)
      \<and> slice (mem @ add) a l = new \<and> a + l \<le> length (mem @ add) \<and> zp_reachable (mem @ add) area'"
proof -
  define new where "new = setzpiece_value del first lst (str_of mem expr) (src_str mem src)"
  have r: "set_result mem new (op_setzpiece mem area src del expr first lst)"
    unfolding new_def using op_setzpiece_spec [OF zp_reachable_ok [OF assms(1)] assms(2-6)] .
  have "zp_reachable mem' area'" if "op_setzpiece mem area src del expr first lst = Inr (mem', area', src', a, l)" for mem' area' src' a l
    using zp_reachable_step [OF assms(1) zp_step.set [OF that assms(2-6)]] .
  then show ?thesis using r unfolding new_def [symmetric] by (auto simp: set_result_def split: sum.splits if_splits)
qed

text \<open>
  C5: Reading after \<open>SET $ZPIECE\<close>. If the pieces \<open>first\<close> to \<open>lst\<close> of a string are set to a value that does not contain the delimiter
  byte, \<open>$ZPIECE\<close> of the new string, with the cache that the operation leaves, returns the value for piece \<open>first\<close>, the old pieces before it and
  the old pieces after \<open>lst\<close> behind it.
\<close>

theorem zpiece_set_get:
  assumes "zp_reachable mem area" "pred_option (str_ok mem) src" "str_ok mem expr" "0 < first" "first \<le> lst" "lst < 2 ^ 31"
    and "d \<notin> set (str_of mem expr)" "op_setzpiece mem area src [d] expr first lst = Inr (mem', area', src', a, l)" "i < 256"
  shows "\<exists>area'' v'' b n. op_fnzpiece mem' area' \<lparr>str_addr = a, str_len = l, fnpc_indx = i\<rparr> [d] k k = (area'', v'', b, n)
    \<and> slice mem' b n = (if k < first then get_pieces [d] k k (src_str mem src) else if k = first then str_of mem expr
        else get_pieces [d] (k - first + lst) (k - first + lst) (src_str mem src))"
proof -
  define v where "v = \<lparr>str_addr = a, str_len = l, fnpc_indx = i\<rparr>"
  have l: "0 < lst" using assms(4,5) by simp
  have r: "area_ok mem' area'" "in_mem mem' v" "str_of mem' v = set_pieces [d] first lst (str_of mem expr) (src_str mem src)"
    using op_setzpiece_spec [OF zp_reachable_ok [OF assms(1)] assms(2,3) l assms(5,6), of "[d]"] assms(8)
    by (auto simp: set_result_def setzpiece_value_def v_def split: if_splits)
  then show ?thesis using op_fnzpiece_spec [OF r(1,2), of "[d]" k k] assms(9) get_after_set [OF assms(7,4,5), of k "src_str mem src"]
    unfolding v_def [symmetric] by (auto simp: zpiece_value_def v_def)
qed

text \<open>
  C6: \<open>$ZLENGTH\<close> with a delimiter always returns, within the depth of recursion that the code asserts, and its value is the number of pieces
  (0 for an empty delimiter), in any reachable state.
\<close>

theorem zlength_reachable:
  assumes "zp_reachable mem area" "str_ok mem src"
  shows "\<exists>area' src'. op_fnzpopulation mem area src del = Inr (area', src', if del = [] then 0 else int (length (pieces del (str_of mem src))))
    \<and> zp_reachable mem area'"
proof -
  obtain area' src' where r: "op_fnzpopulation mem area src del = Inr (area', src', if del = [] then 0 else int (length (pieces del (str_of mem src))))"
    using op_fnzpopulation_spec [OF zp_reachable_ok [OF assms(1)] str_okD [OF assms(2)]] by blast
  then show ?thesis using zp_reachable_step [OF assms(1) zp_step.count [OF r assms(2)]] by blast
qed

section \<open>Leftmost occurrences\<close>

definition occurs :: "mstr \<Rightarrow> mstr \<Rightarrow> nat \<Rightarrow> bool" where
  "occurs del s i \<longleftrightarrow> i + length del \<le> length s \<and> take (length del) (drop i s) = del"

lemma occurs_drop: "b \<le> length s \<Longrightarrow> occurs del (drop b s) i \<longleftrightarrow> occurs del s (b + i)"
  by (auto simp: occurs_def add.commute)

lemma occurs_Suc: "occurs del (c # s) (Suc i) \<longleftrightarrow> occurs del s i"
  by (simp add: occurs_def)

lemma cut_leftmost:
  assumes "del \<noteq> []"
  shows "case cut del s of None \<Rightarrow> \<forall>i. \<not> occurs del s i | Some (p, r) \<Rightarrow> occurs del s (length p) \<and> (\<forall>i < length p. \<not> occurs del s i)"
proof (induction s)
  case (Cons c s)
  have z: "occurs del (c # s) 0 \<longleftrightarrow> take (length del) (c # s) = del"
    by (auto simp: occurs_def) (metis length_Cons length_take min.cobounded1)
  show ?case
  proof (cases "take (length del) (c # s) = del")
    case True
    then show ?thesis using z by simp
  next
    case False
    have "occurs del (c # s) i \<longleftrightarrow> (\<exists>j. i = Suc j \<and> occurs del s j)" for i using z False by (cases i) (simp_all add: occurs_Suc)
    then show ?thesis using Cons.IH False by (cases "cut del s") (auto simp: less_Suc_eq_0_disj)
  qed
qed (use assms in \<open>simp add: occurs_def\<close>)

lemma op_fnzfind_cut:
  assumes "del \<noteq> []" "b \<le> length s"
  shows "op_fnzfind s del (int b + 1) = (case cut del (drop b s) of None \<Rightarrow> 0 | Some (p, r) \<Rightarrow> int b + int (length p + length del) + 1)"
  using op_fnzfind_spec [OF assms] by (cases "cut del (drop b s)") (auto simp: pieces_cut [OF assms(1), of "drop b s"])

text \<open>
  C7: \<open>$ZFIND\<close> of a delimiter that is not empty returns the position after the leftmost occurrence that does not start before the start
  position (a start position below 1 counts as 1), and 0 if and only if there is none.
\<close>

theorem zfind_leftmost:
  assumes "del \<noteq> []" "b = nat (first - 1)"
  shows "(op_fnzfind s del first = 0 \<and> (\<forall>i \<ge> b. \<not> occurs del s i))
    \<or> (\<exists>i \<ge> b. op_fnzfind s del first = int (i + length del) + 1 \<and> occurs del s i \<and> (\<forall>j. b \<le> j \<and> j < i \<longrightarrow> \<not> occurs del s j))"
proof (cases "b \<le> length s")
  case True
  have "op_fnzfind s del first = op_fnzfind s del (int b + 1)" using assms(2) by (cases "0 < first") (auto simp: op_fnzfind_def Let_def split: prod.splits)
  then have f: "op_fnzfind s del first = (case cut del (drop b s) of None \<Rightarrow> 0 | Some (p, r) \<Rightarrow> int b + int (length p + length del) + 1)"
    using op_fnzfind_cut [OF assms(1) True] by simp
  have o: "occurs del s j \<longleftrightarrow> occurs del (drop b s) (j - b)" if "b \<le> j" for j using occurs_drop [OF True, of del "j - b"] that by simp
  show ?thesis
  proof (cases "cut del (drop b s)")
    case None
    then show ?thesis using f cut_leftmost [OF assms(1), of "drop b s"] o by auto
  next
    case (Some pr)
    then obtain p r where c: "cut del (drop b s) = Some (p, r)" by (cases pr) auto
    then have "occurs del s (b + length p)" "\<forall>j. b \<le> j \<and> j < b + length p \<longrightarrow> \<not> occurs del s j"
      using cut_leftmost [OF assms(1), of "drop b s"] o by auto
    then show ?thesis using f c by (intro disjI2 exI [of _ "b + length p"]) auto
  qed
next
  case False
  then have "\<forall>i \<ge> b. \<not> occurs del s i" "int (length s) \<le> first - 1" "\<not> first - 1 < 0" using assms(2) by (auto simp: occurs_def)
  then show ?thesis using assms(1) by (simp add: op_fnzfind_def Let_def)
qed

section \<open>A string with three pieces\<close>

text \<open>The memory holds \<open>a^b^c\<close> and \<open>x\<close>.\<close>

definition ex_mem :: mstr where
  "ex_mem = [97, 94, 98, 94, 99, 120]"

definition ex_src :: smval where
  "ex_src = \<lparr>str_addr = 0, str_len = 5, fnpc_indx = 255\<rparr>"

definition ex_expr :: smval where
  "ex_expr = \<lparr>str_addr = 5, str_len = 1, fnpc_indx = 255\<rparr>"

lemma ex_ok: "str_ok ex_mem ex_src" "str_ok ex_mem ex_expr"
  by (simp_all add: str_ok_def ex_mem_def ex_src_def ex_expr_def MAX_STRLEN_def)

lemma ex_value: "zpiece_value [94] 2 3 (str_of ex_mem ex_src) = [98, 94, 99]" "length (pieces [94] (str_of ex_mem ex_src)) = 3"
  "setzpiece_value [94] 2 2 [120] (src_str ex_mem (Some ex_src)) = [97, 94, 120, 94, 99]" "str_of ex_mem ex_expr = [120]"
  by code_simp+

lemma zpiece_cache_transparent_witness:
  "snd (run_all (run_query ex_mem) fnpc_init [Q_zlength ex_src [94], Q_zpiece ex_src [94] 2 3]) = [Inr (Inr 3), Inl [98, 94, 99]]"
  using zpiece_cache_transparent [OF zp_reachable_init [of ex_mem], of "[Q_zlength ex_src [94], Q_zpiece ex_src [94] 2 3]"] by (simp add: ex_ok ex_value)

lemma setzpiece_reachable_witness:
  "\<exists>add area' src' a l. op_setzpiece ex_mem fnpc_init (Some ex_src) [94] ex_expr 2 2 = Inr (ex_mem @ add, area', src', a, l)
    \<and> slice (ex_mem @ add) a l = [97, 94, 120, 94, 99] \<and> zp_reachable (ex_mem @ add) area'"
  using setzpiece_reachable [OF zp_reachable_init [of ex_mem], of "Some ex_src" ex_expr 2 2 "[94]"] by (auto simp: ex_ok ex_value MAX_STRLEN_def Let_def)

lemma zpiece_set_get_witness:
  "\<exists>mem' area' src' a l area'' v'' b n. op_setzpiece ex_mem fnpc_init (Some ex_src) [94] ex_expr 2 2 = Inr (mem', area', src', a, l)
    \<and> op_fnzpiece mem' area' \<lparr>str_addr = a, str_len = l, fnpc_indx = 255\<rparr> [94] 2 2 = (area'', v'', b, n) \<and> slice mem' b n = [120]"
proof -
  have "set_result ex_mem [97, 94, 120, 94, 99] (op_setzpiece ex_mem fnpc_init (Some ex_src) [94] ex_expr 2 2)"
    using op_setzpiece_spec [OF area_ok_init [of ex_mem], of "Some ex_src" ex_expr 2 2 "[94]"] by (simp add: ex_ok ex_value)
  then obtain mem' area' src' a l where r: "op_setzpiece ex_mem fnpc_init (Some ex_src) [94] ex_expr 2 2 = Inr (mem', area', src', a, l)"
    by (auto simp: set_result_def MAX_STRLEN_def split: sum.splits)
  show ?thesis using zpiece_set_get [OF zp_reachable_init [of ex_mem] _ ex_ok(2) _ _ _ _ r, of 255 2] r by (auto simp: ex_ok ex_value)
qed

lemma zlength_reachable_witness:
  "\<exists>area' src'. op_fnzpopulation ex_mem fnpc_init ex_src [94] = Inr (area', src', 3) \<and> zp_reachable ex_mem area'"
  using zlength_reachable [OF zp_reachable_init [of ex_mem] ex_ok(1), of "[94]"] by (simp add: ex_value)

lemma zfind_leftmost_witness: "op_fnzfind [97, 94, 98, 94, 99] [94] 3 = 5 \<and> (\<exists>i \<ge> 2. i + 2 = 5 \<and> occurs [94] [97, 94, 98, 94, 99] i)"
proof -
  have "op_fnzfind [97, 94, 98, 94, 99] [94] 3 = 5" by code_simp
  then show ?thesis using zfind_leftmost [of "[94]" 2 3 "[97, 94, 98, 94, 99]"] by auto
qed

end
