(* ===== verification/Spec2Isabelle.thy ===== *)
theory Spec2Isabelle
  imports Zbit Bitmap_Search Op_Arith Lv_Props Subsc_Text Hashtab_Props Zpiece
begin

text \<open>
  A verification library for YottaDB, an M language run time and key-value database engine. The sources are C files under \<open>src/\<close>; file
  names below are relative to \<open>src/sr_port\<close>.

  \<^bold>\<open>The program.\<close> M programs are compiled to code that calls run-time routines (\<open>op_*.c\<close>). Values are \<^emph>\<open>mvals\<close>: strings, numbers in one of two
  decimal representations, or \<open>$ZYSQLNULL\<close>. Local variables are found by name in hash tables and hold trees of subscripts; global
  variables are kept in database files, whose records are ordered by byte keys built from subscripts and whose blocks are allocated from
  bitmaps. The parts modelled are the data structures and encodings these paths rest on.

  \<^bold>\<open>Conventions\<close> (\<open>Ydb_Prelude\<close>). A C function is an Isabelle function from its arguments and the state it reads to its result and the new
  state. An \<open>rts_error\<close> is a value of \<open>ydb_err\<close> in the sum type \<open>res\<close>; so are an access outside of an object (\<open>OutOfBounds\<close>), a failed
  \<open>assertpro\<close> (\<open>AssertFailed\<close>) and a loop that exceeds its bound (\<open>NoReturn\<close>), and theorems show that they do not arise. Bytes and
  pointers are words; C integers are integers or naturals where the values provably stay in range and words or explicit remainders where not.
  \<open>assert\<close>, tracing and string pool allocation are not modelled.

  \<^bold>\<open>Theories.\<close>
  \<^item> \<open>Ydb_Prelude\<close>: types, errors, checked reads, facts about positions and first hits, and the locale \<open>indexed_store\<close>, the interface of a
    component that keeps one value per index; it is interpreted on bit strings, bit maps and block states.
  \<^item> \<open>Zbit\<close>: the ten \<open>$ZBIT\<close> functions (\<open>op_fnzbit*.c\<close>) on the bytes of their arguments: they are the pointwise operations on lists of
    bits; three of them touch memory they do not own or mix in unused bits, which is proved too. The positive results are for valid bit
    strings; the guards of the code accept some invalid ones, such as \<open>$CHAR(5)\<close>.
  \<^item> \<open>Bitmap\<close>, \<open>Bitmap_Search\<close>: the master map and the local maps of a database file (\<open>bit_set.c\<close>, \<open>bit_clear.c\<close>, \<open>gtm_ffs.c\<close>,
    \<open>bmm_find_free.c\<close>, \<open>gdsbml.h\<close>, \<open>bml_*.c\<close>, \<open>bm_find_blk.c\<close>, \<open>gvcst_map_build.c\<close>): state changes touch exactly their block, the
    searches return the first block from the hint on, under conditions on the hint; outside of them \<open>bml_find_busy\<close> and \<open>bml_find_free\<close>
    may fail, with examples.
  \<^item> \<open>Mval\<close>: the two representations of numbers, their conversion and comparison (\<open>promodemo.c\<close>, \<open>numcmp.c\<close>); the abstract value of a
    number is an integer multiple of \<open>10\<close> to the \<open>-80\<close>.
  \<^item> \<open>Arith\<close>: addition and subtraction (\<open>op_add.c\<close>): the smaller operand is cut at the last place of the larger one, so the result is
    less than a unit of this place off and exact if it is a multiple of it; without a guard digit that can be the first digit of the
    result when leading digits cancel, which is shown on an example; the loops that scale a mantissa have fuel 8 and 9, the number of digits of a mantissa word.
  \<^item> \<open>Muldiv\<close>: the schoolbook multiplication and division of mantissas in limbs of four digits (\<open>eb_muldiv.c\<close>) compute the leading digits of product
    and quotient; the estimate of a limb of the quotient is never too small, and each correction lowers it, which bounds the loop.
    \<open>Dbl\<close>: the fast paths on doubles, with rounding to nearest. \<open>Op_Muldiv\<close>: \<open>op_mul.c\<close>, \<open>op_div.c\<close> and \<open>op_idiv.c\<close> return
    the leading 18 digits of the exact result, except for operands of the fast division among which are those that lose digits (remainder 1 and a
    divisor from 998000000 on; most of them lose none, one that does is given).
    \<open>Op_Arith\<close>: the five operators on values of any kind (locale \<open>number_operator\<close>, interpreted on the operations on numbers), with the
    conditions of every error.
  \<^item> \<open>Num_Str\<close>: writing and reading numbers (\<open>n2s.c\<close>, \<open>s2n.c\<close>) and the test for canonical strings (\<open>val_iscan.c\<close>). \<open>Num_Str_Canon\<close> relates
    both conversions to lists of digits, \<open>Num_Str_Props\<close> shows that they are inverse and that the test accepts exactly the texts of numbers,
    \<open>Num_Str_Any\<close> follows the loops of \<open>s2n\<close> on arbitrary strings: the result is well-formed, and exact for no other strings.
  \<^item> \<open>Piece\<close>: pieces of strings (\<open>op_fnzp1.c\<close>, \<open>op_fnzpiece.c\<close>, \<open>op_setzp1.c\<close>, \<open>op_setzpiece.c\<close>, \<open>op_fnzpopulation.c\<close>, \<open>op_fnfind.c\<close>,
    \<open>matchc.c\<close>, \<open>op_cat.c\<close>) with the cache of piece positions (\<open>fnpc.h\<close>), on strings in a memory that grows at its end. \<open>Piece_Spec\<close> defines the list
    of pieces of a string and relates the search for delimiters to it, \<open>Piece_Cache\<close> has the invariant of the cache and single pieces,
    \<open>Piece_Set\<close> setting a single piece, \<open>Piece_Props\<close> the operations with any delimiter and the states that any sequence of operations and
    garbage collections reaches, \<open>Zpiece\<close> the properties (locale \<open>cached_function\<close>, interpreted on the queries). The fuel of \<open>$ZLENGTH\<close> is 2, the depth
    \<open>FNPC_RECURR_MAX\<close> that the code asserts, and for long delimiters the length of the string plus 2, one round for each piece.
  \<^item> \<open>Lv_Key\<close>, \<open>Lv_Tree\<close>: keys and operations of the trees of local variables (\<open>lv_tree.c\<close>, \<open>lv_tree.h\<close>) on an explicit store of nodes
    with parent pointers. A comparison with a decimal number stores the float form of an integer key in its node (\<open>key_iconv\<close>), so comparisons
    and lookups return the store; the invariant says that a form marked as stored is that of the key, also in a slot that has been used
    before. \<open>Lv_Shape\<close> relates the store to a binary tree and to a path into it, \<open>Lv_Walk\<close> has the traversals, \<open>Lv_Lookup\<close>
    the search with its clue (locale \<open>key_compare\<close>, interpreted on the three comparison macros), \<open>Lv_Rotate\<close>, \<open>Lv_Insert\<close> and \<open>Lv_Delete\<close> the
    rebalancing, \<open>Lv_Order\<close> the collated order (locale \<open>cursor\<close>, interpreted on the three traversals; the fuel of a traversal is the number of
    nodes), \<open>Lv_Map\<close> one level of an array as a map (locale \<open>subscript_map\<close>), \<open>Lv_Props\<close> the properties.
  \<^item> \<open>Subsc\<close>: the encoding of subscripts into keys (\<open>mval2subsc.c\<close>): byte order is collation order, keys stay inside of their buffer. The fuel of
    the digit loop is five, the number of pairs of digits left. \<open>Subsc_Text\<close>: the decoding (\<open>gvsub2str.c\<close>, \<open>sub2stbl.c\<close>) returns the string, or the
    text that \<open>n2s\<close> writes for the number; numbers stay inside of a buffer of 64 bytes, strings exactly if they fit, since the code does not test it.
    Which strings are numbers is decided before (\<open>val_iscan\<close>, \<open>s2n\<close>); a string given to \<open>mval2subsc\<close> here is one marked \<open>MV_NUM_APPROX\<close>. The fuel for the zeros of a block number is 10, the digits of an \<open>int\<close>.
  \<^item> \<open>Hashtab\<close>: the hash table template (\<open>hashtab_implementation.h\<close>) with its instances as a record of parameters. \<open>Hashtab_Inv\<close> has the
    invariant of double hashing and the probing loops (at most \<open>size\<close> rounds), \<open>Hashtab_Map\<close> the locale \<open>ht_keys\<close>, the contract of an instance,
    with growth and compaction (a failed growth leaves the old table, and only a full table that cannot grow raises the memory error), \<open>Ht_Primes\<close> certificates that the sizes are prime, \<open>Hashtab_Props\<close> the interpretations on five instances and the
    refinement of maps by any sequence of operations.

  \<^bold>\<open>Interaction.\<close> Lookup, insertion and deletion in trees compare keys as \<open>numcmp\<close> does, and the order of keys in the database is the same order
  (\<open>crank\<close>) for the bytes that \<open>mval2subsc\<close> writes. The hash tables use \<open>bit_set\<close> of the bitmaps for the marks of passed entries.

  \<^bold>\<open>Not modelled.\<close> The compiler, devices and terminals, networking and replication, journaling and recovery, transaction commit, the database
  cache and its locking, triggers, the utilities and the platform layers: they are dominated by shared memory, system calls and
  concurrency between processes, for which the sources give no sequential contract to state. Of the modelled files the debugging checkers of
  \<open>lv_tree.c\<close>, cloning for transactions and copies of hash tables into object code are left out, and so are the UTF-8
  variants of the string functions, \<open>$ZYSQLNULL\<close> and numbers in \<open>op_cat\<close>, \<open>$ZYSQLNULL\<close> in \<open>numcmp\<close>, the errors for null subscripts of local
  variables, the hash table instance for object code and \<open>ERR_MEMORYRECURSIVE\<close> in the handler of a failed growth.
\<close>

end
